(* ===== verification/Prelude.thy ===== *)
theory Prelude
  imports Main "HOL-Library.Word" "HOL-Library.Multiset" "HOL-Library.Monad_Syntax"
begin

text \<open>
  Shared vocabulary of the development: the Rust integer operations the sources use
  (wrapping, checked and saturating arithmetic at 64 bits, casts between \<^verbatim>\<open>usize\<close> and
  \<^verbatim>\<open>i32\<close>), the iterator combinators \<^verbatim>\<open>position\<close>, \<^verbatim>\<open>min_by_key\<close> and \<^verbatim>\<open>max_by_key\<close>, slices
  with their bounds check, little-endian byte codecs, and sums over finite maps.

  Conventions used by every theory: a Rust panic (failed assertion, index out of range) is the
  value \<open>None\<close> of an \<open>option\<close>; a \<^verbatim>\<open>Result\<close> is a sum with the error on the left; values of type
  \<^verbatim>\<open>usize\<close> and \<^verbatim>\<open>u64\<close> are \<open>nat\<close> with the wrap-around written out where an operand is not
  bounded by the size of a live collection.
\<close>

named_theorems panic_free \<open>facts that an operation does not panic under its invariant\<close>
named_theorems keeps \<open>facts that an operation keeps an invariant\<close>

type_synonym byte = "8 word"
type_synonym token = "32 word"

section \<open>Integers\<close>

abbreviation u64_max :: nat where
  "u64_max \<equiv> 18446744073709551615"

definition u64_wrap :: "nat \<Rightarrow> nat" where
  "u64_wrap n = n mod 18446744073709551616"

definition checked_add64 :: "nat \<Rightarrow> nat \<Rightarrow> nat option" where
  "checked_add64 a b = (if a + b \<le> u64_max then Some (a + b) else None)"

definition checked_mul64 :: "nat \<Rightarrow> nat \<Rightarrow> nat option" where
  "checked_mul64 a b = (if a * b \<le> u64_max then Some (a * b) else None)"

definition saturating_add64 :: "nat \<Rightarrow> nat \<Rightarrow> nat" where
  "saturating_add64 a b = min (a + b) u64_max"

definition saturating_mul64 :: "nat \<Rightarrow> nat \<Rightarrow> nat" where
  "saturating_mul64 a b = min (a * b) u64_max"

definition div_ceil :: "nat \<Rightarrow> nat \<Rightarrow> nat" where
  "div_ceil a b = (a div b) + (if a mod b = 0 then 0 else 1)"

definition as_i32 :: "nat \<Rightarrow> int" where
  "as_i32 n = (int n + 2147483648) mod 4294967296 - 2147483648"

definition i32_as_usize :: "int \<Rightarrow> nat" where
  "i32_as_usize k = nat (k mod 18446744073709551616)"

lemma u64_wrap_id [simp]: "n \<le> u64_max \<Longrightarrow> u64_wrap n = n"
  by (simp add: u64_wrap_def)

lemma u64_wrap_le [simp]: "u64_wrap n \<le> u64_max"
  by (simp add: u64_wrap_def less_Suc_eq_le [symmetric])

lemma as_i32_id [simp]: "n < 2147483648 \<Longrightarrow> as_i32 n = int n"
  by (simp add: as_i32_def)

lemma as_i32_range: "- 2147483648 \<le> as_i32 n \<and> as_i32 n < 2147483648"
  by (simp add: as_i32_def)

lemma i32_as_usize_id [simp]: "0 \<le> k \<Longrightarrow> k < 2147483648 \<Longrightarrow> i32_as_usize k = nat k"
  by (simp add: i32_as_usize_def)

lemma i32_as_usize_of_nat [simp]: "n < 2147483648 \<Longrightarrow> i32_as_usize (int n) = n"
  by (simp add: i32_as_usize_def)

lemma div_ceil_mult_ge: "0 < b \<Longrightarrow> a \<le> div_ceil a b * b"
proof -
  assume b: "0 < b"
  have "a = a div b * b + a mod b" by simp
  moreover have "a mod b \<le> (if a mod b = 0 then 0 else 1) * b"
    using b by (simp add: less_imp_le)
  ultimately show ?thesis
    unfolding div_ceil_def add_mult_distrib by linarith
qed

lemma div_ceil_mult_less: "0 < b \<Longrightarrow> div_ceil a b * b < a + b"
proof -
  assume b: "0 < b"
  have eq: "a div b * b + a mod b = a" by simp
  show ?thesis
  proof (cases "a mod b = 0")
    case True
    with eq b show ?thesis by (simp add: div_ceil_def)
  next
    case False
    then have "a div b * b < a" using eq by linarith
    with False show ?thesis by (simp add: div_ceil_def)
  qed
qed

section \<open>Iterators and slices\<close>

fun position :: "('a \<Rightarrow> bool) \<Rightarrow> 'a list \<Rightarrow> nat option" where
  "position P [] = None"
| "position P (x # xs) = (if P x then Some 0 else map_option Suc (position P xs))"

lemma position_Some_iff:
  "position P xs = Some i \<longleftrightarrow> i < length xs \<and> P (xs ! i) \<and> (\<forall>j<i. \<not> P (xs ! j))"
proof (induction xs arbitrary: i)
  case Nil
  then show ?case by simp
next
  case (Cons x xs)
  then show ?case
    by (cases i) (auto simp: nth_Cons less_Suc_eq_0_disj split: nat.splits)
qed

lemma position_None_iff: "position P xs = None \<longleftrightarrow> (\<forall>x\<in>set xs. \<not> P x)"
  by (induction xs) auto

text \<open>\<^verbatim>\<open>Iterator::rposition\<close>: the last index that satisfies the predicate.\<close>

definition rposition :: "('a \<Rightarrow> bool) \<Rightarrow> 'a list \<Rightarrow> nat option" where
  "rposition P xs = map_option (\<lambda>i. length xs - Suc i) (position P (rev xs))"

lemma rposition_Some:
  assumes "rposition P xs = Some i"
  shows "i < length xs \<and> P (xs ! i) \<and> (\<forall>j<length xs. i < j \<longrightarrow> \<not> P (xs ! j))"
proof -
  from assms obtain k where k: "position P (rev xs) = Some k" and i: "i = length xs - Suc k"
    by (auto simp: rposition_def)
  from k have lt: "k < length xs" and P: "P (rev xs ! k)"
    and least: "\<And>j. j < k \<Longrightarrow> \<not> P (rev xs ! j)"
    by (auto simp: position_Some_iff)
  have "\<not> P (xs ! j)" if "j < length xs" "i < j" for j
    using least [of "length xs - Suc j"] that lt i by (simp add: rev_nth)
  then show ?thesis using lt P i by (auto simp: rev_nth)
qed

lemma rposition_eqI:
  "i < length xs \<Longrightarrow> P (xs ! i) \<Longrightarrow> (\<And>j. j < length xs \<Longrightarrow> i < j \<Longrightarrow> \<not> P (xs ! j)) \<Longrightarrow>
   rposition P xs = Some i"
  unfolding rposition_def
  by (intro option.map_sel [symmetric] map_option_eq_Some [THEN iffD2] exI [of _ "length xs - Suc i"])
     (auto simp: position_Some_iff rev_nth)

text \<open>
  \<^verbatim>\<open>min_by_key\<close> returns the first minimal element of the iteration, \<^verbatim>\<open>max_by_key\<close> the last
  maximal one.
\<close>

fun min_by_key :: "('a \<Rightarrow> nat) \<Rightarrow> 'a list \<Rightarrow> 'a option" where
  "min_by_key k [] = None"
| "min_by_key k (x # xs) =
     (case min_by_key k xs of None \<Rightarrow> Some x | Some y \<Rightarrow> Some (if k x \<le> k y then x else y))"

fun max_by_key :: "('a \<Rightarrow> nat) \<Rightarrow> 'a list \<Rightarrow> 'a option" where
  "max_by_key k [] = None"
| "max_by_key k (x # xs) =
     (case max_by_key k xs of None \<Rightarrow> Some x | Some y \<Rightarrow> Some (if k y < k x then x else y))"

lemma min_by_key_None [simp]: "min_by_key k xs = None \<longleftrightarrow> xs = []"
  by (cases xs) (auto split: option.splits)

lemma max_by_key_None [simp]: "max_by_key k xs = None \<longleftrightarrow> xs = []"
  by (cases xs) (auto split: option.splits)

lemma min_by_key_Some:
  "min_by_key k xs = Some x \<Longrightarrow> x \<in> set xs \<and> (\<forall>y\<in>set xs. k x \<le> k y)"
proof (induction xs arbitrary: x)
  case Nil
  then show ?case by simp
next
  case (Cons a xs)
  show ?case
  proof (cases "min_by_key k xs")
    case None
    then show ?thesis using Cons.prems by simp
  next
    case (Some b)
    from Cons.IH [OF Some] show ?thesis
      using Cons.prems Some by (auto split: if_splits)
  qed
qed

lemma max_by_key_Some:
  "max_by_key k xs = Some x \<Longrightarrow> x \<in> set xs \<and> (\<forall>y\<in>set xs. k y \<le> k x)"
proof (induction xs arbitrary: x)
  case Nil
  then show ?case by simp
next
  case (Cons a xs)
  show ?case
  proof (cases "max_by_key k xs")
    case None
    then show ?thesis using Cons.prems by simp
  next
    case (Some b)
    from Cons.IH [OF Some] show ?thesis
      using Cons.prems Some by (auto split: if_splits)
  qed
qed

text \<open>With keys that differ pairwise, the extremal element does not depend on the iteration order.\<close>

lemma min_by_key_unique:
  "inj_on k (set xs) \<Longrightarrow> min_by_key k xs = Some x \<longleftrightarrow> x \<in> set xs \<and> (\<forall>y\<in>set xs. k x \<le> k y)"
  by (cases "min_by_key k xs") (auto dest!: min_by_key_Some dest: inj_onD order.antisym)

lemma max_by_key_unique:
  "inj_on k (set xs) \<Longrightarrow> max_by_key k xs = Some x \<longleftrightarrow> x \<in> set xs \<and> (\<forall>y\<in>set xs. k y \<le> k x)"
  by (cases "max_by_key k xs") (auto dest!: max_by_key_Some dest: inj_onD order.antisym)

text \<open>\<^verbatim>\<open>&xs[a..b]\<close>: a panic when the range is out of bounds.\<close>

definition slice :: "'a list \<Rightarrow> nat \<Rightarrow> nat \<Rightarrow> 'a list option" where
  "slice xs a b = (if a \<le> b \<and> b \<le> length xs then Some (take (b - a) (drop a xs)) else None)"

lemma slice_in_range [simp]:
  "a \<le> b \<Longrightarrow> b \<le> length xs \<Longrightarrow> slice xs a b = Some (take (b - a) (drop a xs))"
  by (simp add: slice_def)

lemma slice_append_mid [simp]:
  "slice (ps @ ys @ qs) (length ps) (length ps + length ys) = Some ys"
  by (simp add: slice_def)

text \<open>\<^verbatim>\<open>xs[i] = v\<close>: a panic when the index is out of bounds.\<close>

definition list_set :: "'a list \<Rightarrow> nat \<Rightarrow> 'a \<Rightarrow> 'a list option" where
  "list_set xs i v = (if i < length xs then Some (xs[i := v]) else None)"

definition list_get :: "'a list \<Rightarrow> nat \<Rightarrow> 'a option" where
  "list_get xs i = (if i < length xs then Some (xs ! i) else None)"

lemma list_set_Some [simp]: "i < length xs \<Longrightarrow> list_set xs i v = Some (xs[i := v])"
  by (simp add: list_set_def)

lemma list_get_Some [simp]: "i < length xs \<Longrightarrow> list_get xs i = Some (xs ! i)"
  by (simp add: list_get_def)

section \<open>Little-endian bytes\<close>

fun le_bytes :: "nat \<Rightarrow> nat \<Rightarrow> byte list" where
  "le_bytes 0 n = []"
| "le_bytes (Suc k) n = word_of_nat (n mod 256) # le_bytes k (n div 256)"

fun le_nat :: "byte list \<Rightarrow> nat" where
  "le_nat [] = 0"
| "le_nat (b # bs) = unat b + 256 * le_nat bs"

lemma length_le_bytes [simp]: "length (le_bytes k n) = k"
  by (induction k arbitrary: n) auto

lemma unat_byte_mod [simp]: "unat (word_of_nat (n mod 256) :: byte) = n mod 256"
  by (simp add: unat_of_nat)

lemma le_nat_le_bytes: "le_nat (le_bytes k n) = n mod 256 ^ k"
proof (induction k arbitrary: n)
  case 0
  then show ?case by simp
next
  case (Suc k)
  have "le_nat (le_bytes (Suc k) n) = n mod 256 + 256 * (n div 256 mod 256 ^ k)"
    using Suc by simp
  also have "\<dots> = n mod (256 * 256 ^ k)"
    by (simp add: mod_mult2_eq)
  finally show ?case by simp
qed

lemma le_nat_le_bytes_id [simp]: "n < 256 ^ k \<Longrightarrow> le_nat (le_bytes k n) = n"
  by (simp add: le_nat_le_bytes)

lemma le_nat_bound: "le_nat bs < 256 ^ length bs"
proof (induction bs)
  case Nil
  then show ?case by simp
next
  case (Cons b bs)
  have "unat b < 256" using unsigned_less [of b, where 'a = nat] by simp
  with Cons show ?case by simp
qed

section \<open>Sums over finite maps\<close>

definition msum :: "('v \<Rightarrow> nat) \<Rightarrow> ('k \<rightharpoonup> 'v) \<Rightarrow> nat" where
  "msum f m = (\<Sum>k\<in>dom m. f (the (m k)))"

lemma msum_empty [simp]: "msum f Map.empty = 0"
  by (simp add: msum_def)

lemma msum_remove:
  assumes "finite (dom m)" and "m k = Some v"
  shows "msum f m = f v + msum f (m(k := None))"
proof -
  have "msum f m = f (the (m k)) + (\<Sum>j\<in>dom m - {k}. f (the (m j)))"
    unfolding msum_def using assms by (intro sum.remove) auto
  also have "(\<Sum>j\<in>dom m - {k}. f (the (m j))) = msum f (m(k := None))"
    unfolding msum_def by (rule sum.cong) (auto split: if_splits)
  finally show ?thesis using assms by simp
qed

lemma msum_insert:
  assumes "finite (dom m)" and "m k = None"
  shows "msum f (m(k \<mapsto> v)) = f v + msum f m"
proof -
  have "msum f (m(k \<mapsto> v)) = f v + msum f ((m(k \<mapsto> v))(k := None))"
    using assms by (intro msum_remove) auto
  also have "(m(k \<mapsto> v))(k := None) = m" using assms by auto
  finally show ?thesis .
qed

text \<open>The multiset of the images of the values of a finite map.\<close>

definition mimage :: "('v \<Rightarrow> 'a) \<Rightarrow> ('k \<rightharpoonup> 'v) \<Rightarrow> 'a multiset" where
  "mimage f m = image_mset (\<lambda>k. f (the (m k))) (mset_set (dom m))"

lemma mimage_empty [simp]: "mimage f Map.empty = {#}"
  by (simp add: mimage_def)

lemma mimage_remove:
  assumes "finite (dom m)" and "m k = Some v"
  shows "mimage f m = add_mset (f v) (mimage f (m(k := None)))"
proof -
  have eq: "mset_set (dom m) = add_mset k (mset_set (dom m - {k}))"
    using assms by (metis domI mset_set.remove)
  have "image_mset (\<lambda>j. f (the (m j))) (mset_set (dom m - {k})) = mimage f (m(k := None))"
    unfolding mimage_def using assms by (auto intro!: image_mset_cong)
  then show ?thesis using assms by (simp add: mimage_def eq)
qed

lemma mimage_insert:
  assumes "finite (dom m)" and "m k = None"
  shows "mimage f (m(k \<mapsto> v)) = add_mset (f v) (mimage f m)"
proof -
  have "mimage f (m(k \<mapsto> v)) = add_mset (f v) (mimage f ((m(k \<mapsto> v))(k := None)))"
    using assms by (intro mimage_remove) auto
  also have "(m(k \<mapsto> v))(k := None) = m" using assms by auto
  finally show ?thesis .
qed

lemma mimage_change:
  assumes "finite (dom m)" and "m k = Some v" and "f v' = f v"
  shows "mimage f (m(k \<mapsto> v')) = mimage f m"
proof -
  have "mimage f (m(k \<mapsto> v')) = add_mset (f v') (mimage f ((m(k \<mapsto> v'))(k := None)))"
    using assms by (intro mimage_remove) auto
  also have "(m(k \<mapsto> v'))(k := None) = m(k := None)" by auto
  also have "add_mset (f v') (mimage f (m(k := None))) = mimage f m"
    using mimage_remove [OF assms(1,2), of f] assms(3) by simp
  finally show ?thesis .
qed

end
