(* ===== verification/Slot_Pool.thy ===== *)
theory Slot_Pool
  imports Prelude
begin

text \<open>
  The KV slab pool of the multi-slot engine: \<^verbatim>\<open>rdna-compute/src/slot_pool.rs\<close> (the pool) and
  the parts of \<^verbatim>\<open>rdna-compute/src/kv_slots.rs\<close> it stands on (the slot descriptor, the memory
  preflight and the row-tile list of the batched attention launch).

  A \<open>slot_pool\<close> is the descriptor table, one \<open>in_use\<close> flag per slot, the rounded slab capacity
  and the \<open>dirty\<close> flag that tells the caller to upload the table again. The amount of free
  memory the preflight reads from \<^verbatim>\<open>/proc/meminfo\<close> is an argument (\<open>None\<close> when unreadable).
  The interface the session table relies on is the locale \<open>slot_allocator\<close>, interpreted on the
  pool at the end.
\<close>

section \<open>Descriptors, preflight and row tiles (kv_slots.rs)\<close>

record kv_slot_desc =
  k_base :: nat
  v_base :: nat
  desc_seq_len :: int
  desc_cap :: int

definition total_rows :: "nat list \<Rightarrow> nat" where
  "total_rows slot_query_counts = sum_list slot_query_counts"

datatype pool_error =
    ArenaOverflow
  | OverBudget nat nat
  | LowMemory nat nat nat
  | MemUnreadable nat
  | SeqLenExceedsCap nat nat nat

definition R9700_VRAM_BYTES :: nat where
  "R9700_VRAM_BYTES = 32 * 1024 * 1024 * 1024"

definition HEADROOM_BYTES :: nat where
  "HEADROOM_BYTES = 8 * 1024 * 1024 * 1024"

definition preflight_alloc :: "nat option \<Rightarrow> nat \<Rightarrow> nat \<Rightarrow> pool_error + unit" where
  "preflight_alloc mem_available planned_bytes budget_bytes =
     (if budget_bytes < planned_bytes then Inl (OverBudget planned_bytes budget_bytes)
      else case mem_available of
        Some avail \<Rightarrow>
          if avail < saturating_add64 planned_bytes HEADROOM_BYTES
          then Inl (LowMemory planned_bytes avail HEADROOM_BYTES)
          else Inr ()
      | None \<Rightarrow> Inl (MemUnreadable planned_bytes))"

text \<open>
  \<open>tile_starts\<close> is the inner \<^verbatim>\<open>while row0 < m\<close> loop of \<^verbatim>\<open>build_tiles\<close>; the guard on \<open>br\<close> only
  makes the recursion well-founded, since \<open>build_tiles\<close> panics on \<open>br = 0\<close> first.
\<close>

function tile_starts :: "nat \<Rightarrow> nat \<Rightarrow> nat \<Rightarrow> nat list" where
  "tile_starts m br row0 =
     (if row0 < m \<and> 0 < br then row0 # tile_starts m br (row0 + br) else [])"
  by pat_completeness auto
termination
  by (relation "measure (\<lambda>(m, br, row0). m - row0)") auto

declare tile_starts.simps [simp del]

fun tiles_from :: "nat \<Rightarrow> nat \<Rightarrow> nat \<Rightarrow> nat list \<Rightarrow> (nat \<times> nat \<times> nat) list" where
  "tiles_from br slot global [] = []"
| "tiles_from br slot global (m # ms) =
     map (\<lambda>row0. (slot, row0, global + row0)) (tile_starts m br 0)
     @ tiles_from br (Suc slot) (global + m) ms"

definition build_tiles :: "nat list \<Rightarrow> nat \<Rightarrow> (int list \<times> int list \<times> int list) option" where
  "build_tiles slot_query_counts br =
     (if br = 0 then None
      else let ts = tiles_from br 0 0 slot_query_counts in
        Some (map (\<lambda>(s, r, q). as_i32 s) ts,
              map (\<lambda>(s, r, q). as_i32 r) ts,
              map (\<lambda>(s, r, q). as_i32 q) ts))"

section \<open>The pool (slot_pool.rs)\<close>

definition PAGE_TOKENS :: nat where
  "PAGE_TOKENS = 128"

record slot_pool =
  descs :: "kv_slot_desc list"
  in_use :: "bool list"
  cap_tokens :: nat
  per_pos_bytes :: nat
  dirty :: bool

definition pool_desc :: "nat \<Rightarrow> nat \<Rightarrow> nat \<Rightarrow> kv_slot_desc" where
  "pool_desc slab_bytes cap i =
     (let base = u64_wrap (i * slab_bytes) in
      \<lparr>k_base = base, v_base = base, desc_seq_len = 0, desc_cap = as_i32 cap\<rparr>)"

definition pool_new ::
  "nat option \<Rightarrow> nat \<Rightarrow> nat \<Rightarrow> nat \<Rightarrow> (pool_error + slot_pool) option" where
  "pool_new mem_available n_slots cap_toks ppb =
     (if n_slots = 0 \<or> ppb = 0 then None
      else
        let cap = u64_wrap (div_ceil cap_toks PAGE_TOKENS * PAGE_TOKENS);
            slab_bytes = u64_wrap (cap * ppb)
        in Some (case Option.bind (checked_mul64 slab_bytes n_slots) (\<lambda>b. checked_mul64 b 2) of
             None \<Rightarrow> Inl ArenaOverflow
           | Some arena_total \<Rightarrow>
             (case preflight_alloc mem_available arena_total R9700_VRAM_BYTES of
                Inl e \<Rightarrow> Inl e
              | Inr _ \<Rightarrow> Inr \<lparr>descs = map (pool_desc slab_bytes cap) [0..<n_slots],
                             in_use = replicate n_slots False,
                             cap_tokens = cap,
                             per_pos_bytes = ppb,
                             dirty = True\<rparr>)))"

definition pool_reset :: "slot_pool \<Rightarrow> nat \<Rightarrow> slot_pool option" where
  "pool_reset p i = do {
     d \<leftarrow> list_get (descs p) i;
     if desc_seq_len d \<noteq> 0
     then Some (p\<lparr>descs := (descs p)[i := d\<lparr>desc_seq_len := 0\<rparr>], dirty := True\<rparr>)
     else Some p
   }"

definition pool_acquire :: "slot_pool \<Rightarrow> (slot_pool \<times> nat option) option" where
  "pool_acquire p =
     (case position Not (in_use p) of
        None \<Rightarrow> Some (p, None)
      | Some i \<Rightarrow> do {
          p' \<leftarrow> pool_reset (p\<lparr>in_use := (in_use p)[i := True]\<rparr>) i;
          Some (p', Some i)
        })"

definition pool_release :: "slot_pool \<Rightarrow> nat \<Rightarrow> slot_pool option" where
  "pool_release p i = do {
     p' \<leftarrow> pool_reset p i;
     us \<leftarrow> list_set (in_use p') i False;
     Some (p'\<lparr>in_use := us\<rparr>)
   }"

definition pool_set_seq_len :: "slot_pool \<Rightarrow> nat \<Rightarrow> nat \<Rightarrow> (pool_error + slot_pool) option" where
  "pool_set_seq_len p i seq_len =
     (if cap_tokens p < seq_len then Some (Inl (SeqLenExceedsCap i seq_len (cap_tokens p)))
      else do {
        d \<leftarrow> list_get (descs p) i;
        Some (Inr (if desc_seq_len d \<noteq> as_i32 seq_len
                   then p\<lparr>descs := (descs p)[i := d\<lparr>desc_seq_len := as_i32 seq_len\<rparr>], dirty := True\<rparr>
                   else p))
      })"

definition mark_uploaded :: "slot_pool \<Rightarrow> slot_pool" where
  "mark_uploaded p = p\<lparr>dirty := False\<rparr>"

definition arena_bytes :: "slot_pool \<Rightarrow> nat" where
  "arena_bytes p = u64_wrap (u64_wrap (length (descs p) * cap_tokens p) * per_pos_bytes p)"

text \<open>Bytes of one slab, and the live length the engine reads back (\<^verbatim>\<open>seq_len as usize\<close>).\<close>

abbreviation slab_bytes_of :: "slot_pool \<Rightarrow> nat" where
  "slab_bytes_of p \<equiv> cap_tokens p * per_pos_bytes p"

definition held_len :: "slot_pool \<Rightarrow> nat \<Rightarrow> nat option" where
  "held_len p i = map_option (\<lambda>d. i32_as_usize (desc_seq_len d)) (list_get (descs p) i)"

section \<open>Invariant\<close>

definition desc_ok :: "slot_pool \<Rightarrow> nat \<Rightarrow> kv_slot_desc \<Rightarrow> bool" where
  "desc_ok p i d \<longleftrightarrow>
     k_base d = i * slab_bytes_of p \<and> v_base d = k_base d \<and>
     desc_cap d = int (cap_tokens p) \<and>
     0 \<le> desc_seq_len d \<and> desc_seq_len d \<le> int (cap_tokens p)"

definition pool_wf :: "slot_pool \<Rightarrow> bool" where
  "pool_wf p \<longleftrightarrow>
     length (in_use p) = length (descs p) \<and> 0 < length (descs p) \<and> 0 < per_pos_bytes p \<and>
     cap_tokens p < 2147483648 \<and> cap_tokens p mod PAGE_TOKENS = 0 \<and>
     2 * (length (descs p) * slab_bytes_of p) \<le> R9700_VRAM_BYTES \<and>
     (\<forall>i<length (descs p). desc_ok p i (descs p ! i)) \<and>
     (\<forall>i<length (descs p). \<not> in_use p ! i \<longrightarrow> desc_seq_len (descs p ! i) = 0)"

definition used_slots :: "slot_pool \<Rightarrow> nat set" where
  "used_slots p = {i. i < length (in_use p) \<and> in_use p ! i}"

definition slot_len :: "slot_pool \<Rightarrow> nat \<Rightarrow> nat" where
  "slot_len p i = nat (desc_seq_len (descs p ! i))"

abbreviation n_slots :: "slot_pool \<Rightarrow> nat" where
  "n_slots p \<equiv> length (descs p)"


lemmas pool_op_defs = pool_reset_def pool_acquire_def pool_release_def pool_set_seq_len_def

lemma desc_ok_update [simp]:
  "desc_ok (p\<lparr>descs := ds\<rparr>) = desc_ok p" "desc_ok (p\<lparr>in_use := us\<rparr>) = desc_ok p"
  "desc_ok (p\<lparr>dirty := b\<rparr>) = desc_ok p"
  by (auto simp: desc_ok_def fun_eq_iff)

lemma pool_wf_len:
  "pool_wf p \<Longrightarrow> i < n_slots p \<Longrightarrow> slot_len p i \<le> cap_tokens p \<and> cap_tokens p < 2147483648"
  by (auto simp: pool_wf_def desc_ok_def slot_len_def)

lemma held_len_eq: "pool_wf p \<Longrightarrow> i < n_slots p \<Longrightarrow> held_len p i = Some (slot_len p i)"
  by (auto simp: pool_wf_def desc_ok_def slot_len_def held_len_def i32_as_usize_id)

lemma used_slots_less: "pool_wf p \<Longrightarrow> i \<in> used_slots p \<Longrightarrow> i < n_slots p"
  by (auto simp: pool_wf_def used_slots_def)

lemma desc_same_len: "desc_seq_len d = l \<Longrightarrow> d\<lparr>desc_seq_len := l\<rparr> = d"
  by (cases d) simp

lemma descs_same_len [simp]:
  "desc_seq_len (descs p ! i) = l \<Longrightarrow> (descs p)[i := (descs p ! i)\<lparr>desc_seq_len := l\<rparr>] = descs p"
  by (simp add: desc_same_len)

text \<open>\<open>pool_reset\<close> zeroes one length and changes nothing else.\<close>

lemma pool_reset_ok [panic_free]:
  assumes "i < n_slots p"
  shows "\<exists>p'. pool_reset p i = Some p' \<and>
     descs p' = (descs p)[i := (descs p ! i)\<lparr>desc_seq_len := 0\<rparr>] \<and> in_use p' = in_use p \<and>
     cap_tokens p' = cap_tokens p \<and> per_pos_bytes p' = per_pos_bytes p"
  using assms by (cases "desc_seq_len (descs p ! i) = 0") (simp_all add: pool_reset_def)

lemma desc_ok_zero: "desc_ok p i d \<Longrightarrow> desc_ok p i (d\<lparr>desc_seq_len := 0\<rparr>)"
  by (auto simp: desc_ok_def)

lemma desc_ok_cong:
  "cap_tokens q = cap_tokens p \<Longrightarrow> per_pos_bytes q = per_pos_bytes p \<Longrightarrow> desc_ok q = desc_ok p"
  by (auto simp: desc_ok_def fun_eq_iff)

text \<open>Replacing one length and one flag keeps the invariant when the slot stays well-formed.\<close>

lemma pool_wf_replace:
  assumes wf: "pool_wf p" and i: "i < n_slots p"
    and ds: "descs q = (descs p)[i := (descs p ! i)\<lparr>desc_seq_len := l\<rparr>]"
    and us: "in_use q = (in_use p)[i := u]"
    and fr: "cap_tokens q = cap_tokens p" "per_pos_bytes q = per_pos_bytes p"
    and l: "0 \<le> l" "l \<le> int (cap_tokens p)" "\<not> u \<Longrightarrow> l = 0"
  shows "pool_wf q"
proof -
  have "desc_ok p i (descs p ! i)" using wf i by (simp add: pool_wf_def)
  then have "desc_ok p i ((descs p ! i)\<lparr>desc_seq_len := l\<rparr>)" using l by (auto simp: desc_ok_def)
  with wf i l show ?thesis
    by (auto simp: pool_wf_def ds us fr desc_ok_cong [OF fr] nth_list_update)
qed

lemma pool_acquire_full:
  "pool_wf p \<Longrightarrow> used_slots p = {..<n_slots p} \<Longrightarrow> pool_acquire p = Some (p, None)"
  by (auto simp: pool_acquire_def pool_wf_def used_slots_def set_eq_iff all_set_conv_all_nth
      split: option.splits dest!: position_Some_iff [THEN iffD1])

lemma pool_acquire_free:
  assumes wf: "pool_wf p" and free: "used_slots p \<noteq> {..<n_slots p}"
  shows "\<exists>p' i. pool_acquire p = Some (p', Some i) \<and> pool_wf p' \<and> i < n_slots p \<and>
     i \<notin> used_slots p \<and> {..<i} \<subseteq> used_slots p \<and> used_slots p' = insert i (used_slots p) \<and>
     n_slots p' = n_slots p \<and> cap_tokens p' = cap_tokens p \<and> per_pos_bytes p' = per_pos_bytes p \<and>
     slot_len p' i = 0 \<and> (\<forall>j<n_slots p. slot_len p' j = slot_len p j)"
proof -
  have len: "length (in_use p) = n_slots p" using wf by (simp add: pool_wf_def)
  obtain i where i: "position Not (in_use p) = Some i"
    using free len by (cases "position Not (in_use p)")
      (auto simp: position_None_iff used_slots_def all_set_conv_all_nth)
  then have lt: "i < n_slots p" and ni: "\<not> in_use p ! i" and lo: "\<forall>j<i. in_use p ! j"
    by (auto simp: position_Some_iff len)
  let ?p = "p\<lparr>in_use := (in_use p)[i := True]\<rparr>"
  from pool_reset_ok [of i ?p] lt obtain q where q: "pool_reset ?p i = Some q"
    and ds: "descs q = (descs p)[i := (descs p ! i)\<lparr>desc_seq_len := 0\<rparr>]"
    and us: "in_use q = (in_use p)[i := True]"
    and fr: "cap_tokens q = cap_tokens p" "per_pos_bytes q = per_pos_bytes p"
    by auto
  have zero: "desc_seq_len (descs p ! i) = 0" using wf lt ni by (simp add: pool_wf_def)
  have "pool_wf q" using pool_wf_replace [OF wf lt ds us fr] by simp
  moreover have "used_slots q = insert i (used_slots p)"
    using lt len by (auto simp: used_slots_def us nth_list_update)
  moreover have "\<forall>j<n_slots p. slot_len q j = slot_len p j"
    using zero by (simp add: slot_len_def ds)
  moreover have "slot_len q i = 0" using lt by (simp add: slot_len_def ds)
  moreover have "n_slots q = n_slots p" by (simp add: ds)
  moreover have "i \<notin> used_slots p" "{..<i} \<subseteq> used_slots p"
    using ni lo lt len by (auto simp: used_slots_def)
  moreover have "pool_acquire p = Some (q, Some i)" by (simp add: pool_acquire_def i q)
  ultimately show ?thesis using lt fr by blast
qed

lemma pool_release_ok [panic_free]:
  assumes wf: "pool_wf p" and i: "i < n_slots p"
  shows "\<exists>p'. pool_release p i = Some p' \<and> pool_wf p' \<and>
     used_slots p' = used_slots p - {i} \<and>
     n_slots p' = n_slots p \<and> cap_tokens p' = cap_tokens p \<and> per_pos_bytes p' = per_pos_bytes p \<and>
     slot_len p' i = 0 \<and> (\<forall>j<n_slots p. j \<noteq> i \<longrightarrow> slot_len p' j = slot_len p j)"
proof -
  have len: "length (in_use p) = n_slots p" using wf by (simp add: pool_wf_def)
  from pool_reset_ok [OF i] obtain q where q: "pool_reset p i = Some q"
    and ds: "descs q = (descs p)[i := (descs p ! i)\<lparr>desc_seq_len := 0\<rparr>]"
    and us: "in_use q = in_use p"
    and fr: "cap_tokens q = cap_tokens p" "per_pos_bytes q = per_pos_bytes p"
    by auto
  let ?q = "q\<lparr>in_use := (in_use p)[i := False]\<rparr>"
  have "pool_wf ?q" using pool_wf_replace [OF wf i, of ?q 0 False] ds fr by simp
  moreover have "pool_release p i = Some ?q"
    using q i len by (simp add: pool_release_def us)
  moreover have "used_slots ?q = used_slots p - {i}"
    using i len by (auto simp: used_slots_def nth_list_update)
  moreover have "slot_len ?q i = 0" "\<forall>j<n_slots p. j \<noteq> i \<longrightarrow> slot_len ?q j = slot_len p j"
    using i by (auto simp: slot_len_def ds)
  ultimately show ?thesis using fr by (auto simp: ds)
qed

lemma pool_set_seq_len_err:
  "pool_set_seq_len p i n = Some (Inl e) \<longleftrightarrow>
   cap_tokens p < n \<and> e = SeqLenExceedsCap i n (cap_tokens p)"
  by (auto simp: pool_set_seq_len_def list_get_def)

lemma pool_set_seq_len_ok [panic_free]:
  assumes wf: "pool_wf p" and i: "i \<in> used_slots p" and n: "n \<le> cap_tokens p"
  shows "\<exists>p'. pool_set_seq_len p i n = Some (Inr p') \<and> pool_wf p' \<and>
     used_slots p' = used_slots p \<and>
     n_slots p' = n_slots p \<and> cap_tokens p' = cap_tokens p \<and> per_pos_bytes p' = per_pos_bytes p \<and>
     slot_len p' i = n \<and> (\<forall>j<n_slots p. j \<noteq> i \<longrightarrow> slot_len p' j = slot_len p j)"
proof -
  have lt: "i < n_slots p" and u: "in_use p ! i" and ui: "i < length (in_use p)"
    using i wf by (auto simp: used_slots_def pool_wf_def)
  have n31: "n < 2147483648" using n wf by (auto simp: pool_wf_def)
  let ?q = "if desc_seq_len (descs p ! i) \<noteq> as_i32 n
     then p\<lparr>descs := (descs p)[i := (descs p ! i)\<lparr>desc_seq_len := as_i32 n\<rparr>], dirty := True\<rparr> else p"
  have ds: "descs ?q = (descs p)[i := (descs p ! i)\<lparr>desc_seq_len := int n\<rparr>]"
    using lt n31 by (cases "desc_seq_len (descs p ! i) = int n") auto
  have "(in_use p)[i := True] = in_use p" using u ui by (simp add: list_update_same_conv)
  then have us: "in_use ?q = (in_use p)[i := True]" by simp
  have "pool_wf ?q" using pool_wf_replace [OF wf lt ds us] n by simp
  moreover have "pool_set_seq_len p i n = Some (Inr ?q)" using lt n by (simp add: pool_set_seq_len_def)
  moreover have "used_slots ?q = used_slots p" by (simp add: used_slots_def)
  moreover have "slot_len ?q i = n" "\<forall>j<n_slots p. j \<noteq> i \<longrightarrow> slot_len ?q j = slot_len p j"
    using lt by (auto simp only: slot_len_def ds) auto
  ultimately show ?thesis by fastforce
qed

section \<open>The allocator interface\<close>

text \<open>
  What the session table and the engine rely on: the slots in use as a set, the live length of a
  slot, and how the three operations change them. \<open>acq\<close> hands out a slot that nobody holds and
  that starts empty, or reports that all slots are held; no operation panics on a slot of the
  pool, and no operation touches the length of another slot.
\<close>

locale slot_allocator =
  fixes invar :: "'p \<Rightarrow> bool"
    and used :: "'p \<Rightarrow> nat set"
    and total :: "'p \<Rightarrow> nat"
    and cap :: "'p \<Rightarrow> nat"
    and len :: "'p \<Rightarrow> nat \<Rightarrow> nat"
    and acq :: "'p \<Rightarrow> ('p \<times> nat option) option"
    and rel :: "'p \<Rightarrow> nat \<Rightarrow> 'p option"
    and setl :: "'p \<Rightarrow> nat \<Rightarrow> nat \<Rightarrow> ('e + 'p) option"
  assumes used_bound: "invar p \<Longrightarrow> used p \<subseteq> {..<total p}"
    and acq_full: "invar p \<Longrightarrow> used p = {..<total p} \<Longrightarrow> acq p = Some (p, None)"
    and acq_free: "invar p \<Longrightarrow> used p \<noteq> {..<total p} \<Longrightarrow>
      \<exists>p' i. acq p = Some (p', Some i) \<and> invar p' \<and> i < total p \<and> i \<notin> used p \<and>
        used p' = insert i (used p) \<and> total p' = total p \<and> cap p' = cap p \<and>
        len p' i = 0 \<and> (\<forall>j<total p. len p' j = len p j)"
    and rel_ok: "invar p \<Longrightarrow> i < total p \<Longrightarrow>
      \<exists>p'. rel p i = Some p' \<and> invar p' \<and> used p' = used p - {i} \<and> total p' = total p \<and>
        cap p' = cap p \<and> len p' i = 0 \<and> (\<forall>j<total p. j \<noteq> i \<longrightarrow> len p' j = len p j)"
    and setl_ok: "invar p \<Longrightarrow> i \<in> used p \<Longrightarrow> n \<le> cap p \<Longrightarrow>
      \<exists>p'. setl p i n = Some (Inr p') \<and> invar p' \<and> used p' = used p \<and> total p' = total p \<and>
        cap p' = cap p \<and> len p' i = n \<and> (\<forall>j<total p. j \<noteq> i \<longrightarrow> len p' j = len p j)"
begin

lemma acq_no_panic:
  assumes "invar p"
  shows "\<exists>p' r. acq p = Some (p', r) \<and> invar p'"
proof (cases "used p = {..<total p}")
  case True
  from acq_full [OF assms this] assms show ?thesis by blast
next
  case False
  from acq_free [OF assms this] show ?thesis by blast
qed

lemma acq_SomeD:
  assumes "invar p" and "acq p = Some (p', Some i)"
  shows "invar p' \<and> i < total p \<and> i \<notin> used p \<and> used p' = insert i (used p) \<and> total p' = total p \<and>
   cap p' = cap p \<and> len p' i = 0 \<and> (\<forall>j<total p. len p' j = len p j)"
proof -
  have "used p \<noteq> {..<total p}" using acq_full [OF assms(1)] assms(2) by auto
  from acq_free [OF assms(1) this] assms(2) show ?thesis by auto
qed

lemma acq_NoneD:
  assumes "invar p" and "acq p = Some (p', None)"
  shows "p' = p \<and> used p = {..<total p}"
proof -
  have full: "used p = {..<total p}" using acq_free [OF assms(1)] assms(2) by auto
  from acq_full [OF assms(1) this] assms(2) full show ?thesis by simp
qed

text \<open>A slot that was just given back can be handed out again, and starts empty.\<close>

lemma rel_then_acq:
  assumes "invar p" and "i \<in> used p" and "rel p i = Some q"
  shows "\<exists>q' k. acq q = Some (q', Some k) \<and> k \<notin> used q \<and> len q' k = 0"
proof -
  have i: "i < total p" using used_bound assms(1,2) by blast
  from rel_ok [OF assms(1) i] assms(3) have q: "invar q" "used q = used p - {i}" "total q = total p"
    by auto
  with i have "used q \<noteq> {..<total q}" by auto
  from acq_free [OF q(1) this] show ?thesis by blast
qed

end

text \<open>No operation changes the geometry of the pool.\<close>

definition pool_geom :: "slot_pool \<Rightarrow> nat \<times> nat \<times> nat" where
  "pool_geom p = (n_slots p, cap_tokens p, per_pos_bytes p)"

lemma pool_geom_ops:
  "pool_acquire p = Some (p', r) \<Longrightarrow> pool_geom p' = pool_geom p"
  "pool_release p i = Some p' \<Longrightarrow> pool_geom p' = pool_geom p"
  "pool_set_seq_len p i n = Some (Inr p') \<Longrightarrow> pool_geom p' = pool_geom p"
  unfolding pool_geom_def pool_acquire_def pool_release_def pool_set_seq_len_def pool_reset_def
  by (auto split: if_splits option.splits Option.bind_splits)

interpretation sp: slot_allocator pool_wf used_slots n_slots cap_tokens slot_len
  pool_acquire pool_release pool_set_seq_len
proof (unfold_locales, goal_cases)
  case (1 p)
  then show ?case using used_slots_less by blast
next
  case (2 p)
  then show ?case by (rule pool_acquire_full)
next
  case (3 p)
  from pool_acquire_free [OF this] show ?case by blast
next
  case (4 p i)
  from pool_release_ok [OF this] show ?case by blast
next
  case (5 p i n)
  from pool_set_seq_len_ok [OF this] show ?case by blast
qed


section \<open>Construction\<close>

lemma R9700_eq: "R9700_VRAM_BYTES = 34359738368"
  by (simp add: R9700_VRAM_BYTES_def)

lemma preflight_alloc_Inr:
  "preflight_alloc mem planned budget = Inr u \<longleftrightarrow>
   planned \<le> budget \<and> (\<exists>avail. mem = Some avail \<and> saturating_add64 planned HEADROOM_BYTES \<le> avail)"
  by (cases mem) (auto simp: preflight_alloc_def)

lemma pool_new_fields:
  assumes new: "pool_new mem n c ppb = Some (Inr p)"
    and fits: "div_ceil c PAGE_TOKENS * PAGE_TOKENS * ppb \<le> u64_max"
  shows "0 < n" "0 < ppb" "per_pos_bytes p = ppb" "in_use p = replicate n False"
    "cap_tokens p = div_ceil c PAGE_TOKENS * PAGE_TOKENS"
    "2 * (n * (cap_tokens p * ppb)) \<le> R9700_VRAM_BYTES"
    "descs p = map (pool_desc (cap_tokens p * ppb) (cap_tokens p)) [0..<n]"
proof -
  let ?cap = "div_ceil c PAGE_TOKENS * PAGE_TOKENS"
  show n: "0 < n" "0 < ppb" using new by (auto simp: pool_new_def split: if_splits)
  then have "?cap \<le> ?cap * ppb" by simp
  then have cap: "u64_wrap ?cap = ?cap" using fits by (intro u64_wrap_id) linarith
  have slab: "u64_wrap (?cap * ppb) = ?cap * ppb" using fits by (intro u64_wrap_id)
  show "per_pos_bytes p = ppb" "in_use p = replicate n False" "cap_tokens p = ?cap"
    "2 * (n * (cap_tokens p * ppb)) \<le> R9700_VRAM_BYTES"
    "descs p = map (pool_desc (cap_tokens p * ppb) (cap_tokens p)) [0..<n]"
    using new n cap slab
    by (auto simp: pool_new_def Let_def checked_mul64_def preflight_alloc_Inr mult.commute
        mult.left_commute split: if_splits option.splits sum.splits Option.bind_splits)
qed

lemma pool_new_wf [keeps]:
  assumes new: "pool_new mem n c ppb = Some (Inr p)"
    and fits: "div_ceil c PAGE_TOKENS * PAGE_TOKENS * ppb \<le> u64_max" and ppb: "8 < ppb"
  shows "pool_wf p \<and> used_slots p = {} \<and> n_slots p = n"
proof -
  note f = pool_new_fields [OF new fits]
  let ?slab = "cap_tokens p * ppb"
  have cap: "cap_tokens p < 2147483648"
  proof -
    have "cap_tokens p * 9 \<le> ?slab" using ppb by (intro mult_le_mono) auto
    also have "\<dots> \<le> n * ?slab" using f(1) by simp
    finally show ?thesis using f(6) unfolding R9700_eq by linarith
  qed
  have base: "u64_wrap (i * ?slab) = i * ?slab" if "i < n" for i
  proof (rule u64_wrap_id)
    have "i * ?slab \<le> n * ?slab" using that by (intro mult_le_mono) auto
    then show "i * ?slab \<le> u64_max" using f(6) unfolding R9700_eq by linarith
  qed
  have "desc_ok p i (descs p ! i)" if "i < n" for i
    using that base [OF that] cap by (simp add: desc_ok_def f(3,7) pool_desc_def Let_def)
  moreover have "cap_tokens p mod PAGE_TOKENS = 0" by (simp add: f(5))
  moreover have "desc_seq_len (descs p ! i) = 0" if "i < n" for i
    using that by (simp add: f(7) pool_desc_def Let_def)
  moreover have "n_slots p = n" by (simp add: f(7))
  ultimately show ?thesis
    using f(1-6) cap by (auto simp: pool_wf_def used_slots_def)
qed

lemma arena_bytes_eq:
  assumes "0 < per_pos_bytes p" and "n_slots p * slab_bytes_of p \<le> R9700_VRAM_BYTES"
  shows "arena_bytes p = n_slots p * slab_bytes_of p"
proof -
  have le: "n_slots p * slab_bytes_of p \<le> u64_max" using assms(2) unfolding R9700_eq by linarith
  have "n_slots p * cap_tokens p * 1 \<le> n_slots p * cap_tokens p * per_pos_bytes p"
    using assms(1) by (intro mult_le_mono) auto
  then have "n_slots p * cap_tokens p \<le> u64_max" using le by (simp only: mult.assoc mult_1_right)
  with le show ?thesis by (simp only: arena_bytes_def u64_wrap_id mult.assoc)
qed

lemma slabs_apart:
  assumes wf: "pool_wf p" and ij: "i < j" "j < n_slots p"
  shows "k_base (descs p ! i) + slab_bytes_of p \<le> k_base (descs p ! j)"
    "k_base (descs p ! j) + slab_bytes_of p \<le> arena_bytes p"
proof -
  have b: "k_base (descs p ! m) = m * slab_bytes_of p" if "m < n_slots p" for m
    using wf that by (auto simp: pool_wf_def desc_ok_def)
  have le: "n_slots p * slab_bytes_of p \<le> R9700_VRAM_BYTES" using wf by (simp add: pool_wf_def)
  have "arena_bytes p = n_slots p * slab_bytes_of p"
    using wf le by (intro arena_bytes_eq) (auto simp: pool_wf_def)
  moreover have "Suc j * slab_bytes_of p \<le> n_slots p * slab_bytes_of p"
    using ij by (intro mult_le_mono) auto
  ultimately show "k_base (descs p ! j) + slab_bytes_of p \<le> arena_bytes p"
    using b [of j] ij by simp
  have "Suc i * slab_bytes_of p \<le> j * slab_bytes_of p" using ij by (intro mult_le_mono) auto
  then show "k_base (descs p ! i) + slab_bytes_of p \<le> k_base (descs p ! j)"
    using b [of i] b [of j] ij by simp
qed

text \<open>
  Property C39. A pool that \<^verbatim>\<open>SlotPool::new\<close> returns, with a stride of more than 8 bytes and slab
  arithmetic that stays within 64 bits, is well-formed and empty: its capacity is the requested
  one rounded up to a page, both arenas together fit the 32 GiB deployment budget, every K slab
  sits at the offset of its V slab, and the slabs of different slots never overlap.
\<close>

theorem pool_new_layout:
  assumes "pool_new mem n c ppb = Some (Inr p)"
    and "div_ceil c PAGE_TOKENS * PAGE_TOKENS * ppb \<le> u64_max" and "8 < ppb"
  shows "pool_wf p \<and> used_slots p = {} \<and> n_slots p = n \<and>
    c \<le> cap_tokens p \<and> cap_tokens p < c + PAGE_TOKENS \<and>
    2 * arena_bytes p \<le> R9700_VRAM_BYTES \<and>
    (\<forall>i<n. v_base (descs p ! i) = k_base (descs p ! i)) \<and>
    (\<forall>i j. i < j \<and> j < n \<longrightarrow>
       k_base (descs p ! i) + cap_tokens p * ppb \<le> k_base (descs p ! j) \<and>
       k_base (descs p ! j) + cap_tokens p * ppb \<le> arena_bytes p)"
proof -
  note f = pool_new_fields [OF assms(1,2)]
  from pool_new_wf [OF assms] have wf: "pool_wf p" "used_slots p = {}" "n_slots p = n" by auto
  have pg: "0 < PAGE_TOKENS" by (simp add: PAGE_TOKENS_def)
  have "arena_bytes p = n * (cap_tokens p * ppb)"
    using arena_bytes_eq [of p] f(2,3,6) wf(3) by simp
  with f(6) have "2 * arena_bytes p \<le> R9700_VRAM_BYTES" by simp
  moreover have "\<forall>i<n. v_base (descs p ! i) = k_base (descs p ! i)"
    using wf by (auto simp: pool_wf_def desc_ok_def)
  moreover have "c \<le> cap_tokens p" "cap_tokens p < c + PAGE_TOKENS"
    using div_ceil_mult_ge [OF pg, of c] div_ceil_mult_less [OF pg, of c] by (simp_all add: f(5))
  moreover have "\<forall>i j. i < j \<and> j < n \<longrightarrow>
       k_base (descs p ! i) + cap_tokens p * ppb \<le> k_base (descs p ! j) \<and>
       k_base (descs p ! j) + cap_tokens p * ppb \<le> arena_bytes p"
    using slabs_apart [OF wf(1)] unfolding wf(3) f(3) by blast
  ultimately show ?thesis using wf by blast
qed

theorem pool_new_layout_witness:
  "\<exists>p. pool_new (Some 34359738368) 4 300 1088 = Some (Inr p) \<and> pool_wf p \<and> cap_tokens p = 384"
proof -
  obtain p where p: "pool_new (Some 34359738368) 4 300 1088 = Some (Inr p)" "cap_tokens p = 384"
    by (simp add: pool_new_def PAGE_TOKENS_def div_ceil_def checked_mul64_def preflight_alloc_def
        R9700_VRAM_BYTES_def saturating_add64_def HEADROOM_BYTES_def Let_def)
  moreover have "pool_wf p"
    using pool_new_layout [OF p(1)] by (simp add: PAGE_TOKENS_def div_ceil_def)
  ultimately show ?thesis by blast
qed

section \<open>The dirty flag\<close>

text \<open>
  One host-side change of the pool between two uploads. The engine skips the descriptor upload
  whenever the flag is clear, so a clear flag must mean that the device copy is current.
\<close>

inductive pool_step :: "slot_pool \<Rightarrow> slot_pool \<Rightarrow> bool" where
  step_acquire: "pool_acquire p = Some (q, r) \<Longrightarrow> pool_step p q"
| step_release: "pool_release p i = Some q \<Longrightarrow> pool_step p q"
| step_reset: "pool_reset p i = Some q \<Longrightarrow> pool_step p q"
| step_set_len: "pool_set_seq_len p i n = Some (Inr q) \<Longrightarrow> pool_step p q"

lemma pool_reset_dirty: "pool_reset p i = Some q \<Longrightarrow> dirty q \<or> (descs q = descs p \<and> \<not> dirty p)"
  by (auto simp: pool_reset_def list_get_def split: if_splits)

lemma pool_step_dirty: "pool_step p q \<Longrightarrow> dirty q \<or> (descs q = descs p \<and> \<not> dirty p)"
proof (induction rule: pool_step.induct)
  case (step_acquire p q r)
  then show ?case
    by (auto simp: pool_acquire_def split: option.splits Option.bind_splits dest!: pool_reset_dirty)
next
  case (step_release p i q)
  then show ?case
    by (auto simp: pool_release_def split: Option.bind_splits dest!: pool_reset_dirty)
next
  case (step_reset p i q)
  then show ?case by (rule pool_reset_dirty)
next
  case (step_set_len p i n q)
  then show ?case
    by (auto simp: pool_set_seq_len_def list_get_def split: if_splits)
qed

text \<open>
  Property C40. After an upload, any sequence of acquires, releases, resets and length changes that
  leaves the flag clear has left the descriptor table exactly as it was uploaded: skipping the
  upload of a clean table never leaves the device with a stale descriptor.
\<close>

theorem clean_table_is_uploaded:
  assumes "pool_step\<^sup>*\<^sup>* (mark_uploaded p) q" and "\<not> dirty q"
  shows "descs q = descs p"
  using assms
proof (induction rule: rtranclp_induct)
  case base
  then show ?case by (simp add: mark_uploaded_def)
next
  case (step q r)
  from pool_step_dirty [OF step.hyps(2)] step.prems have "descs r = descs q" "\<not> dirty q" by auto
  with step.IH show ?case by simp
qed

theorem clean_table_is_uploaded_witness:
  "\<exists>p q. pool_step\<^sup>*\<^sup>* (mark_uploaded p) q \<and> in_use q \<noteq> in_use p \<and> descs q = descs p"
proof -
  let ?p = "\<lparr>descs = [\<lparr>k_base = 0, v_base = 0, desc_seq_len = 0, desc_cap = 128\<rparr>],
             in_use = [False], cap_tokens = 128, per_pos_bytes = 1088, dirty = True\<rparr>"
  let ?q = "(mark_uploaded ?p)\<lparr>in_use := [True]\<rparr>"
  have "pool_acquire (mark_uploaded ?p) = Some (?q, Some 0)"
    by (simp add: pool_acquire_def pool_reset_def mark_uploaded_def)
  then have run: "pool_step\<^sup>*\<^sup>* (mark_uploaded ?p) ?q"
    by (intro r_into_rtranclp pool_step.step_acquire)
  moreover have "\<not> dirty ?q" by (simp add: mark_uploaded_def)
  ultimately have "descs ?q = descs ?p" by (rule clean_table_is_uploaded)
  with run show ?thesis by (intro exI [of _ ?p] exI [of _ ?q]) (simp add: mark_uploaded_def)
qed

section \<open>Row tiles\<close>

lemma tile_starts_mem:
  "0 < br \<Longrightarrow> r \<in> set (tile_starts m br row0) \<longleftrightarrow> row0 \<le> r \<and> r < m \<and> (r - row0) mod br = 0"
proof (induction m br row0 rule: tile_starts.induct)
  case (1 m br row0)
  show ?case
  proof (cases "row0 < m")
    case True
    with 1 have IH: "r \<in> set (tile_starts m br (row0 + br)) \<longleftrightarrow>
        row0 + br \<le> r \<and> r < m \<and> (r - (row0 + br)) mod br = 0" by simp
    have "(r - row0) mod br = (r - (row0 + br)) mod br" if "row0 + br \<le> r"
    proof -
      have "r - row0 = r - (row0 + br) + br" using that by simp
      then show ?thesis by (simp only: mod_add_self2)
    qed
    moreover have "r = row0 \<or> row0 + br \<le> r" if "row0 \<le> r" "(r - row0) mod br = 0"
    proof (rule disjCI)
      assume "\<not> row0 + br \<le> r"
      then have "(r - row0) mod br = r - row0" using that(1) by (intro mod_less) simp
      with that show "r = row0" by simp
    qed
    ultimately show ?thesis
      using True 1(2) IH by (subst tile_starts.simps) auto
  next
    case False
    then show ?thesis by (subst tile_starts.simps) auto
  qed
qed

lemma tile_starts_sorted: "sorted_wrt (<) (tile_starts m br row0)"
proof (induction m br row0 rule: tile_starts.induct)
  case (1 m br row0)
  then show ?case
    by (subst tile_starts.simps) (auto simp: tile_starts_mem)
qed

lemma tiles_from_mem:
  "(s, r, q) \<in> set (tiles_from br slot g ms) \<longleftrightarrow>
   slot \<le> s \<and> s < slot + length ms \<and> r \<in> set (tile_starts (ms ! (s - slot)) br 0) \<and>
   q = g + sum_list (take (s - slot) ms) + r"
proof (induction ms arbitrary: slot g)
  case Nil
  then show ?case by simp
next
  case (Cons m ms)
  show ?case
  proof (cases "s = slot")
    case True
    then show ?thesis using Cons [of "Suc slot" "g + m"] by auto
  next
    case False
    then have "s - slot = Suc (s - Suc slot)" if "slot \<le> s" using that by simp
    with False show ?thesis using Cons [of "Suc slot" "g + m"] by auto
  qed
qed

lemma tiles_from_distinct: "distinct (tiles_from br slot g ms)"
proof (induction ms arbitrary: slot g)
  case (Cons m ms)
  have "distinct (map (\<lambda>row0. (slot, row0, g + row0)) (tile_starts m br 0))"
    using tile_starts_sorted [of m br 0]
    by (auto simp: distinct_map inj_on_def strict_sorted_iff)
  with Cons show ?case by (auto simp: tiles_from_mem)
qed simp


lemma rows_up_to:
  assumes "s < length counts"
  shows "sum_list (take s counts) + counts ! s \<le> total_rows counts"
proof -
  have "sum_list counts = sum_list (take (Suc s) counts) + sum_list (drop (Suc s) counts)"
    by (metis append_take_drop_id sum_list_append)
  with assms show ?thesis by (simp add: total_rows_def take_Suc_conv_app_nth)
qed

lemma tile_of_row:
  assumes "0 < br" and "r mod br = 0" and "r \<le> j" "j < r + br"
  shows "r = j - j mod (br :: nat)"
proof -
  obtain k where k: "r = br * k" using assms(2) by (auto simp: mod_eq_0_iff_dvd)
  have "j div br = k" using assms by (intro div_nat_eqI) (auto simp: k algebra_simps)
  then show ?thesis by (simp add: k minus_mod_eq_mult_div)
qed

lemma tiles_mem:
  assumes "0 < br"
  shows "(s, r, q) \<in> set (tiles_from br 0 0 counts) \<longleftrightarrow>
    s < length counts \<and> r < counts ! s \<and> r mod br = 0 \<and> q = sum_list (take s counts) + r"
  using assms by (auto simp: tiles_from_mem tile_starts_mem)

text \<open>The three lists hold the tiles, column by column: no index is cut off by the cast.\<close>

lemma tile_columns:
  assumes "0 < br" and "total_rows counts < 2147483648" and "length counts < 2147483648"
    and "build_tiles counts br = Some (tile_slot, tile_row0, tile_qbase)"
  shows "length tile_slot = length (tiles_from br 0 0 counts)"
    and "t < length tile_slot \<Longrightarrow> tiles_from br 0 0 counts ! t = (s, r, q) \<Longrightarrow>
      tile_slot ! t = int s \<and> tile_row0 ! t = int r \<and> tile_qbase ! t = int q"
proof -
  let ?ts = "tiles_from br 0 0 counts"
  have bt: "tile_slot = map (\<lambda>(s, r, q). as_i32 s) ?ts" "tile_row0 = map (\<lambda>(s, r, q). as_i32 r) ?ts"
    "tile_qbase = map (\<lambda>(s, r, q). as_i32 q) ?ts"
    using assms(1,4) by (auto simp: build_tiles_def Let_def)
  then show "length tile_slot = length ?ts" by simp
  assume t: "t < length tile_slot" "?ts ! t = (s, r, q)"
  then have "(s, r, q) \<in> set ?ts" using bt(1) nth_mem by (metis length_map)
  then have m: "s < length counts" "r < counts ! s" "q = sum_list (take s counts) + r" using tiles_mem [OF assms(1)] by auto
  then have "sum_list (take s counts) + counts ! s < 2147483648" using rows_up_to assms(2) by (meson order_le_less_trans)
  then show "tile_slot ! t = int s \<and> tile_row0 ! t = int r \<and> tile_qbase ! t = int q" using m t assms(3) by (simp add: bt)
qed

text \<open>
  Property C38. The flat tile list is an exact cover of the query rows: for every row \<open>j\<close> of every
  slot \<open>s\<close> there is exactly one tile \<open>t\<close> of that slot whose \<open>br\<close> rows include \<open>j\<close>, and its
  global base addresses the row's place in the packed \<^verbatim>\<open>q\<close>/\<^verbatim>\<open>out\<close> buffers; and every tile
  belongs to a slot and starts inside that slot's own rows, so no tile spans a slot boundary and
  an idle slot has none.
\<close>

theorem build_tiles_exact_cover:
  assumes "0 < br" and "total_rows counts < 2147483648" and "length counts < 2147483648"
    and "build_tiles counts br = Some (tile_slot, tile_row0, tile_qbase)"
  shows "(\<forall>s<length counts. \<forall>j<counts ! s.
      \<exists>!t. t < length tile_slot \<and> tile_slot ! t = int s \<and>
          tile_row0 ! t \<le> int j \<and> int j < tile_row0 ! t + int br) \<and>
    (\<forall>t<length tile_slot. \<exists>s<length counts. tile_slot ! t = int s \<and>
        0 \<le> tile_row0 ! t \<and> tile_row0 ! t < int (counts ! s) \<and>
        tile_qbase ! t = int (sum_list (take s counts)) + tile_row0 ! t)"
proof (intro conjI allI impI)
  let ?ts = "tiles_from br 0 0 counts"
  note col = tile_columns [OF assms] and mem = tiles_mem [OF assms(1)]
  have at: "\<exists>s r. ?ts ! t = (s, r, sum_list (take s counts) + r) \<and> s < length counts \<and> r < counts ! s \<and> r mod br = 0"
    if "t < length tile_slot" for t using that col(1) mem nth_mem [of t ?ts] by (cases "?ts ! t") auto
  show "\<exists>s<length counts. tile_slot ! t = int s \<and> 0 \<le> tile_row0 ! t \<and> tile_row0 ! t < int (counts ! s) \<and>
      tile_qbase ! t = int (sum_list (take s counts)) + tile_row0 ! t" if "t < length tile_slot" for t
    using at [OF that] col(2) [OF that] by fastforce
  fix s j assume s: "s < length counts" and j: "j < counts ! s"
  let ?r = "j - j mod br"
  have "j < ?r + br" using mod_less_divisor [OF assms(1), of j] mod_less_eq_dividend [of j br] by linarith
  then have r: "?r mod br = 0" "?r \<le> j" "j < ?r + br" by (simp_all add: minus_mod_eq_mult_div)
  then have "(s, ?r, sum_list (take s counts) + ?r) \<in> set ?ts" using s j by (simp add: mem)
  then obtain t where t: "t < length tile_slot" "?ts ! t = (s, ?r, sum_list (take s counts) + ?r)"
    using col(1) by (auto simp: in_set_conv_nth)
  show "\<exists>!t. t < length tile_slot \<and> tile_slot ! t = int s \<and> tile_row0 ! t \<le> int j \<and> int j < tile_row0 ! t + int br"
  proof (rule ex1I [of _ t])
    show "t < length tile_slot \<and> tile_slot ! t = int s \<and> tile_row0 ! t \<le> int j \<and> int j < tile_row0 ! t + int br"
      using col(2) [OF t] t(1) r by simp
    fix u assume u: "u < length tile_slot \<and> tile_slot ! u = int s \<and> tile_row0 ! u \<le> int j \<and> int j < tile_row0 ! u + int br"
    then obtain s' r' where e: "?ts ! u = (s', r', sum_list (take s' counts) + r')" "r' mod br = 0" using at [of u] by auto
    with u have "s' = s" "r' \<le> j" "j < r' + br" using col(2) [of u, OF _ e(1)] by auto
    then have "?ts ! u = ?ts ! t" using e tile_of_row [OF assms(1) e(2)] t(2) by simp
    then show "u = t" using u t(1) col(1) tiles_from_distinct [of br 0 0 counts] by (simp add: nth_eq_iff_index_eq)
  qed
qed

theorem build_tiles_exact_cover_witness:
  "build_tiles [1, 0, 8] 4 = Some ([0, 2, 2], [0, 0, 4], [0, 1, 5]) \<and>
   (\<exists>!t. t < length [0, 2, 2 :: int] \<and> [0, 2, 2] ! t = int 2 \<and>
      [0, 0, 4] ! t \<le> int 6 \<and> int 6 < [0, 0, 4] ! t + int 4)"
proof -
  have b: "build_tiles [1, 0, 8] 4 = Some ([0, 2, 2], [0, 0, 4], [0, 1, 5])"
    by (simp add: build_tiles_def tile_starts.simps Let_def)
  from build_tiles_exact_cover [OF _ _ _ b] have
    "\<forall>s<3. \<forall>j<[1, 0, 8] ! s. \<exists>!t. t < length [0, 2, 2 :: int] \<and> [0, 2, 2] ! t = int s \<and>
      [0, 0, 4] ! t \<le> int j \<and> int j < [0, 0, 4] ! t + int 4"
    by (simp add: total_rows_def)
  from this [rule_format, of 2 6] b show ?thesis by simp
qed

end
