(* ===== verification/Admission.thy ===== *)
theory Admission
  imports Prelude
begin

text \<open>
  The memory gate of the serving daemon, \<^verbatim>\<open>hipfire-runtime/src/admission.rs\<close>: the VRAM budget
  (weights charged once, KV charged per admitted context) and the host-tier budget for swapped
  snapshots. The sums of the source are 64-bit and wrap; \<open>real_used\<close> is the unbounded sum they
  are compared with, and the lemmas say when the two agree.
\<close>

record model_footprint =
  weights_bytes :: nat
  kv_bytes_per_token :: nat

datatype admit_error = PoolFull | WouldExceedBudget nat nat

record admission =
  footprint :: model_footprint
  budget_bytes :: nat
  admitted :: "nat list"
  host_budget :: nat
  host_used :: nat

definition DEFAULT_HOST_BUDGET_BYTES :: nat where
  "DEFAULT_HOST_BUDGET_BYTES = 16 * 1024 * 1024 * 1024"

definition admission_new :: "model_footprint \<Rightarrow> nat \<Rightarrow> admission" where
  "admission_new fp budget =
     \<lparr>footprint = fp, budget_bytes = budget, admitted = [],
      host_budget = DEFAULT_HOST_BUDGET_BYTES, host_used = 0\<rparr>"

definition used_bytes :: "admission \<Rightarrow> nat" where
  "used_bytes a =
     (if admitted a = [] then 0
      else let kv = u64_wrap (sum_list (map (\<lambda>ctx. u64_wrap (ctx * kv_bytes_per_token (footprint a)))
                                            (admitted a)))
           in u64_wrap (weights_bytes (footprint a) + kv))"

definition admit :: "admission \<Rightarrow> nat \<Rightarrow> admit_error + admission \<times> nat" where
  "admit a requested_ctx =
     (let kv_need = u64_wrap (requested_ctx * kv_bytes_per_token (footprint a));
          weights_need = (if admitted a = [] then weights_bytes (footprint a) else 0);
          need = u64_wrap (kv_need + weights_need);
          available = budget_bytes a - used_bytes a
      in if available \<le> need then Inl (WouldExceedBudget need available)
         else Inr (a\<lparr>admitted := admitted a @ [requested_ctx]\<rparr>, requested_ctx))"

definition admit_host :: "admission \<Rightarrow> nat \<Rightarrow> admission \<times> bool" where
  "admit_host a bytes =
     (if host_budget a < saturating_add64 (host_used a) bytes then (a, False)
      else (a\<lparr>host_used := u64_wrap (host_used a + bytes)\<rparr>, True))"

definition release_host :: "admission \<Rightarrow> nat \<Rightarrow> admission" where
  "release_host a bytes = a\<lparr>host_used := host_used a - bytes\<rparr>"

definition set_host_budget :: "admission \<Rightarrow> nat \<Rightarrow> admission" where
  "set_host_budget a bytes = a\<lparr>host_budget := bytes\<rparr>"

definition adm_release :: "admission \<Rightarrow> nat \<Rightarrow> admission" where
  "adm_release a granted_ctx =
     (case position (\<lambda>c. c = granted_ctx) (admitted a) of
        None \<Rightarrow> a
      | Some i \<Rightarrow> a\<lparr>admitted := take i (admitted a) @ drop (Suc i) (admitted a)\<rparr>)"

section \<open>Invariant\<close>

text \<open>The bytes the admitted sessions and the weights really need, with no wrap-around.\<close>

definition real_used :: "admission \<Rightarrow> nat" where
  "real_used a =
     (if admitted a = [] then 0
      else weights_bytes (footprint a) + kv_bytes_per_token (footprint a) * sum_list (admitted a))"

definition real_need :: "admission \<Rightarrow> nat \<Rightarrow> nat" where
  "real_need a ctx =
     ctx * kv_bytes_per_token (footprint a) +
     (if admitted a = [] then weights_bytes (footprint a) else 0)"

definition adm_ok :: "admission \<Rightarrow> bool" where
  "adm_ok a \<longleftrightarrow> budget_bytes a \<le> u64_max \<and> (admitted a = [] \<or> real_used a < budget_bytes a)"

lemma adm_ok_new [simp]: "budget \<le> u64_max \<Longrightarrow> adm_ok (admission_new fp budget)"
  by (simp add: adm_ok_def admission_new_def)

lemma u64_wrap_sum:
  "sum_list (map (\<lambda>c. c * k) xs) \<le> u64_max \<Longrightarrow>
   sum_list (map (\<lambda>c. u64_wrap (c * k)) xs) = k * sum_list xs"
  by (induction xs) (auto simp: algebra_simps)

lemma used_bytes_real: "adm_ok a \<Longrightarrow> used_bytes a = real_used a"
proof (cases "admitted a = []")
  case False
  assume ok: "adm_ok a"
  let ?k = "kv_bytes_per_token (footprint a)"
  have eq: "sum_list (map (\<lambda>c. c * ?k) (admitted a)) = ?k * sum_list (admitted a)"
    by (simp add: sum_list_mult_const mult.commute)
  have le: "weights_bytes (footprint a) + ?k * sum_list (admitted a) \<le> u64_max"
    using ok False by (simp add: adm_ok_def real_used_def)
  then have "sum_list (map (\<lambda>c. u64_wrap (c * ?k)) (admitted a)) = ?k * sum_list (admitted a)"
    by (intro u64_wrap_sum) (simp add: eq)
  with False le show ?thesis by (simp add: used_bytes_def real_used_def Let_def)
qed (simp add: used_bytes_def real_used_def)

lemma admit_eq:
  assumes "adm_ok a" and "real_need a ctx \<le> u64_max"
  shows "admit a ctx =
    (if budget_bytes a \<le> real_used a + real_need a ctx
     then Inl (WouldExceedBudget (real_need a ctx) (budget_bytes a - real_used a))
     else Inr (a\<lparr>admitted := admitted a @ [ctx]\<rparr>, ctx))"
proof -
  have "ctx * kv_bytes_per_token (footprint a) \<le> u64_max" using assms(2) by (simp add: real_need_def)
  then have "u64_wrap (u64_wrap (ctx * kv_bytes_per_token (footprint a)) +
      (if admitted a = [] then weights_bytes (footprint a) else 0)) = real_need a ctx"
    using assms(2) by (simp add: real_need_def)
  then show ?thesis
    by (simp add: admit_def Let_def used_bytes_real [OF assms(1)] le_diff_conv add.commute)
qed

lemma real_used_admit:
  "real_used (a\<lparr>admitted := admitted a @ [ctx]\<rparr>) = real_used a + real_need a ctx"
  by (simp add: real_used_def real_need_def algebra_simps)

lemma admit_ok [keeps]:
  "adm_ok a \<Longrightarrow> real_need a ctx \<le> u64_max \<Longrightarrow> admit a ctx = Inr (a', g) \<Longrightarrow>
   adm_ok a' \<and> g = ctx \<and> admitted a' = admitted a @ [ctx] \<and> budget_bytes a' = budget_bytes a \<and>
   footprint a' = footprint a"
  by (auto simp: admit_eq adm_ok_def real_used_admit split: if_splits)

lemma adm_release_remove1: "adm_release a g = a\<lparr>admitted := remove1 g (admitted a)\<rparr>"
proof -
  have eq: "remove1 g xs = (case position (\<lambda>c. c = g) xs of None \<Rightarrow> xs
      | Some i \<Rightarrow> take i xs @ drop (Suc i) xs)" for xs
  proof (induction xs)
    case (Cons x xs)
    then show ?case by (cases "position (\<lambda>c. c = g) xs") auto
  qed simp
  show ?thesis
    by (cases "position (\<lambda>c. c = g) (admitted a)") (simp_all add: adm_release_def eq)
qed

lemma sum_list_remove1_le: "sum_list (remove1 g xs) \<le> sum_list (xs :: nat list)"
  by (induction xs) auto

lemma real_used_release_le: "real_used (adm_release a g) \<le> real_used a"
  using sum_list_remove1_le [of g "admitted a"]
  by (auto simp: adm_release_remove1 real_used_def)

lemma adm_release_ok [keeps]: "adm_ok a \<Longrightarrow> adm_ok (adm_release a g)"
  using real_used_release_le [of a g] by (auto simp: adm_ok_def adm_release_remove1)

lemma adm_release_fields [simp]:
  "budget_bytes (adm_release a g) = budget_bytes a" "footprint (adm_release a g) = footprint a"
  by (simp_all add: adm_release_remove1)

text \<open>
  Admission is exact: while the arithmetic of a request stays within 64 bits, a
  request is refused precisely when granting it would reach or exceed the budget, with the need
  and what was left in the error; a granted one gets the full context it asked for, charges the
  weights only if it is the first, and leaves the committed bytes strictly below the budget.
\<close>

theorem admit_exact:
  assumes "adm_ok a" and "real_need a ctx \<le> u64_max"
  shows "(budget_bytes a \<le> real_used a + real_need a ctx \<longrightarrow>
      admit a ctx = Inl (WouldExceedBudget (real_need a ctx) (budget_bytes a - used_bytes a))) \<and>
    (real_used a + real_need a ctx < budget_bytes a \<longrightarrow>
      (\<exists>a'. admit a ctx = Inr (a', ctx) \<and> adm_ok a' \<and>
        used_bytes a' = used_bytes a + ctx * kv_bytes_per_token (footprint a) +
          (if admitted a = [] then weights_bytes (footprint a) else 0) \<and>
        used_bytes a' < budget_bytes a))"
proof -
  have "adm_ok (a\<lparr>admitted := admitted a @ [ctx]\<rparr>)" if "real_used a + real_need a ctx < budget_bytes a"
    using that assms(1) by (simp add: adm_ok_def real_used_admit)
  then show ?thesis
    using assms by (auto simp: admit_eq used_bytes_real real_used_admit real_need_def)
qed

theorem admit_exact_witness:
  "let a = (admission_new \<lparr>weights_bytes = 16106127360, kv_bytes_per_token = 34816\<rparr> 34359738368)
             \<lparr>admitted := [131072, 131072, 131072]\<rparr>
   in adm_ok a \<and> admit a 131072 = Inl (WouldExceedBudget 4563402752 4563402752)"
  using admit_exact [of "(admission_new \<lparr>weights_bytes = 16106127360, kv_bytes_per_token = 34816\<rparr>
      34359738368)\<lparr>admitted := [131072, 131072, 131072]\<rparr>" 131072]
  by (simp add: adm_ok_def real_used_def real_need_def admission_new_def used_bytes_def Let_def)

text \<open>
  The hypothesis on the arithmetic matters: the products of \<^verbatim>\<open>admit\<close> are unchecked, so in a
  release build a request whose KV bytes reach \<open>2^64\<close> wraps to nothing and is granted.
\<close>

lemma admit_wraps:
  "admit (admission_new \<lparr>weights_bytes = 0, kv_bytes_per_token = 8589934592\<rparr> 34359738368) 2147483648
   = Inr ((admission_new \<lparr>weights_bytes = 0, kv_bytes_per_token = 8589934592\<rparr> 34359738368)
       \<lparr>admitted := [2147483648]\<rparr>, 2147483648)"
  by (simp add: admit_def admission_new_def used_bytes_def u64_wrap_def Let_def)

lemma admit_release_undo:
  assumes "adm_ok a" and "real_need a ctx \<le> u64_max" and "admit a ctx = Inr (a', g)"
  shows "mset (admitted (adm_release a' g)) = mset (admitted a) \<and>
    used_bytes (adm_release a' g) = used_bytes a \<and>
    real_used (adm_release a' g) = real_used a \<and> real_need (adm_release a' g) ctx = real_need a ctx"
proof -
  from admit_ok [OF assms] have ok: "adm_ok a'" and g: "g = ctx" and ad: "admitted a' = admitted a @ [ctx]"
    and fr: "footprint a' = footprint a" by auto
  let ?b = "adm_release a' g"
  have b: "admitted ?b = remove1 ctx (admitted a @ [ctx])"
    by (simp add: adm_release_remove1 ad g)
  have ms: "mset (admitted ?b) = mset (admitted a)" unfolding b by simp
  then have s: "sum_list (admitted ?b) = sum_list (admitted a)" "admitted ?b = [] \<longleftrightarrow> admitted a = []"
    by (metis sum_mset_sum_list, metis mset_zero_iff)
  then have "real_used ?b = real_used a" "real_need ?b ctx = real_need a ctx"
    by (simp_all add: real_used_def real_need_def fr)
  with ms show ?thesis by (simp add: used_bytes_real adm_release_ok ok assms(1))
qed

text \<open>
  Closing a session gives back exactly what it was charged: releasing the context of
  an admitted session undoes its admission up to the order of the list, and a request that was
  granted once is granted again after the release.
\<close>

theorem admit_release_roundtrip:
  assumes "adm_ok a" and "real_need a ctx \<le> u64_max" and "admit a ctx = Inr (a', g)"
  shows "mset (admitted (adm_release a' g)) = mset (admitted a) \<and>
    used_bytes (adm_release a' g) = used_bytes a \<and>
    (\<exists>a''. admit (adm_release a' g) ctx = Inr (a'', ctx))"
proof -
  note u = admit_release_undo [OF assms]
  have okb: "adm_ok (adm_release a' g)" using admit_ok [OF assms] by (simp add: adm_release_ok)
  from assms have "real_used a + real_need a ctx < budget_bytes a"
    by (auto simp: admit_eq split: if_splits)
  then have "\<exists>a''. admit (adm_release a' g) ctx = Inr (a'', ctx)"
    using assms(2) u admit_ok [OF assms] admit_eq [OF okb, of ctx] by simp
  with u show ?thesis by simp
qed

theorem admit_release_roundtrip_witness:
  "let a = (admission_new \<lparr>weights_bytes = 1000, kv_bytes_per_token = 10\<rparr> 5000)\<lparr>admitted := [50, 100]\<rparr>
   in \<exists>a'. admit a 50 = Inr (a', 50) \<and> used_bytes (adm_release a' 50) = used_bytes a"
proof -
  let ?a = "(admission_new \<lparr>weights_bytes = 1000, kv_bytes_per_token = 10\<rparr> 5000)\<lparr>admitted := [50, 100]\<rparr>"
  have "admit ?a 50 = Inr (?a\<lparr>admitted := [50, 100, 50]\<rparr>, 50)"
    by (simp add: admit_def admission_new_def used_bytes_def Let_def)
  moreover from admit_release_roundtrip [OF _ _ this]
  have "used_bytes (adm_release (?a\<lparr>admitted := [50, 100, 50]\<rparr>) 50) = used_bytes ?a"
    by (simp add: adm_ok_def real_used_def real_need_def admission_new_def)
  ultimately show ?thesis by (simp add: Let_def)
qed

section \<open>The host tier as a byte budget\<close>

text \<open>
  The contract of a bounded byte budget: a reservation that fits is granted and recorded, one that
  does not fit changes nothing, and giving bytes back never raises the use. Shared by the host
  tier here and by the host memory of the swap store.
\<close>

locale byte_budget =
  fixes invar :: "'s \<Rightarrow> bool"
    and used :: "'s \<Rightarrow> nat"
    and limit :: "'s \<Rightarrow> nat"
    and reserve :: "'s \<Rightarrow> nat \<Rightarrow> 's \<times> bool"
    and give_back :: "'s \<Rightarrow> nat \<Rightarrow> 's"
  assumes reserve_fits: "invar s \<Longrightarrow> used s + n \<le> limit s \<Longrightarrow> reserve s n = (s', b) \<Longrightarrow>
      b \<and> invar s' \<and> used s' = used s + n \<and> limit s' = limit s"
    and reserve_refused: "invar s \<Longrightarrow> limit s < used s + n \<Longrightarrow> reserve s n = (s, False)"
    and give_back_ok: "invar s \<Longrightarrow>
      invar (give_back s n) \<and> used (give_back s n) = used s - n \<and> limit (give_back s n) = limit s"
begin

fun run :: "'s \<Rightarrow> (bool \<times> nat) list \<Rightarrow> 's" where
  "run s [] = s"
| "run s ((take_bytes, n) # ops) = run (if take_bytes then fst (reserve s n) else give_back s n) ops"

lemma reserve_ok:
  assumes "invar s" "used s \<le> limit s"
  shows "invar (fst (reserve s n)) \<and> used (fst (reserve s n)) \<le> limit (fst (reserve s n)) \<and>
    limit (fst (reserve s n)) = limit s"
proof (cases "used s + n \<le> limit s")
  case True
  obtain s' b where r: "reserve s n = (s', b)" by fastforce
  from reserve_fits [OF assms(1) True r] True r show ?thesis by simp
next
  case False
  with reserve_refused [OF assms(1), of n] assms show ?thesis by simp
qed

lemma run_within_limit:
  "invar s \<Longrightarrow> used s \<le> limit s \<Longrightarrow>
   invar (run s ops) \<and> used (run s ops) \<le> limit s \<and> limit (run s ops) = limit s"
proof (induction ops arbitrary: s)
  case (Cons op ops)
  obtain t n where op: "op = (t, n)" by (cases op)
  let ?s = "if t then fst (reserve s n) else give_back s n"
  have "invar ?s \<and> used ?s \<le> limit ?s \<and> limit ?s = limit s"
    using reserve_ok [OF Cons.prems, of n] give_back_ok [OF Cons.prems(1), of n] Cons.prems by auto
  with Cons.IH [of ?s] show ?case by (simp add: op)
qed simp

end

interpretation host: byte_budget "\<lambda>a. host_budget a < u64_max" host_used host_budget admit_host release_host
  by unfold_locales
    (auto simp: admit_host_def release_host_def saturating_add64_def min_def split: if_splits)

text \<open>
  Whatever sequence of host-tier reservations and releases the daemon performs, the
  reserved bytes never exceed the host budget: a refused reservation reserves nothing.
\<close>

theorem host_tier_within_budget:
  assumes "host_budget a < u64_max" and "host_used a \<le> host_budget a"
  shows "host_used (fold (\<lambda>(take_bytes, n) s. if take_bytes then fst (admit_host s n)
      else release_host s n) ops a) \<le> host_budget a"
proof -
  have "fold (\<lambda>(t, n) s. if t then fst (admit_host s n) else release_host s n) ops a = host.run a ops"
    by (induction ops arbitrary: a) auto
  with host.run_within_limit [of a ops] assms show ?thesis by simp
qed

theorem host_tier_within_budget_witness:
  "host_used (fold (\<lambda>(take_bytes, n) s. if take_bytes then fst (admit_host s n) else release_host s n)
     [(True, 600), (True, 600), (False, 600), (True, 600)]
     (set_host_budget (admission_new \<lparr>weights_bytes = 0, kv_bytes_per_token = 0\<rparr> 1073741824) 1000))
   \<le> host_budget (set_host_budget (admission_new \<lparr>weights_bytes = 0, kv_bytes_per_token = 0\<rparr> 1073741824) 1000)"
  by (rule host_tier_within_budget) (simp_all add: set_host_budget_def admission_new_def)

end
