(* ===== verification/Prefix_Plan.thy ===== *)
theory Prefix_Plan
  imports Prelude
begin

text \<open>
  The two pure planners that decide how much of a slot's KV a new turn may keep:
  \<^verbatim>\<open>hipfire-runtime/src/prefix.rs\<close> (\<open>lcp\<close>, \<open>plan_turn\<close>, used by the session table) and
  \<^verbatim>\<open>hipfire-runtime/src/cache_plan.rs\<close> (\<open>plan_cache\<close> with its per-architecture policies, used
  by the single-session daemon). Both rest on the longest common prefix of two token lists;
  reusing more than that prefix would read KV computed for other tokens.
\<close>

section \<open>Turn planning (prefix.rs)\<close>

definition lcp :: "'t list \<Rightarrow> 't list \<Rightarrow> nat" where
  "lcp a b = length (takeWhile (\<lambda>(x, y). x = y) (zip a b))"

record turn_plan =
  plan_lcp :: nat
  reused :: nat
  to_prefill :: nat

definition plan_turn :: "'t list \<Rightarrow> nat \<Rightarrow> 't list \<Rightarrow> turn_plan" where
  "plan_turn cached seq_len prompt =
     (let shared = lcp cached prompt;
          capped = min (min shared seq_len) (length prompt - 1)
      in \<lparr>plan_lcp = capped, reused = capped, to_prefill = length prompt - capped\<rparr>)"

section \<open>Prompt-cache planning (cache_plan.rs)\<close>

record cache_plan =
  cache_hit :: bool
  start_pos :: nat
  cached_tokens :: nat
  resume_from :: "nat option"

definition cache_miss :: cache_plan where
  "cache_miss = \<lparr>cache_hit = False, start_pos = 0, cached_tokens = 0, resume_from = None\<rparr>"

datatype exact_match = Miss | StepBack

record cache_policy =
  min_new_len_ge_prior :: bool
  on_exact :: exact_match
  allow_partial :: bool

definition qwen35_policy :: cache_policy where
  "qwen35_policy = \<lparr>min_new_len_ge_prior = False, on_exact = Miss, allow_partial = False\<rparr>"

definition deepseek4_policy :: cache_policy where
  "deepseek4_policy = \<lparr>min_new_len_ge_prior = True, on_exact = StepBack, allow_partial = False\<rparr>"

text \<open>The \<^verbatim>\<open>while lcp < max_match && prior[lcp] == rendered[lcp]\<close> loop.\<close>

function lcp_loop :: "'t list \<Rightarrow> 't list \<Rightarrow> nat \<Rightarrow> nat" where
  "lcp_loop prior rendered i =
     (if i < min (length prior) (length rendered) \<and> prior ! i = rendered ! i
      then lcp_loop prior rendered (Suc i) else i)"
  by pat_completeness auto
termination
  by (relation "measure (\<lambda>(p, r, i). min (length p) (length r) - i)") auto

declare lcp_loop.simps [simp del]

definition latest_checkpoint :: "nat list \<Rightarrow> nat \<Rightarrow> nat \<Rightarrow> nat option" where
  "latest_checkpoint checkpoints n len =
     max_by_key id (filter (\<lambda>p. p \<le> n \<and> p < len) checkpoints)"

definition plan_cache ::
  "'t list \<Rightarrow> 't list \<Rightarrow> cache_policy \<Rightarrow> nat list \<Rightarrow> bool \<Rightarrow> cache_plan" where
  "plan_cache rendered prior policy checkpoints resume_enabled =
     (if prior = [] then cache_miss
      else if min_new_len_ge_prior policy \<and> length rendered < length prior then cache_miss
      else
        let raw = lcp_loop prior rendered 0;
            exact = (raw = length rendered \<and> 0 < raw)
        in if exact \<and> on_exact policy = Miss then cache_miss
           else
             let n = (if exact then raw - 1 else raw)
             in if n = length prior \<and> n < length rendered \<and> 0 < n
                then \<lparr>cache_hit = True, start_pos = n, cached_tokens = n, resume_from = None\<rparr>
                else if 0 < n \<and> n < length prior
                then if allow_partial policy
                     then \<lparr>cache_hit = True, start_pos = n, cached_tokens = n, resume_from = None\<rparr>
                     else if resume_enabled
                     then (case latest_checkpoint checkpoints n (length rendered) of
                             Some ckpt \<Rightarrow> \<lparr>cache_hit = True, start_pos = ckpt, cached_tokens = ckpt,
                                          resume_from = Some ckpt\<rparr>
                           | None \<Rightarrow> cache_miss)
                     else cache_miss
                else cache_miss)"

section \<open>The longest common prefix\<close>

lemma lcp_Cons [simp]: "lcp (x # xs) (y # ys) = (if x = y then Suc (lcp xs ys) else 0)"
  by (simp add: lcp_def)

lemma lcp_Nil [simp]: "lcp [] ys = 0" "lcp xs [] = 0"
  by (simp_all add: lcp_def)

lemma lcp_bounds: "lcp xs ys \<le> length xs" "lcp xs ys \<le> length ys"
  unfolding lcp_def by (rule order_trans [OF length_takeWhile_le], simp)+

lemma lcp_take: "take (lcp xs ys) xs = take (lcp xs ys) ys"
proof (induction xs arbitrary: ys)
  case (Cons x xs)
  then show ?case by (cases ys) auto
qed simp

lemma lcp_take_le: "n \<le> lcp xs ys \<Longrightarrow> take n xs = take n ys"
  by (metis lcp_take min.absorb1 take_take)

lemma lcp_greatest:
  "n \<le> length xs \<Longrightarrow> n \<le> length ys \<Longrightarrow> take n xs = take n ys \<Longrightarrow> n \<le> lcp xs ys"
proof (induction xs arbitrary: ys n)
  case (Cons x xs)
  then show ?case by (cases ys; cases n) auto
qed simp

lemma lcp_append: "lcp xs (xs @ ys) = length xs"
  by (induction xs) auto

lemma lcp_loop_eq:
  "i \<le> lcp prior rendered \<Longrightarrow> lcp_loop prior rendered i = lcp prior rendered"
proof (induction prior rendered i rule: lcp_loop.induct)
  case (1 prior rendered i)
  note b = lcp_bounds [of prior rendered]
  show ?case
  proof (cases "i < lcp prior rendered")
    case True
    have "prior ! i = rendered ! i"
      using arg_cong [OF lcp_take, of "\<lambda>l. l ! i" prior rendered] True by simp
    moreover have "i < min (length prior) (length rendered)" using True b by linarith
    ultimately show ?thesis using 1(1) True by (subst lcp_loop.simps) simp
  next
    case False
    with 1(2) have i: "i = lcp prior rendered" by simp
    have "\<not> (i < min (length prior) (length rendered) \<and> prior ! i = rendered ! i)"
    proof
      assume c: "i < min (length prior) (length rendered) \<and> prior ! i = rendered ! i"
      then have "take (Suc i) prior = take (Suc i) rendered"
        using lcp_take [of prior rendered] by (simp add: i take_Suc_conv_app_nth)
      with c lcp_greatest [of "Suc i" prior rendered] show False by (simp add: i)
    qed
    then have "lcp_loop prior rendered i = i" by (subst lcp_loop.simps) auto
    then show ?thesis by (simp only: i)
  qed
qed

lemma lcp_loop_lcp [simp]: "lcp_loop prior rendered 0 = lcp prior rendered"
  by (rule lcp_loop_eq) simp

text \<open>
  Property C30. A turn plan reuses the longest run it may: the reused tokens are common to the
  cached conversation and the prompt, are all held in the slot, and leave at least the last
  prompt token to prefill; no longer run has these three properties; and what is reused and what
  is prefilled make up the whole prompt.
\<close>

theorem plan_turn_optimal:
  "let plan = plan_turn cached seq_len prompt in
   reused plan \<le> seq_len \<and> (prompt \<noteq> [] \<longrightarrow> reused plan < length prompt) \<and>
   take (reused plan) cached = take (reused plan) prompt \<and> reused plan \<le> length cached \<and>
   reused plan + to_prefill plan = length prompt \<and>
   (\<forall>n. n \<le> seq_len \<and> n < length prompt \<and> n \<le> length cached \<and> take n cached = take n prompt \<longrightarrow>
        n \<le> reused plan)"
proof -
  let ?r = "min (min (lcp cached prompt) seq_len) (length prompt - 1)"
  have r: "reused (plan_turn cached seq_len prompt) = ?r"
    "to_prefill (plan_turn cached seq_len prompt) = length prompt - ?r"
    by (simp_all add: plan_turn_def Let_def)
  have "?r \<le> lcp cached prompt" by simp
  then have "take ?r cached = take ?r prompt" by (rule lcp_take_le)
  moreover have "?r \<le> length cached" using lcp_bounds(1) [of cached prompt] by linarith
  moreover have "n \<le> ?r" if "n \<le> seq_len" "n < length prompt" "n \<le> length cached"
    "take n cached = take n prompt" for n
    using lcp_greatest [of n cached prompt] that by simp
  moreover have "prompt \<noteq> [] \<longrightarrow> ?r < length prompt"
    by (metis diff_less length_greater_0_conv min.cobounded2 order_le_less_trans zero_less_one)
  ultimately show ?thesis unfolding r Let_def by simp
qed

theorem plan_turn_optimal_witness:
  "reused (plan_turn [1, 2, 3, 4 :: nat] 4 [1, 2, 3, 4]) = 3 \<and>
   take 3 [1, 2, 3, 4 :: nat] = take 3 [1, 2, 3, 4] \<and> 3 < length [1, 2, 3, 4 :: nat]"
  using plan_turn_optimal [of "[1, 2, 3, 4 :: nat]" 4 "[1, 2, 3, 4]"]
  by (simp add: Let_def plan_turn_def)

lemma plan_turn_prefix:
  "take (reused (plan_turn cached n prompt)) cached = take (reused (plan_turn cached n prompt)) prompt"
  "reused (plan_turn cached n prompt) + to_prefill (plan_turn cached n prompt) = length prompt"
  by (auto simp: plan_turn_def Let_def intro!: lcp_take_le)

lemma latest_checkpoint_Some:
  "latest_checkpoint cs n len = Some c \<Longrightarrow>
   c \<in> set cs \<and> c \<le> n \<and> c < len \<and> (\<forall>d\<in>set cs. d \<le> n \<and> d < len \<longrightarrow> d \<le> c)"
  by (auto simp: latest_checkpoint_def dest!: max_by_key_Some)

abbreviation hit_at :: "nat \<Rightarrow> nat option \<Rightarrow> cache_plan" where
  "hit_at n r \<equiv> \<lparr>cache_hit = True, start_pos = n, cached_tokens = n, resume_from = r\<rparr>"

lemma plan_cache_cases:
  obtains (miss) "plan_cache rendered prior policy cs resume = cache_miss"
    | (hit) n where "plan_cache rendered prior policy cs resume = hit_at n None"
        "n \<le> lcp prior rendered" "n < length rendered"
    | (resume) c n where "plan_cache rendered prior policy cs resume = hit_at c (Some c)" "resume"
        "latest_checkpoint cs n (length rendered) = Some c"
        "n \<le> lcp prior rendered" "lcp prior rendered - 1 \<le> n"
proof -
  let ?plan = "plan_cache rendered prior policy cs resume"
  define exact where "exact \<longleftrightarrow> lcp prior rendered = length rendered \<and> 0 < lcp prior rendered"
  define n where "n = (if exact then lcp prior rendered - 1 else lcp prior rendered)"
  have n: "n \<le> lcp prior rendered" "lcp prior rendered - 1 \<le> n" "0 < n \<Longrightarrow> n < length rendered"
    using lcp_bounds(2) [of prior rendered] by (auto simp: n_def exact_def split: if_splits)
  have eq: "?plan = (if prior = [] \<or> min_new_len_ge_prior policy \<and> length rendered < length prior \<or>
        exact \<and> on_exact policy = Miss then cache_miss
      else if n = length prior \<and> n < length rendered \<and> 0 < n then hit_at n None
      else if 0 < n \<and> n < length prior
      then if allow_partial policy then hit_at n None
           else if resume
           then (case latest_checkpoint cs n (length rendered) of
                   Some c \<Rightarrow> hit_at c (Some c) | None \<Rightarrow> cache_miss)
           else cache_miss
      else cache_miss)"
    unfolding plan_cache_def lcp_loop_lcp Let_def exact_def [symmetric] n_def [symmetric] by simp
  consider "?plan = cache_miss" | "0 < n" "?plan = hit_at n None"
    | c where "resume" "latest_checkpoint cs n (length rendered) = Some c" "?plan = hit_at c (Some c)"
    using eq by (cases "latest_checkpoint cs n (length rendered)") (auto split: if_splits)
  then show thesis
  proof cases
    case 1
    then show ?thesis by (rule miss)
  next
    case 2
    with n(1,3) show ?thesis by (intro hit)
  next
    case (3 c)
    with n(1,2) show ?thesis by (intro resume)
  qed
qed

text \<open>
  Whatever the policy, a plan never claims KV it may not claim: on a hit the tokens
  before \<open>start_pos\<close> are the same in the new render and in the previous conversation and at
  least one token is left to prefill, a resume position is one of the recorded checkpoints and is
  the latest usable one, \<open>cached_tokens\<close> is \<open>start_pos\<close>, and a miss prefills from the start.
\<close>

theorem plan_cache_sound:
  "let plan = plan_cache rendered prior policy checkpoints resume in
   cached_tokens plan = start_pos plan \<and>
   (cache_hit plan \<longrightarrow>
      start_pos plan < length rendered \<and> start_pos plan \<le> length prior \<and>
      take (start_pos plan) rendered = take (start_pos plan) prior) \<and>
   (\<not> cache_hit plan \<longrightarrow> plan = cache_miss) \<and>
   (\<forall>c. resume_from plan = Some c \<longrightarrow> resume \<and> c \<in> set checkpoints \<and> start_pos plan = c \<and>
      (\<forall>d\<in>set checkpoints. d \<le> lcp prior rendered - 1 \<and> d < length rendered \<longrightarrow> d \<le> c))"
proof (cases rendered prior policy checkpoints resume rule: plan_cache_cases)
  case miss
  then show ?thesis by (simp add: cache_miss_def)
next
  case (hit n)
  then show ?thesis
    using lcp_take_le [OF hit(2)] lcp_bounds(1) [of prior rendered] by simp
next
  case (resume c n)
  from latest_checkpoint_Some [OF resume(3)] have c: "c \<in> set checkpoints" "c \<le> n" "c < length rendered"
    and latest: "\<forall>d\<in>set checkpoints. d \<le> n \<and> d < length rendered \<longrightarrow> d \<le> c" by auto
  then have "c \<le> lcp prior rendered" using resume(4) by simp
  then show ?thesis
    using resume(1,2,5) c latest lcp_take_le [of c prior rendered] lcp_bounds(1) [of prior rendered]
    by (simp add: order_trans)
qed

theorem plan_cache_sound_witness:
  "let plan = plan_cache [1, 2, 9, 9, 9 :: nat] [1, 2, 3, 4] qwen35_policy [0, 1] True in
   cache_hit plan \<and> resume_from plan = Some 1 \<and>
   take (start_pos plan) [1, 2, 9, 9, 9 :: nat] = take (start_pos plan) [1, 2, 3, 4]"
proof -
  have "cache_hit (plan_cache [1, 2, 9, 9, 9 :: nat] [1, 2, 3, 4] qwen35_policy [0, 1] True)"
    "resume_from (plan_cache [1, 2, 9, 9, 9 :: nat] [1, 2, 3, 4] qwen35_policy [0, 1] True) = Some 1"
    by (simp_all add: plan_cache_def qwen35_policy_def latest_checkpoint_def Let_def)
  with plan_cache_sound [of "[1, 2, 9, 9, 9 :: nat]" "[1, 2, 3, 4]" qwen35_policy "[0, 1]" True]
  show ?thesis by (simp add: Let_def)
qed

text \<open>
  For the hybrid architectures the planner decides exactly as documented: a strict
  forward extension of a non-empty conversation is a hit at its full length under both policies,
  and the deepseek4 policy without checkpoints hits on nothing else, so its compressor ring is
  never resumed in the middle.
\<close>

theorem plan_cache_extension:
  "(prior \<noteq> [] \<and> suffix \<noteq> [] \<longrightarrow>
      plan_cache (prior @ suffix) prior qwen35_policy checkpoints resume =
        \<lparr>cache_hit = True, start_pos = length prior, cached_tokens = length prior, resume_from = None\<rparr> \<and>
      plan_cache (prior @ suffix) prior deepseek4_policy checkpoints resume =
        \<lparr>cache_hit = True, start_pos = length prior, cached_tokens = length prior, resume_from = None\<rparr>) \<and>
   (cache_hit (plan_cache rendered prior deepseek4_policy [] resume) \<longrightarrow>
      (\<exists>suffix. suffix \<noteq> [] \<and> rendered = prior @ suffix))"
proof -
  let ?p = "plan_cache rendered prior deepseek4_policy [] resume"
  have "\<exists>suffix. suffix \<noteq> [] \<and> rendered = prior @ suffix" if hit: "cache_hit ?p"
  proof -
    have len: "lcp prior rendered = length prior" "length prior < length rendered"
      using hit lcp_bounds [of prior rendered]
      by (auto simp: plan_cache_def cache_miss_def deepseek4_policy_def latest_checkpoint_def Let_def
          split: if_splits)
    then have "rendered = prior @ drop (length prior) rendered"
      using lcp_take [of prior rendered] by (metis append_take_drop_id take_all order_refl)
    with len show ?thesis by (metis append_Nil2 less_irrefl)
  qed
  then show ?thesis
    by (auto simp: plan_cache_def lcp_append qwen35_policy_def deepseek4_policy_def Let_def)
qed

theorem plan_cache_extension_witness:
  "cache_hit (plan_cache [1, 2, 3, 4, 5 :: nat] [1, 2, 3] deepseek4_policy [] False) \<and>
   (\<exists>suffix. suffix \<noteq> [] \<and> [1, 2, 3, 4, 5 :: nat] = [1, 2, 3] @ suffix)"
  using plan_cache_extension [of "[1, 2, 3 :: nat]" "[4, 5]" "[]" False "[1, 2, 3, 4, 5]"]
  by simp

end
