(* ===== verification/Session_Table.thy ===== *)
theory Session_Table
  imports Slot_Pool Admission Prefix_Plan
begin

text \<open>
  \<^verbatim>\<open>hipfire-runtime/src/session_table.rs\<close>: which session holds which slot. The table is a map
  from session ids to sessions with the id counter and the LRU clock; every operation that also
  touches the slot pool or the admission controller takes and returns them.

  The \<^verbatim>\<open>HashMap\<close> of the source is a map \<open>nat \<rightharpoonup> session\<close>; its iteration visits the keys below
  the id counter in ascending order. The real iteration order is arbitrary, and the
  characterisations of the two searches below are stated without an order, which is possible
  because no two sessions carry the same LRU stamp. Ids and stamps are 64-bit counters that are
  only ever incremented by one; they are unbounded here.
\<close>

datatype residency = Resident | Swapped | Cold

record session =
  ses_slot :: "nat option"
  granted_ctx :: nat
  ses_tokens :: "token list"
  next_pos :: nat
  ses_residency :: residency
  convo :: "64 word list"
  last_used :: nat

record session_table =
  sessions :: "nat \<rightharpoonup> session"
  next_id :: nat
  clock :: nat

definition empty_table :: session_table where
  "empty_table = \<lparr>sessions = Map.empty, next_id = 0, clock = 0\<rparr>"

datatype turn_error = UnknownSession nat | HoldsNoSlot nat | TurnPool pool_error

section \<open>Operations\<close>

definition session_open ::
  "slot_pool \<Rightarrow> admission \<Rightarrow> session_table \<Rightarrow> nat \<Rightarrow>
   (slot_pool \<times> admission \<times> session_table \<times> (admit_error + nat)) option" where
  "session_open pool adm t requested_ctx =
     (case admit adm requested_ctx of
        Inl e \<Rightarrow> Some (pool, adm, t, Inl e)
      | Inr (adm', granted) \<Rightarrow> do {
          (pool', r) \<leftarrow> pool_acquire pool;
          case r of
            None \<Rightarrow> Some (pool', adm_release adm' granted, t, Inl PoolFull)
          | Some slot \<Rightarrow>
              let sid = next_id t; now = clock t + 1;
                  s = \<lparr>ses_slot = Some slot, granted_ctx = granted, ses_tokens = [], next_pos = 0,
                       ses_residency = Resident, convo = [], last_used = now\<rparr>
              in Some (pool', adm', t\<lparr>sessions := (sessions t)(sid \<mapsto> s), next_id := sid + 1,
                                     clock := now\<rparr>, Inr sid)
        })"

definition release_opt :: "slot_pool \<Rightarrow> nat option \<Rightarrow> slot_pool option" where
  "release_opt pool so = (case so of None \<Rightarrow> Some pool | Some slot \<Rightarrow> pool_release pool slot)"

definition session_close ::
  "slot_pool \<Rightarrow> admission \<Rightarrow> session_table \<Rightarrow> nat \<Rightarrow> (slot_pool \<times> admission \<times> session_table) option" where
  "session_close pool adm t sid =
     (case sessions t sid of
        None \<Rightarrow> Some (pool, adm, t)
      | Some s \<Rightarrow> do {
          pool' \<leftarrow> release_opt pool (ses_slot s);
          Some (pool', adm_release adm (granted_ctx s), t\<lparr>sessions := (sessions t)(sid := None)\<rparr>)
        })"

text \<open>\<^verbatim>\<open>get_mut\<close>: change a session in place; a missing id changes nothing.\<close>

definition session_update :: "session_table \<Rightarrow> nat \<Rightarrow> (session \<Rightarrow> session) \<Rightarrow> session_table" where
  "session_update t sid f =
     (case sessions t sid of None \<Rightarrow> t | Some s \<Rightarrow> t\<lparr>sessions := (sessions t)(sid \<mapsto> f s)\<rparr>)"

definition begin_turn ::
  "slot_pool \<Rightarrow> session_table \<Rightarrow> nat \<Rightarrow> token list \<Rightarrow>
   (slot_pool \<times> session_table \<times> (turn_error + turn_plan)) option" where
  "begin_turn pool t sid prompt =
     (case sessions t sid of
        None \<Rightarrow> Some (pool, t, Inl (UnknownSession sid))
      | Some s \<Rightarrow>
        (case ses_slot s of
           None \<Rightarrow> Some (pool, t, Inl (HoldsNoSlot sid))
         | Some slot \<Rightarrow> do {
             held \<leftarrow> held_len pool slot;
             let plan = plan_turn (ses_tokens s) held prompt;
             r \<leftarrow> pool_set_seq_len pool slot (reused plan);
             case r of
               Inl e \<Rightarrow> Some (pool, t, Inl (TurnPool e))
             | Inr pool' \<Rightarrow>
                 Some (pool', session_update t sid
                   (\<lambda>s. s\<lparr>ses_tokens := take (reused plan) (ses_tokens s), next_pos := reused plan\<rparr>),
                   Inr plan)
           }))"

definition session_entries :: "session_table \<Rightarrow> (nat \<times> session) list" where
  "session_entries t = List.map_filter (\<lambda>sid. map_option (Pair sid) (sessions t sid)) [0..<next_id t]"

definition continues :: "64 word list \<Rightarrow> nat list \<Rightarrow> nat \<times> session \<Rightarrow> bool" where
  "continues expect busy = (\<lambda>(sid, s). ses_residency s \<noteq> Cold \<and> convo s = expect \<and>
     ses_tokens s \<noteq> [] \<and> sid \<notin> set busy)"

definition find_continuation :: "session_table \<Rightarrow> 64 word list \<Rightarrow> nat list \<Rightarrow> nat option" where
  "find_continuation t want busy =
     (if length want < 2 then None
      else map_option fst
        (max_by_key (\<lambda>(_, s). last_used s)
          (filter (continues (butlast want) busy) (session_entries t))))"

definition touch :: "session_table \<Rightarrow> nat \<Rightarrow> session_table" where
  "touch t sid =
     (let now = clock t + 1
      in session_update (t\<lparr>clock := now\<rparr>) sid (\<lambda>s. s\<lparr>last_used := now\<rparr>))"

definition evictable :: "nat list \<Rightarrow> nat \<times> session \<Rightarrow> bool" where
  "evictable busy = (\<lambda>(sid, s). ses_slot s \<noteq> None \<and> sid \<notin> set busy)"

definition lru_idle_victim :: "session_table \<Rightarrow> nat list \<Rightarrow> nat option" where
  "lru_idle_victim t busy =
     map_option fst
       (min_by_key (\<lambda>(_, s). last_used s) (filter (evictable busy) (session_entries t)))"

definition mark_swapped :: "slot_pool \<Rightarrow> session_table \<Rightarrow> nat \<Rightarrow> (slot_pool \<times> session_table) option" where
  "mark_swapped pool t sid =
     (case sessions t sid of
        None \<Rightarrow> Some (pool, t)
      | Some s \<Rightarrow> do {
          pool' \<leftarrow> release_opt pool (ses_slot s);
          Some (pool', session_update t sid (\<lambda>s. s\<lparr>ses_slot := None, ses_residency := Swapped\<rparr>))
        })"

definition mark_cold :: "slot_pool \<Rightarrow> session_table \<Rightarrow> nat \<Rightarrow> (slot_pool \<times> session_table) option" where
  "mark_cold pool t sid =
     (case sessions t sid of
        None \<Rightarrow> Some (pool, t)
      | Some s \<Rightarrow> do {
          pool' \<leftarrow> release_opt pool (ses_slot s);
          Some (pool', session_update t sid
            (\<lambda>s. s\<lparr>ses_slot := None, ses_residency := Cold, next_pos := 0\<rparr>))
        })"

definition mark_resident :: "session_table \<Rightarrow> nat \<Rightarrow> nat \<Rightarrow> nat \<Rightarrow> session_table" where
  "mark_resident t sid slot seq_len =
     (let now = clock t + 1
      in session_update (t\<lparr>clock := now\<rparr>) sid
           (\<lambda>s. s\<lparr>ses_slot := Some slot, ses_residency := Resident, next_pos := seq_len,
                 last_used := now\<rparr>))"

definition resident_count :: "session_table \<Rightarrow> nat" where
  "resident_count t = length (filter (\<lambda>(_, s). ses_slot s \<noteq> None) (session_entries t))"

definition active_count :: "session_table \<Rightarrow> nat" where
  "active_count t = length (session_entries t)"

section \<open>Invariants\<close>

definition table_ok :: "session_table \<Rightarrow> bool" where
  "table_ok t \<longleftrightarrow>
     (\<forall>sid s. sessions t sid = Some s \<longrightarrow>
        sid < next_id t \<and> last_used s \<le> clock t \<and> (ses_slot s \<noteq> None \<longleftrightarrow> ses_residency s = Resident)) \<and>
     (\<forall>i j s u. sessions t i = Some s \<and> sessions t j = Some u \<and> i \<noteq> j \<longrightarrow>
        last_used s \<noteq> last_used u \<and> (ses_slot s \<noteq> None \<longrightarrow> ses_slot s \<noteq> ses_slot u))"

definition held_slots :: "session_table \<Rightarrow> nat set" where
  "held_slots t = {i. \<exists>sid s. sessions t sid = Some s \<and> ses_slot s = Some i}"

text \<open>
  The three components agree: the slots in use are exactly the slots sessions hold, and the
  controller is charged for exactly the sessions of the table.
\<close>

definition world_ok :: "slot_pool \<Rightarrow> admission \<Rightarrow> session_table \<Rightarrow> bool" where
  "world_ok pool adm t \<longleftrightarrow>
     pool_wf pool \<and> adm_ok adm \<and> table_ok t \<and> held_slots t = used_slots pool \<and>
     mset (admitted adm) = mimage granted_ctx (sessions t)"

lemmas table_op_defs = session_update_def touch_def mark_resident_def Let_def

lemma table_okD:
  "table_ok t \<Longrightarrow> sessions t sid = Some s \<Longrightarrow>
   sid < next_id t \<and> last_used s \<le> clock t \<and> (ses_slot s \<noteq> None \<longleftrightarrow> ses_residency s = Resident)"
  by (simp add: table_ok_def)

lemma table_ok_inj:
  "table_ok t \<Longrightarrow> sessions t i = Some s \<Longrightarrow> sessions t j = Some u \<Longrightarrow> last_used s = last_used u \<Longrightarrow> i = j"
  unfolding table_ok_def by metis

lemma table_ok_slot_inj:
  "table_ok t \<Longrightarrow> sessions t i = Some s \<Longrightarrow> sessions t j = Some u \<Longrightarrow>
   ses_slot s = Some k \<Longrightarrow> ses_slot u = Some k \<Longrightarrow> i = j"
  unfolding table_ok_def by (metis option.discI)

lemma finite_sessions: "table_ok t \<Longrightarrow> finite (dom (sessions t))"
  by (rule finite_subset [of _ "{..<next_id t}"]) (auto dest: table_okD)

lemma table_ok_empty [simp]: "table_ok empty_table" "held_slots empty_table = {}"
  by (auto simp: table_ok_def empty_table_def held_slots_def)

lemma set_session_entries:
  "table_ok t \<Longrightarrow> (sid, s) \<in> set (session_entries t) \<longleftrightarrow> sessions t sid = Some s"
  by (force simp: session_entries_def List.map_filter_def dest: table_okD)

lemma session_entries_key_inj:
  assumes "table_ok t"
  shows "inj_on (\<lambda>(_, s). last_used s) (set (session_entries t))"
proof (rule inj_onI, clarify)
  fix i s j u
  assume m: "(i, s) \<in> set (session_entries t)" "(j, u) \<in> set (session_entries t)"
    and eq: "last_used s = last_used u"
  then have "sessions t i = Some s" "sessions t j = Some u" using assms by (simp_all add: set_session_entries)
  with table_ok_inj [OF assms this eq] show "i = j \<and> s = u" by simp
qed

text \<open>
  Changing one session keeps the table invariant when its stamp stays unique and below the clock
  and its slot is not held by another session.
\<close>

lemma table_ok_update:
  assumes ok: "table_ok t" and s: "sessions t sid = Some s"
    and c: "clock t \<le> c" and res: "ses_slot v \<noteq> None \<longleftrightarrow> ses_residency v = Resident"
    and stamp: "last_used v = last_used s \<or> clock t < last_used v \<and> last_used v \<le> c"
    and slot: "ses_slot v = ses_slot s \<or> ses_slot v = None \<or>
               (\<forall>k. ses_slot v = Some k \<longrightarrow> k \<notin> held_slots t)"
  shows "table_ok (t\<lparr>sessions := (sessions t)(sid \<mapsto> v), clock := c\<rparr>)"
proof -
  have le: "last_used w \<le> clock t" "j < next_id t" if "sessions t j = Some w" for j w
    using table_okD [OF ok that] by auto
  have other: "last_used w \<noteq> last_used v \<and> (ses_slot w \<noteq> None \<longrightarrow> ses_slot w \<noteq> ses_slot v)"
    if "sessions t j = Some w" "j \<noteq> sid" for j w
  proof -
    have "last_used w \<noteq> last_used s" "ses_slot w \<noteq> None \<longrightarrow> ses_slot w \<noteq> ses_slot s"
      using ok s that unfolding table_ok_def by metis+
    moreover have "k \<in> held_slots t" if "ses_slot w = Some k" for k
      using that \<open>sessions t j = Some w\<close> by (auto simp: held_slots_def)
    ultimately show ?thesis using le [OF that(1)] stamp slot by fastforce
  qed
  have "last_used v \<le> c" using stamp c le [OF s] by auto
  then show ?thesis
    using ok res c le le(2) [OF s] other unfolding table_ok_def
    by (simp add: order_trans [OF _ c]) (metis (no_types, lifting) le(1) order_trans)
qed


lemma held_slots_clock [simp]: "held_slots (t\<lparr>clock := c\<rparr>) = held_slots t"
  by (simp add: held_slots_def)

lemma held_slots_update:
  assumes "table_ok t" and "sessions t sid = Some s"
  shows "held_slots (t\<lparr>sessions := (sessions t)(sid \<mapsto> v), clock := c\<rparr>) =
    held_slots t - set_option (ses_slot s) \<union> set_option (ses_slot v)"
  using assms(2) table_ok_slot_inj [OF assms(1)] unfolding held_slots_def
  by (auto split: if_splits; metis option.inject)

lemma held_slots_insert:
  "sessions t sid = None \<Longrightarrow>
   held_slots (t\<lparr>sessions := (sessions t)(sid \<mapsto> v), next_id := n, clock := c\<rparr>) =
     held_slots t \<union> set_option (ses_slot v)"
  unfolding held_slots_def by (auto split: if_splits) (metis option.distinct(1))

lemma held_slots_remove:
  assumes "table_ok t" and "sessions t sid = Some s"
  shows "held_slots (t\<lparr>sessions := (sessions t)(sid := None)\<rparr>) = held_slots t - set_option (ses_slot s)"
  using assms(2) table_ok_slot_inj [OF assms(1)] unfolding held_slots_def
  by (auto split: if_splits; metis option.inject)

lemma release_opt_ok:
  assumes "pool_wf pool" and "set_option so \<subseteq> used_slots pool"
  shows "\<exists>pool'. release_opt pool so = Some pool' \<and> pool_wf pool' \<and>
    used_slots pool' = used_slots pool - set_option so \<and> n_slots pool' = n_slots pool \<and>
    cap_tokens pool' = cap_tokens pool \<and>
    (\<forall>j<n_slots pool. j \<notin> set_option so \<longrightarrow> slot_len pool' j = slot_len pool j)"
proof (cases so)
  case (Some i)
  then have "i < n_slots pool" using assms used_slots_less by auto
  from sp.rel_ok [OF assms(1) this] Some show ?thesis by (auto simp: release_opt_def)
qed (use assms in \<open>auto simp: release_opt_def\<close>)

text \<open>The slot of a session of a consistent world is in use.\<close>

lemma world_slot_used:
  "world_ok pool adm t \<Longrightarrow> sessions t sid = Some s \<Longrightarrow> set_option (ses_slot s) \<subseteq> used_slots pool"
  unfolding world_ok_def held_slots_def by (cases "ses_slot s") blast+

text \<open>Changing a session without touching its slot, stamp order or grant keeps the world consistent.\<close>

lemma world_ok_change:
  assumes ok: "world_ok pool adm t" and s: "sessions t sid = Some s"
    and p': "pool_wf pool'" "used_slots pool' = used_slots pool - set_option (ses_slot s) \<union> set_option (ses_slot v)"
    and c: "clock t \<le> c" and res: "ses_slot v \<noteq> None \<longleftrightarrow> ses_residency v = Resident"
    and stamp: "last_used v = last_used s \<or> clock t < last_used v \<and> last_used v \<le> c"
    and slot: "ses_slot v = ses_slot s \<or> ses_slot v = None \<or>
               (\<forall>k. ses_slot v = Some k \<longrightarrow> k \<notin> held_slots t)"
    and grant: "granted_ctx v = granted_ctx s"
  shows "world_ok pool' adm (t\<lparr>sessions := (sessions t)(sid \<mapsto> v), clock := c\<rparr>)"
proof -
  have t: "table_ok t" and h: "held_slots t = used_slots pool" using ok by (auto simp: world_ok_def)
  have "mimage granted_ctx ((sessions t)(sid \<mapsto> v)) = mimage granted_ctx (sessions t)"
    by (rule mimage_change [OF finite_sessions [OF t] s]) (rule grant)
  with ok p' h table_ok_update [OF t s c res stamp slot] held_slots_update [OF t s, where v = v and c = c]
  show ?thesis by (simp add: world_ok_def)
qed

section \<open>Every operation keeps the world consistent and does not panic\<close>

lemma table_ok_insert:
  assumes ok: "table_ok t" and slot: "k \<notin> held_slots t"
    and v: "ses_slot v = Some k" "ses_residency v = Resident" "last_used v = clock t + 1"
  shows "table_ok (t\<lparr>sessions := (sessions t)(next_id t \<mapsto> v), next_id := next_id t + 1,
                     clock := clock t + 1\<rparr>)"
proof -
  have old: "j < next_id t" "last_used w \<le> clock t" "ses_slot w \<noteq> Some k"
    if "sessions t j = Some w" for j w
    using table_okD [OF ok that] that slot by (auto simp: held_slots_def)
  show ?thesis
    using ok v old unfolding table_ok_def
    by (auto split: if_splits simp: less_Suc_eq le_Suc_eq) (metis Suc_n_not_le_n)+
qed

lemma next_id_fresh: "table_ok t \<Longrightarrow> sessions t (next_id t) = None"
  using table_okD [of t "next_id t"] by (cases "sessions t (next_id t)") auto

lemma session_open_ok [keeps]:
  assumes ok: "world_ok pool adm t" and need: "real_need adm ctx \<le> u64_max"
  shows "\<exists>pool' adm' t' r. session_open pool adm t ctx = Some (pool', adm', t', r) \<and>
    world_ok pool' adm' t' \<and> n_slots pool' = n_slots pool \<and> cap_tokens pool' = cap_tokens pool \<and>
    (\<forall>j<n_slots pool. slot_len pool' j = slot_len pool j) \<and>
    (case r of
       Inl e \<Rightarrow> pool' = pool \<and> t' = t \<and> used_bytes adm' = used_bytes adm \<and>
         (e = PoolFull \<longrightarrow> used_slots pool = {..<n_slots pool})
     | Inr sid \<Rightarrow> sid = next_id t \<and> sessions t sid = None \<and>
         (\<exists>k. k \<notin> used_slots pool \<and> used_slots pool' = insert k (used_slots pool) \<and>
            k < n_slots pool \<and> slot_len pool' k = 0 \<and>
            t' = t\<lparr>sessions := (sessions t)(sid \<mapsto>
                   \<lparr>ses_slot = Some k, granted_ctx = ctx, ses_tokens = [], next_pos = 0,
                    ses_residency = Resident, convo = [], last_used = clock t + 1\<rparr>),
                  next_id := sid + 1, clock := clock t + 1\<rparr> \<and>
            admitted adm' = admitted adm @ [ctx]))"
proof (cases "admit adm ctx")
  case (Inl e)
  then have "e \<noteq> PoolFull" by (auto simp: admit_def Let_def split: if_splits)
  with Inl ok show ?thesis by (simp add: session_open_def)
next
  case (Inr ag)
  obtain adm1 g where a: "admit adm ctx = Inr (adm1, g)" using Inr by (cases ag) auto
  have w: "pool_wf pool" "adm_ok adm" "table_ok t" "held_slots t = used_slots pool"
    "mset (admitted adm) = mimage granted_ctx (sessions t)"
    using ok by (auto simp: world_ok_def)
  note a1 = admit_ok [OF w(2) need a]
  show ?thesis
  proof (cases "used_slots pool = {..<n_slots pool}")
    case True
    from admit_release_undo [OF w(2) need a] sp.acq_full [OF w(1) True] a1 ok True show ?thesis
      by (simp add: session_open_def a world_ok_def adm_release_ok)
  next
    case False
    from sp.acq_free [OF w(1) this] obtain p' k where
      acq: "pool_acquire pool = Some (p', Some k)" and p': "pool_wf p'"
      and k: "k < n_slots pool" "k \<notin> used_slots pool" "used_slots p' = insert k (used_slots pool)"
      and fr: "n_slots p' = n_slots pool" "cap_tokens p' = cap_tokens pool" "slot_len p' k = 0"
        "\<forall>j<n_slots pool. slot_len p' j = slot_len pool j"
      by blast
    let ?v = "\<lparr>ses_slot = Some k, granted_ctx = ctx, ses_tokens = [], next_pos = 0,
      ses_residency = Resident, convo = [], last_used = clock t + 1\<rparr>"
    let ?t = "t\<lparr>sessions := (sessions t)(next_id t \<mapsto> ?v), next_id := next_id t + 1,
      clock := clock t + 1\<rparr>"
    have fresh: "sessions t (next_id t) = None" using w(3) by (rule next_id_fresh)
    have "table_ok ?t" using k(2) w(3,4) by (intro table_ok_insert) auto
    moreover have "held_slots ?t = used_slots p'"
      using held_slots_insert [OF fresh, where v = ?v and n = "next_id t + 1" and c = "clock t + 1"] w(4) k(3) by simp
    moreover have "mimage granted_ctx (sessions ?t) = add_mset ctx (mimage granted_ctx (sessions t))"
      using mimage_insert [OF finite_sessions [OF w(3)] fresh, of granted_ctx ?v] by simp
    ultimately have "world_ok p' adm1 ?t" using a1 w(5) p' by (simp add: world_ok_def)
    moreover have "session_open pool adm t ctx = Some (p', adm1, ?t, Inr (next_id t))"
      using a1 by (simp add: session_open_def a acq Let_def)
    ultimately show ?thesis using k fr fresh a1 by auto
  qed
qed

lemma session_close_ok [keeps]:
  assumes ok: "world_ok pool adm t"
  shows "\<exists>pool' adm' t'. session_close pool adm t sid = Some (pool', adm', t') \<and>
    world_ok pool' adm' t' \<and> n_slots pool' = n_slots pool \<and> cap_tokens pool' = cap_tokens pool \<and>
    footprint adm' = footprint adm \<and> budget_bytes adm' = budget_bytes adm \<and>
    sessions t' = (sessions t)(sid := None) \<and> next_id t' = next_id t \<and> clock t' = clock t \<and>
    (\<forall>j<n_slots pool. j \<in> held_slots t' \<longrightarrow> slot_len pool' j = slot_len pool j)"
proof (cases "sessions t sid")
  case None
  then have "(sessions t)(sid := None) = sessions t" by auto
  with None ok show ?thesis by (simp add: session_close_def)
next
  case (Some s)
  have w: "pool_wf pool" "adm_ok adm" "table_ok t" "held_slots t = used_slots pool"
    "mset (admitted adm) = mimage granted_ctx (sessions t)"
    using ok by (auto simp: world_ok_def)
  from release_opt_ok [OF w(1) world_slot_used [OF ok Some]] obtain p' where
    r: "release_opt pool (ses_slot s) = Some p'" "pool_wf p'"
      "used_slots p' = used_slots pool - set_option (ses_slot s)"
      "n_slots p' = n_slots pool" "cap_tokens p' = cap_tokens pool"
      "\<forall>j<n_slots pool. j \<notin> set_option (ses_slot s) \<longrightarrow> slot_len p' j = slot_len pool j" by blast
  let ?t = "t\<lparr>sessions := (sessions t)(sid := None)\<rparr>"
  let ?a = "adm_release adm (granted_ctx s)"
  have h: "held_slots ?t = used_slots p'" using held_slots_remove [OF w(3) Some] w(4) r(3) by simp
  have "mimage granted_ctx (sessions t) =
      add_mset (granted_ctx s) (mimage granted_ctx (sessions ?t))"
    using mimage_remove [OF finite_sessions [OF w(3)] Some] by simp
  then have "mset (admitted ?a) = mimage granted_ctx (sessions ?t)"
    using w(5) by (simp add: adm_release_remove1)
  moreover have "table_ok ?t" using w(3) unfolding table_ok_def by (auto split: if_splits)
  ultimately have "world_ok p' ?a ?t" using r(2) w(2) h by (simp add: world_ok_def adm_release_ok)
  moreover have "\<forall>j<n_slots pool. j \<in> held_slots ?t \<longrightarrow> slot_len p' j = slot_len pool j"
    using h r(3,6) by auto
  ultimately show ?thesis using Some r by (simp add: session_close_def)
qed


lemma session_update_clock:
  "sessions t sid = Some s \<Longrightarrow>
   session_update (t\<lparr>clock := c\<rparr>) sid f = t\<lparr>sessions := (sessions t)(sid \<mapsto> f s), clock := c\<rparr>"
  "sessions t sid = Some s \<Longrightarrow>
   session_update t sid f = t\<lparr>sessions := (sessions t)(sid \<mapsto> f s), clock := clock t\<rparr>"
  "sessions t sid = None \<Longrightarrow> session_update t sid f = t"
  by (simp_all add: session_update_def)

lemma table_ok_clock: "table_ok t \<Longrightarrow> clock t \<le> c \<Longrightarrow> table_ok (t\<lparr>clock := c\<rparr>)"
  unfolding table_ok_def by (auto intro: order_trans)

lemma world_ok_clock: "world_ok pool adm t \<Longrightarrow> clock t \<le> c \<Longrightarrow> world_ok pool adm (t\<lparr>clock := c\<rparr>)"
  by (simp add: world_ok_def table_ok_clock)

lemma touch_ok [keeps]: "world_ok pool adm t \<Longrightarrow> world_ok pool adm (touch t sid)"
proof (cases "sessions t sid")
  case (Some s)
  assume ok: "world_ok pool adm t"
  note d = table_okD [OF _ Some]
  have "touch t sid = t\<lparr>sessions := (sessions t)(sid \<mapsto> s\<lparr>last_used := clock t + 1\<rparr>), clock := clock t + 1\<rparr>"
    by (simp add: touch_def Let_def session_update_clock(1) [OF Some])
  then show ?thesis
    using world_ok_change [OF ok Some, of pool "s\<lparr>last_used := clock t + 1\<rparr>" "clock t + 1"] d ok
      world_slot_used [OF ok Some]
    by (auto simp: world_ok_def)
next
  case None
  assume "world_ok pool adm t"
  with None show ?thesis
    by (simp add: touch_def Let_def session_update_def world_ok_clock)
qed

lemma touch_sessions:
  "sessions (touch t sid) j = (if j = sid then map_option (\<lambda>s. s\<lparr>last_used := clock t + 1\<rparr>) (sessions t j)
     else sessions t j)" "next_id (touch t sid) = next_id t" "clock (touch t sid) = clock t + 1"
  by (auto simp: touch_def Let_def session_update_def split: option.splits)

text \<open>Edits of the token and conversation fields through \<^verbatim>\<open>get_mut\<close>.\<close>

lemma session_update_ok [keeps]:
  assumes ok: "world_ok pool adm t"
    and f: "\<And>s. ses_slot (f s) = ses_slot s \<and> granted_ctx (f s) = granted_ctx s \<and>
            ses_residency (f s) = ses_residency s \<and> last_used (f s) = last_used s"
  shows "world_ok pool adm (session_update t sid f)"
proof (cases "sessions t sid")
  case (Some s)
  have "pool_wf pool" "table_ok t" using ok by (auto simp: world_ok_def)
  with world_slot_used [OF ok Some] table_okD [OF _ Some] show ?thesis
    unfolding session_update_clock(2) [OF Some]
    by (intro world_ok_change [OF ok Some]) (auto simp: f)
qed (use ok in \<open>simp add: session_update_def\<close>)

text \<open>Giving up the slot of a session, whatever it becomes.\<close>

lemma drop_slot_ok:
  assumes ok: "world_ok pool adm t" and s: "sessions t sid = Some s"
    and v: "ses_slot v = None" "ses_residency v \<noteq> Resident" "granted_ctx v = granted_ctx s"
      "last_used v = last_used s"
  shows "\<exists>pool'. release_opt pool (ses_slot s) = Some pool' \<and>
    world_ok pool' adm (t\<lparr>sessions := (sessions t)(sid \<mapsto> v)\<rparr>) \<and>
    used_slots pool' = used_slots pool - set_option (ses_slot s) \<and>
    n_slots pool' = n_slots pool \<and> cap_tokens pool' = cap_tokens pool \<and>
    (\<forall>j<n_slots pool. j \<notin> set_option (ses_slot s) \<longrightarrow> slot_len pool' j = slot_len pool j)"
proof -
  have "pool_wf pool" using ok by (simp add: world_ok_def)
  from release_opt_ok [OF this world_slot_used [OF ok s]] obtain p' where
    r: "release_opt pool (ses_slot s) = Some p'" "pool_wf p'"
      "used_slots p' = used_slots pool - set_option (ses_slot s)"
      "n_slots p' = n_slots pool" "cap_tokens p' = cap_tokens pool"
      "\<forall>j<n_slots pool. j \<notin> set_option (ses_slot s) \<longrightarrow> slot_len p' j = slot_len pool j" by blast
  have "world_ok p' adm (t\<lparr>sessions := (sessions t)(sid \<mapsto> v), clock := clock t\<rparr>)"
    using r(2,3) v by (intro world_ok_change [OF ok s]) auto
  then show ?thesis using r by simp
qed

lemma mark_swapped_ok [keeps]:
  assumes ok: "world_ok pool adm t" and s: "sessions t sid = Some s"
  shows "\<exists>pool'. mark_swapped pool t sid =
      Some (pool', t\<lparr>sessions := (sessions t)(sid \<mapsto> s\<lparr>ses_slot := None, ses_residency := Swapped\<rparr>)\<rparr>) \<and>
    world_ok pool' adm (t\<lparr>sessions := (sessions t)(sid \<mapsto> s\<lparr>ses_slot := None, ses_residency := Swapped\<rparr>)\<rparr>) \<and>
    used_slots pool' = used_slots pool - set_option (ses_slot s) \<and>
    n_slots pool' = n_slots pool \<and> cap_tokens pool' = cap_tokens pool \<and>
    (\<forall>j<n_slots pool. j \<notin> set_option (ses_slot s) \<longrightarrow> slot_len pool' j = slot_len pool j)"
  using drop_slot_ok [OF ok s, of "s\<lparr>ses_slot := None, ses_residency := Swapped\<rparr>"]
  by (auto simp: mark_swapped_def s session_update_def)

lemma mark_cold_ok [keeps]:
  assumes ok: "world_ok pool adm t" and s: "sessions t sid = Some s"
  shows "\<exists>pool'. mark_cold pool t sid = Some (pool', t\<lparr>sessions := (sessions t)(sid \<mapsto>
        s\<lparr>ses_slot := None, ses_residency := Cold, next_pos := 0\<rparr>)\<rparr>) \<and>
    world_ok pool' adm (t\<lparr>sessions := (sessions t)(sid \<mapsto>
        s\<lparr>ses_slot := None, ses_residency := Cold, next_pos := 0\<rparr>)\<rparr>) \<and>
    used_slots pool' = used_slots pool - set_option (ses_slot s) \<and>
    n_slots pool' = n_slots pool \<and> cap_tokens pool' = cap_tokens pool \<and>
    (\<forall>j<n_slots pool. j \<notin> set_option (ses_slot s) \<longrightarrow> slot_len pool' j = slot_len pool j)"
  using drop_slot_ok [OF ok s, of "s\<lparr>ses_slot := None, ses_residency := Cold, next_pos := 0\<rparr>"]
  by (auto simp: mark_cold_def s session_update_def)

text \<open>
  A restored session takes a slot that was acquired for it and that no session holds: before the
  call the world is consistent up to that one slot.
\<close>

lemma mark_resident_ok [keeps]:
  assumes ok: "world_ok pool adm t" and s: "sessions t sid = Some s" "ses_slot s = None"
    and p': "pool_wf pool'" "used_slots pool' = insert k (used_slots pool)" and k: "k \<notin> used_slots pool"
  shows "mark_resident t sid k n = t\<lparr>sessions := (sessions t)(sid \<mapsto>
        s\<lparr>ses_slot := Some k, ses_residency := Resident, next_pos := n, last_used := clock t + 1\<rparr>),
        clock := clock t + 1\<rparr> \<and> world_ok pool' adm (mark_resident t sid k n)"
proof -
  let ?v = "s\<lparr>ses_slot := Some k, ses_residency := Resident, next_pos := n, last_used := clock t + 1\<rparr>"
  have eq: "mark_resident t sid k n = t\<lparr>sessions := (sessions t)(sid \<mapsto> ?v), clock := clock t + 1\<rparr>"
    by (simp add: mark_resident_def Let_def session_update_clock(1) [OF s(1)])
  have "held_slots t = used_slots pool" using ok by (simp add: world_ok_def)
  then have "world_ok pool' adm (t\<lparr>sessions := (sessions t)(sid \<mapsto> ?v), clock := clock t + 1\<rparr>)"
    using s p' k by (intro world_ok_change [OF ok s(1)]) auto
  with eq show ?thesis by simp
qed

lemma begin_turn_ok [keeps]:
  assumes ok: "world_ok pool adm t" and s: "sessions t sid = Some s" and k: "ses_slot s = Some k"
  shows "\<exists>pool'. begin_turn pool t sid prompt =
      Some (pool', t\<lparr>sessions := (sessions t)(sid \<mapsto>
          s\<lparr>ses_tokens := take (reused (plan_turn (ses_tokens s) (slot_len pool k) prompt)) (ses_tokens s),
            next_pos := reused (plan_turn (ses_tokens s) (slot_len pool k) prompt)\<rparr>)\<rparr>,
        Inr (plan_turn (ses_tokens s) (slot_len pool k) prompt)) \<and>
    world_ok pool' adm (t\<lparr>sessions := (sessions t)(sid \<mapsto>
          s\<lparr>ses_tokens := take (reused (plan_turn (ses_tokens s) (slot_len pool k) prompt)) (ses_tokens s),
            next_pos := reused (plan_turn (ses_tokens s) (slot_len pool k) prompt)\<rparr>)\<rparr>) \<and>
    slot_len pool' k = reused (plan_turn (ses_tokens s) (slot_len pool k) prompt) \<and>
    used_slots pool' = used_slots pool \<and> n_slots pool' = n_slots pool \<and>
    cap_tokens pool' = cap_tokens pool \<and>
    (\<forall>j<n_slots pool. j \<noteq> k \<longrightarrow> slot_len pool' j = slot_len pool j)"
proof -
  have wf: "pool_wf pool" using ok by (simp add: world_ok_def)
  have ku: "k \<in> used_slots pool" using world_slot_used [OF ok s] k by simp
  then have kn: "k < n_slots pool" using wf used_slots_less by blast
  let ?plan = "plan_turn (ses_tokens s) (slot_len pool k) prompt"
  have "reused ?plan \<le> slot_len pool k" by (simp add: plan_turn_def Let_def)
  also have "\<dots> \<le> cap_tokens pool" using pool_wf_len [OF wf kn] by simp
  finally have "reused ?plan \<le> cap_tokens pool" .
  from sp.setl_ok [OF wf ku this] obtain p' where
    p': "pool_set_seq_len pool k (reused ?plan) = Some (Inr p')" "pool_wf p'" "used_slots p' = used_slots pool"
      "n_slots p' = n_slots pool" "cap_tokens p' = cap_tokens pool" "slot_len p' k = reused ?plan"
      "\<forall>j<n_slots pool. j \<noteq> k \<longrightarrow> slot_len p' j = slot_len pool j" by blast
  let ?v = "s\<lparr>ses_tokens := take (reused ?plan) (ses_tokens s), next_pos := reused ?plan\<rparr>"
  have "world_ok p' adm (t\<lparr>sessions := (sessions t)(sid \<mapsto> ?v), clock := clock t\<rparr>)"
    using p' ku k table_okD [of t sid s] ok s
    by (intro world_ok_change [OF ok s]) (auto simp: world_ok_def)
  then show ?thesis
    using p' by (simp add: begin_turn_def s k held_len_eq [OF wf kn] session_update_def Let_def)
qed

lemma begin_turn_err:
  "sessions t sid = None \<Longrightarrow> begin_turn pool t sid prompt = Some (pool, t, Inl (UnknownSession sid))"
  "sessions t sid = Some s \<Longrightarrow> ses_slot s = None \<Longrightarrow>
   begin_turn pool t sid prompt = Some (pool, t, Inl (HoldsNoSlot sid))"
  by (simp_all add: begin_turn_def)

section \<open>The two searches\<close>

lemma find_continuation_iff:
  assumes ok: "table_ok t"
  shows "find_continuation t want busy = Some sid \<longleftrightarrow>
    2 \<le> length want \<and>
    (\<exists>s. sessions t sid = Some s \<and> continues (butlast want) busy (sid, s) \<and>
       (\<forall>j u. sessions t j = Some u \<and> continues (butlast want) busy (j, u) \<longrightarrow> last_used u \<le> last_used s))"
proof -
  let ?xs = "filter (continues (butlast want) busy) (session_entries t)"
  have inj: "inj_on (\<lambda>(_, s). last_used s) (set ?xs)"
    using session_entries_key_inj [OF ok] by (rule inj_on_subset) auto
  show ?thesis
    unfolding find_continuation_def
    by (auto simp: max_by_key_unique [OF inj] set_session_entries [OF ok])
qed

lemma lru_idle_victim_iff:
  assumes ok: "table_ok t"
  shows "lru_idle_victim t busy = Some sid \<longleftrightarrow>
    (\<exists>s. sessions t sid = Some s \<and> evictable busy (sid, s) \<and>
       (\<forall>j u. sessions t j = Some u \<and> evictable busy (j, u) \<longrightarrow> last_used s \<le> last_used u))"
proof -
  let ?xs = "filter (evictable busy) (session_entries t)"
  have inj: "inj_on (\<lambda>(_, s). last_used s) (set ?xs)"
    using session_entries_key_inj [OF ok] by (rule inj_on_subset) auto
  show ?thesis
    unfolding lru_idle_victim_def
    by (auto simp: min_by_key_unique [OF inj] set_session_entries [OF ok])
qed

lemma lru_idle_victim_None:
  assumes ok: "table_ok t"
  shows "lru_idle_victim t busy = None \<longleftrightarrow> (\<forall>j u. sessions t j = Some u \<longrightarrow> \<not> evictable busy (j, u))"
  unfolding lru_idle_victim_def
  by (auto simp: filter_empty_conv set_session_entries [OF ok])


section \<open>Runs of the table\<close>

type_synonym world = "slot_pool \<times> admission \<times> session_table"

inductive world_step :: "world \<Rightarrow> world \<Rightarrow> bool" where
  ws_open: "real_need a ctx \<le> u64_max \<Longrightarrow> session_open p a t ctx = Some (p', a', t', r) \<Longrightarrow>
    world_step (p, a, t) (p', a', t')"
| ws_close: "session_close p a t sid = Some (p', a', t') \<Longrightarrow> world_step (p, a, t) (p', a', t')"
| ws_turn: "begin_turn p t sid prompt = Some (p', t', r) \<Longrightarrow> world_step (p, a, t) (p', a, t')"
| ws_touch: "world_step (p, a, t) (p, a, touch t sid)"
| ws_edit: "world_step (p, a, t) (p, a, session_update t sid (\<lambda>s. s\<lparr>ses_tokens := tk, convo := cv\<rparr>))"
| ws_swap: "sessions t sid = Some s \<Longrightarrow> mark_swapped p t sid = Some (p', t') \<Longrightarrow>
    world_step (p, a, t) (p', a, t')"
| ws_cold: "sessions t sid = Some s \<Longrightarrow> mark_cold p t sid = Some (p', t') \<Longrightarrow>
    world_step (p, a, t) (p', a, t')"
| ws_restore: "sessions t sid = Some s \<Longrightarrow> ses_slot s = None \<Longrightarrow> pool_acquire p = Some (p', Some k) \<Longrightarrow>
    pool_set_seq_len p' k n = Some (Inr p'') \<Longrightarrow> world_step (p, a, t) (p'', a, mark_resident t sid k n)"

inductive_cases world_stepE: "world_step (p, a, t) w"

abbreviation world_inv :: "world \<Rightarrow> bool" where
  "world_inv w \<equiv> world_ok (fst w) (fst (snd w)) (snd (snd w))"

lemma begin_turn_keeps:
  assumes ok: "world_ok p a t" and b: "begin_turn p t sid prompt = Some (p', t', r)"
  shows "world_ok p' a t'"
proof (cases "sessions t sid")
  case (Some s)
  show ?thesis
  proof (cases "ses_slot s")
    case None
    with b ok show ?thesis by (simp add: begin_turn_err(2) [OF Some])
  next
    case (Some k)
    with begin_turn_ok [OF ok \<open>sessions t sid = Some s\<close>, of k prompt] obtain q u x where
      "begin_turn p t sid prompt = Some (q, u, x)" "world_ok q a u" by blast
    with b show ?thesis by simp
  qed
qed (use ok b in \<open>auto simp: begin_turn_err\<close>)

lemma world_step_ok: "world_step w w' \<Longrightarrow> world_inv w \<Longrightarrow> world_inv w'"
proof (induction rule: world_step.induct)
  case (ws_open a ctx p t p' a' t' r)
  then have "world_ok p a t" by simp
  from session_open_ok [OF this ws_open.hyps(1)] obtain q b u x where
    "session_open p a t ctx = Some (q, b, u, x)" "world_ok q b u" by blast
  with ws_open.hyps(2) show ?case by simp
next
  case (ws_close p a t sid p' a' t')
  then have "world_ok p a t" by simp
  from session_close_ok [OF this, of sid] obtain q b u where
    "session_close p a t sid = Some (q, b, u)" "world_ok q b u" by blast
  with ws_close.hyps show ?case by simp
next
  case (ws_turn p t sid prompt p' t' r a)
  then show ?case by (simp add: begin_turn_keeps)
next
  case (ws_touch p a t sid)
  then show ?case by (simp add: touch_ok)
next
  case (ws_edit p a t sid tk cv)
  then show ?case by (simp add: session_update_ok)
next
  case (ws_swap t sid s p p' t' a)
  then show ?case using mark_swapped_ok [of p a t sid s] by fastforce
next
  case (ws_cold t sid s p p' t' a)
  then show ?case using mark_cold_ok [of p a t sid s] by fastforce
next
  case (ws_restore t sid s p p' k n p'' a)
  then have ok: "world_ok p a t" and wf: "pool_wf p" by (auto simp: world_ok_def)
  from sp.acq_SomeD [OF wf ws_restore.hyps(3)] have p': "pool_wf p'" "k \<notin> used_slots p"
    "used_slots p' = insert k (used_slots p)" by auto
  have n: "n \<le> cap_tokens p'"
    using ws_restore.hyps(4) pool_set_seq_len_err by (fastforce simp: pool_set_seq_len_def)
  with sp.setl_ok [OF p'(1), of k n] p'(3) ws_restore.hyps(4)
  have "pool_wf p''" "used_slots p'' = insert k (used_slots p)" by auto
  from mark_resident_ok [OF ok ws_restore.hyps(1,2) this p'(2), of n]
  have "world_ok p'' a (mark_resident t sid k n)" ..
  then show ?case by simp
qed

lemma world_steps_ok: "world_step\<^sup>*\<^sup>* w w' \<Longrightarrow> world_inv w \<Longrightarrow> world_inv w'"
  by (induction rule: rtranclp_induct) (auto intro: world_step_ok)

text \<open>An id below the counter that does not resolve stays that way.\<close>

definition stale :: "nat \<Rightarrow> session_table \<Rightarrow> bool" where
  "stale sid t \<longleftrightarrow> sid < next_id t \<and> sessions t sid = None"

lemma stale_update: "stale sid t \<Longrightarrow> stale sid (session_update t j f)" "stale sid t \<Longrightarrow> stale sid (t\<lparr>clock := c\<rparr>)"
  by (auto simp: stale_def session_update_def split: option.splits)

lemma world_step_stale: "world_step w w' \<Longrightarrow> stale sid (snd (snd w)) \<Longrightarrow> stale sid (snd (snd w'))"
proof (induction rule: world_step.induct)
  case (ws_open a ctx p t p' a' t' r)
  then show ?case
    by (auto simp: session_open_def stale_def Let_def split: sum.splits prod.splits option.splits
        Option.bind_splits)
next
  case (ws_close p a t j p' a' t')
  then show ?case
    by (auto simp: session_close_def stale_def split: option.splits Option.bind_splits)
next
  case (ws_turn p t j prompt p' t' r a)
  then show ?case
    by (auto simp: begin_turn_def Let_def stale_update split: option.splits Option.bind_splits sum.splits)
next
  case (ws_swap t j s p p' t' a)
  then show ?case by (auto simp: mark_swapped_def stale_update split: Option.bind_splits)
next
  case (ws_cold t j s p p' t' a)
  then show ?case by (auto simp: mark_cold_def stale_update split: Option.bind_splits)
qed (simp_all add: touch_def mark_resident_def Let_def stale_update)

text \<open>The resident sessions are as many as the slots held.\<close>

lemma resident_count_card:
  assumes t: "table_ok t"
  shows "resident_count t = card (held_slots t)"
proof -
  let ?es = "filter (\<lambda>(_, s). ses_slot s \<noteq> None) (session_entries t)"
  let ?f = "\<lambda>(i :: nat, s). the (ses_slot s)"
  have "distinct (session_entries t)"
    by (auto simp: session_entries_def List.map_filter_def distinct_map inj_on_def)
  then have "distinct ?es" by (rule distinct_filter)
  then have "resident_count t = card (set ?es)" by (simp only: resident_count_def distinct_card)
  moreover have "inj_on ?f (set ?es)"
  proof (rule inj_onI, clarify)
    fix i s j u
    assume m: "(i, s) \<in> set ?es" "(j, u) \<in> set ?es" and eq: "the (ses_slot s) = the (ses_slot u)"
    then have e: "sessions t i = Some s" "sessions t j = Some u" by (simp_all add: set_session_entries [OF t])
    from m eq obtain k where "ses_slot s = Some k" "ses_slot u = Some k" by auto
    from table_ok_slot_inj [OF t e this] e show "i = j \<and> s = u" by simp
  qed
  moreover have "?f ` set ?es = held_slots t"
  proof (intro set_eqI iffI)
    fix k
    assume "k \<in> ?f ` set ?es"
    then obtain i s where "(i, s) \<in> set (session_entries t)" "ses_slot s = Some k" by auto
    then show "k \<in> held_slots t" unfolding held_slots_def set_session_entries [OF t] by blast
  next
    fix k
    assume "k \<in> held_slots t"
    then obtain i s where "sessions t i = Some s" "ses_slot s = Some k" by (auto simp: held_slots_def)
    then show "k \<in> ?f ` set ?es"
      by (intro image_eqI [where x = "(i, s)"]) (auto simp: set_session_entries [OF t])
  qed
  ultimately show ?thesis by (metis card_image)
qed


text \<open>The serving world the witnesses run on: two slots of 512 tokens and a budget of 100000 bytes.\<close>

definition demo_pool :: slot_pool where
  "demo_pool = \<lparr>descs = [\<lparr>k_base = 0, v_base = 0, desc_seq_len = 0, desc_cap = 512\<rparr>,
       \<lparr>k_base = 557056, v_base = 557056, desc_seq_len = 0, desc_cap = 512\<rparr>],
     in_use = [False, False], cap_tokens = 512, per_pos_bytes = 1088, dirty = True\<rparr>"

definition demo_adm :: admission where
  "demo_adm = admission_new \<lparr>weights_bytes = 1000, kv_bytes_per_token = 16\<rparr> 100000"

lemma demo_pool_new: "pool_new (Some 34359738368) 2 512 1088 = Some (Inr demo_pool)"
  by (simp add: pool_new_def PAGE_TOKENS_def div_ceil_def checked_mul64_def preflight_alloc_def
      R9700_VRAM_BYTES_def saturating_add64_def HEADROOM_BYTES_def Let_def demo_pool_def pool_desc_def
      upt_rec as_i32_def numeral_2_eq_2)

lemma demo_world_ok: "world_ok demo_pool demo_adm empty_table"
proof -
  have "pool_wf demo_pool" "used_slots demo_pool = {}"
    using pool_new_wf [OF demo_pool_new] by (simp_all add: div_ceil_def PAGE_TOKENS_def)
  moreover have "sessions empty_table = Map.empty" by (simp add: empty_table_def)
  ultimately show ?thesis by (simp add: world_ok_def demo_adm_def admission_new_def adm_ok_def)
qed

definition demo_session :: "nat \<Rightarrow> nat \<Rightarrow> session" where
  "demo_session k now = \<lparr>ses_slot = Some k, granted_ctx = 512, ses_tokens = [], next_pos = 0,
     ses_residency = Resident, convo = [], last_used = now\<rparr>"

lemma demo_open:
  "session_open demo_pool demo_adm empty_table 512 =
     Some (demo_pool\<lparr>in_use := [True, False]\<rparr>, demo_adm\<lparr>admitted := [512]\<rparr>,
       \<lparr>sessions = [0 \<mapsto> demo_session 0 1], next_id = 1, clock = 1\<rparr>, Inr 0)"
  by (simp add: session_open_def demo_adm_def admission_new_def admit_def used_bytes_def
      demo_pool_def pool_acquire_def pool_reset_def empty_table_def demo_session_def)

lemma demo_open_ok:
  "world_ok (demo_pool\<lparr>in_use := [True, False]\<rparr>) (demo_adm\<lparr>admitted := [512]\<rparr>)
     \<lparr>sessions = [0 \<mapsto> demo_session 0 1], next_id = 1, clock = 1\<rparr>"
proof -
  have "real_need demo_adm 512 \<le> u64_max"
    by (simp add: demo_adm_def admission_new_def real_need_def)
  from session_open_ok [OF demo_world_ok this] obtain p a t r where
    "session_open demo_pool demo_adm empty_table 512 = Some (p, a, t, r)" "world_ok p a t" by blast
  then show ?thesis by (simp add: demo_open)
qed


section \<open>Properties of the operations\<close>

text \<open>
  Opening a session and closing it again gives everything back: the close succeeds,
  the slots in use, the sessions and the charged contexts are what they were, and only the id
  counter and the LRU clock have moved, so the id is never handed out again.
\<close>

theorem open_close_roundtrip:
  assumes ok: "world_ok pool adm t" and need: "real_need adm ctx \<le> u64_max"
    and opened: "session_open pool adm t ctx = Some (pool1, adm1, t1, Inr sid)"
  shows "\<exists>pool2 adm2 t2. session_close pool1 adm1 t1 sid = Some (pool2, adm2, t2) \<and>
    used_slots pool2 = used_slots pool \<and> sessions t2 = sessions t \<and>
    mset (admitted adm2) = mset (admitted adm) \<and> sid = next_id t \<and> next_id t2 = sid + 1"
proof -
  from session_open_ok [OF ok need] opened
  have o: "world_ok pool1 adm1 t1" "sid = next_id t" "sessions t sid = None"
    "\<exists>v. sessions t1 = (sessions t)(sid \<mapsto> v)" "next_id t1 = sid + 1"
    by auto
  from session_close_ok [OF o(1), of sid] obtain p2 a2 t2 where
    c: "session_close pool1 adm1 t1 sid = Some (p2, a2, t2)" "world_ok p2 a2 t2"
      "sessions t2 = (sessions t1)(sid := None)" "next_id t2 = next_id t1" by blast
  have eq: "sessions t2 = sessions t" using c(3) o(3,4) by auto
  then have "held_slots t2 = held_slots t" by (simp add: held_slots_def)
  with ok c(2) eq have "used_slots p2 = used_slots pool" "mset (admitted a2) = mset (admitted adm)"
    by (auto simp: world_ok_def)
  with c eq o(2,5) show ?thesis by auto
qed

theorem open_close_roundtrip_witness:
  "\<exists>pool2 adm2 t2. session_close (demo_pool\<lparr>in_use := [True, False]\<rparr>) (demo_adm\<lparr>admitted := [512]\<rparr>)
       \<lparr>sessions = [0 \<mapsto> demo_session 0 1], next_id = 1, clock = 1\<rparr> 0 = Some (pool2, adm2, t2) \<and>
     used_slots pool2 = used_slots demo_pool \<and> sessions t2 = sessions empty_table \<and>
     mset (admitted adm2) = mset (admitted demo_adm) \<and> next_id t2 = 0 + 1"
proof -
  have "real_need demo_adm 512 \<le> u64_max"
    by (simp add: demo_adm_def admission_new_def real_need_def)
  from open_close_roundtrip [OF demo_world_ok this demo_open] show ?thesis by blast
qed

text \<open>
  A session id that has been closed never resolves again, whatever the table does
  afterwards: a turn on it is refused as an unknown session and changes nothing.
\<close>

theorem closed_id_stays_closed:
  assumes ok: "world_ok pool adm t" and closed: "session_close pool adm t sid = Some w"
    and known: "sid < next_id t" and run: "world_step\<^sup>*\<^sup>* w (pool', adm', t')"
  shows "sessions t' sid = None \<and> session_close pool' adm' t' sid = Some (pool', adm', t') \<and>
    begin_turn pool' t' sid prompt = Some (pool', t', Inl (UnknownSession sid))"
proof -
  obtain p1 a1 t1 where w: "w = (p1, a1, t1)" by (cases w)
  from session_close_ok [OF ok, of sid] closed w known have "stale sid (snd (snd w))"
    by (auto simp: stale_def)
  with run have "stale sid (snd (snd (pool', adm', t')))"
    by (induction rule: rtranclp_induct) (auto intro: world_step_stale)
  then show ?thesis by (simp add: stale_def session_close_def begin_turn_err)
qed

theorem closed_id_stays_closed_witness:
  "\<exists>w. session_close (demo_pool\<lparr>in_use := [True, False]\<rparr>) (demo_adm\<lparr>admitted := [512]\<rparr>)
       \<lparr>sessions = [0 \<mapsto> demo_session 0 1], next_id = 1, clock = 1\<rparr> 0 = Some w \<and>
     begin_turn (fst w) (snd (snd w)) 0 [7] = Some (fst w, snd (snd w), Inl (UnknownSession 0))"
proof -
  note ok = demo_open_ok
  from session_close_ok [OF this, of 0] obtain p a t where
    c: "session_close (demo_pool\<lparr>in_use := [True, False]\<rparr>) (demo_adm\<lparr>admitted := [512]\<rparr>)
       \<lparr>sessions = [0 \<mapsto> demo_session 0 1], next_id = 1, clock = 1\<rparr> 0 = Some (p, a, t)" by blast
  from closed_id_stays_closed [OF ok c, of p a t "[7]"] c show ?thesis by auto
qed

text \<open>
  The eviction search returns a session exactly when it is the least recently used
  one that holds a slot and is not busy; it returns none exactly when every session holding a slot
  is busy. The answer does not depend on the iteration order of the table.
\<close>

theorem eviction_victim_exact:
  assumes ok: "table_ok t"
  shows "(lru_idle_victim t busy = Some sid \<longleftrightarrow>
      (\<exists>s. sessions t sid = Some s \<and> ses_slot s \<noteq> None \<and> sid \<notin> set busy \<and>
        (\<forall>j u. sessions t j = Some u \<and> ses_slot u \<noteq> None \<and> j \<notin> set busy \<and> j \<noteq> sid \<longrightarrow>
          last_used s < last_used u))) \<and>
    (lru_idle_victim t busy = None \<longleftrightarrow>
      (\<forall>j u. sessions t j = Some u \<and> ses_slot u \<noteq> None \<longrightarrow> j \<in> set busy))"
proof
  have strict: "last_used s \<le> last_used u \<longleftrightarrow> j = sid \<or> last_used s < last_used u"
    if "sessions t sid = Some s" "sessions t j = Some u" for j s u
    using that table_ok_inj [OF ok] by (force simp: le_less)
  show "lru_idle_victim t busy = Some sid \<longleftrightarrow>
      (\<exists>s. sessions t sid = Some s \<and> ses_slot s \<noteq> None \<and> sid \<notin> set busy \<and>
        (\<forall>j u. sessions t j = Some u \<and> ses_slot u \<noteq> None \<and> j \<notin> set busy \<and> j \<noteq> sid \<longrightarrow>
          last_used s < last_used u))"
    unfolding lru_idle_victim_iff [OF ok] evictable_def prod.case using strict by metis
  show "lru_idle_victim t busy = None \<longleftrightarrow>
      (\<forall>j u. sessions t j = Some u \<and> ses_slot u \<noteq> None \<longrightarrow> j \<in> set busy)"
    unfolding lru_idle_victim_None [OF ok] evictable_def prod.case by blast
qed

definition demo_table :: session_table where
  "demo_table = \<lparr>sessions = [0 \<mapsto> (demo_session 0 3)\<lparr>ses_tokens := [5, 6], convo := [11]\<rparr>,
       1 \<mapsto> (demo_session 1 2)\<lparr>ses_tokens := [5, 7], convo := [11]\<rparr>], next_id = 2, clock = 3\<rparr>"

lemma demo_table_ok: "table_ok demo_table"
  unfolding table_ok_def demo_table_def demo_session_def by (simp split: if_splits)

theorem eviction_victim_exact_witness:
  "lru_idle_victim demo_table [] = Some 1 \<and> lru_idle_victim demo_table [1] = Some 0 \<and>
   lru_idle_victim demo_table [0, 1] = None"
proof -
  note e = eviction_victim_exact [OF demo_table_ok]
  have "lru_idle_victim demo_table [] = Some 1"
    unfolding conjunct1 [OF e] by (simp add: demo_table_def demo_session_def)
  moreover have "lru_idle_victim demo_table [1] = Some 0"
    unfolding conjunct1 [OF e] by (simp add: demo_table_def demo_session_def)
  moreover have "lru_idle_victim demo_table [0, 1] = None"
    unfolding conjunct2 [OF e] by (simp add: demo_table_def)
  ultimately show ?thesis by simp
qed

text \<open>
  The continuation search returns a session exactly when the conversation has at
  least two turns, the session carries all turns but the last one, holds cached tokens, is not
  cold and not busy, and was used more recently than every other such session. A swapped-out
  session qualifies too.
\<close>

theorem continuation_exact:
  assumes ok: "table_ok t"
  shows "find_continuation t want busy = Some sid \<longleftrightarrow>
    2 \<le> length want \<and>
    (\<exists>s. sessions t sid = Some s \<and> continues (butlast want) busy (sid, s) \<and>
       (\<forall>j u. sessions t j = Some u \<and> continues (butlast want) busy (j, u) \<and> j \<noteq> sid \<longrightarrow>
          last_used u < last_used s))"
proof -
  have strict: "last_used u \<le> last_used s \<longleftrightarrow> j = sid \<or> last_used u < last_used s"
    if "sessions t sid = Some s" "sessions t j = Some u" for j s u
    using that table_ok_inj [OF ok] by (force simp: le_less)
  show ?thesis unfolding find_continuation_iff [OF ok] using strict by metis
qed

theorem continuation_exact_witness:
  "find_continuation demo_table [11, 12] [] = Some 0 \<and> find_continuation demo_table [11, 12] [0] = Some 1"
proof -
  note e = continuation_exact [OF demo_table_ok]
  have "find_continuation demo_table [11, 12] [] = Some 0"
    unfolding e by (simp add: demo_table_def demo_session_def continues_def)
  moreover have "find_continuation demo_table [11, 12] [0] = Some 1"
    unfolding e by (simp add: demo_table_def demo_session_def continues_def)
  ultimately show ?thesis by simp
qed

text \<open>
  Starting a turn on a resident session keeps exactly the planned prefix: the slot
  is rewound to the reused length, the token list is cut there, it is
  the part of the prompt before the tokens still to compute, and every other slot and session is left alone.
\<close>

theorem begin_turn_exact:
  assumes ok: "world_ok pool adm t" and s: "sessions t sid = Some s" and k: "ses_slot s = Some k"
    and turn: "begin_turn pool t sid prompt = Some (pool', t', r)"
  shows "\<exists>plan. r = Inr plan \<and> slot_len pool' k = reused plan \<and> reused plan \<le> slot_len pool k \<and>
    (\<exists>s'. sessions t' = (sessions t)(sid \<mapsto> s') \<and> ses_tokens s' = take (reused plan) (ses_tokens s) \<and>
       next_pos s' = reused plan \<and> ses_tokens s' = take (reused plan) prompt) \<and>
    reused plan + to_prefill plan = length prompt \<and>
    (\<forall>j<n_slots pool. j \<noteq> k \<longrightarrow> slot_len pool' j = slot_len pool j) \<and> world_ok pool' adm t'"
proof -
  let ?plan = "plan_turn (ses_tokens s) (slot_len pool k) prompt"
  from begin_turn_ok [OF ok s k, of prompt] turn have
    "r = Inr ?plan" "slot_len pool' k = reused ?plan" "world_ok pool' adm t'"
    "sessions t' = (sessions t)(sid \<mapsto> s\<lparr>ses_tokens := take (reused ?plan) (ses_tokens s), next_pos := reused ?plan\<rparr>)"
    "\<forall>j<n_slots pool. j \<noteq> k \<longrightarrow> slot_len pool' j = slot_len pool j" by auto
  moreover have "reused ?plan \<le> slot_len pool k" by (simp add: plan_turn_def Let_def)
  moreover have "take (reused ?plan) (ses_tokens s) = take (reused ?plan) prompt"
    "reused ?plan + to_prefill ?plan = length prompt" by (rule plan_turn_prefix)+
  ultimately show ?thesis by (intro exI [of _ ?plan]) auto
qed

theorem begin_turn_exact_witness:
  "\<exists>pool' t' plan. begin_turn (demo_pool\<lparr>in_use := [True, False]\<rparr>)
       \<lparr>sessions = [0 \<mapsto> demo_session 0 1], next_id = 1, clock = 1\<rparr> 0 [7, 8] = Some (pool', t', Inr plan) \<and>
     reused plan + to_prefill plan = 2 \<and> slot_len pool' 0 = reused plan"
proof -
  let ?t = "\<lparr>sessions = [0 \<mapsto> demo_session 0 1], next_id = 1, clock = 1\<rparr>"
  have s: "sessions ?t 0 = Some (demo_session 0 1)" "ses_slot (demo_session 0 1) = Some 0"
    by (simp_all add: demo_session_def)
  from begin_turn_ok [OF demo_open_ok s, of "[7, 8]"] obtain p' t' r where
    b: "begin_turn (demo_pool\<lparr>in_use := [True, False]\<rparr>) ?t 0 [7, 8] = Some (p', t', r)" by blast
  from begin_turn_exact [OF demo_open_ok s b] b show ?thesis by auto
qed

end
