(* ===== verification/Snapshot.thy ===== *)
theory Snapshot
  imports Slot_Pool
begin

unbundle bit_operations_syntax

text \<open>
  \<^verbatim>\<open>hipfire-runtime/src/swap/snapshot.rs\<close>: one session's GPU state as a host value, its byte
  format, its validation, and the copies between the host and the device arenas.

  A device buffer is a byte list (the arenas are allocated with one-byte elements, so element and
  byte offsets agree). The driver's copy is a parameter \<open>memcpy call dst src\<close> that returns the new
  contents of \<open>dst\<close> and whether the call succeeded; \<open>memcpy_lawful\<close> states what HIP documents
  about it. Formatted error messages are kept as the values they print.
\<close>

section \<open>Data\<close>

definition SNAP_MAGIC :: nat where "SNAP_MAGIC = 0x484950465F535731"
definition SNAP_VERSION :: nat where "SNAP_VERSION = 1"

record snapshot_stamp =
  model_hash :: "64 word"
  kv_dtype_tag :: "32 word"
  stamp_per_pos_bytes :: "32 word"
  n_fa_layers :: "32 word"
  dn_layout_version :: "32 word"
  stamp_cap :: "32 word"
  dn_bytes :: "64 word"

record slot_snapshot =
  stamp :: snapshot_stamp
  snap_seq_len :: nat
  snap_tokens :: "token list"
  payload :: "byte list"
  checksum :: "64 word"

datatype corrupt_reason =
    ShortHeader nat
  | BadMagic
  | LengthsOverflow
  | ShortBuffer nat nat
  | PayloadLength nat nat
  | ChecksumMismatch "64 word" "64 word"
  | RigMismatch

datatype stamp_reason = VersionMismatch nat | StampMismatch snapshot_stamp snapshot_stamp

datatype io_reason = NoSnapshot nat | IoFailure

datatype gpu_reason = CopyFailed | PoolRefused pool_error

datatype swap_error = Stamp stamp_reason | Corrupt corrupt_reason | Io io_reason | GpuErr gpu_reason

section \<open>Checksum and validation\<close>

definition checksum_of :: "byte list \<Rightarrow> 64 word" where
  "checksum_of bytes = fold (\<lambda>b h. (h XOR ucast b) * 0x100000001b3) bytes 0xcbf29ce484222325"

definition expected_len :: "slot_snapshot \<Rightarrow> nat" where
  "expected_len s =
     u64_wrap (unat (n_fa_layers (stamp s)) * 2 * snap_seq_len s * unat (stamp_per_pos_bytes (stamp s))
       + unat (dn_bytes (stamp s)))"

definition validate :: "slot_snapshot \<Rightarrow> snapshot_stamp \<Rightarrow> swap_error + unit" where
  "validate s expect =
     (if stamp s \<noteq> expect then Inl (Stamp (StampMismatch (stamp s) expect))
      else if length (payload s) \<noteq> expected_len s
        then Inl (Corrupt (PayloadLength (length (payload s)) (expected_len s)))
      else if checksum_of (payload s) \<noteq> checksum s
        then Inl (Corrupt (ChecksumMismatch (checksum_of (payload s)) (checksum s)))
      else Inr ())"

section \<open>Byte format\<close>

definition snap_header :: "slot_snapshot \<Rightarrow> byte list" where
  "snap_header s =
     le_bytes 8 SNAP_MAGIC @ le_bytes 4 SNAP_VERSION @
     le_bytes 8 (unat (model_hash (stamp s))) @ le_bytes 4 (unat (kv_dtype_tag (stamp s))) @
     le_bytes 4 (unat (stamp_per_pos_bytes (stamp s))) @ le_bytes 4 (unat (n_fa_layers (stamp s))) @
     le_bytes 4 (unat (dn_layout_version (stamp s))) @ le_bytes 4 (unat (stamp_cap (stamp s))) @
     le_bytes 8 (unat (dn_bytes (stamp s))) @ le_bytes 8 (snap_seq_len s) @
     le_bytes 8 (length (snap_tokens s)) @ le_bytes 8 (unat (checksum s)) @
     le_bytes 8 (length (payload s))"

definition to_bytes :: "slot_snapshot \<Rightarrow> byte list" where
  "to_bytes s = snap_header s @ concat (map (\<lambda>t. le_bytes 4 (unat t)) (snap_tokens s)) @ payload s"

definition HEADER :: nat where "HEADER = 80"

text \<open>\<^verbatim>\<open>u64_at\<close>, \<^verbatim>\<open>u32_at\<close>: read \<open>k\<close> bytes at the cursor; a panic when they are not there.\<close>

definition le_at :: "byte list \<Rightarrow> nat \<Rightarrow> nat \<Rightarrow> (nat \<times> nat) option" where
  "le_at bytes k pos = map_option (\<lambda>b. (le_nat b, pos + k)) (slice bytes pos (pos + k))"

fun tokens_at :: "byte list \<Rightarrow> nat \<Rightarrow> nat \<Rightarrow> (token list \<times> nat) option" where
  "tokens_at bytes 0 pos = Some ([], pos)"
| "tokens_at bytes (Suc n) pos = do {
     (t, pos) \<leftarrow> le_at bytes 4 pos;
     (ts, pos) \<leftarrow> tokens_at bytes n pos;
     Some (word_of_nat t # ts, pos)
   }"

text \<open>The part of \<^verbatim>\<open>from_bytes\<close> after the version check: the stamp fields, the lengths, the body.\<close>

definition from_bytes_body :: "byte list \<Rightarrow> nat \<Rightarrow> (swap_error + slot_snapshot) option" where
  "from_bytes_body bytes pos = do {
     (mh, pos) \<leftarrow> le_at bytes 8 pos;
     (tag, pos) \<leftarrow> le_at bytes 4 pos;
     (ppb, pos) \<leftarrow> le_at bytes 4 pos;
     (nfa, pos) \<leftarrow> le_at bytes 4 pos;
     (dlv, pos) \<leftarrow> le_at bytes 4 pos;
     (cap, pos) \<leftarrow> le_at bytes 4 pos;
     (dnb, pos) \<leftarrow> le_at bytes 8 pos;
     (sl, pos) \<leftarrow> le_at bytes 8 pos;
     (n_tokens, pos) \<leftarrow> le_at bytes 8 pos;
     (ck, pos) \<leftarrow> le_at bytes 8 pos;
     (payload_len, pos) \<leftarrow> le_at bytes 8 pos;
     (case Option.bind (checked_add64 pos (saturating_mul64 n_tokens 4)) (\<lambda>x. checked_add64 x payload_len) of
        None \<Rightarrow> Some (Inl (Corrupt LengthsOverflow))
      | Some need \<Rightarrow>
          if length bytes < need then Some (Inl (Corrupt (ShortBuffer (length bytes) need)))
          else do {
            (ts, pos) \<leftarrow> tokens_at bytes n_tokens pos;
            pl \<leftarrow> slice bytes pos (pos + payload_len);
            Some (Inr
              \<lparr>stamp = \<lparr>model_hash = word_of_nat mh, kv_dtype_tag = word_of_nat tag,
                 stamp_per_pos_bytes = word_of_nat ppb, n_fa_layers = word_of_nat nfa,
                 dn_layout_version = word_of_nat dlv, stamp_cap = word_of_nat cap,
                 dn_bytes = word_of_nat dnb\<rparr>,
               snap_seq_len = sl, snap_tokens = ts, payload = pl, checksum = word_of_nat ck\<rparr>)
          })
   }"

definition from_bytes :: "byte list \<Rightarrow> (swap_error + slot_snapshot) option" where
  "from_bytes bytes =
     (if length bytes < HEADER then Some (Inl (Corrupt (ShortHeader (length bytes))))
      else do {
        (magic, pos) \<leftarrow> le_at bytes 8 0;
        if magic \<noteq> SNAP_MAGIC then Some (Inl (Corrupt BadMagic))
        else do {
          (version, pos) \<leftarrow> le_at bytes 4 pos;
          if version \<noteq> SNAP_VERSION then Some (Inl (Stamp (VersionMismatch version)))
          else from_bytes_body bytes pos
        }
      })"

section \<open>The codec\<close>

text \<open>A reader at a known offset of a known prefix.\<close>

lemma le_at_prefix:
  "length ps = pos \<Longrightarrow> n < 256 ^ k \<Longrightarrow> le_at (ps @ le_bytes k n @ qs) k pos = Some (n, pos + k)"
  using slice_append_mid [of ps "le_bytes k n" qs] by (simp add: le_at_def)

lemma le_at_Some [panic_free]:
  "pos + k \<le> length bs \<Longrightarrow> \<exists>n. le_at bs k pos = Some (n, pos + k) \<and> n < 256 ^ k"
  using le_nat_bound [of "take k (drop pos bs)"] by (auto simp: le_at_def)

lemma unat32_less: "unat (w :: 32 word) < 256 ^ 4"
  using unsigned_less [of w, where 'a = nat] by simp

lemma unat64_less: "unat (w :: 64 word) < 256 ^ 8"
  using unsigned_less [of w, where 'a = nat] by simp

lemma tokens_at_prefix:
  "length ps = pos \<Longrightarrow>
   tokens_at (ps @ concat (map (\<lambda>t. le_bytes 4 (unat t)) ts) @ qs) (length ts) pos =
     Some (ts, pos + 4 * length ts)"
proof (induction ts arbitrary: ps pos)
  case (Cons t ts)
  let ?body = "concat (map (\<lambda>t. le_bytes 4 (unat t)) ts)"
  have "le_at (ps @ le_bytes 4 (unat t) @ ?body @ qs) 4 pos = Some (unat t, pos + 4)"
    using Cons.prems unat32_less by (rule le_at_prefix)
  moreover have "tokens_at ((ps @ le_bytes 4 (unat t)) @ ?body @ qs) (length ts) (pos + 4) =
      Some (ts, pos + 4 + 4 * length ts)"
    using Cons.prems by (intro Cons.IH) simp
  ultimately show ?case by simp
qed simp

lemma tokens_at_Some [panic_free]:
  "pos + 4 * n \<le> length bs \<Longrightarrow> \<exists>ts. tokens_at bs n pos = Some (ts, pos + 4 * n) \<and> length ts = n"
proof (induction n arbitrary: pos)
  case (Suc n)
  from le_at_Some [of pos 4 bs] Suc.prems obtain t where "le_at bs 4 pos = Some (t, pos + 4)" by auto
  moreover from Suc.IH [of "pos + 4"] Suc.prems obtain ts where
    "tokens_at bs n (pos + 4) = Some (ts, pos + 4 + 4 * n)" "length ts = n" by auto
  ultimately show ?case by simp
qed simp

lemma length_snap_header [simp]: "length (snap_header s) = HEADER"
  by (simp add: snap_header_def HEADER_def)

lemma length_tokens [simp]: "length (concat (map (\<lambda>t. le_bytes 4 (unat t)) ts)) = 4 * length ts"
  by (induction ts) auto

lemma length_to_bytes: "length (to_bytes s) = HEADER + 4 * length (snap_tokens s) + length (payload s)"
  by (simp add: to_bytes_def)

lemma le_at_here: "n < 256 ^ k \<Longrightarrow> le_at (le_bytes k n @ qs) k 0 = Some (n, k)"
  using le_at_prefix [of "[]" 0 n k qs] by simp

lemma le_at_there:
  "j \<le> pos \<Longrightarrow> le_at (le_bytes j m @ qs) k pos = map_option (\<lambda>(n, p). (n, p + j)) (le_at qs k (pos - j))"
  by (auto simp: le_at_def slice_def)

definition snap_sizes_ok :: "slot_snapshot \<Rightarrow> bool" where
  "snap_sizes_ok s \<longleftrightarrow> snap_seq_len s \<le> u64_max \<and> length (to_bytes s) \<le> u64_max"

lemma header_reads:
  assumes "snap_sizes_ok s"
  shows "le_at (snap_header s @ r) 8 0 = Some (SNAP_MAGIC, 8)"
    "le_at (snap_header s @ r) 4 8 = Some (SNAP_VERSION, 12)"
    "le_at (snap_header s @ r) 8 12 = Some (unat (model_hash (stamp s)), 20)"
    "le_at (snap_header s @ r) 4 20 = Some (unat (kv_dtype_tag (stamp s)), 24)"
    "le_at (snap_header s @ r) 4 24 = Some (unat (stamp_per_pos_bytes (stamp s)), 28)"
    "le_at (snap_header s @ r) 4 28 = Some (unat (n_fa_layers (stamp s)), 32)"
    "le_at (snap_header s @ r) 4 32 = Some (unat (dn_layout_version (stamp s)), 36)"
    "le_at (snap_header s @ r) 4 36 = Some (unat (stamp_cap (stamp s)), 40)"
    "le_at (snap_header s @ r) 8 40 = Some (unat (dn_bytes (stamp s)), 48)"
    "le_at (snap_header s @ r) 8 48 = Some (snap_seq_len s, 56)"
    "le_at (snap_header s @ r) 8 56 = Some (length (snap_tokens s), 64)"
    "le_at (snap_header s @ r) 8 64 = Some (unat (checksum s), 72)"
    "le_at (snap_header s @ r) 8 72 = Some (length (payload s), 80)"
proof -
  have sz: "snap_seq_len s < 256 ^ 8" "length (snap_tokens s) < 256 ^ 8" "length (payload s) < 256 ^ 8"
    "SNAP_MAGIC < 256 ^ 8" "SNAP_VERSION < 256 ^ 4"
    using assms unfolding snap_sizes_ok_def length_to_bytes by (simp_all add: SNAP_MAGIC_def SNAP_VERSION_def)
  note walk = le_at_here [OF sz(1)] le_at_here [OF sz(2)] le_at_here [OF sz(3)] le_at_here [OF sz(4)]
    le_at_here [OF sz(5)] le_at_here [OF unat32_less] le_at_here [OF unat64_less] le_at_there
  show "le_at (snap_header s @ r) 8 0 = Some (SNAP_MAGIC, 8)"
    "le_at (snap_header s @ r) 4 8 = Some (SNAP_VERSION, 12)"
    "le_at (snap_header s @ r) 8 12 = Some (unat (model_hash (stamp s)), 20)"
    "le_at (snap_header s @ r) 4 20 = Some (unat (kv_dtype_tag (stamp s)), 24)"
    "le_at (snap_header s @ r) 4 24 = Some (unat (stamp_per_pos_bytes (stamp s)), 28)"
    "le_at (snap_header s @ r) 4 28 = Some (unat (n_fa_layers (stamp s)), 32)"
    "le_at (snap_header s @ r) 4 32 = Some (unat (dn_layout_version (stamp s)), 36)"
    "le_at (snap_header s @ r) 4 36 = Some (unat (stamp_cap (stamp s)), 40)"
    "le_at (snap_header s @ r) 8 40 = Some (unat (dn_bytes (stamp s)), 48)"
    "le_at (snap_header s @ r) 8 48 = Some (snap_seq_len s, 56)"
    "le_at (snap_header s @ r) 8 56 = Some (length (snap_tokens s), 64)"
    "le_at (snap_header s @ r) 8 64 = Some (unat (checksum s), 72)"
    "le_at (snap_header s @ r) 8 72 = Some (length (payload s), 80)"
    unfolding snap_header_def append_assoc by (simp_all add: walk)
qed

text \<open>What a reader makes of a genuine header, whatever follows it.\<close>

lemma from_bytes_header:
  assumes ok: "snap_sizes_ok s"
  shows "from_bytes (snap_header s @ r) =
    (if length r < 4 * length (snap_tokens s) + length (payload s)
     then Some (Inl (Corrupt (ShortBuffer (HEADER + length r) (length (to_bytes s)))))
     else do {
       (ts, pos) \<leftarrow> tokens_at (snap_header s @ r) (length (snap_tokens s)) HEADER;
       pl \<leftarrow> slice (snap_header s @ r) pos (pos + length (payload s));
       Some (Inr (s\<lparr>snap_tokens := ts, payload := pl\<rparr>))
     })"
proof -
  have n: "80 + (length (snap_tokens s) * 4 + length (payload s)) \<le> u64_max"
    using ok by (simp add: snap_sizes_ok_def length_to_bytes HEADER_def)
  then have "saturating_mul64 (length (snap_tokens s)) 4 = length (snap_tokens s) * 4"
    by (simp add: saturating_mul64_def)
  with n have "Option.bind (checked_add64 80 (saturating_mul64 (length (snap_tokens s)) 4))
      (\<lambda>x. checked_add64 x (length (payload s))) = Some (length (to_bytes s))"
    by (simp add: checked_add64_def length_to_bytes HEADER_def)
  note lens = this
  have eq: "\<lparr>stamp = \<lparr>model_hash = model_hash (stamp s), kv_dtype_tag = kv_dtype_tag (stamp s),
        stamp_per_pos_bytes = stamp_per_pos_bytes (stamp s), n_fa_layers = n_fa_layers (stamp s),
        dn_layout_version = dn_layout_version (stamp s), stamp_cap = stamp_cap (stamp s),
        dn_bytes = dn_bytes (stamp s)\<rparr>, snap_seq_len = snap_seq_len s, snap_tokens = ts,
        payload = pl, checksum = checksum s\<rparr> = s\<lparr>snap_tokens := ts, payload := pl\<rparr>" for ts pl
    by (cases s) simp
  show ?thesis
    unfolding from_bytes_def from_bytes_body_def eq [symmetric]
    using lens by (simp add: header_reads [OF ok] HEADER_def length_to_bytes cong: if_cong)
qed

lemma from_bytes_to_bytes:
  assumes "snap_sizes_ok s"
  shows "from_bytes (to_bytes s @ junk) = Some (Inr s)"
proof -
  let ?ts = "concat (map (\<lambda>t. le_bytes 4 (unat t)) (snap_tokens s))"
  have "tokens_at (snap_header s @ ?ts @ payload s @ junk) (length (snap_tokens s)) HEADER =
      Some (snap_tokens s, HEADER + 4 * length (snap_tokens s))"
    by (rule tokens_at_prefix) simp
  moreover have "slice ((snap_header s @ ?ts) @ payload s @ junk) (length (snap_header s @ ?ts))
      (length (snap_header s @ ?ts) + length (payload s)) = Some (payload s)"
    by (rule slice_append_mid)
  ultimately show ?thesis
    using from_bytes_header [OF assms, of "?ts @ payload s @ junk"] by (simp add: to_bytes_def)
qed

lemma from_bytes_truncated:
  assumes "snap_sizes_ok s" and "n < length (to_bytes s)"
  shows "\<exists>e. from_bytes (take n (to_bytes s)) = Some (Inl (Corrupt e))"
proof (cases "n < HEADER")
  case True
  then show ?thesis by (simp add: from_bytes_def length_to_bytes min_def)
next
  case False
  let ?r = "take (n - HEADER) (concat (map (\<lambda>t. le_bytes 4 (unat t)) (snap_tokens s)) @ payload s)"
  from False have "take n (to_bytes s) = snap_header s @ ?r" by (simp add: to_bytes_def)
  moreover have "length ?r < 4 * length (snap_tokens s) + length (payload s)"
    using assms(2) False by (simp add: length_to_bytes)
  ultimately show ?thesis using from_bytes_header [OF assms(1), of ?r] by (simp only: if_True) blast
qed

lemma from_bytes_total [panic_free]: "from_bytes bs \<noteq> None"
proof (cases "length bs < HEADER")
  case True
  then show ?thesis by (simp add: from_bytes_def)
next
  case False
  then have l: "80 \<le> length bs" by (simp add: HEADER_def)
  have "from_bytes_body bs 12 \<noteq> None"
  proof -
    have ex: "\<exists>v. le_at bs k p = Some (v, p + k)" if "p + k \<le> 80" for p k
      using le_at_Some [of p k bs] that l by auto
    obtain v1 v2 v3 v4 v5 v6 v7 v8 n v9 m where
      r: "le_at bs 8 12 = Some (v1, 20)" "le_at bs 4 20 = Some (v2, 24)" "le_at bs 4 24 = Some (v3, 28)"
        "le_at bs 4 28 = Some (v4, 32)" "le_at bs 4 32 = Some (v5, 36)" "le_at bs 4 36 = Some (v6, 40)"
        "le_at bs 8 40 = Some (v7, 48)" "le_at bs 8 48 = Some (v8, 56)" "le_at bs 8 56 = Some (n, 64)"
        "le_at bs 8 64 = Some (v9, 72)" "le_at bs 8 72 = Some (m, 80)"
      using ex [of 12 8] ex [of 20 4] ex [of 24 4] ex [of 28 4] ex [of 32 4] ex [of 36 4] ex [of 40 8]
        ex [of 48 8] ex [of 56 8] ex [of 64 8] ex [of 72 8] by auto
    show ?thesis
    proof (cases "Option.bind (checked_add64 80 (saturating_mul64 n 4)) (\<lambda>x. checked_add64 x m)")
      case None
      then show ?thesis by (simp add: from_bytes_body_def r)
    next
      case (Some need)
      then have need: "need = 80 + n * 4 + m"
        by (auto simp: checked_add64_def saturating_mul64_def min_def split: if_splits Option.bind_splits)
      show ?thesis
      proof (cases "length bs < need")
        case False
        then have fits: "80 + 4 * n + m \<le> length bs" using need by simp
        then obtain ts where "tokens_at bs n 80 = Some (ts, 80 + 4 * n)"
          using tokens_at_Some [of 80 n bs] by auto
        with False Some fits show ?thesis by (simp add: from_bytes_body_def r)
      qed (simp add: from_bytes_body_def r Some)
    qed
  qed
  moreover obtain v w where "le_at bs 8 0 = Some (v, 8)" "le_at bs 4 8 = Some (w, 12)"
    using le_at_Some [of 0 8 bs] le_at_Some [of 8 4 bs] l by auto
  ultimately show ?thesis using False by (simp add: from_bytes_def)
qed

section \<open>Device copies\<close>

type_synonym memcpy = "nat \<Rightarrow> byte list \<Rightarrow> byte list \<Rightarrow> byte list \<times> bool"

text \<open>
  What HIP documents of a synchronous copy: a call that succeeds has written the source over the
  front of the destination, and no call resizes a buffer.
\<close>

definition memcpy_lawful :: "memcpy \<Rightarrow> bool" where
  "memcpy_lawful mc \<longleftrightarrow>
     (\<forall>n dst src. length src \<le> length dst \<longrightarrow> length (fst (mc n dst src)) = length dst \<and>
        (snd (mc n dst src) \<longrightarrow> fst (mc n dst src) = src @ drop (length src) dst))"

text \<open>\<^verbatim>\<open>GpuTensor::sub_offset\<close> on a byte tensor, and writing a view back into its buffer.\<close>

definition sub_offset :: "byte list \<Rightarrow> nat \<Rightarrow> nat \<Rightarrow> byte list option" where
  "sub_offset buf off len = do {
     byte_end \<leftarrow> checked_add64 off len;
     if byte_end \<le> length buf then Some (take len (drop off buf)) else None
   }"

definition write_at :: "byte list \<Rightarrow> nat \<Rightarrow> byte list \<Rightarrow> byte list" where
  "write_at buf off chunk = take off buf @ chunk @ drop (off + length chunk) buf"

text \<open>The copies of \<^verbatim>\<open>capture_slot\<close>: one device span into the payload at \<open>off\<close>.\<close>

definition copy_out :: "memcpy \<Rightarrow> nat \<Rightarrow> byte list \<Rightarrow> nat \<Rightarrow> byte list \<Rightarrow> (swap_error + byte list) option" where
  "copy_out mc call view off out = do {
     dst \<leftarrow> slice out off (off + length view);
     let (chunk, ok) = mc call dst view;
     Some (if ok then Inr (write_at out off chunk) else Inl (GpuErr CopyFailed))
   }"

fun capture_arenas ::
  "memcpy \<Rightarrow> nat \<Rightarrow> (byte list \<times> nat) list \<Rightarrow> nat \<Rightarrow> nat \<Rightarrow> byte list \<Rightarrow>
   (swap_error + (nat \<times> nat \<times> byte list)) option" where
  "capture_arenas mc call [] span off out = Some (Inr (call, off, out))"
| "capture_arenas mc call ((arena, base) # rest) span off out =
     (if 0 < span then do {
        view \<leftarrow> sub_offset arena base span;
        r \<leftarrow> copy_out mc call view off out;
        case r of Inl e \<Rightarrow> Some (Inl e)
        | Inr out' \<Rightarrow> capture_arenas mc (Suc call) rest span (off + span) out'
      }
      else capture_arenas mc call rest span (off + span) out)"

fun capture_extra ::
  "memcpy \<Rightarrow> nat \<Rightarrow> byte list list \<Rightarrow> nat \<Rightarrow> byte list \<Rightarrow> (swap_error + (nat \<times> byte list)) option" where
  "capture_extra mc call [] off out = Some (Inr (off, out))"
| "capture_extra mc call (t # rest) off out = do {
     r \<leftarrow> copy_out mc call t off out;
     case r of Inl e \<Rightarrow> Some (Inl e)
     | Inr out' \<Rightarrow> capture_extra mc (Suc call) rest (off + length t) out'
   }"

definition arena_views :: "kv_slot_desc \<Rightarrow> byte list list \<Rightarrow> byte list list \<Rightarrow> (byte list \<times> nat) list" where
  "arena_views d ks vs = concat (map (\<lambda>(k, v). [(k, k_base d), (v, v_base d)]) (zip ks vs))"

definition capture_slot ::
  "memcpy \<Rightarrow> slot_pool \<Rightarrow> nat \<Rightarrow> byte list list \<Rightarrow> byte list list \<Rightarrow> byte list list \<Rightarrow> token list \<Rightarrow>
   snapshot_stamp \<Rightarrow> (swap_error + slot_snapshot) option" where
  "capture_slot mc pool slot k_arenas v_arenas extra tokens st = do {
     desc \<leftarrow> list_get (descs pool) slot;
     let seq_len = i32_as_usize (desc_seq_len desc);
     let span = u64_wrap (seq_len * unat (stamp_per_pos_bytes st));
     let dn_total = sum_list (map length extra);
     r \<leftarrow> capture_arenas mc 0 (arena_views desc k_arenas v_arenas) span 0
            (replicate (u64_wrap (length k_arenas * 2 * span + dn_total)) 0);
     case r of Inl e \<Rightarrow> Some (Inl e)
     | Inr (call, off, out) \<Rightarrow> do {
         r2 \<leftarrow> capture_extra mc call extra off out;
         case r2 of Inl e \<Rightarrow> Some (Inl e)
         | Inr (_, pl) \<Rightarrow>
             Some (Inr \<lparr>stamp = st, snap_seq_len = seq_len, snap_tokens = tokens, payload = pl,
                       checksum = checksum_of pl\<rparr>)
       }
   }"

text \<open>The copies of \<^verbatim>\<open>restore_slot\<close>: a payload span into a view of a device buffer.\<close>

definition copy_in ::
  "memcpy \<Rightarrow> nat \<Rightarrow> byte list \<Rightarrow> nat \<Rightarrow> nat \<Rightarrow> byte list \<Rightarrow> nat \<Rightarrow> (byte list \<times> bool) option" where
  "copy_in mc call buf base len pl off = do {
     view \<leftarrow> sub_offset buf base len;
     src \<leftarrow> slice pl off (off + len);
     let (view', ok) = mc call view src;
     Some (write_at buf base view', ok)
   }"

text \<open>
  The buffers after the loop come back in order together with the call counter, the payload
  offset and whether every copy succeeded; a failed copy leaves the buffers after it untouched.
\<close>

fun restore_arenas ::
  "memcpy \<Rightarrow> nat \<Rightarrow> (byte list \<times> nat) list \<Rightarrow> nat \<Rightarrow> byte list \<Rightarrow> nat \<Rightarrow>
   (byte list list \<times> nat \<times> nat \<times> bool) option" where
  "restore_arenas mc call [] span pl off = Some ([], call, off, True)"
| "restore_arenas mc call ((arena, base) # rest) span pl off =
     (if 0 < span then do {
        (a', ok) \<leftarrow> copy_in mc call arena base span pl off;
        if ok then do {
          (rest', call', off', ok') \<leftarrow> restore_arenas mc (Suc call) rest span pl (off + span);
          Some (a' # rest', call', off', ok')
        }
        else Some (a' # map fst rest, Suc call, off, False)
      }
      else do {
        (rest', call', off', ok') \<leftarrow> restore_arenas mc call rest span pl (off + span);
        Some (arena # rest', call', off', ok')
      })"

fun restore_extra ::
  "memcpy \<Rightarrow> nat \<Rightarrow> byte list list \<Rightarrow> byte list \<Rightarrow> nat \<Rightarrow> (byte list list \<times> bool) option" where
  "restore_extra mc call [] pl off = Some ([], True)"
| "restore_extra mc call (t # rest) pl off = do {
     src \<leftarrow> slice pl off (off + length t);
     let (t', ok) = mc call t src;
     if ok then do {
       (rest', ok') \<leftarrow> restore_extra mc (Suc call) rest pl (off + length t);
       Some (t' # rest', ok')
     }
     else Some (t' # rest, False)
   }"

record device =
  k_arenas :: "byte list list"
  v_arenas :: "byte list list"
  extra :: "byte list list"

text \<open>Put the flat list \<open>[k0, v0, k1, v1, ...]\<close> back into the two arena lists.\<close>

fun unzip_arenas :: "byte list list \<Rightarrow> byte list list \<Rightarrow> byte list list \<Rightarrow> byte list list \<times> byte list list" where
  "unzip_arenas (k' # v' # rest) (k # ks) (v # vs) =
     (let (ks', vs') = unzip_arenas rest ks vs in (k' # ks', v' # vs'))"
| "unzip_arenas _ ks vs = (ks, vs)"

definition restore_slot ::
  "memcpy \<Rightarrow> slot_pool \<Rightarrow> nat \<Rightarrow> device \<Rightarrow> slot_snapshot \<Rightarrow> snapshot_stamp \<Rightarrow>
   (slot_pool \<times> device \<times> (swap_error + unit)) option" where
  "restore_slot mc pool slot dev snap expect =
     (case validate snap expect of
        Inl e \<Rightarrow> Some (pool, dev, Inl e)
      | Inr _ \<Rightarrow> do {
          desc \<leftarrow> list_get (descs pool) slot;
          let span = u64_wrap (snap_seq_len snap * unat (stamp_per_pos_bytes (stamp snap)));
          let dn_total = sum_list (map length (extra dev));
          if u64_wrap (length (k_arenas dev) * 2 * span + dn_total) \<noteq> length (payload snap)
          then Some (pool, dev, Inl (Corrupt RigMismatch))
          else do {
            (bufs, call, off, ok) \<leftarrow>
              restore_arenas mc 0 (arena_views desc (k_arenas dev) (v_arenas dev)) span (payload snap) 0;
            let (ks, vs) = unzip_arenas bufs (k_arenas dev) (v_arenas dev);
            let dev1 = dev\<lparr>k_arenas := ks, v_arenas := vs\<rparr>;
            if \<not> ok then Some (pool, dev1, Inl (GpuErr CopyFailed))
            else do {
              (ex, ok2) \<leftarrow> restore_extra mc call (extra dev) (payload snap) off;
              let dev2 = dev1\<lparr>extra := ex\<rparr>;
              if \<not> ok2 then Some (pool, dev2, Inl (GpuErr CopyFailed))
              else do {
                r \<leftarrow> pool_set_seq_len pool slot (snap_seq_len snap);
                case r of
                  Inl e \<Rightarrow> Some (pool, dev2, Inl (GpuErr (PoolRefused e)))
                | Inr pool' \<Rightarrow> Some (pool', dev2, Inr ())
              }
            }
          }
        })"

section \<open>What the copies do\<close>

definition span_of :: "nat \<Rightarrow> byte list \<times> nat \<Rightarrow> byte list" where
  "span_of span ab = take span (drop (snd ab) (fst ab))"

definition live :: "nat \<Rightarrow> (byte list \<times> nat) list \<Rightarrow> byte list" where
  "live span xs = concat (map (span_of span) xs)"

definition views_fit :: "nat \<Rightarrow> (byte list \<times> nat) list \<Rightarrow> bool" where
  "views_fit span xs \<longleftrightarrow> (\<forall>(a, b)\<in>set xs. b + span \<le> length a \<and> b + span \<le> u64_max)"

definition all_copies_succeed :: "memcpy \<Rightarrow> bool" where
  "all_copies_succeed mc \<longleftrightarrow> (\<forall>n d s. snd (mc n d s))"

lemma length_write_at [simp]: "off + length c \<le> length b \<Longrightarrow> length (write_at b off c) = length b"
  by (simp add: write_at_def)

lemma write_at_write_at:
  "off + length c + length d \<le> length b \<Longrightarrow>
   write_at (write_at b off c) (off + length c) d = write_at b off (c @ d)"
  by (simp add: write_at_def ac_simps)

lemma write_at_Nil [simp]: "write_at b off [] = b"
  by (simp add: write_at_def)

lemma write_at_all: "length c = length b \<Longrightarrow> write_at b 0 c = c"
  by (simp add: write_at_def)

lemma write_at_read: "off + length c \<le> length b \<Longrightarrow> take (length c) (drop off (write_at b off c)) = c"
  by (simp add: write_at_def)

lemma length_span_of: "snd ab + span \<le> length (fst ab) \<Longrightarrow> length (span_of span ab) = span"
  by (simp add: span_of_def)

lemma length_live: "views_fit span xs \<Longrightarrow> length (live span xs) = length xs * span"
  unfolding live_def views_fit_def by (induction xs) (auto simp: length_span_of split: prod.splits)

lemma memcpy_full:
  assumes "memcpy_lawful mc" and "length src = length dst"
  shows "length (fst (mc n dst src)) = length dst" "snd (mc n dst src) \<Longrightarrow> fst (mc n dst src) = src"
proof -
  have "length src \<le> length dst" using assms(2) by simp
  with assms(1) have "length (fst (mc n dst src)) = length dst \<and>
      (snd (mc n dst src) \<longrightarrow> fst (mc n dst src) = src @ drop (length src) dst)"
    unfolding memcpy_lawful_def by blast
  with assms(2) show "length (fst (mc n dst src)) = length dst"
    "snd (mc n dst src) \<Longrightarrow> fst (mc n dst src) = src" by auto
qed

lemma copy_out_ok:
  assumes mc: "memcpy_lawful mc" and fits: "off + length view \<le> length out"
  shows "\<exists>r. copy_out mc call view off out = Some r \<and>
    (\<forall>out'. r = Inr out' \<longrightarrow> out' = write_at out off view) \<and>
    (all_copies_succeed mc \<longrightarrow> r = Inr (write_at out off view))"
proof -
  let ?dst = "take (length view) (drop off out)"
  have "length view = length ?dst" using fits by simp
  from memcpy_full(2) [OF mc this] fits show ?thesis
    by (auto simp: copy_out_def all_copies_succeed_def Let_def split: prod.splits) (metis fst_conv snd_conv)+
qed

lemma sub_offset_ok: "b + n \<le> length a \<Longrightarrow> b + n \<le> u64_max \<Longrightarrow> sub_offset a b n = Some (span_of n (a, b))"
  by (simp add: sub_offset_def checked_add64_def span_of_def)

lemma capture_arenas_ok:
  assumes mc: "memcpy_lawful mc"
  shows "views_fit span xs \<Longrightarrow> off + length xs * span \<le> length out \<Longrightarrow>
    \<exists>r. capture_arenas mc call xs span off out = Some r \<and>
      (\<forall>c o' out'. r = Inr (c, o', out') \<longrightarrow>
         o' = off + length xs * span \<and> out' = write_at out off (live span xs)) \<and>
      (all_copies_succeed mc \<longrightarrow> (\<exists>v. r = Inr v))"
proof (induction xs arbitrary: call off out)
  case Nil
  then show ?case by (simp add: live_def)
next
  case (Cons ab xs)
  obtain a b where ab: "ab = (a, b)" by (cases ab)
  have fit: "b + span \<le> length a" "b + span \<le> u64_max" "views_fit span xs"
    using Cons.prems(1) by (auto simp: views_fit_def ab)
  let ?v = "span_of span (a, b)"
  have v: "length ?v = span" using fit by (simp add: length_span_of)
  have lv: "live span (ab # xs) = ?v @ live span xs" by (simp add: live_def ab)
  have room: "off + length ?v + length (live span xs) \<le> length out"
    using Cons.prems(2) length_live [OF fit(3)] v by simp
  show ?case
  proof (cases "span = 0")
    case True
    with Cons.IH [OF fit(3), of off out call] Cons.prems(2) v lv show ?thesis
      by (auto simp: ab)
  next
    case False
    have "off + length ?v \<le> length out" using room by simp
    from copy_out_ok [OF mc this, of call] obtain r where
      r: "copy_out mc call ?v off out = Some r" "\<forall>out'. r = Inr out' \<longrightarrow> out' = write_at out off ?v"
        "all_copies_succeed mc \<longrightarrow> r = Inr (write_at out off ?v)" by blast
    have step: "capture_arenas mc call (ab # xs) span off out =
        (case r of Inl e \<Rightarrow> Some (Inl e)
         | Inr out' \<Rightarrow> capture_arenas mc (Suc call) xs span (off + span) out')"
      using False r(1) sub_offset_ok [OF fit(1,2)] by (simp add: ab)
    show ?thesis
    proof (cases r)
      case (Inl e)
      with step r(3) show ?thesis by simp
    next
      case (Inr out')
      with r(2) have o: "out' = write_at out off ?v" by simp
      have "off + span + length xs * span \<le> length out'" using Cons.prems(2) o v room by simp
      from Cons.IH [OF fit(3) this, of "Suc call"] show ?thesis
        using step Inr o lv v write_at_write_at [OF room] by (simp add: algebra_simps)
    qed
  qed
qed

lemma capture_extra_ok:
  assumes mc: "memcpy_lawful mc"
  shows "off + length (concat ts) \<le> length out \<Longrightarrow>
    \<exists>r. capture_extra mc call ts off out = Some r \<and>
      (\<forall>o' out'. r = Inr (o', out') \<longrightarrow> out' = write_at out off (concat ts)) \<and>
      (all_copies_succeed mc \<longrightarrow> (\<exists>v. r = Inr v))"
proof (induction ts arbitrary: call off out)
  case (Cons t ts)
  have room: "off + length t + length (concat ts) \<le> length out" using Cons.prems by simp
  then have "off + length t \<le> length out" by simp
  from copy_out_ok [OF mc this, of call] obtain r where
    r: "copy_out mc call t off out = Some r" "\<forall>out'. r = Inr out' \<longrightarrow> out' = write_at out off t"
      "all_copies_succeed mc \<longrightarrow> r = Inr (write_at out off t)" by blast
  show ?case
  proof (cases r)
    case (Inl e)
    with r show ?thesis by simp
  next
    case (Inr out')
    with r(2) have o: "out' = write_at out off t" by simp
    have "off + length t + length (concat ts) \<le> length out'" using room o by simp
    from Cons.IH [OF this, of "Suc call"] show ?thesis
      using r(1) Inr o write_at_write_at [OF room] by simp
  qed
qed simp

text \<open>The restore loop as a pure function: successive chunks written over the views.\<close>

fun put_chunks :: "nat \<Rightarrow> (byte list \<times> nat) list \<Rightarrow> byte list \<Rightarrow> byte list list" where
  "put_chunks span [] pl = []"
| "put_chunks span ((a, b) # xs) pl = write_at a b (take span pl) # put_chunks span xs (drop span pl)"

lemma copy_in_ok:
  assumes mc: "memcpy_lawful mc" and fit: "b + n \<le> length a" "b + n \<le> u64_max" and pl: "off + n \<le> length pl"
  shows "\<exists>a' ok. copy_in mc call a b n pl off = Some (a', ok) \<and> length a' = length a \<and>
    (ok \<longrightarrow> a' = write_at a b (take n (drop off pl))) \<and> (all_copies_succeed mc \<longrightarrow> ok)"
proof -
  let ?v = "span_of n (a, b)" and ?s = "take n (drop off pl)"
  have l: "length ?s = length ?v" "length ?v = n" using fit pl by (simp_all add: length_span_of)
  note m = memcpy_full [OF mc l(1), of call]
  have "copy_in mc call a b n pl off = Some (write_at a b (fst (mc call ?v ?s)), snd (mc call ?v ?s))"
    using pl sub_offset_ok [OF fit] by (simp add: copy_in_def split_beta)
  moreover have "length (write_at a b (fst (mc call ?v ?s))) = length a"
    using m(1) l(2) fit(1) by simp
  ultimately show ?thesis using m(2) by (simp add: all_copies_succeed_def)
qed

lemma restore_arenas_ok:
  assumes mc: "memcpy_lawful mc"
  shows "views_fit span xs \<Longrightarrow> off + length xs * span \<le> length pl \<Longrightarrow>
    \<exists>bufs c o' ok. restore_arenas mc call xs span pl off = Some (bufs, c, o', ok) \<and>
      map length bufs = map (length \<circ> fst) xs \<and>
      (ok \<longrightarrow> o' = off + length xs * span \<and> bufs = put_chunks span xs (drop off pl)) \<and>
      (all_copies_succeed mc \<longrightarrow> ok)"
proof (induction xs arbitrary: call off)
  case Nil
  then show ?case by auto
next
  case (Cons ab xs)
  obtain a b where ab: "ab = (a, b)" by (cases ab)
  have fit: "b + span \<le> length a" "b + span \<le> u64_max" "views_fit span xs"
    using Cons.prems(1) by (auto simp: views_fit_def ab)
  have room: "off + span \<le> length pl" "off + span + length xs * span \<le> length pl"
    using Cons.prems(2) by auto
  show ?case
  proof (cases "span = 0")
    case True
    with Cons.IH [OF fit(3), of off call] room show ?thesis by (auto simp: ab)
  next
    case False
    from copy_in_ok [OF mc fit(1,2) room(1), of call] obtain a' ok where
      c: "copy_in mc call a b span pl off = Some (a', ok)" "length a' = length a"
        "ok \<longrightarrow> a' = write_at a b (take span (drop off pl))" "all_copies_succeed mc \<longrightarrow> ok" by blast
    show ?thesis
    proof (cases ok)
      case True
      from Cons.IH [OF fit(3) room(2), of "Suc call"] True c False show ?thesis
        by (auto simp: ab algebra_simps)
    next
      case not_ok: False
      with c False show ?thesis by (auto simp: ab)
    qed
  qed
qed

lemma restore_extra_ok:
  assumes mc: "memcpy_lawful mc"
  shows "off + length (concat ts) \<le> length pl \<Longrightarrow>
    \<exists>ts' ok. restore_extra mc call ts pl off = Some (ts', ok) \<and> map length ts' = map length ts \<and>
      (ok \<longrightarrow> concat ts' = take (length (concat ts)) (drop off pl)) \<and> (all_copies_succeed mc \<longrightarrow> ok)"
proof (induction ts arbitrary: call off)
  case (Cons t ts)
  let ?s = "take (length t) (drop off pl)"
  have room: "off + length t \<le> length pl" "off + length t + length (concat ts) \<le> length pl"
    using Cons.prems by auto
  then have l: "length ?s = length t" by simp
  note m = memcpy_full [OF mc l, of call]
  from Cons.IH [OF room(2), of "Suc call"] obtain ts' ok where
    ih: "restore_extra mc (Suc call) ts pl (off + length t) = Some (ts', ok)" "map length ts' = map length ts"
      "ok \<longrightarrow> concat ts' = take (length (concat ts)) (drop (off + length t) pl)"
      "all_copies_succeed mc \<longrightarrow> ok" by blast
  show ?case
  proof (cases "snd (mc call t ?s)")
    case True
    then have "restore_extra mc call (t # ts) pl off = Some (?s # ts', ok)"
      using m(2) room ih(1) by (simp add: split_beta)
    moreover have "take (length (concat (t # ts))) (drop off pl) =
        ?s @ take (length (concat ts)) (drop (off + length t) pl)"
      by (simp add: take_add add.commute)
    ultimately show ?thesis using ih l by simp
  next
    case False
    then have "restore_extra mc call (t # ts) pl off = Some (fst (mc call t ?s) # ts, False)"
      using room by (simp add: split_beta)
    moreover have "\<not> all_copies_succeed mc" using False by (auto simp: all_copies_succeed_def)
    ultimately show ?thesis using m(1) by auto
  qed
qed auto

lemma put_chunks_unzip:
  assumes "length vs = length ks" "length ks0 = length ks" "length vs0 = length ks"
    and "views_fit span (arena_views d0 ks0 vs0)"
  shows "unzip_arenas (put_chunks span (arena_views d ks vs) (live span (arena_views d0 ks0 vs0) @ rest)) ks vs =
    (map2 (\<lambda>k k0. write_at k (k_base d) (span_of span (k0, k_base d0))) ks ks0,
     map2 (\<lambda>v v0. write_at v (v_base d) (span_of span (v0, v_base d0))) vs vs0)"
  using assms
proof (induction ks arbitrary: vs ks0 vs0)
  case Nil
  then show ?case by (simp add: arena_views_def)
next
  case (Cons k ks)
  then obtain v vs' k0 ks0' v0 vs0' where
    eq: "vs = v # vs'" "ks0 = k0 # ks0'" "vs0 = v0 # vs0'" by (metis length_Suc_conv)
  have fit: "k_base d0 + span \<le> length k0" "v_base d0 + span \<le> length v0"
    "views_fit span (arena_views d0 ks0' vs0')"
    using Cons.prems(4) by (auto simp: eq arena_views_def views_fit_def)
  then have "length (span_of span (k0, k_base d0)) = span" "length (span_of span (v0, v_base d0)) = span"
    by (simp_all add: length_span_of)
  with Cons.IH [of vs' ks0' vs0'] Cons.prems fit show ?case
    by (simp add: eq arena_views_def live_def)
qed

section \<open>Capture and restore\<close>

text \<open>The rig the engine builds: arenas the size of the pool and a stamp that describes them.\<close>

definition rig_ok :: "slot_pool \<Rightarrow> device \<Rightarrow> snapshot_stamp \<Rightarrow> bool" where
  "rig_ok pool dev st \<longleftrightarrow>
     pool_wf pool \<and> length (v_arenas dev) = length (k_arenas dev) \<and>
     (\<forall>a\<in>set (k_arenas dev) \<union> set (v_arenas dev). length a = arena_bytes pool) \<and>
     unat (stamp_per_pos_bytes st) = per_pos_bytes pool \<and>
     unat (n_fa_layers st) = length (k_arenas dev) \<and>
     unat (dn_bytes st) = sum_list (map length (extra dev)) \<and>
     length (k_arenas dev) * 2 * slab_bytes_of pool + sum_list (map length (extra dev)) \<le> u64_max"

lemma rig_span:
  assumes ok: "rig_ok pool dev st" and i: "i < n_slots pool" and n: "n \<le> cap_tokens pool"
  shows "n * per_pos_bytes pool \<le> slab_bytes_of pool"
    "views_fit (n * per_pos_bytes pool) (arena_views (descs pool ! i) (k_arenas dev) (v_arenas dev))"
    "u64_wrap (n * per_pos_bytes pool) = n * per_pos_bytes pool"
proof -
  have wf: "pool_wf pool" using ok by (simp add: rig_ok_def)
  show le: "n * per_pos_bytes pool \<le> slab_bytes_of pool" using n by (rule mult_le_mono1)
  have R: "n_slots pool * slab_bytes_of pool \<le> R9700_VRAM_BYTES" and pos: "0 < per_pos_bytes pool"
    and d: "k_base (descs pool ! i) = i * slab_bytes_of pool" "v_base (descs pool ! i) = i * slab_bytes_of pool"
    using wf i by (auto simp: pool_wf_def desc_ok_def)
  have "Suc i * slab_bytes_of pool \<le> n_slots pool * slab_bytes_of pool"
    using i by (intro mult_le_mono1) simp
  then have top: "i * slab_bytes_of pool + slab_bytes_of pool \<le> n_slots pool * slab_bytes_of pool" by simp
  then have u: "i * slab_bytes_of pool + slab_bytes_of pool \<le> u64_max"
    using R by (simp add: R9700_VRAM_BYTES_def)
  then show "u64_wrap (n * per_pos_bytes pool) = n * per_pos_bytes pool"
    using le by (intro u64_wrap_id) linarith
  have bufs: "length a = n_slots pool * slab_bytes_of pool"
    if "a \<in> set (k_arenas dev) \<union> set (v_arenas dev)" for a
    using ok that arena_bytes_eq [OF pos R] by (simp add: rig_ok_def)
  have "i * slab_bytes_of pool + n * per_pos_bytes pool \<le> length a \<and>
      i * slab_bytes_of pool + n * per_pos_bytes pool \<le> u64_max"
    if "a \<in> set (k_arenas dev) \<union> set (v_arenas dev)" for a
    using bufs [OF that] top le u by linarith
  then show "views_fit (n * per_pos_bytes pool) (arena_views (descs pool ! i) (k_arenas dev) (v_arenas dev))"
    by (fastforce simp: views_fit_def arena_views_def d dest: set_zip_leftD set_zip_rightD)
qed

lemma length_arena_views: "length vs = length ks \<Longrightarrow> length (arena_views d ks vs) = length ks * 2"
  by (induction ks arbitrary: vs) (auto simp: arena_views_def length_Suc_conv)

text \<open>The payload a capture produces: the live spans of the slot, then the extra state.\<close>

definition slot_payload :: "slot_pool \<Rightarrow> nat \<Rightarrow> device \<Rightarrow> byte list" where
  "slot_payload pool slot dev =
     live (slot_len pool slot * per_pos_bytes pool)
       (arena_views (descs pool ! slot) (k_arenas dev) (v_arenas dev)) @ concat (extra dev)"

lemma length_slot_payload:
  assumes "rig_ok pool dev st" and "i < n_slots pool"
  shows "length (slot_payload pool i dev) =
    length (k_arenas dev) * 2 * (slot_len pool i * per_pos_bytes pool) + sum_list (map length (extra dev))"
proof -
  have "slot_len pool i \<le> cap_tokens pool" using assms pool_wf_len by (auto simp: rig_ok_def)
  from rig_span(2) [OF assms this] show ?thesis
    using assms(1) by (simp add: slot_payload_def length_live length_arena_views rig_ok_def length_concat)
qed

lemma rig_total:
  assumes "rig_ok pool dev st" and "n \<le> cap_tokens pool"
  shows "length (k_arenas dev) * 2 * (n * per_pos_bytes pool) + sum_list (map length (extra dev)) \<le> u64_max"
proof -
  have "n * per_pos_bytes pool \<le> slab_bytes_of pool" using assms(2) by (rule mult_le_mono1)
  then have "length (k_arenas dev) * 2 * (n * per_pos_bytes pool) \<le> length (k_arenas dev) * 2 * slab_bytes_of pool"
    by (rule mult_le_mono2)
  then show ?thesis using assms(1) unfolding rig_ok_def by linarith
qed

lemma capture_slot_ok:
  assumes ok: "rig_ok pool dev st" and i: "i < n_slots pool" and mc: "memcpy_lawful mc"
  shows "\<exists>r. capture_slot mc pool i (k_arenas dev) (v_arenas dev) (extra dev) ts st = Some r \<and>
    (\<forall>s. r = Inr s \<longrightarrow> s = \<lparr>stamp = st, snap_seq_len = slot_len pool i, snap_tokens = ts,
       payload = slot_payload pool i dev, checksum = checksum_of (slot_payload pool i dev)\<rparr>) \<and>
    (all_copies_succeed mc \<longrightarrow> (\<exists>s. r = Inr s))"
proof -
  let ?n = "slot_len pool i" and ?d = "descs pool ! i"
  let ?span = "?n * per_pos_bytes pool" and ?dn = "sum_list (map length (extra dev))"
  let ?xs = "arena_views ?d (k_arenas dev) (v_arenas dev)"
  let ?total = "length (k_arenas dev) * 2 * ?span + ?dn"
  have wf: "pool_wf pool" and lv: "length (v_arenas dev) = length (k_arenas dev)"
    and ppb: "unat (stamp_per_pos_bytes st) = per_pos_bytes pool" using ok by (auto simp: rig_ok_def)
  have cap: "?n \<le> cap_tokens pool" using pool_wf_len [OF wf i] by simp
  note sp = rig_span [OF ok i cap]
  have seq: "i32_as_usize (desc_seq_len ?d) = ?n"
    using held_len_eq [OF wf i] i by (simp add: held_len_def)
  have tot: "u64_wrap ?total = ?total" using rig_total [OF ok cap] by simp
  let ?z = "replicate ?total (0 :: byte)"
  have l: "length ?xs * ?span + length (concat (extra dev)) = ?total"
    by (simp add: length_arena_views [OF lv] length_concat)
  then have "0 + length ?xs * ?span \<le> length ?z" by simp
  from capture_arenas_ok [OF mc sp(2) this, of 0] obtain r where
    r: "capture_arenas mc 0 ?xs ?span 0 ?z = Some r"
      "\<forall>c o' out'. r = Inr (c, o', out') \<longrightarrow> o' = 0 + length ?xs * ?span \<and> out' = write_at ?z 0 (live ?span ?xs)"
      "all_copies_succeed mc \<longrightarrow> (\<exists>v. r = Inr v)" by blast
  note start = capture_slot_def list_get_Some [OF i] seq ppb sp(3) tot r(1) Let_def
  show ?thesis
  proof (cases r)
    case (Inl e)
    with r(3) show ?thesis by (simp add: start)
  next
    case (Inr v)
    obtain c o' out where v: "v = (c, o', out)" by (cases v)
    with Inr r(2) have o: "o' = length ?xs * ?span" "out = write_at ?z 0 (live ?span ?xs)" by auto
    have lo: "length out = ?total" using o(2) l length_live [OF sp(2)] by simp
    then have "o' + length (concat (extra dev)) \<le> length out" using l o(1) by simp
    from capture_extra_ok [OF mc this, of c] obtain r2 where
      r2: "capture_extra mc c (extra dev) o' out = Some r2"
        "\<forall>x out'. r2 = Inr (x, out') \<longrightarrow> out' = write_at out o' (concat (extra dev))"
        "all_copies_succeed mc \<longrightarrow> (\<exists>v. r2 = Inr v)" by blast
    have "write_at out o' (concat (extra dev)) = write_at ?z 0 (slot_payload pool i dev)"
      using write_at_write_at [of 0 "live ?span ?xs" "concat (extra dev)" ?z] l o length_live [OF sp(2)]
      by (simp add: slot_payload_def)
    also have "\<dots> = slot_payload pool i dev"
      by (rule write_at_all) (simp add: length_slot_payload [OF ok i])
    finally show ?thesis
      using r2 Inr v by (cases r2) (auto simp: start)
  qed
qed

definition same_geometry :: "slot_pool \<Rightarrow> device \<Rightarrow> slot_pool \<Rightarrow> device \<Rightarrow> bool" where
  "same_geometry pool dev pool' dev' \<longleftrightarrow>
     cap_tokens pool' = cap_tokens pool \<and> length (k_arenas dev') = length (k_arenas dev) \<and>
     map length (extra dev') = map length (extra dev)"

lemma concat_eq_blocks: "concat xs = concat ys \<Longrightarrow> map length xs = map length ys \<Longrightarrow> xs = ys"
  by (induction xs arbitrary: ys) (auto simp: Cons_eq_map_conv map_eq_Cons_conv)

text \<open>A snapshot that fits the rig: what a capture of one of its slots can produce.\<close>

definition snap_fits :: "slot_pool \<Rightarrow> device \<Rightarrow> snapshot_stamp \<Rightarrow> slot_snapshot \<Rightarrow> bool" where
  "snap_fits pool dev st snap \<longleftrightarrow>
     stamp snap = st \<and> snap_seq_len snap \<le> cap_tokens pool \<and> checksum snap = checksum_of (payload snap) \<and>
     length (payload snap) = length (k_arenas dev) * 2 * (snap_seq_len snap * per_pos_bytes pool) +
       sum_list (map length (extra dev))"

lemma snap_fits_validates:
  assumes ok: "rig_ok pool dev st" and fits: "snap_fits pool dev st snap"
  shows "validate snap st = Inr ()"
proof -
  have "snap_seq_len snap \<le> cap_tokens pool" using fits by (simp add: snap_fits_def)
  from rig_total [OF ok this] ok fits have "expected_len snap = length (payload snap)"
    by (simp add: expected_len_def rig_ok_def snap_fits_def algebra_simps)
  with fits show ?thesis by (simp add: validate_def snap_fits_def)
qed

lemma captured_fits:
  assumes ok: "rig_ok pool dev st" and i: "i < n_slots pool"
  shows "snap_fits pool dev st \<lparr>stamp = st, snap_seq_len = slot_len pool i, snap_tokens = ts,
    payload = slot_payload pool i dev, checksum = checksum_of (slot_payload pool i dev)\<rparr>"
  using ok i pool_wf_len length_slot_payload [OF ok i] by (simp add: snap_fits_def rig_ok_def)

lemma unzip_arenas_lengths:
  "length vs = length ks \<Longrightarrow> map length bufs = map (length \<circ> fst) (arena_views d ks vs) \<Longrightarrow>
   map length (fst (unzip_arenas bufs ks vs)) = map length ks \<and>
   map length (snd (unzip_arenas bufs ks vs)) = map length vs"
proof (induction ks arbitrary: vs bufs)
  case (Cons k ks)
  then obtain v vs' where vs: "vs = v # vs'" by (metis length_Suc_conv)
  from Cons.prems(2) obtain k' v' bufs' where b: "bufs = k' # v' # bufs'" "length k' = length k" "length v' = length v"
    "map length bufs' = map (length \<circ> fst) (arena_views d ks vs')"
    by (auto simp: vs arena_views_def Cons_eq_map_conv map_eq_Cons_conv)
  with Cons.IH [of vs' bufs'] Cons.prems(1) vs show ?case by (simp add: split_beta)
qed simp

text \<open>Restoring a snapshot that fits: no panic, no buffer changes size, and the bytes land in order.\<close>

lemma restore_slot_total:
  assumes ok: "rig_ok pool dev st" and j: "j < n_slots pool" and mc: "memcpy_lawful mc"
    and fits: "snap_fits pool dev st snap"
  shows "\<exists>pool' dev' r. restore_slot mc pool j dev snap st = Some (pool', dev', r) \<and>
    map length (k_arenas dev') = map length (k_arenas dev) \<and>
    map length (v_arenas dev') = map length (v_arenas dev) \<and>
    map length (extra dev') = map length (extra dev) \<and>
    (all_copies_succeed mc \<longrightarrow> r = Inr ()) \<and> (r \<noteq> Inr () \<longrightarrow> pool' = pool) \<and>
    (r = Inr () \<longrightarrow>
       pool_set_seq_len pool j (snap_seq_len snap) = Some (Inr pool') \<and>
       (k_arenas dev', v_arenas dev') = unzip_arenas (put_chunks (snap_seq_len snap * per_pos_bytes pool)
          (arena_views (descs pool ! j) (k_arenas dev) (v_arenas dev)) (payload snap)) (k_arenas dev) (v_arenas dev) \<and>
       concat (extra dev') =
         drop (length (k_arenas dev) * 2 * (snap_seq_len snap * per_pos_bytes pool)) (payload snap))"
proof -
  let ?n = "snap_seq_len snap" and ?pl = "payload snap"
  let ?span = "?n * per_pos_bytes pool" and ?xs = "arena_views (descs pool ! j) (k_arenas dev) (v_arenas dev)"
  let ?kv = "length (k_arenas dev) * 2 * ?span"
  have f: "stamp snap = st" "?n \<le> cap_tokens pool" "length ?pl = ?kv + length (concat (extra dev))"
    and lv: "length (v_arenas dev) = length (k_arenas dev)"
    and ppb: "unat (stamp_per_pos_bytes st) = per_pos_bytes pool"
    using ok fits by (simp_all add: rig_ok_def snap_fits_def length_concat)
  note sp = rig_span [OF ok j f(2)]
  have lx: "length ?xs * ?span = ?kv" using lv by (simp add: length_arena_views)
  have tot: "u64_wrap (?kv + sum_list (map length (extra dev))) = length ?pl"
    using rig_total [OF ok f(2)] f(3) by (simp add: length_concat)
  have "0 + length ?xs * ?span \<le> length ?pl" unfolding lx f(3) by simp
  from restore_arenas_ok [OF mc sp(2) this, of 0] obtain bufs c o' g where
    r1: "restore_arenas mc 0 ?xs ?span ?pl 0 = Some (bufs, c, o', g)" "map length bufs = map (length \<circ> fst) ?xs"
      "g \<longrightarrow> o' = 0 + length ?xs * ?span \<and> bufs = put_chunks ?span ?xs (drop 0 ?pl)"
      "all_copies_succeed mc \<longrightarrow> g" by blast
  note un = unzip_arenas_lengths [OF lv r1(2)]
  note start = restore_slot_def snap_fits_validates [OF ok fits] list_get_Some [OF j] f(1) ppb sp(3) tot r1(1) Let_def
  let ?u = "unzip_arenas bufs (k_arenas dev) (v_arenas dev)"
  show ?thesis
  proof (cases g)
    case False
    then have "restore_slot mc pool j dev snap st =
        Some (pool, dev\<lparr>k_arenas := fst ?u, v_arenas := snd ?u\<rparr>, Inl (GpuErr CopyFailed))"
      by (simp add: start split_beta)
    with False r1(4) un show ?thesis by simp
  next
    case True
    with r1(3) have o: "o' = ?kv" "bufs = put_chunks ?span ?xs ?pl" using lx by auto
    have "o' + length (concat (extra dev)) \<le> length ?pl" using f(3) o(1) by simp
    from restore_extra_ok [OF mc this, of c] obtain ex g2 where
      r2: "restore_extra mc c (extra dev) ?pl o' = Some (ex, g2)" "map length ex = map length (extra dev)"
        "g2 \<longrightarrow> concat ex = take (length (concat (extra dev))) (drop o' ?pl)" "all_copies_succeed mc \<longrightarrow> g2" by blast
    have ex: "g2 \<longrightarrow> concat ex = drop ?kv ?pl" using r2(3) f(3) o(1) by simp
    obtain q where q: "pool_set_seq_len pool j ?n = Some (Inr q)"
      using f(2) j by (auto simp: pool_set_seq_len_def)
    have "restore_slot mc pool j dev snap st = (let dev' =
        dev\<lparr>k_arenas := fst ?u, v_arenas := snd ?u, extra := ex\<rparr>
        in Some (if g2 then (q, dev', Inr ()) else (pool, dev', Inl (GpuErr CopyFailed))))"
      using True r2(1) q by (simp add: start split_beta)
    with ex q un r2(2,4) o(2) show ?thesis by (cases g2) (simp_all add: Let_def)
  qed
qed

text \<open>Restoring a captured slot into any slot of a rig of the same geometry.\<close>

lemma restore_slot_ok:
  assumes ok: "rig_ok pool dev st" and i: "i < n_slots pool" and mc: "memcpy_lawful mc" "all_copies_succeed mc"
    and ok2: "rig_ok pool2 dev2 st" and j: "j < n_slots pool2" and same: "same_geometry pool dev pool2 dev2"
    and snap: "snap = \<lparr>stamp = st, snap_seq_len = slot_len pool i, snap_tokens = ts,
       payload = slot_payload pool i dev, checksum = checksum_of (slot_payload pool i dev)\<rparr>"
  shows "\<exists>pool' dev'. restore_slot mc pool2 j dev2 snap st = Some (pool', dev', Inr ()) \<and>
    pool_set_seq_len pool2 j (slot_len pool i) = Some (Inr pool') \<and> extra dev' = extra dev \<and>
    k_arenas dev' = map2 (\<lambda>k k0. write_at k (k_base (descs pool2 ! j))
        (span_of (slot_len pool i * per_pos_bytes pool) (k0, k_base (descs pool ! i))))
      (k_arenas dev2) (k_arenas dev) \<and>
    v_arenas dev' = map2 (\<lambda>v v0. write_at v (v_base (descs pool2 ! j))
        (span_of (slot_len pool i * per_pos_bytes pool) (v0, v_base (descs pool ! i))))
      (v_arenas dev2) (v_arenas dev)"
proof -
  let ?n = "slot_len pool i"
  let ?span = "?n * per_pos_bytes pool"
  let ?ys = "arena_views (descs pool ! i) (k_arenas dev) (v_arenas dev)"
  have ppb: "per_pos_bytes pool2 = per_pos_bytes pool" using ok ok2 unfolding rig_ok_def by simp
  have lens: "length (v_arenas dev2) = length (k_arenas dev2)" "length (k_arenas dev) = length (k_arenas dev2)"
    "length (v_arenas dev) = length (k_arenas dev2)" "map length (extra dev2) = map length (extra dev)"
    using ok ok2 same unfolding rig_ok_def same_geometry_def by simp_all
  have cap: "?n \<le> cap_tokens pool" using ok i pool_wf_len by (auto simp: rig_ok_def)
  note sp = rig_span [OF ok i cap]
  have "snap_fits pool2 dev2 st snap"
    using captured_fits [OF ok i, of ts] same ppb lens(2,4) by (simp add: snap snap_fits_def same_geometry_def)
  from restore_slot_total [OF ok2 j mc(1) this] mc(2) obtain pool' dev' where
    r: "restore_slot mc pool2 j dev2 snap st = Some (pool', dev', Inr ())"
      "map length (extra dev') = map length (extra dev2)" "pool_set_seq_len pool2 j ?n = Some (Inr pool')"
      "(k_arenas dev', v_arenas dev') = unzip_arenas (put_chunks ?span
          (arena_views (descs pool2 ! j) (k_arenas dev2) (v_arenas dev2)) (slot_payload pool i dev))
          (k_arenas dev2) (v_arenas dev2)"
      "concat (extra dev') = drop (length (k_arenas dev2) * 2 * ?span) (slot_payload pool i dev)"
    by (auto simp: snap ppb)
  have "length (live ?span ?ys) = length (k_arenas dev2) * 2 * ?span"
    using length_live [OF sp(2)] lens by (simp add: length_arena_views)
  then have "concat (extra dev') = concat (extra dev)" using r(5) by (simp add: slot_payload_def)
  then have "extra dev' = extra dev" using r(2) lens(4) by (intro concat_eq_blocks) simp_all
  moreover note r(4) [unfolded slot_payload_def put_chunks_unzip [OF lens(1-3) sp(2)]]
  ultimately show ?thesis using r(1,3) by simp
qed

section \<open>Properties\<close>

text \<open>
  Property C21. The byte format round-trips: what \<^verbatim>\<open>to_bytes\<close> writes is read back as the same
  snapshot even with bytes appended, every strict prefix of it (a truncated spill file) is
  rejected as corrupt, and no byte string whatever makes the reader panic.
\<close>

theorem snapshot_codec:
  assumes "snap_sizes_ok s"
  shows "from_bytes (to_bytes s @ junk) = Some (Inr s) \<and>
    (\<forall>n<length (to_bytes s). \<exists>e. from_bytes (take n (to_bytes s)) = Some (Inl (Corrupt e))) \<and>
    from_bytes any_bytes \<noteq> None"
  using from_bytes_to_bytes [OF assms] from_bytes_truncated [OF assms] from_bytes_total by simp

definition demo_stamp :: snapshot_stamp where
  "demo_stamp = \<lparr>model_hash = 77, kv_dtype_tag = 1, stamp_per_pos_bytes = 1, n_fa_layers = 1,
     dn_layout_version = 1, stamp_cap = 128, dn_bytes = 2\<rparr>"

definition demo_snap :: slot_snapshot where
  "demo_snap = \<lparr>stamp = demo_stamp, snap_seq_len = 0, snap_tokens = [5, 6], payload = [1, 2],
     checksum = checksum_of [1, 2]\<rparr>"

theorem snapshot_codec_witness:
  "from_bytes (to_bytes demo_snap @ [9]) = Some (Inr demo_snap) \<and>
   (\<exists>e. from_bytes (take 89 (to_bytes demo_snap)) = Some (Inl (Corrupt e)))"
proof -
  have l: "length (to_bytes demo_snap) = 90" "snap_sizes_ok demo_snap"
    by (simp_all add: snap_sizes_ok_def length_to_bytes HEADER_def demo_snap_def)
  from snapshot_codec [OF l(2), of "[9]"] l(1) show ?thesis by simp
qed


text \<open>A driver, a pool of two 128-token slots (the first one two tokens long) and its device.\<close>

definition demo_memcpy :: memcpy where
  "demo_memcpy n dst src = (src @ drop (length src) dst, True)"

definition rig_pool :: slot_pool where
  "rig_pool = \<lparr>descs = [\<lparr>k_base = 0, v_base = 0, desc_seq_len = 2, desc_cap = 128\<rparr>,
      \<lparr>k_base = 128, v_base = 128, desc_seq_len = 0, desc_cap = 128\<rparr>],
    in_use = [True, False], cap_tokens = 128, per_pos_bytes = 1, dirty = False\<rparr>"

definition rig_dev :: "byte \<Rightarrow> device" where
  "rig_dev b = \<lparr>k_arenas = [replicate 256 b], v_arenas = [replicate 256 (b + 1)], extra = [[b + 2, b + 3]]\<rparr>"


text \<open>
  Property C4. Swapping a session out of one slot and into any slot of a rig of the same
  geometry brings its GPU state back bit for bit: with a driver whose copies succeed neither step
  fails or panics, every layer's live K and V span, and the extra state, are what was captured, the
  rest of every arena is untouched (so no other slot changes), and the slot's length is restored.
\<close>

theorem swap_roundtrip:
  assumes mc: "memcpy_lawful mc" "all_copies_succeed mc"
    and rig: "rig_ok pool dev st" "i < n_slots pool"
    and rig2: "rig_ok pool2 dev2 st" "j < n_slots pool2" "same_geometry pool dev pool2 dev2"
  shows "\<exists>snap pool' dev'.
    capture_slot mc pool i (k_arenas dev) (v_arenas dev) (extra dev) ts st = Some (Inr snap) \<and>
    snap_tokens snap = ts \<and> restore_slot mc pool2 j dev2 snap st = Some (pool', dev', Inr ()) \<and>
    slot_len pool' j = slot_len pool i \<and> extra dev' = extra dev \<and>
    k_arenas dev' = map2 (\<lambda>k k0. write_at k (k_base (descs pool2 ! j))
        (span_of (slot_len pool i * per_pos_bytes pool) (k0, k_base (descs pool ! i))))
      (k_arenas dev2) (k_arenas dev) \<and>
    v_arenas dev' = map2 (\<lambda>v v0. write_at v (v_base (descs pool2 ! j))
        (span_of (slot_len pool i * per_pos_bytes pool) (v0, v_base (descs pool ! i))))
      (v_arenas dev2) (v_arenas dev)"
proof -
  from capture_slot_ok [OF rig mc(1)] mc(2) obtain s where
    c: "capture_slot mc pool i (k_arenas dev) (v_arenas dev) (extra dev) ts st = Some (Inr s)"
    and s: "s = \<lparr>stamp = st, snap_seq_len = slot_len pool i, snap_tokens = ts,
       payload = slot_payload pool i dev, checksum = checksum_of (slot_payload pool i dev)\<rparr>" by metis
  from restore_slot_ok [OF rig mc rig2 s] obtain pool' dev' where
    r: "restore_slot mc pool2 j dev2 s st = Some (pool', dev', Inr ())"
      "pool_set_seq_len pool2 j (slot_len pool i) = Some (Inr pool')" "extra dev' = extra dev"
      "k_arenas dev' = map2 (\<lambda>k k0. write_at k (k_base (descs pool2 ! j))
          (span_of (slot_len pool i * per_pos_bytes pool) (k0, k_base (descs pool ! i))))
        (k_arenas dev2) (k_arenas dev)"
      "v_arenas dev' = map2 (\<lambda>v v0. write_at v (v_base (descs pool2 ! j))
          (span_of (slot_len pool i * per_pos_bytes pool) (v0, v_base (descs pool ! i))))
        (v_arenas dev2) (v_arenas dev)" by blast
  have "slot_len pool i < 2147483648" using rig pool_wf_len by (force simp: rig_ok_def)
  then have "slot_len pool' j = slot_len pool i"
    using r(2) rig2(2) by (auto simp: pool_set_seq_len_def slot_len_def split: if_splits)
  with c r s show ?thesis by auto
qed

lemma demo_rig:
  "memcpy_lawful demo_memcpy" "all_copies_succeed demo_memcpy" "rig_ok rig_pool (rig_dev b) demo_stamp"
  "same_geometry rig_pool (rig_dev b) rig_pool (rig_dev c)"
  by (auto simp: memcpy_lawful_def all_copies_succeed_def demo_memcpy_def rig_ok_def rig_pool_def rig_dev_def
      pool_wf_def desc_ok_def PAGE_TOKENS_def R9700_VRAM_BYTES_def arena_bytes_def demo_stamp_def
      same_geometry_def less_Suc_eq)

theorem swap_roundtrip_witness:
  "\<exists>snap pool' dev'.
    capture_slot demo_memcpy rig_pool 0 (k_arenas (rig_dev 7)) (v_arenas (rig_dev 7)) (extra (rig_dev 7))
      [4, 5] demo_stamp = Some (Inr snap) \<and>
    restore_slot demo_memcpy rig_pool 1 (rig_dev 0) snap demo_stamp = Some (pool', dev', Inr ()) \<and>
    slot_len pool' 1 = 2 \<and> extra dev' = [[9, 10]] \<and>
    k_arenas dev' = [replicate 128 0 @ [7, 7] @ replicate 126 0]"
proof -
  note d = rig_pool_def rig_dev_def slot_len_def write_at_def span_of_def
  from swap_roundtrip [OF demo_rig(1,2) demo_rig(3) _ demo_rig(3) _ demo_rig(4), of 0 1 7 "[4, 5]" 0]
  obtain snap pool' dev' where r:
    "capture_slot demo_memcpy rig_pool 0 (k_arenas (rig_dev 7)) (v_arenas (rig_dev 7)) (extra (rig_dev 7))
      [4, 5] demo_stamp = Some (Inr snap)"
    "restore_slot demo_memcpy rig_pool 1 (rig_dev 0) snap demo_stamp = Some (pool', dev', Inr ())"
    "slot_len pool' 1 = slot_len rig_pool 0" "extra dev' = extra (rig_dev 7)"
    "k_arenas dev' = map2 (\<lambda>k k0. write_at k (k_base (descs rig_pool ! 1))
        (span_of (slot_len rig_pool 0 * per_pos_bytes rig_pool) (k0, k_base (descs rig_pool ! 0))))
      (k_arenas (rig_dev 0)) (k_arenas (rig_dev 7))"
    by (auto simp: rig_pool_def)
  moreover have "slot_len rig_pool 0 = 2" by (simp add: d)
  moreover have "extra (rig_dev 7) = [[9, 10]]" by (simp add: d)
  moreover have "k_arenas dev' = [replicate 128 0 @ [7, 7] @ replicate 126 0]"
    unfolding r(5) by (simp add: d numeral_2_eq_2)
  ultimately show ?thesis by auto
qed

end
