(* ===== verification/Swap_Store.thy ===== *)
theory Swap_Store
  imports Snapshot
begin

text \<open>
  \<^verbatim>\<open>hipfire-runtime/src/swap/store.rs\<close> and \<^verbatim>\<open>swap/mod.rs\<close>: where the snapshots of swapped-out
  sessions live, host memory first and scratch files beyond the budget, and the manager that
  counts what happens to them.

  The file system is a map from path names to contents. Every operation takes an \<open>io_env\<close> that
  says which of its file-system calls succeed, and what a failed write leaves at the path, so the
  statements hold for every pattern of I/O failures. Files are only changed by the store itself.
\<close>

section \<open>Data\<close>

type_synonym fs = "string \<rightharpoonup> byte list"

record io_env =
  clear_ok :: bool
  mkdir_ok :: bool
  write_ok :: bool
  write_left :: "byte list option"
  read_ok :: bool
  remove_ok :: bool

datatype entry = Host slot_snapshot | Disk string nat

record swap_store =
  dir :: string
  store_host_budget :: nat
  store_host_used :: nat
  entries :: "nat \<rightharpoonup> entry"

text \<open>\<^verbatim>\<open>format!("{key}.snap")\<close>.\<close>

fun dec :: "nat \<Rightarrow> string" where
  "dec n = (if n < 10 then [char_of (48 + n)] else dec (n div 10) @ [char_of (48 + n mod 10)])"

declare dec.simps [simp del]

definition path_for :: "string \<Rightarrow> nat \<Rightarrow> string" where
  "path_for d key = d @ ''/'' @ dec key @ ''.snap''"

section \<open>Operations of the store\<close>

definition outside_dir :: "string \<Rightarrow> string \<Rightarrow> bool" where
  "outside_dir d p \<longleftrightarrow> take (length d + 1) p \<noteq> d @ ''/''"

definition remove_dir_all :: "fs \<Rightarrow> string \<Rightarrow> fs" where
  "remove_dir_all f d = (\<lambda>p. if outside_dir d p then f p else None)"

definition store_new ::
  "io_env \<Rightarrow> fs \<Rightarrow> bool \<Rightarrow> string \<Rightarrow> nat \<Rightarrow> fs \<times> (swap_error + swap_store)" where
  "store_new io f dir_exists d budget =
     (if dir_exists \<and> \<not> clear_ok io then (f, Inl (Io IoFailure))
      else
        let f' = (if dir_exists then remove_dir_all f d else f)
        in if \<not> mkdir_ok io then (f', Inl (Io IoFailure))
           else (f', Inr \<lparr>dir = d, store_host_budget = budget, store_host_used = 0, entries = Map.empty\<rparr>))"

definition remove_file :: "io_env \<Rightarrow> fs \<Rightarrow> string \<Rightarrow> fs" where
  "remove_file io f p = (if remove_ok io then f(p := None) else f)"

definition tier_of :: "swap_store \<Rightarrow> nat \<Rightarrow> string option" where
  "tier_of s key = map_option (\<lambda>e. case e of Host _ \<Rightarrow> ''host'' | Disk _ _ \<Rightarrow> ''disk'') (entries s key)"

definition drop_key :: "io_env \<Rightarrow> fs \<Rightarrow> swap_store \<Rightarrow> nat \<Rightarrow> fs \<times> swap_store" where
  "drop_key io f s key =
     (let s' = s\<lparr>entries := (entries s)(key := None)\<rparr> in
      case entries s key of
        Some (Host snap) \<Rightarrow> (f, s'\<lparr>store_host_used := store_host_used s - length (payload snap)\<rparr>)
      | Some (Disk p _) \<Rightarrow> (remove_file io f p, s')
      | None \<Rightarrow> (f, s'))"

definition store_put ::
  "io_env \<Rightarrow> fs \<Rightarrow> swap_store \<Rightarrow> nat \<Rightarrow> slot_snapshot \<Rightarrow> fs \<times> swap_store \<times> (swap_error + unit)" where
  "store_put io f0 s0 key snap =
     (let (f, s) = drop_key io f0 s0 key;
          bytes = length (payload snap)
      in if u64_wrap (store_host_used s + bytes) \<le> store_host_budget s
         then (f, s\<lparr>store_host_used := u64_wrap (store_host_used s + bytes),
                    entries := (entries s)(key \<mapsto> Host snap)\<rparr>, Inr ())
         else
           let p = path_for (dir s) key; encoded = to_bytes snap
           in if write_ok io
              then (f(p \<mapsto> encoded), s\<lparr>entries := (entries s)(key \<mapsto> Disk p (length encoded))\<rparr>, Inr ())
              else (f(p := write_left io), s, Inl (Io IoFailure)))"

definition store_take ::
  "io_env \<Rightarrow> fs \<Rightarrow> swap_store \<Rightarrow> nat \<Rightarrow> (fs \<times> swap_store \<times> (swap_error + slot_snapshot)) option" where
  "store_take io f s key =
     (let s' = s\<lparr>entries := (entries s)(key := None)\<rparr> in
      case entries s key of
        None \<Rightarrow> Some (f, s', Inl (Io (NoSnapshot key)))
      | Some (Host snap) \<Rightarrow>
          Some (f, s'\<lparr>store_host_used := store_host_used s - length (payload snap)\<rparr>, Inr snap)
      | Some (Disk p _) \<Rightarrow>
          (case (if read_ok io then f p else None) of
             None \<Rightarrow> Some (f, s', Inl (Io IoFailure))
           | Some bytes \<Rightarrow> do {
               r \<leftarrow> from_bytes bytes;
               Some (remove_file io f p, s', r)
             }))"

text \<open>\<^verbatim>\<open>Drop for SwapStore\<close>.\<close>

definition store_drop :: "io_env \<Rightarrow> fs \<Rightarrow> swap_store \<Rightarrow> fs" where
  "store_drop io f s = (if clear_ok io then remove_dir_all f (dir s) else f)"

section \<open>The manager\<close>

record swap_manager =
  sm_store :: swap_store
  evictions :: nat
  restores :: nat
  failures :: nat

definition manager_new ::
  "io_env \<Rightarrow> fs \<Rightarrow> bool \<Rightarrow> string \<Rightarrow> nat \<Rightarrow> fs \<times> (swap_error + swap_manager)" where
  "manager_new io f dir_exists d budget =
     (let (f', r) = store_new io f dir_exists d budget
      in (f', map_sum id (\<lambda>s. \<lparr>sm_store = s, evictions = 0, restores = 0, failures = 0\<rparr>) r))"

definition manager_stats :: "swap_manager \<Rightarrow> nat \<times> nat \<times> nat" where
  "manager_stats m = (evictions m, restores m, failures m)"

definition park ::
  "io_env \<Rightarrow> fs \<times> swap_manager \<Rightarrow> nat \<Rightarrow> slot_snapshot \<Rightarrow> (fs \<times> swap_manager) \<times> (swap_error + unit)" where
  "park io fm key snap =
     (let (f, m) = fm; (f', s', r) = store_put io f (sm_store m) key snap; m' = m\<lparr>sm_store := s'\<rparr>
      in ((f', case r of Inr _ \<Rightarrow> m'\<lparr>evictions := evictions m + 1\<rparr>
               | Inl _ \<Rightarrow> m'\<lparr>failures := failures m + 1\<rparr>), r))"

definition unpark ::
  "io_env \<Rightarrow> fs \<times> swap_manager \<Rightarrow> nat \<Rightarrow> ((fs \<times> swap_manager) \<times> (swap_error + slot_snapshot)) option" where
  "unpark io fm key = do {
     let (f, m) = fm;
     (f', s', r) \<leftarrow> store_take io f (sm_store m) key;
     Some (case r of
         Inr snap \<Rightarrow> ((f', m\<lparr>sm_store := s', restores := restores m + 1\<rparr>), Inr snap)
       | Inl e \<Rightarrow>
           let (f'', s'') = drop_key io f' s' key
           in ((f'', m\<lparr>sm_store := s'', failures := failures m + 1\<rparr>), Inl e))
   }"

definition forget_parked :: "io_env \<Rightarrow> fs \<times> swap_manager \<Rightarrow> nat \<Rightarrow> fs \<times> swap_manager" where
  "forget_parked io fm key =
     (let (f, m) = fm; (f', s') = drop_key io f (sm_store m) key in (f', m\<lparr>sm_store := s'\<rparr>))"

section \<open>Path names\<close>

definition undec :: "string \<Rightarrow> nat" where
  "undec cs = foldl (\<lambda>a c. a * 10 + (of_char c - 48)) 0 cs"

lemma undec_dec [simp]: "undec (dec n) = n"
proof (induction n rule: dec.induct)
  case (1 n)
  then show ?case
    by (subst dec.simps) (auto simp: undec_def of_char_of take_bit_eq_mod)
qed

lemma path_for_inj: "path_for d j = path_for d k \<longleftrightarrow> j = k"
proof
  assume "path_for d j = path_for d k"
  then have "dec j = dec k" by (simp add: path_for_def)
  then have "undec (dec j) = undec (dec k)" by simp
  then show "j = k" by simp
qed simp

section \<open>The store as a finite map\<close>

definition host_bytes :: "entry \<Rightarrow> nat" where
  "host_bytes e = (case e of Host snap \<Rightarrow> length (payload snap) | Disk _ _ \<Rightarrow> 0)"

definition parkable :: "slot_snapshot \<Rightarrow> bool" where
  "parkable snap \<longleftrightarrow> snap_sizes_ok snap \<and> length (payload snap) < 9223372036854775808"

text \<open>
  The host bytes are accounted exactly and stay within the budget, and every disk entry has its
  own file holding an encoded snapshot.
\<close>

definition entry_ok :: "fs \<Rightarrow> string \<Rightarrow> nat \<Rightarrow> entry \<Rightarrow> bool" where
  "entry_ok f d key e =
     (case e of Host snap \<Rightarrow> True
      | Disk p n \<Rightarrow> p = path_for d key \<and> (\<exists>snap. parkable snap \<and> f p = Some (to_bytes snap)))"

definition store_ok :: "fs \<Rightarrow> swap_store \<Rightarrow> bool" where
  "store_ok f s \<longleftrightarrow>
     finite (dom (entries s)) \<and> store_host_budget s < 9223372036854775808 \<and>
     store_host_used s = msum host_bytes (entries s) \<and> store_host_used s \<le> store_host_budget s \<and>
     (\<forall>key e. entries s key = Some e \<longrightarrow> entry_ok f (dir s) key e)"

definition entry_snap :: "fs \<Rightarrow> entry \<Rightarrow> slot_snapshot option" where
  "entry_snap f e =
     (case e of Host snap \<Rightarrow> Some snap
      | Disk p n \<Rightarrow>
          (case f p of None \<Rightarrow> None
           | Some bytes \<Rightarrow> (case from_bytes bytes of Some (Inr snap) \<Rightarrow> Some snap | _ \<Rightarrow> None)))"

definition parked_map :: "fs \<Rightarrow> swap_store \<Rightarrow> nat \<rightharpoonup> slot_snapshot" where
  "parked_map f s = (\<lambda>key. Option.bind (entries s key) (entry_snap f))"

lemma parkable_decodes: "parkable snap \<Longrightarrow> from_bytes (to_bytes snap) = Some (Inr snap)"
  using from_bytes_to_bytes [of snap "[]"] by (simp add: parkable_def)

lemma store_okD: "store_ok f s \<Longrightarrow> entries s key = Some e \<Longrightarrow> entry_ok f (dir s) key e"
  by (simp add: store_ok_def)

text \<open>A change at one key's path is invisible to the entries of the other keys.\<close>

lemma entry_frame:
  assumes "entry_ok f d j e" and "j \<noteq> key"
  shows "entry_ok (f(path_for d key := x)) d j e" "entry_snap (f(path_for d key := x)) e = entry_snap f e"
  using assms by (auto simp: entry_ok_def entry_snap_def path_for_inj split: entry.splits)

lemma remove_file_cases: "remove_file io f p = f \<or> remove_file io f p = f(p := None)"
  by (simp add: remove_file_def)

lemma store_ok_shrink:
  assumes ok: "store_ok f s" and f': "f' = f \<or> f' = f(path_for (dir s) key := x)"
    and used: "u = store_host_used s - (case entries s key of None \<Rightarrow> 0 | Some e \<Rightarrow> host_bytes e)"
  shows "store_ok f' (s\<lparr>entries := (entries s)(key := None), store_host_used := u\<rparr>)"
    "parked_map f' (s\<lparr>entries := (entries s)(key := None), store_host_used := u\<rparr>) = (parked_map f s)(key := None)"
proof -
  have fin: "finite (dom (entries s))" and eq: "store_host_used s = msum host_bytes (entries s)"
    using ok by (auto simp: store_ok_def)
  have u: "u = msum host_bytes ((entries s)(key := None))"
  proof (cases "entries s key")
    case None
    then have "(entries s)(key := None) = entries s" by auto
    with None show ?thesis using used eq by simp
  next
    case (Some e)
    from msum_remove [OF fin Some, of host_bytes] show ?thesis using Some used eq by simp
  qed
  have fr: "entry_ok f' (dir s) j e" "entry_snap f' e = entry_snap f e"
    if "entries s j = Some e" "j \<noteq> key" for j e
    using ok that f' entry_frame [of f "dir s" j e key x] by (auto simp: store_ok_def)
  show "store_ok f' (s\<lparr>entries := (entries s)(key := None), store_host_used := u\<rparr>)"
    using ok u used fr(1) by (auto simp: store_ok_def split: if_splits)
  show "parked_map f' (s\<lparr>entries := (entries s)(key := None), store_host_used := u\<rparr>) = (parked_map f s)(key := None)"
    using fr(2) by (auto simp: parked_map_def fun_eq_iff split: Option.bind_splits)
qed

lemma parked_map_frame:
  "(\<And>j e. entries s j = Some e \<Longrightarrow> entry_snap f' e = entry_snap f e) \<Longrightarrow> parked_map f' s = parked_map f s"
  by (auto simp: parked_map_def fun_eq_iff split: Option.bind_splits)

lemma parked_map_insert:
  "parked_map f (s\<lparr>entries := (entries s)(key \<mapsto> e)\<rparr>) = (parked_map f s)(key := entry_snap f e)"
  "parked_map f (s\<lparr>store_host_used := u, entries := m\<rparr>) = parked_map f (s\<lparr>entries := m\<rparr>)"
  by (auto simp: parked_map_def fun_eq_iff)

lemma drop_key_ok [keeps]:
  assumes ok: "store_ok f s"
  shows "\<exists>f' s'. drop_key io f s key = (f', s') \<and> store_ok f' s' \<and>
    parked_map f' s' = (parked_map f s)(key := None) \<and> entries s' key = None \<and>
    dir s' = dir s \<and> store_host_budget s' = store_host_budget s"
proof -
  let ?u = "store_host_used s - (case entries s key of None \<Rightarrow> 0 | Some e \<Rightarrow> host_bytes e)"
  let ?s = "s\<lparr>entries := (entries s)(key := None), store_host_used := ?u\<rparr>"
  have same: "s\<lparr>entries := m, store_host_used := store_host_used s\<rparr> = s\<lparr>entries := m\<rparr>" for m by simp
  show ?thesis
  proof (cases "entries s key")
    case None
    then have "drop_key io f s key = (f, ?s)" by (simp add: drop_key_def Let_def)
    with store_ok_shrink [OF ok disjI1 [OF refl] refl, of key] show ?thesis by simp
  next
    case (Some e)
    show ?thesis
    proof (cases e)
      case (Host snap)
      with Some have "drop_key io f s key = (f, ?s)" by (simp add: drop_key_def Let_def host_bytes_def)
      with store_ok_shrink [OF ok disjI1 [OF refl] refl, of key] show ?thesis by simp
    next
      case (Disk p n)
      with Some have "drop_key io f s key = (remove_file io f p, ?s)"
        by (simp add: drop_key_def Let_def host_bytes_def)
      moreover have "p = path_for (dir s) key"
        using store_okD [OF ok Some] Disk by (simp add: entry_ok_def)
      then have "remove_file io f p = f \<or> remove_file io f p = f(path_for (dir s) key := None)"
        by (simp add: remove_file_def)
      note store_ok_shrink [OF ok this refl]
      ultimately show ?thesis by simp
    qed
  qed
qed

lemma store_put_ok [keeps]:
  assumes ok: "store_ok f s" and snap: "parkable snap"
  shows "\<exists>f' s' r. store_put io f s key snap = (f', s', r) \<and> store_ok f' s' \<and>
    parked_map f' s' = (parked_map f s)(key := if r = Inr () then Some snap else None) \<and>
    (r \<noteq> Inr () \<longrightarrow> \<not> write_ok io)"
proof -
  obtain f1 s1 where d: "drop_key io f s key = (f1, s1)" "store_ok f1 s1"
    "parked_map f1 s1 = (parked_map f s)(key := None)" "entries s1 key = None"
    using drop_key_ok [OF ok, of io key] by blast
  have fin: "finite (dom (entries s1))" and used: "store_host_used s1 = msum host_bytes (entries s1)"
    and bound: "store_host_used s1 \<le> store_host_budget s1" "store_host_budget s1 < 9223372036854775808"
    using d(2) by (auto simp: store_ok_def)
  have wrap: "u64_wrap (store_host_used s1 + length (payload snap)) = store_host_used s1 + length (payload snap)"
    using bound snap by (simp add: parkable_def)
  let ?p = "path_for (dir s1) key"
  have fr: "entry_ok (f1(?p := x)) (dir s1) j e" "entry_snap (f1(?p := x)) e = entry_snap f1 e"
    if "entries s1 j = Some e" for j e x
  proof -
    have "j \<noteq> key" using that d(4) by auto
    with store_okD [OF d(2) that] show "entry_ok (f1(?p := x)) (dir s1) j e"
      "entry_snap (f1(?p := x)) e = entry_snap f1 e" by (rule entry_frame)+
  qed
  show ?thesis
  proof (cases "store_host_used s1 + length (payload snap) \<le> store_host_budget s1")
    case True
    let ?s = "s1\<lparr>store_host_used := store_host_used s1 + length (payload snap),
      entries := (entries s1)(key \<mapsto> Host snap)\<rparr>"
    have "store_ok f1 ?s"
      using d(2) True msum_insert [OF fin d(4), of host_bytes "Host snap"] used
      by (auto simp: store_ok_def host_bytes_def entry_ok_def)
    moreover have "parked_map f1 ?s = (parked_map f s)(key \<mapsto> snap)"
      using d(3) by (simp add: parked_map_insert) (simp add: entry_snap_def)
    ultimately show ?thesis using True by (simp add: store_put_def d(1) wrap Let_def)
  next
    case False
    show ?thesis
    proof (cases "write_ok io")
      case True
      let ?s = "s1\<lparr>entries := (entries s1)(key \<mapsto> Disk ?p (length (to_bytes snap)))\<rparr>"
      have "store_ok (f1(?p \<mapsto> to_bytes snap)) ?s"
        using d(2) snap fr(1) msum_insert [OF fin d(4), of host_bytes "Disk ?p (length (to_bytes snap))"]
        by (auto simp: store_ok_def host_bytes_def entry_ok_def)
      moreover have "parked_map (f1(?p \<mapsto> to_bytes snap)) ?s = (parked_map f s)(key \<mapsto> snap)"
        using d(3) parked_map_frame [OF fr(2)] parkable_decodes [OF snap]
        by (simp add: parked_map_insert) (simp add: entry_snap_def)
      ultimately show ?thesis using False True by (simp add: store_put_def d(1) wrap Let_def)
    next
      case wf: False
      have "store_ok (f1(?p := write_left io)) s1" using d(2) fr(1) by (auto simp: store_ok_def)
      moreover have "parked_map (f1(?p := write_left io)) s1 = (parked_map f s)(key := None)"
        using d(3) parked_map_frame [OF fr(2)] by simp
      ultimately show ?thesis using False wf by (simp add: store_put_def d(1) wrap Let_def)
    qed
  qed
qed

lemma store_take_ok [keeps]:
  assumes ok: "store_ok f s"
  shows "\<exists>f' s' r. store_take io f s key = Some (f', s', r) \<and> store_ok f' s' \<and>
    parked_map f' s' = (parked_map f s)(key := None) \<and> entries s' key = None \<and>
    (\<forall>snap. r = Inr snap \<longrightarrow> parked_map f s key = Some snap) \<and>
    (read_ok io \<longrightarrow> (case parked_map f s key of None \<Rightarrow> r = Inl (Io (NoSnapshot key)) | Some snap \<Rightarrow> r = Inr snap))"
proof -
  let ?u = "store_host_used s - (case entries s key of None \<Rightarrow> 0 | Some e \<Rightarrow> host_bytes e)"
  let ?s = "s\<lparr>entries := (entries s)(key := None), store_host_used := ?u\<rparr>"
  show ?thesis
  proof (cases "entries s key")
    case None
    then have "store_take io f s key = Some (f, ?s, Inl (Io (NoSnapshot key)))"
      by (simp add: store_take_def Let_def)
    moreover have "parked_map f s key = None" using None by (simp add: parked_map_def)
    ultimately show ?thesis using store_ok_shrink [OF ok disjI1 [OF refl] refl, of key] by simp
  next
    case (Some e)
    show ?thesis
    proof (cases e)
      case (Host snap)
      with Some have "store_take io f s key = Some (f, ?s, Inr snap)"
        by (simp add: store_take_def Let_def host_bytes_def)
      moreover have "parked_map f s key = Some snap" using Some Host by (simp add: parked_map_def entry_snap_def)
      ultimately show ?thesis using store_ok_shrink [OF ok disjI1 [OF refl] refl, of key] by simp
    next
      case (Disk p n)
      then obtain snap where p: "p = path_for (dir s) key" and sn: "parkable snap" "f p = Some (to_bytes snap)"
        using store_okD [OF ok Some] by (auto simp: entry_ok_def)
      have pm: "parked_map f s key = Some snap"
        using Some Disk sn parkable_decodes by (simp add: parked_map_def entry_snap_def)
      show ?thesis
      proof (cases "read_ok io")
        case True
        then have "store_take io f s key = Some (remove_file io f p, ?s, Inr snap)"
          using Some Disk sn parkable_decodes by (simp add: store_take_def Let_def host_bytes_def)
        moreover have "remove_file io f p = f \<or> remove_file io f p = f(path_for (dir s) key := None)"
          by (simp add: remove_file_def p)
        note store_ok_shrink [OF ok this refl]
        ultimately show ?thesis using pm by simp
      next
        case False
        then have "store_take io f s key = Some (f, ?s, Inl (Io IoFailure))"
          using Some Disk by (simp add: store_take_def Let_def host_bytes_def)
        then show ?thesis using False store_ok_shrink [OF ok disjI1 [OF refl] refl, of key] by simp
      qed
    qed
  qed
qed

lemma store_new_ok:
  assumes "store_new io f ex d budget = (f', Inr s)" and "budget < 9223372036854775808"
  shows "store_ok f' s \<and> parked_map f' s = Map.empty \<and> dir s = d \<and>
    (ex \<longrightarrow> (\<forall>key. f' (path_for d key) = None))"
  using assms
  by (auto simp: store_new_def store_ok_def parked_map_def Let_def remove_dir_all_def outside_dir_def
      path_for_def split: if_splits)

section \<open>The parking interface\<close>

text \<open>
  What the engine relies on when it parks the state of an idle session: the parked snapshots are
  a finite map under park, fetch and forget, whatever the environment does. The client lemma is
  proved once, for the store and for the manager above it.
\<close>

datatype ('k, 'v) parking_op = Park 'k 'v | Fetch 'k | Forget 'k

fun op_key :: "('k, 'v) parking_op \<Rightarrow> 'k" where
  "op_key (Park k v) = k" | "op_key (Fetch k) = k" | "op_key (Forget k) = k"

fun op_valid :: "('v \<Rightarrow> bool) \<Rightarrow> ('k, 'v) parking_op \<Rightarrow> bool" where
  "op_valid P (Park k v) = P v" | "op_valid P (Fetch k) = True" | "op_valid P (Forget k) = True"

locale parking =
  fixes invar :: "'s \<Rightarrow> bool"
    and parked :: "'s \<Rightarrow> 'k \<rightharpoonup> 'v"
    and valid :: "'v \<Rightarrow> bool"
    and put :: "'io \<Rightarrow> 's \<Rightarrow> 'k \<Rightarrow> 'v \<Rightarrow> 's \<times> ('e + unit)"
    and fetch :: "'io \<Rightarrow> 's \<Rightarrow> 'k \<Rightarrow> ('s \<times> ('e + 'v)) option"
    and drop_parked :: "'io \<Rightarrow> 's \<Rightarrow> 'k \<Rightarrow> 's"
  assumes put_ok: "invar s \<Longrightarrow> valid v \<Longrightarrow> put io s k v = (s', r) \<Longrightarrow>
      invar s' \<and> parked s' = (parked s)(k := if r = Inr () then Some v else None)"
    and fetch_ok: "invar s \<Longrightarrow> \<exists>s' r. fetch io s k = Some (s', r) \<and> invar s' \<and>
      parked s' = (parked s)(k := None) \<and> (\<forall>v. r = Inr v \<longrightarrow> parked s k = Some v)"
    and drop_ok: "invar s \<Longrightarrow> invar (drop_parked io s k) \<and> parked (drop_parked io s k) = (parked s)(k := None)"
begin

fun step :: "'s \<Rightarrow> 'io \<times> ('k, 'v) parking_op \<Rightarrow> 's" where
  "step s (io, Park k v) = fst (put io s k v)"
| "step s (io, Fetch k) = (case fetch io s k of None \<Rightarrow> s | Some (s', _) \<Rightarrow> s')"
| "step s (io, Forget k) = drop_parked io s k"

lemma step_frame:
  assumes "invar s" and "op_valid valid op"
  shows "invar (step s (io, op))" "j \<noteq> op_key op \<Longrightarrow> parked (step s (io, op)) j = parked s j"
proof -
  have "invar (step s (io, op)) \<and> (j \<noteq> op_key op \<longrightarrow> parked (step s (io, op)) j = parked s j)" for j
  proof (cases op)
    case (Park k v)
    obtain s' r where "put io s k v = (s', r)" by fastforce
    with put_ok [OF assms(1) _ this] assms(2) Park show ?thesis by simp
  next
    case (Fetch k)
    with fetch_ok [OF assms(1), of io k] show ?thesis by auto
  next
    case (Forget k)
    with drop_ok [OF assms(1), of io k] show ?thesis by simp
  qed
  then show "invar (step s (io, op))" "j \<noteq> op_key op \<Longrightarrow> parked (step s (io, op)) j = parked s j" by auto
qed

lemma steps_frame:
  "invar s \<Longrightarrow> \<forall>(io, op)\<in>set ops. op_valid valid op \<and> op_key op \<noteq> k \<Longrightarrow>
   invar (foldl step s ops) \<and> parked (foldl step s ops) k = parked s k"
proof (induction ops arbitrary: s)
  case (Cons x ops)
  obtain io op where x: "x = (io, op)" by (cases x)
  with Cons.prems have v: "op_valid valid op" "k \<noteq> op_key op" by auto
  with Cons.IH [of "step s x"] step_frame [OF Cons.prems(1) v(1)] Cons.prems(2) x show ?case by simp
qed simp

lemma steps_invar:
  "invar s \<Longrightarrow> \<forall>(io, op)\<in>set ops. op_valid valid op \<Longrightarrow> invar (foldl step s ops)"
proof (induction ops arbitrary: s)
  case (Cons x ops)
  obtain io op where x: "x = (io, op)" by (cases x)
  with Cons.IH [of "step s x"] step_frame(1) [OF Cons.prems(1), of op io] Cons.prems(2) show ?case by simp
qed simp

lemma park_then_fetch:
  assumes "invar s" and "valid v" and "put io s k v = (s1, Inr ())"
    and "\<forall>(io, op)\<in>set ops. op_valid valid op \<and> op_key op \<noteq> k"
  shows "\<exists>s' r. fetch io' (foldl step s1 ops) k = Some (s', r) \<and> (\<forall>w. r = Inr w \<longrightarrow> w = v) \<and>
    parked (foldl step s1 ops) k = Some v"
proof -
  from put_ok [OF assms(1-3)] have "invar s1" "parked s1 k = Some v" by auto
  with steps_frame [OF this(1) assms(4)] fetch_ok [of "foldl step s1 ops" io' k] show ?thesis by fastforce
qed

end

definition sm_ok :: "fs \<times> swap_manager \<Rightarrow> bool" where
  "sm_ok fm \<longleftrightarrow> store_ok (fst fm) (sm_store (snd fm))"

definition sm_parked :: "fs \<times> swap_manager \<Rightarrow> nat \<rightharpoonup> slot_snapshot" where
  "sm_parked fm = parked_map (fst fm) (sm_store (snd fm))"

lemma park_ok [keeps]:
  assumes "sm_ok fm" and "parkable snap" and "park io fm key snap = (fm', r)"
  shows "sm_ok fm' \<and> sm_parked fm' = (sm_parked fm)(key := if r = Inr () then Some snap else None)"
  using store_put_ok [of "fst fm" "sm_store (snd fm)" snap io key] assms
  by (auto simp: park_def sm_ok_def sm_parked_def Let_def split_beta split: sum.splits)

lemma unpark_ok [keeps]:
  assumes "sm_ok fm"
  shows "\<exists>fm' r. unpark io fm key = Some (fm', r) \<and> sm_ok fm' \<and> sm_parked fm' = (sm_parked fm)(key := None) \<and>
    (\<forall>snap. r = Inr snap \<longrightarrow> sm_parked fm key = Some snap)"
proof -
  from store_take_ok [of "fst fm" "sm_store (snd fm)" io key] assms obtain f' s' r where
    t: "store_take io (fst fm) (sm_store (snd fm)) key = Some (f', s', r)" "store_ok f' s'"
      "parked_map f' s' = (sm_parked fm)(key := None)" "\<forall>snap. r = Inr snap \<longrightarrow> sm_parked fm key = Some snap"
    by (auto simp: sm_ok_def sm_parked_def)
  from drop_key_ok [OF t(2), of io key] obtain f2 s2 where
    d: "drop_key io f' s' key = (f2, s2)" "store_ok f2 s2" "parked_map f2 s2 = (parked_map f' s')(key := None)"
    by blast
  show ?thesis
    using t d by (cases r) (auto simp: unpark_def Let_def split_beta sm_ok_def sm_parked_def)
qed

lemma forget_ok [keeps]:
  assumes "sm_ok fm"
  shows "sm_ok (forget_parked io fm key) \<and> sm_parked (forget_parked io fm key) = (sm_parked fm)(key := None)"
  using drop_key_ok [of "fst fm" "sm_store (snd fm)" io key] assms
  by (auto simp: forget_parked_def sm_ok_def sm_parked_def Let_def split_beta)

interpretation swap: parking sm_ok sm_parked parkable park unpark forget_parked
  by unfold_locales (erule (2) park_ok, erule unpark_ok, erule forget_ok)

section \<open>Properties\<close>

text \<open>One call of the manager with its environment, and runs of such calls.\<close>

fun manager_step :: "fs \<times> swap_manager \<Rightarrow> io_env \<times> (nat, slot_snapshot) parking_op \<Rightarrow> fs \<times> swap_manager" where
  "manager_step fm (io, Park key snap) = fst (park io fm key snap)"
| "manager_step fm (io, Fetch key) = (case unpark io fm key of None \<Rightarrow> fm | Some (fm', _) \<Rightarrow> fm')"
| "manager_step fm (io, Forget key) = forget_parked io fm key"

lemma manager_step_swap: "manager_step = swap.step"
proof (intro ext)
  fix fm and x :: "io_env \<times> (nat, slot_snapshot) parking_op"
  show "manager_step fm x = swap.step fm x" by (cases x; cases "snd x") auto
qed

lemma manager_new_ok:
  assumes "manager_new io f ex d budget = (f', Inr m)" and "budget < 9223372036854775808"
  shows "sm_ok (f', m)" "sm_parked (f', m) = Map.empty"
proof -
  from assms(1) obtain s where s: "store_new io f ex d budget = (f', Inr s)" "sm_store m = s"
    by (auto simp: manager_new_def Let_def split_beta prod_eq_iff)
      (cases "snd (store_new io f ex d budget)"; force)
  from store_new_ok [OF s(1) assms(2)] s(2) show "sm_ok (f', m)" "sm_parked (f', m) = Map.empty"
    by (simp_all add: sm_ok_def sm_parked_def)
qed

text \<open>
  Property C19. A snapshot that was parked successfully comes back as itself or not at all:
  after any calls for other sessions, under any pattern of I/O failures, fetching it does not
  panic and returns either exactly that snapshot or an error, and returns it if the read works.
\<close>

theorem parked_snapshot_survives:
  assumes ok: "sm_ok fm" and snap: "parkable snap" and parked: "park io fm key snap = (fm1, Inr ())"
    and others: "\<forall>(io, op)\<in>set ops. op_valid parkable op \<and> op_key op \<noteq> key"
  shows "\<exists>fm' r. unpark io' (foldl manager_step fm1 ops) key = Some (fm', r) \<and>
    (\<forall>got. r = Inr got \<longrightarrow> got = snap) \<and> (read_ok io' \<longrightarrow> r = Inr snap)"
proof -
  let ?fm = "foldl manager_step fm1 ops"
  from swap.park_then_fetch [OF ok snap parked others, of io'] obtain fm' r where
    u: "unpark io' ?fm key = Some (fm', r)" "\<forall>got. r = Inr got \<longrightarrow> got = snap" "sm_parked ?fm key = Some snap"
    unfolding manager_step_swap by blast
  from park_ok [OF ok snap parked] have "sm_ok fm1" by simp
  with swap.steps_frame [OF _ others] have "sm_ok ?fm" unfolding manager_step_swap by blast
  then have "store_ok (fst ?fm) (sm_store (snd ?fm))" by (simp add: sm_ok_def)
  from store_take_ok [OF this, of io' key] u(1,3) have "read_ok io' \<longrightarrow> r = Inr snap"
    by (auto simp: unpark_def sm_parked_def Let_def split_beta split: sum.splits)
  with u show ?thesis by blast
qed

definition io_fine :: io_env where
  "io_fine = \<lparr>clear_ok = True, mkdir_ok = True, write_ok = True, write_left = None, read_ok = True, remove_ok = True\<rparr>"

definition demo_manager :: "fs \<times> swap_manager" where
  "demo_manager = (Map.empty, \<lparr>sm_store = \<lparr>dir = ''/scratch'', store_host_budget = 3, store_host_used = 0,
     entries = Map.empty\<rparr>, evictions = 0, restores = 0, failures = 0\<rparr>)"

lemma demo_manager_ok: "sm_ok demo_manager" "parkable demo_snap"
  by (simp_all add: sm_ok_def demo_manager_def store_ok_def parkable_def snap_sizes_ok_def length_to_bytes
      HEADER_def demo_snap_def)

lemma demo_manager_park:
  "\<exists>fm. park io_fine demo_manager 7 demo_snap = (fm, Inr ()) \<and> tier_of (sm_store (snd fm)) 7 = Some ''host''"
  by (simp add: park_def demo_manager_def store_put_def drop_key_def Let_def demo_snap_def tier_of_def)

theorem parked_snapshot_survives_witness:
  "\<exists>fm fm'. park io_fine demo_manager 7 demo_snap = (fm, Inr ()) \<and>
     unpark io_fine (foldl manager_step fm [(io_fine, Park 8 demo_snap), (io_fine, Forget 9)]) 7 =
       Some (fm', Inr demo_snap)"
proof -
  from demo_manager_park obtain fm where p: "park io_fine demo_manager 7 demo_snap = (fm, Inr ())" by blast
  from parked_snapshot_survives [OF demo_manager_ok p,
      of "[(io_fine, Park 8 demo_snap), (io_fine, Forget 9)]" io_fine] p demo_manager_ok(2)
  show ?thesis by (auto simp: io_fine_def)
qed



end
