(* ===== verification/Slot_Batch.thy ===== *)
theory Slot_Batch
  imports Slot_Pool
begin

text \<open>
  One forward step's ragged work: \<^verbatim>\<open>hipfire-arch-qwen35/src/slot_batch.rs\<close> and \<^verbatim>\<open>scheduler.rs\<close>, and
  the host bookkeeping of \<^verbatim>\<open>forward_slots.rs\<close> around a step (\<^verbatim>\<open>advance_slot_seq_lens\<close>,
  \<^verbatim>\<open>rewind_slot_seq_lens\<close>, the entry assertions and the context bound).
\<close>

section \<open>Batches (slot_batch.rs)\<close>

record slot_batch =
  m_per_slot :: "nat list"
  batch_tokens :: "token list"
  positions :: "int list"
  row_slot :: "int list"

definition empty_batch :: slot_batch where
  "empty_batch = \<lparr>m_per_slot = [], batch_tokens = [], positions = [], row_slot = []\<rparr>"

text \<open>The inner loop both builders share: one row per token, at consecutive positions.\<close>

definition push_rows :: "slot_batch \<Rightarrow> nat \<Rightarrow> token list \<Rightarrow> nat \<Rightarrow> slot_batch" where
  "push_rows b slot toks start_pos =
     \<lparr>m_per_slot = m_per_slot b @ [length toks],
      batch_tokens = batch_tokens b @ toks,
      positions = positions b @ map (\<lambda>i. as_i32 (start_pos + i)) [0..<length toks],
      row_slot = row_slot b @ replicate (length toks) (as_i32 slot)\<rparr>"

definition batch_build :: "(nat \<times> token list \<times> nat) list \<Rightarrow> slot_batch" where
  "batch_build per_slot = foldl (\<lambda>b (slot, toks, start_pos). push_rows b slot toks start_pos) empty_batch per_slot"

definition batch_rows :: "slot_batch \<Rightarrow> nat" where
  "batch_rows b = length (batch_tokens b)"

definition batch_is_empty :: "slot_batch \<Rightarrow> bool" where
  "batch_is_empty b \<longleftrightarrow> batch_tokens b = []"

section \<open>The scheduler (scheduler.rs)\<close>

record pending_work =
  pw_slot :: nat
  remaining_prompt :: "token list"
  pw_next_pos :: nat
  decoding :: bool

definition take_count :: "nat \<Rightarrow> pending_work \<Rightarrow> nat" where
  "take_count chunk_size w =
     (if decoding w then min (length (remaining_prompt w)) 1
      else min (length (remaining_prompt w)) chunk_size)"

fun next_batch_loop ::
  "nat \<Rightarrow> slot_batch \<Rightarrow> pending_work list \<Rightarrow> slot_batch \<times> pending_work list" where
  "next_batch_loop chunk_size b [] = (b, [])"
| "next_batch_loop chunk_size b (w # ws) =
     (let k = take_count chunk_size w;
          toks = take k (remaining_prompt w);
          w' = w\<lparr>remaining_prompt := drop k (remaining_prompt w), pw_next_pos := pw_next_pos w + length toks\<rparr>;
          (b', ws') = next_batch_loop chunk_size (push_rows b (pw_slot w) toks (pw_next_pos w)) ws
      in (b', w' # ws'))"

definition next_batch :: "nat \<Rightarrow> pending_work list \<Rightarrow> slot_batch \<times> pending_work list" where
  "next_batch chunk_size work = next_batch_loop chunk_size empty_batch work"

section \<open>Step bookkeeping (forward_slots.rs)\<close>

datatype step_error = StepPool pool_error | StepGpu

text \<open>The body of the loop of \<^verbatim>\<open>advance_slot_seq_lens\<close> for one slot.\<close>

definition advance_one :: "slot_batch \<Rightarrow> slot_pool \<Rightarrow> nat \<Rightarrow> (step_error + slot_pool) option" where
  "advance_one b p slot_ix = do {
     last_row \<leftarrow> rposition (\<lambda>s. i32_as_usize s = slot_ix) (row_slot b);
     pos \<leftarrow> list_get (positions b) last_row;
     r \<leftarrow> pool_set_seq_len p slot_ix (i32_as_usize (pos + 1));
     Some (case r of Inl e \<Rightarrow> Inl (StepPool e) | Inr p' \<Rightarrow> Inr p')
   }"

definition rewind_one :: "slot_batch \<Rightarrow> slot_pool \<Rightarrow> nat \<Rightarrow> (step_error + slot_pool) option" where
  "rewind_one b p slot_ix = do {
     first_row \<leftarrow> position (\<lambda>s. i32_as_usize s = slot_ix) (row_slot b);
     pos \<leftarrow> list_get (positions b) first_row;
     r \<leftarrow> pool_set_seq_len p slot_ix (i32_as_usize pos);
     Some (case r of Inl e \<Rightarrow> Inl (StepPool e) | Inr p' \<Rightarrow> Inr p')
   }"

text \<open>The enumeration over \<^verbatim>\<open>m_per_slot\<close>, skipping idle slots and stopping at the first error.\<close>

fun for_active ::
  "(slot_pool \<Rightarrow> nat \<Rightarrow> (step_error + slot_pool) option) \<Rightarrow> (nat \<times> nat) list \<Rightarrow> slot_pool \<Rightarrow>
   (slot_pool \<times> (step_error + unit)) option" where
  "for_active f [] p = Some (p, Inr ())"
| "for_active f ((slot_ix, m) # rest) p =
     (if m = 0 then for_active f rest p
      else do {
        r \<leftarrow> f p slot_ix;
        case r of Inl e \<Rightarrow> Some (p, Inl e) | Inr p' \<Rightarrow> for_active f rest p'
      })"

definition advance_slot_seq_lens :: "slot_batch \<Rightarrow> slot_pool \<Rightarrow> (slot_pool \<times> (step_error + unit)) option" where
  "advance_slot_seq_lens b p = for_active (advance_one b) (enumerate 0 (m_per_slot b)) p"

definition rewind_slot_seq_lens :: "slot_batch \<Rightarrow> slot_pool \<Rightarrow> (slot_pool \<times> (step_error + unit)) option" where
  "rewind_slot_seq_lens b p = for_active (rewind_one b) (enumerate 0 (m_per_slot b)) p"

text \<open>The shape assertions a step makes before it touches the device; failing one is a panic.\<close>

definition step_assertions :: "slot_batch \<Rightarrow> slot_pool \<Rightarrow> nat \<Rightarrow> nat \<Rightarrow> nat \<Rightarrow> nat \<Rightarrow> bool" where
  "step_assertions b p n_dn_states staging_slots max_batch staging_rows \<longleftrightarrow>
     length (m_per_slot b) = n_slots p \<and> n_dn_states = n_slots p \<and> staging_slots = n_slots p \<and>
     batch_rows b \<le> max_batch \<and> batch_rows b \<le> staging_rows"

definition max_ctx_len :: "slot_batch \<Rightarrow> slot_pool \<Rightarrow> nat option \<Rightarrow> nat option" where
  "max_ctx_len b p ctx_override = do {
     d \<leftarrow> list_get (descs p) 0;
     Some (case ctx_override of Some n \<Rightarrow> n
       | None \<Rightarrow>
           let hi = (if positions b = [] then 0 else Max (set (positions b)))
           in max (min (i32_as_usize hi + 1) (i32_as_usize (desc_cap d))) 1)
   }"

definition active_slots :: "slot_batch \<Rightarrow> nat" where
  "active_slots b = length (filter (\<lambda>m. 0 < m) (m_per_slot b))"

definition single_slot :: "slot_batch \<Rightarrow> slot_pool \<Rightarrow> (nat \<times> nat) option option" where
  "single_slot b p =
     (if active_slots b = 1
      then do {
        slot_idx \<leftarrow> position (\<lambda>m. 0 < m) (m_per_slot b);
        d \<leftarrow> list_get (descs p) slot_idx;
        Some (Some (k_base d, arena_bytes p div n_slots p))
      }
      else Some None)"

section \<open>What a batch contains\<close>

type_synonym slot_rows = "nat \<times> token list \<times> nat"

lemma foldl_push_rows:
  "foldl (\<lambda>b (slot, toks, start_pos). push_rows b slot toks start_pos) b xs =
     \<lparr>m_per_slot = m_per_slot b @ map (\<lambda>(s, t, p). length t) xs,
      batch_tokens = batch_tokens b @ concat (map (\<lambda>(s, t, p). t) xs),
      positions = positions b @ concat (map (\<lambda>(s, t, p). map (\<lambda>i. as_i32 (p + i)) [0..<length t]) xs),
      row_slot = row_slot b @ concat (map (\<lambda>(s, t, p). replicate (length t) (as_i32 s)) xs)\<rparr>"
proof (induction xs arbitrary: b)
  case Nil
  then show ?case by simp
next
  case (Cons x xs)
  then show ?case by (simp add: push_rows_def split: prod.splits)
qed

lemma batch_build_eq:
  "batch_build xs =
     \<lparr>m_per_slot = map (\<lambda>(s, t, p). length t) xs,
      batch_tokens = concat (map (\<lambda>(s, t, p). t) xs),
      positions = concat (map (\<lambda>(s, t, p). map (\<lambda>i. as_i32 (p + i)) [0..<length t]) xs),
      row_slot = concat (map (\<lambda>(s, t, p). replicate (length t) (as_i32 s)) xs)\<rparr>"
  unfolding batch_build_def foldl_push_rows by (simp add: empty_batch_def)

definition taken :: "nat \<Rightarrow> pending_work \<Rightarrow> slot_rows" where
  "taken chunk_size w = (pw_slot w, take (take_count chunk_size w) (remaining_prompt w), pw_next_pos w)"

definition after_step :: "nat \<Rightarrow> pending_work \<Rightarrow> pending_work" where
  "after_step chunk_size w =
     w\<lparr>remaining_prompt := drop (take_count chunk_size w) (remaining_prompt w),
       pw_next_pos := pw_next_pos w + take_count chunk_size w\<rparr>"

lemma take_count_le: "take_count c w \<le> length (remaining_prompt w)"
  by (simp add: take_count_def)

text \<open>The scheduler is the batch builder applied to what it takes from each slot.\<close>

lemma next_batch_build: "next_batch c work = (batch_build (map (taken c) work), map (after_step c) work)"
proof -
  have "next_batch_loop c b work =
      (foldl (\<lambda>b (slot, toks, start_pos). push_rows b slot toks start_pos) b (map (taken c) work),
       map (after_step c) work)" for b
  proof (induction work arbitrary: b)
    case (Cons w ws)
    then show ?case using take_count_le [of c w] by (simp add: Let_def taken_def after_step_def min_def)
  qed simp
  then show ?thesis by (simp add: next_batch_def batch_build_def)
qed

section \<open>The rows of one slot\<close>

definition distinct_slots :: "slot_rows list \<Rightarrow> bool" where
  "distinct_slots xs \<longleftrightarrow> distinct (map fst xs) \<and> (\<forall>x\<in>set xs. fst x < 2147483648)"

lemma slot_rows_around:
  assumes "distinct_slots (us @ (i, t, p) # vs)" and "t \<noteq> []"
  shows "position (\<lambda>s. i32_as_usize s = i) (row_slot (batch_build (us @ (i, t, p) # vs))) =
      Some (length (concat (map (\<lambda>(s, t, p). t) us)))"
    "rposition (\<lambda>s. i32_as_usize s = i) (row_slot (batch_build (us @ (i, t, p) # vs))) =
      Some (length (concat (map (\<lambda>(s, t, p). t) us)) + length t - 1)"
proof -
  define rows where "rows xs = concat (map (\<lambda>(s, t :: token list, p :: nat). replicate (length t) (as_i32 s)) xs)" for xs
  let ?P = "\<lambda>s. i32_as_usize s = i"
  let ?k = "length (concat (map (\<lambda>(s, t, p). t) us))"
  have k: "length (rows us) = ?k" unfolding rows_def by (induction us) (auto split: prod.splits)
  have none: "\<not> ?P s" if "s \<in> set (rows xs)" "xs = us \<or> xs = vs" for s xs
  proof -
    from that(1) obtain y where y: "y \<in> set xs" "s = as_i32 (fst y)" by (auto simp: rows_def)
    have "fst y \<noteq> i" "fst y < 2147483648"
      using assms(1) that(2) y(1) by (auto simp: distinct_slots_def)
    with y(2) show ?thesis by simp
  qed
  have all: "row_slot (batch_build (us @ (i, t, p) # vs)) = rows us @ replicate (length t) (as_i32 i) @ rows vs"
    by (simp add: batch_build_eq rows_def)
  have hit: "?P (as_i32 i)" using assms(1) by (simp add: distinct_slots_def)
  have len: "0 < length t" using assms(2) by simp
  show "position ?P (row_slot (batch_build (us @ (i, t, p) # vs))) = Some ?k"
  proof -
    have "\<not> ?P (rows us ! j)" if "j < ?k" for j
      using none [of "rows us ! j" us] that k by simp
    then show ?thesis unfolding all position_Some_iff using hit len k by (auto simp: nth_append)
  qed
  show "rposition ?P (row_slot (batch_build (us @ (i, t, p) # vs))) = Some (?k + length t - 1)"
    unfolding all
  proof (rule rposition_eqI)
    fix j
    assume j: "j < length (rows us @ replicate (length t) (as_i32 i) @ rows vs)" "?k + length t - 1 < j"
    then have "\<not> j < ?k" "\<not> j - ?k < length t" using len by auto
    then have "(rows us @ replicate (length t) (as_i32 i) @ rows vs) ! j = rows vs ! (j - ?k - length t)"
      using k by (simp add: nth_append)
    moreover have "j - ?k - length t < length (rows vs)" using j k len by simp
    ultimately show "\<not> ?P ((rows us @ replicate (length t) (as_i32 i) @ rows vs) ! j)"
      using none [of "rows vs ! (j - ?k - length t)" vs] by simp
  qed (use k hit gr0_implies_Suc [OF len] in \<open>auto simp: nth_append\<close>)
qed

lemma slot_positions:
  assumes "r < length t"
  shows "list_get (positions (batch_build (us @ (i, t, p) # vs))) (length (concat (map (\<lambda>(s, t, p). t) us)) + r) =
    Some (as_i32 (p + r))"
proof -
  define pos where "pos xs = concat (map (\<lambda>(s :: nat, t :: token list, p). map (\<lambda>i. as_i32 (p + i)) [0..<length t]) xs)" for xs
  have "length (pos us) = length (concat (map (\<lambda>(s, t, p). t) us))"
    unfolding pos_def by (induction us) (auto split: prod.splits)
  moreover have "positions (batch_build (us @ (i, t, p) # vs)) =
      pos us @ map (\<lambda>i. as_i32 (p + i)) [0..<length t] @ pos vs"
    by (simp add: batch_build_eq pos_def)
  ultimately show ?thesis using assms by (simp add: list_get_def nth_append)
qed

text \<open>So a step sets each active slot to the position after its last row, and a rewind to its first.\<close>

definition lift_pool :: "(pool_error + slot_pool) option \<Rightarrow> (step_error + slot_pool) option" where
  "lift_pool r = map_option (\<lambda>r. case r of Inl e \<Rightarrow> Inl (StepPool e) | Inr p' \<Rightarrow> Inr p') r"

lemma step_one_eq:
  assumes x: "(i, t, p) \<in> set xs" and ok: "distinct_slots xs" and t: "t \<noteq> []" and small: "p + length t < 2147483648"
  shows "advance_one (batch_build xs) pool i = lift_pool (pool_set_seq_len pool i (p + length t))"
    "rewind_one (batch_build xs) pool i = lift_pool (pool_set_seq_len pool i p)"
proof -
  from x obtain us vs where xs: "xs = us @ (i, t, p) # vs" by (meson split_list)
  note around = slot_rows_around [OF ok [unfolded xs] t]
  have len: "0 < length t" using t by simp
  have "i32_as_usize (as_i32 (p + length t - Suc 0) + 1) = p + length t"
  proof -
    have "as_i32 (p + length t - Suc 0) + 1 = int (p + length t)"
      using small len by (simp add: of_nat_diff Suc_leI)
    then show ?thesis using small by (simp only: i32_as_usize_of_nat)
  qed
  with slot_positions [of "length t - 1" t us i p vs] len
  show "advance_one (batch_build xs) pool i = lift_pool (pool_set_seq_len pool i (p + length t))"
    unfolding xs advance_one_def around lift_pool_def by (cases "pool_set_seq_len pool i (p + length t)") auto
  from slot_positions [of 0 t us i p vs] len small
  show "rewind_one (batch_build xs) pool i = lift_pool (pool_set_seq_len pool i p)"
    unfolding xs rewind_one_def around lift_pool_def by (cases "pool_set_seq_len pool i p") auto
qed

section \<open>Running the bookkeeping over a batch\<close>

text \<open>A loop that sets each active slot \<open>i\<close> to \<open>g i\<close>.\<close>

lemma for_active_ok:
  assumes f: "\<forall>(i, m)\<in>set ims. m \<noteq> 0 \<longrightarrow> (\<forall>p. f p i = lift_pool (pool_set_seq_len p i (g i)))"
  shows "pool_wf p \<Longrightarrow> distinct (map fst ims) \<Longrightarrow>
    \<forall>(i, m)\<in>set ims. m \<noteq> 0 \<longrightarrow> i \<in> used_slots p \<and> g i \<le> cap_tokens p \<Longrightarrow>
    \<exists>p'. for_active f ims p = Some (p', Inr ()) \<and> pool_wf p' \<and> used_slots p' = used_slots p \<and>
      n_slots p' = n_slots p \<and> cap_tokens p' = cap_tokens p \<and>
      (\<forall>j<n_slots p. slot_len p' j = (if \<exists>m. (j, m) \<in> set ims \<and> m \<noteq> 0 then g j else slot_len p j))"
  using f
proof (induction ims arbitrary: p)
  case Nil
  then show ?case by simp
next
  case (Cons im ims)
  obtain i m where im: "im = (i, m)" by (cases im)
  show ?case
  proof (cases "m = 0")
    case True
    from Cons.IH [of p] Cons.prems show ?thesis by (auto simp: im True)
  next
    case False
    with Cons.prems im have i: "i \<in> used_slots p" "g i \<le> cap_tokens p" by auto
    from sp.setl_ok [OF Cons.prems(1) i] obtain q where
      q: "pool_set_seq_len p i (g i) = Some (Inr q)" "pool_wf q" "used_slots q = used_slots p"
        "n_slots q = n_slots p" "cap_tokens q = cap_tokens p" "slot_len q i = g i"
        "\<forall>j<n_slots p. j \<noteq> i \<longrightarrow> slot_len q j = slot_len p j" by blast
    from Cons.IH [of q] q Cons.prems im obtain p' where
      p': "for_active f ims q = Some (p', Inr ())" "pool_wf p'" "used_slots p' = used_slots q"
        "n_slots p' = n_slots q" "cap_tokens p' = cap_tokens q"
        "\<forall>j<n_slots q. slot_len p' j = (if \<exists>m. (j, m) \<in> set ims \<and> m \<noteq> 0 then g j else slot_len q j)"
      by auto
    have "for_active f (im # ims) p = Some (p', Inr ())"
      using Cons.prems(4) False q(1) p'(1) by (simp add: im lift_pool_def)
    moreover have "slot_len p' j = (if \<exists>m. (j, m) \<in> set (im # ims) \<and> m \<noteq> 0 then g j else slot_len p j)"
      if "j < n_slots p" for j
      using p'(6) q(4,6,7) that False Cons.prems(2) im by (cases "j = i") force+
    ultimately show ?thesis using p' q by auto
  qed
qed

text \<open>It stops at the first slot whose new length does not fit, which is an error, not a panic.\<close>

lemma for_active_err:
  assumes f: "\<forall>(i, m)\<in>set ims. m \<noteq> 0 \<longrightarrow> (\<forall>p. f p i = lift_pool (pool_set_seq_len p i (g i)))"
  shows "pool_wf p \<Longrightarrow> \<forall>(i, m)\<in>set ims. m \<noteq> 0 \<longrightarrow> i \<in> used_slots p \<Longrightarrow>
    (i, m) \<in> set ims \<Longrightarrow> m \<noteq> 0 \<Longrightarrow> cap_tokens p < g i \<Longrightarrow>
    \<exists>p' e. for_active f ims p = Some (p', Inl e) \<and> pool_wf p' \<and> used_slots p' = used_slots p"
  using f
proof (induction ims arbitrary: p)
  case (Cons im ims)
  obtain k n where im: "im = (k, n)" by (cases im)
  show ?case
  proof (cases "n = 0")
    case True
    from Cons.IH [of p] Cons.prems True im show ?thesis by auto
  next
    case n: False
    have step: "f p k = lift_pool (pool_set_seq_len p k (g k))" using Cons.prems(6) n im by simp
    show ?thesis
    proof (cases "cap_tokens p < g k")
      case True
      then have "pool_set_seq_len p k (g k) = Some (Inl (SeqLenExceedsCap k (g k) (cap_tokens p)))"
        by (simp add: pool_set_seq_len_err)
      with step n Cons.prems(1) show ?thesis by (simp add: im lift_pool_def)
    next
      case False
      with Cons.prems n im have k: "k \<in> used_slots p" "g k \<le> cap_tokens p" by auto
      from sp.setl_ok [OF Cons.prems(1) k] obtain q where
        q: "pool_set_seq_len p k (g k) = Some (Inr q)" "pool_wf q" "used_slots q = used_slots p"
          "cap_tokens q = cap_tokens p" by blast
      have "(i, m) \<in> set ims" using Cons.prems(3,5) False im by auto
      moreover have "\<forall>(i, m)\<in>set ims. m \<noteq> 0 \<longrightarrow> i \<in> used_slots q" using Cons.prems(2) q(3) by simp
      moreover have "\<forall>(i, m)\<in>set ims. m \<noteq> 0 \<longrightarrow> (\<forall>p. f p i = lift_pool (pool_set_seq_len p i (g i)))"
        using Cons.prems(6) by simp
      moreover have "cap_tokens q < g i" using Cons.prems(5) q(4) by simp
      ultimately obtain p' e where
        "for_active f ims q = Some (p', Inl e)" "pool_wf p'" "used_slots p' = used_slots q"
        using Cons.IH [OF q(2)] Cons.prems(4) by blast
      with step n q show ?thesis by (auto simp: im lift_pool_def)
    qed
  qed
qed simp

text \<open>Whatever the outcome, only active slots move, and no panic happens.\<close>

definition is_active :: "(nat \<times> nat) list \<Rightarrow> nat \<Rightarrow> bool" where
  "is_active ims j \<longleftrightarrow> (\<exists>m. (j, m) \<in> set ims \<and> m \<noteq> 0)"

lemma for_active_any:
  assumes f: "\<forall>(i, m)\<in>set ims. m \<noteq> 0 \<longrightarrow> (\<forall>p. f p i = lift_pool (pool_set_seq_len p i (g i)))"
  shows "pool_wf p \<Longrightarrow> distinct (map fst ims) \<Longrightarrow> \<forall>(i, m)\<in>set ims. m \<noteq> 0 \<longrightarrow> i \<in> used_slots p \<Longrightarrow>
    \<exists>p' r. for_active f ims p = Some (p', r) \<and> pool_wf p' \<and> used_slots p' = used_slots p \<and>
      pool_geom p' = pool_geom p \<and>
      (\<forall>j<n_slots p. \<not> is_active ims j \<longrightarrow> slot_len p' j = slot_len p j) \<and>
      (r = Inr () \<longrightarrow> (\<forall>j<n_slots p. is_active ims j \<longrightarrow> slot_len p' j = g j))"
  using f
proof (induction ims arbitrary: p)
  case Nil
  then show ?case by (simp add: is_active_def)
next
  case (Cons im ims)
  obtain i m where im: "im = (i, m)" by (cases im)
  show ?case
  proof (cases "m = 0")
    case True
    have fa: "for_active f (im # ims) p = for_active f ims p" by (simp add: im True)
    have act: "is_active (im # ims) j = is_active ims j" for j
      using True im by (auto simp: is_active_def)
    show ?thesis unfolding fa act by (rule Cons.IH) (use Cons.prems in auto)
  next
    case m: False
    have step: "f p i = lift_pool (pool_set_seq_len p i (g i))" using Cons.prems(4) m im by simp
    have i: "i \<in> used_slots p" using Cons.prems(3) m im by simp
    show ?thesis
    proof (cases "g i \<le> cap_tokens p")
      case False
      then have "pool_set_seq_len p i (g i) = Some (Inl (SeqLenExceedsCap i (g i) (cap_tokens p)))"
        by (simp add: pool_set_seq_len_err)
      with step m Cons.prems(1) show ?thesis by (simp add: im lift_pool_def)
    next
      case True
      from sp.setl_ok [OF Cons.prems(1) i True] obtain q where
        q: "pool_set_seq_len p i (g i) = Some (Inr q)" "pool_wf q" "used_slots q = used_slots p" "n_slots q = n_slots p"
          "slot_len q i = g i" "\<forall>j<n_slots p. j \<noteq> i \<longrightarrow> slot_len q j = slot_len p j" by blast
      from Cons.IH [of q] q(2,3) Cons.prems obtain p' r where
        p': "for_active f ims q = Some (p', r)" "pool_wf p'" "used_slots p' = used_slots q" "pool_geom p' = pool_geom q"
          "\<forall>j<n_slots q. \<not> is_active ims j \<longrightarrow> slot_len p' j = slot_len q j"
          "r = Inr () \<longrightarrow> (\<forall>j<n_slots q. is_active ims j \<longrightarrow> slot_len p' j = g j)"
        by auto
      have "for_active f (im # ims) p = Some (p', r)" using step m q(1) p'(1) by (simp add: im lift_pool_def)
      moreover have "pool_geom p' = pool_geom p" using p'(4) pool_geom_ops(3) [OF q(1)] by simp
      moreover have "\<not> is_active ims i" using Cons.prems(2) im by (force simp: is_active_def)
      then have "slot_len p' i = g i" using p'(5) q(4,5) i used_slots_less [OF Cons.prems(1)] by auto
      moreover have "is_active (im # ims) j \<longleftrightarrow> j = i \<or> is_active ims j" for j
        using m im by (auto simp: is_active_def)
      ultimately show ?thesis using p' q by auto
    qed
  qed
qed

section \<open>Properties\<close>

text \<open>The work list of the engine: entry \<open>i\<close> is slot \<open>i\<close>, and slots with work are in use.\<close>

definition work_ok :: "slot_pool \<Rightarrow> pending_work list \<Rightarrow> bool" where
  "work_ok p work \<longleftrightarrow> length work = n_slots p \<and> n_slots p < 2147483648 \<and>
     (\<forall>i<length work. pw_slot (work ! i) = i \<and> (remaining_prompt (work ! i) \<noteq> [] \<longrightarrow> i \<in> used_slots p))"

lemma work_ok_distinct:
  "work_ok p work \<Longrightarrow> distinct_slots (map (taken c) work)"
proof -
  assume ok: "work_ok p work"
  have "map fst (map (taken c) work) = [0..<length work]"
    using ok by (intro nth_equalityI) (auto simp: work_ok_def taken_def)
  moreover have "\<forall>x\<in>set (map (taken c) work). fst x < 2147483648"
    using ok by (auto simp: work_ok_def taken_def in_set_conv_nth)
  ultimately show ?thesis by (simp add: distinct_slots_def)
qed

lemma active_entry:
  assumes ok: "work_ok p work" and x: "(i, m) \<in> set (enumerate 0 (m_per_slot (batch_build (map (taken c) work))))"
    and m: "m \<noteq> 0"
  shows "i < n_slots p" "m = take_count c (work ! i)" "i \<in> used_slots p"
    "(i, take m (remaining_prompt (work ! i)), pw_next_pos (work ! i)) \<in> set (map (taken c) work)"
proof -
  from x have i: "i < length work" and me: "m = take_count c (work ! i)"
    using take_count_le [of c "work ! i"]
    by (auto simp: in_set_enumerate_eq batch_build_eq taken_def)
  then show "i < n_slots p" "m = take_count c (work ! i)" using ok by (auto simp: work_ok_def)
  have "remaining_prompt (work ! i) \<noteq> []" using m me by (auto simp: take_count_def split: if_splits)
  then show "i \<in> used_slots p" using ok i by (auto simp: work_ok_def)
  have "taken c (work ! i) = (i, take m (remaining_prompt (work ! i)), pw_next_pos (work ! i))"
    using ok i me by (simp add: taken_def work_ok_def)
  with i show "(i, take m (remaining_prompt (work ! i)), pw_next_pos (work ! i)) \<in> set (map (taken c) work)"
    by (metis length_map nth_map nth_mem)
qed

lemma active_iff:
  assumes "work_ok p work" and "j < n_slots p"
  shows "(\<exists>m. (j, m) \<in> set (enumerate 0 (m_per_slot (batch_build (map (taken c) work)))) \<and> m \<noteq> 0) \<longleftrightarrow>
    take_count c (work ! j) \<noteq> 0"
  using assms take_count_le [of c "work ! j"]
  by (auto simp: in_set_enumerate_eq batch_build_eq taken_def work_ok_def)

text \<open>One step's bookkeeping on the batch the scheduler built.\<close>

lemma advance_batch_ok:
  assumes wf: "pool_wf p" and ok: "work_ok p work"
    and fits: "\<forall>i<n_slots p. take_count c (work ! i) \<noteq> 0 \<longrightarrow>
      pw_next_pos (work ! i) + take_count c (work ! i) \<le> cap_tokens p"
  shows "\<exists>p'. advance_slot_seq_lens (fst (next_batch c work)) p = Some (p', Inr ()) \<and> pool_wf p' \<and>
      used_slots p' = used_slots p \<and> n_slots p' = n_slots p \<and> cap_tokens p' = cap_tokens p \<and>
      (\<forall>j<n_slots p. slot_len p' j =
        (if take_count c (work ! j) \<noteq> 0 then pw_next_pos (work ! j) + take_count c (work ! j) else slot_len p j))"
    "\<exists>p'. rewind_slot_seq_lens (fst (next_batch c work)) p = Some (p', Inr ()) \<and> pool_wf p' \<and>
      used_slots p' = used_slots p \<and> n_slots p' = n_slots p \<and> cap_tokens p' = cap_tokens p \<and>
      (\<forall>j<n_slots p. slot_len p' j =
        (if take_count c (work ! j) \<noteq> 0 then pw_next_pos (work ! j) else slot_len p j))"
proof -
  let ?b = "batch_build (map (taken c) work)" and ?ims = "enumerate 0 (m_per_slot (batch_build (map (taken c) work)))"
  let ?g = "\<lambda>i. pw_next_pos (work ! i) + take_count c (work ! i)" and ?h = "\<lambda>i. pw_next_pos (work ! i)"
  have d: "distinct_slots (map (taken c) work)" using ok by (rule work_ok_distinct)
  have cap: "cap_tokens p < 2147483648" using wf by (simp add: pool_wf_def)
  have one: "advance_one ?b q i = lift_pool (pool_set_seq_len q i (?g i))"
    "rewind_one ?b q i = lift_pool (pool_set_seq_len q i (?h i))" "i \<in> used_slots p" "?g i \<le> cap_tokens p"
    if "(i, m) \<in> set ?ims" "m \<noteq> 0" for i m q
  proof -
    note a = active_entry [OF ok that]
    have le: "?g i \<le> cap_tokens p" using fits a(1,2) that(2) by simp
    have l: "length (take m (remaining_prompt (work ! i))) = take_count c (work ! i)"
      using a(2) take_count_le [of c "work ! i"] by simp
    then have "take m (remaining_prompt (work ! i)) \<noteq> []" using a(2) that(2) by auto
    from step_one_eq [OF a(4) d this, unfolded l] le cap a(3)
    show "advance_one ?b q i = lift_pool (pool_set_seq_len q i (?g i))"
      "rewind_one ?b q i = lift_pool (pool_set_seq_len q i (?h i))" "i \<in> used_slots p" "?g i \<le> cap_tokens p"
      by auto
  qed
  have dist: "distinct (map fst ?ims)" by simp
  have "\<forall>(i, m)\<in>set ?ims. m \<noteq> 0 \<longrightarrow> (\<forall>q. advance_one ?b q i = lift_pool (pool_set_seq_len q i (?g i)))"
    "\<forall>(i, m)\<in>set ?ims. m \<noteq> 0 \<longrightarrow> i \<in> used_slots p \<and> ?g i \<le> cap_tokens p" using one by blast+
  from for_active_ok [OF this(1) wf dist this(2)]
  show "\<exists>p'. advance_slot_seq_lens (fst (next_batch c work)) p = Some (p', Inr ()) \<and> pool_wf p' \<and>
      used_slots p' = used_slots p \<and> n_slots p' = n_slots p \<and> cap_tokens p' = cap_tokens p \<and>
      (\<forall>j<n_slots p. slot_len p' j = (if take_count c (work ! j) \<noteq> 0 then ?g j else slot_len p j))"
    using active_iff [OF ok, of _ c] by (auto simp: advance_slot_seq_lens_def next_batch_build)
  have "\<forall>(i, m)\<in>set ?ims. m \<noteq> 0 \<longrightarrow> (\<forall>q. rewind_one ?b q i = lift_pool (pool_set_seq_len q i (?h i)))"
    "\<forall>(i, m)\<in>set ?ims. m \<noteq> 0 \<longrightarrow> i \<in> used_slots p \<and> ?h i \<le> cap_tokens p"
    using one(2,3) add_leD1 [OF one(4)] by blast+
  from for_active_ok [OF this(1) wf dist this(2)]
  show "\<exists>p'. rewind_slot_seq_lens (fst (next_batch c work)) p = Some (p', Inr ()) \<and> pool_wf p' \<and>
      used_slots p' = used_slots p \<and> n_slots p' = n_slots p \<and> cap_tokens p' = cap_tokens p \<and>
      (\<forall>j<n_slots p. slot_len p' j = (if take_count c (work ! j) \<noteq> 0 then ?h j else slot_len p j))"
    using active_iff [OF ok, of _ c] by (auto simp: rewind_slot_seq_lens_def next_batch_build)
qed

text \<open>A length beyond the slot's capacity fails the whole step with an error.\<close>

lemma advance_batch_err:
  assumes wf: "pool_wf p" and ok: "work_ok p work" and i: "i < n_slots p" "take_count c (work ! i) \<noteq> 0"
    and small: "\<forall>j<n_slots p. pw_next_pos (work ! j) + take_count c (work ! j) < 2147483648"
    and over: "cap_tokens p < pw_next_pos (work ! i) + take_count c (work ! i)"
  shows "\<exists>p' e. advance_slot_seq_lens (fst (next_batch c work)) p = Some (p', Inl e) \<and> pool_wf p' \<and>
    used_slots p' = used_slots p"
proof -
  let ?b = "batch_build (map (taken c) work)" and ?ims = "enumerate 0 (m_per_slot (batch_build (map (taken c) work)))"
  let ?g = "\<lambda>i. pw_next_pos (work ! i) + take_count c (work ! i)"
  have d: "distinct_slots (map (taken c) work)" using ok by (rule work_ok_distinct)
  have one: "advance_one ?b q j = lift_pool (pool_set_seq_len q j (?g j))" "j \<in> used_slots p"
    if "(j, m) \<in> set ?ims" "m \<noteq> 0" for j m q
  proof -
    note a = active_entry [OF ok that]
    have l: "length (take m (remaining_prompt (work ! j))) = take_count c (work ! j)"
      using a(2) take_count_le [of c "work ! j"] by simp
    then have "take m (remaining_prompt (work ! j)) \<noteq> []" using a(2) that(2) by auto
    from step_one_eq(1) [OF a(4) d this, unfolded l] small a(1,3)
    show "advance_one ?b q j = lift_pool (pool_set_seq_len q j (?g j))" "j \<in> used_slots p" by auto
  qed
  obtain m where m: "(i, m) \<in> set ?ims" "m \<noteq> 0" using active_iff [OF ok i(1), of c] i(2) by blast
  have "\<forall>(j, m)\<in>set ?ims. m \<noteq> 0 \<longrightarrow> (\<forall>q. advance_one ?b q j = lift_pool (pool_set_seq_len q j (?g j)))"
    "\<forall>(j, m)\<in>set ?ims. m \<noteq> 0 \<longrightarrow> j \<in> used_slots p" using one by blast+
  from for_active_err [OF this(1) wf this(2) m over] show ?thesis
    by (simp add: advance_slot_seq_lens_def next_batch_build)
qed

text \<open>
  Property C17. A scheduling step loses and invents nothing: the batch has one entry per slot, its
  tokens are what each slot gave up in slot order, what a slot gave up followed by what it keeps is
  what it had, its next position moves by exactly the rows it contributed, which are at most the
  chunk size (one when decoding), and every slot with work contributes at least one row.
\<close>

theorem next_batch_exact:
  assumes "next_batch c work = (b, work')" and "1 \<le> c"
  shows "m_per_slot b = map (take_count c) work \<and> length work' = length work \<and>
    batch_tokens b = concat (map (\<lambda>w. take (take_count c w) (remaining_prompt w)) work) \<and>
    (\<forall>i<length work. let w = work ! i; w' = work' ! i; m = m_per_slot b ! i in
       take m (remaining_prompt w) @ remaining_prompt w' = remaining_prompt w \<and>
       pw_next_pos w' = pw_next_pos w + m \<and> pw_slot w' = pw_slot w \<and>
       m \<le> (if decoding w then 1 else c) \<and> (remaining_prompt w \<noteq> [] \<longrightarrow> 1 \<le> m))"
proof -
  from assms(1) have b: "b = batch_build (map (taken c) work)" "work' = map (after_step c) work"
    by (auto simp: next_batch_build)
  have m: "m_per_slot b = map (take_count c) work"
    unfolding b(1) using take_count_le by (auto simp: batch_build_eq taken_def)
  moreover have "batch_tokens b = concat (map (\<lambda>w. take (take_count c w) (remaining_prompt w)) work)"
    unfolding b(1) by (simp add: batch_build_eq taken_def comp_def)
  moreover have "take_count c w \<le> (if decoding w then 1 else c)" "remaining_prompt w \<noteq> [] \<longrightarrow> 1 \<le> take_count c w" for w
    using assms(2) by (auto simp: take_count_def Suc_le_eq)
  ultimately show ?thesis by (simp add: b(2) after_step_def Let_def)
qed

definition demo_work :: "pending_work list" where
  "demo_work = [\<lparr>pw_slot = 0, remaining_prompt = [7, 8, 9], pw_next_pos = 4, decoding = False\<rparr>,
     \<lparr>pw_slot = 1, remaining_prompt = [5], pw_next_pos = 9, decoding = False\<rparr>]"

theorem next_batch_exact_witness:
  "\<exists>b work'. next_batch 2 demo_work = (b, work') \<and> m_per_slot b = [2, 1] \<and> batch_tokens b = [7, 8, 5] \<and>
     positions b = [4, 5, 9] \<and> row_slot b = [0, 0, 1]"
proof -
  let ?b = "fst (next_batch 2 demo_work)" and ?w = "snd (next_batch 2 demo_work)"
  have "next_batch 2 demo_work = (?b, ?w)" by simp
  from next_batch_exact [OF this] have "m_per_slot ?b = [2, 1]" "batch_tokens ?b = [7, 8, 5]"
    by (simp_all add: demo_work_def take_count_def)
  moreover have "positions ?b = [4, 5, 9]" "row_slot ?b = [0, 0, 1]"
    by (simp_all add: next_batch_build batch_build_eq demo_work_def taken_def take_count_def upt_rec)
  ultimately show ?thesis by (metis prod.collapse)
qed

text \<open>
  Property C6. The host bookkeeping around a step is exact: after a step the length of every slot
  that ran is the scheduler's next position for it and no other slot moved, and rewinding the same
  batch (the graph path runs it twice) puts every slot back to the length it had.
\<close>

theorem step_bookkeeping_exact:
  assumes wf: "pool_wf p" and ok: "work_ok p work" and b: "next_batch c work = (b, work')"
    and at: "\<forall>i<n_slots p. take_count c (work ! i) \<noteq> 0 \<longrightarrow>
      slot_len p i = pw_next_pos (work ! i) \<and> pw_next_pos (work' ! i) \<le> cap_tokens p"
  shows "\<exists>p' p''. advance_slot_seq_lens b p = Some (p', Inr ()) \<and> pool_wf p' \<and> used_slots p' = used_slots p \<and>
    (\<forall>i<n_slots p. slot_len p' i =
       (if take_count c (work ! i) \<noteq> 0 then pw_next_pos (work' ! i) else slot_len p i)) \<and>
    rewind_slot_seq_lens b p' = Some (p'', Inr ()) \<and> (\<forall>i<n_slots p. slot_len p'' i = slot_len p i)"
proof -
  have l: "length work = n_slots p" using ok by (simp add: work_ok_def)
  have w': "pw_next_pos (work' ! i) = pw_next_pos (work ! i) + take_count c (work ! i)" if "i < n_slots p" for i
    using b that l by (auto simp: next_batch_build after_step_def)
  have bb: "b = fst (next_batch c work)" using b by simp
  have fits: "\<forall>i<n_slots p. take_count c (work ! i) \<noteq> 0 \<longrightarrow>
      pw_next_pos (work ! i) + take_count c (work ! i) \<le> cap_tokens p" using at w' by simp
  from advance_batch_ok(1) [OF wf ok fits] obtain p' where
    p': "advance_slot_seq_lens b p = Some (p', Inr ())" "pool_wf p'" "used_slots p' = used_slots p"
      "n_slots p' = n_slots p" "cap_tokens p' = cap_tokens p"
      "\<forall>j<n_slots p. slot_len p' j = (if take_count c (work ! j) \<noteq> 0
         then pw_next_pos (work ! j) + take_count c (work ! j) else slot_len p j)"
    unfolding bb by blast
  have "work_ok p' work" using ok p' by (simp add: work_ok_def)
  from advance_batch_ok(2) [OF p'(2) this, of c] fits p'(4,5) obtain p'' where
    "rewind_slot_seq_lens b p' = Some (p'', Inr ())"
    "\<forall>j<n_slots p'. slot_len p'' j = (if take_count c (work ! j) \<noteq> 0 then pw_next_pos (work ! j) else slot_len p' j)"
    unfolding bb by auto
  with p' at w' show ?thesis by auto
qed

definition batch_pool :: slot_pool where
  "batch_pool = \<lparr>descs = [\<lparr>k_base = 0, v_base = 0, desc_seq_len = 4, desc_cap = 128\<rparr>,
      \<lparr>k_base = 128, v_base = 128, desc_seq_len = 9, desc_cap = 128\<rparr>],
    in_use = [True, True], cap_tokens = 128, per_pos_bytes = 1, dirty = False\<rparr>"

lemma batch_pool_ok: "pool_wf batch_pool" "work_ok batch_pool demo_work"
  by (auto simp: batch_pool_def pool_wf_def desc_ok_def PAGE_TOKENS_def R9700_VRAM_BYTES_def less_Suc_eq
      work_ok_def demo_work_def used_slots_def)

theorem step_bookkeeping_exact_witness:
  "\<exists>p'. advance_slot_seq_lens (fst (next_batch 2 demo_work)) batch_pool = Some (p', Inr ()) \<and>
     slot_len p' 0 = 6 \<and> slot_len p' 1 = 10"
proof -
  obtain b work' where nb: "next_batch 2 demo_work = (b, work')" by (cases "next_batch 2 demo_work")
  then have w: "work' = map (after_step 2) demo_work" by (simp add: next_batch_build)
  have at: "\<forall>i<n_slots batch_pool. take_count 2 (demo_work ! i) \<noteq> 0 \<longrightarrow>
      slot_len batch_pool i = pw_next_pos (demo_work ! i) \<and> pw_next_pos (work' ! i) \<le> cap_tokens batch_pool"
    by (auto simp: w batch_pool_def slot_len_def demo_work_def after_step_def take_count_def less_Suc_eq)
  from step_bookkeeping_exact [OF batch_pool_ok nb at] obtain p' where
    "advance_slot_seq_lens b batch_pool = Some (p', Inr ())"
    "\<forall>i<n_slots batch_pool. slot_len p' i = (if take_count 2 (demo_work ! i) \<noteq> 0
       then pw_next_pos (work' ! i) else slot_len batch_pool i)" by blast
  then show ?thesis
    using nb by (auto simp: w batch_pool_def demo_work_def after_step_def take_count_def)
qed

lemma step_iterate:
  "i < length work \<Longrightarrow> \<not> decoding (work ! i) \<Longrightarrow>
   (let w = (((\<lambda>ws. snd (next_batch c ws)) ^^ k) work) ! i in
      remaining_prompt w = drop (k * c) (remaining_prompt (work ! i)) \<and> \<not> decoding w \<and>
      pw_next_pos w = pw_next_pos (work ! i) + min (k * c) (length (remaining_prompt (work ! i)))) \<and>
   length (((\<lambda>ws. snd (next_batch c ws)) ^^ k) work) = length work"
proof (induction k)
  case (Suc k)
  then have ih: "(let w = (((\<lambda>ws. snd (next_batch c ws)) ^^ k) work) ! i in
      remaining_prompt w = drop (k * c) (remaining_prompt (work ! i)) \<and> \<not> decoding w \<and>
      pw_next_pos w = pw_next_pos (work ! i) + min (k * c) (length (remaining_prompt (work ! i))))"
    "length (((\<lambda>ws. snd (next_batch c ws)) ^^ k) work) = length work" by auto
  then show ?case
    using Suc.prems by (auto simp: next_batch_build after_step_def take_count_def Let_def min_def add.commute)
qed simp

text \<open>
  Property C18. A prompt is prefilled in finitely many steps whatever the other slots do: after
  as many steps as chunks of the chunk size are needed to cover it, nothing of it remains, and the
  slot's next position has advanced by the whole prompt.
\<close>

theorem prefill_completes:
  assumes "i < length work" and "\<not> decoding (work ! i)" and "1 \<le> c"
  shows "let w = (((\<lambda>ws. snd (next_batch c ws)) ^^ div_ceil (length (remaining_prompt (work ! i))) c) work) ! i in
    remaining_prompt w = [] \<and> pw_next_pos w = pw_next_pos (work ! i) + length (remaining_prompt (work ! i))"
  using step_iterate [OF assms(1,2), of "div_ceil (length (remaining_prompt (work ! i))) c" c]
    div_ceil_mult_ge [of c "length (remaining_prompt (work ! i))"] assms(3)
  by (simp add: Let_def)

theorem prefill_completes_witness:
  "let w = snd (next_batch 2 (snd (next_batch 2 demo_work))) ! 0 in
     remaining_prompt w = [] \<and> pw_next_pos w = 7"
  using prefill_completes [of 0 demo_work 2] by (simp add: demo_work_def div_ceil_def)

text \<open>One bookkeeping pass over the scheduled batch, from any lengths of the active slots.\<close>

lemma step_pass_any:
  assumes wf: "pool_wf p" and ok: "work_ok p work"
    and small: "\<forall>j<n_slots p. take_count c (work ! j) \<noteq> 0 \<longrightarrow> pw_next_pos (work ! j) + take_count c (work ! j) < 2147483648"
  shows "\<exists>p' r. advance_slot_seq_lens (fst (next_batch c work)) p = Some (p', r) \<and> pool_wf p' \<and>
      used_slots p' = used_slots p \<and> pool_geom p' = pool_geom p \<and>
      (\<forall>j<n_slots p. take_count c (work ! j) = 0 \<longrightarrow> slot_len p' j = slot_len p j) \<and>
      (r = Inr () \<longrightarrow> (\<forall>j<n_slots p. take_count c (work ! j) \<noteq> 0 \<longrightarrow>
         slot_len p' j = pw_next_pos (work ! j) + take_count c (work ! j)))"
    "\<exists>p' r. rewind_slot_seq_lens (fst (next_batch c work)) p = Some (p', r) \<and> pool_wf p' \<and>
      used_slots p' = used_slots p \<and> pool_geom p' = pool_geom p \<and>
      (\<forall>j<n_slots p. take_count c (work ! j) = 0 \<longrightarrow> slot_len p' j = slot_len p j)"
proof -
  let ?b = "batch_build (map (taken c) work)" and ?ims = "enumerate 0 (m_per_slot (batch_build (map (taken c) work)))"
  let ?g = "\<lambda>i. pw_next_pos (work ! i) + take_count c (work ! i)" and ?h = "\<lambda>i. pw_next_pos (work ! i)"
  have d: "distinct_slots (map (taken c) work)" using ok by (rule work_ok_distinct)
  have one: "advance_one ?b q j = lift_pool (pool_set_seq_len q j (?g j))"
    "rewind_one ?b q j = lift_pool (pool_set_seq_len q j (?h j))" "j \<in> used_slots p"
    if "(j, m) \<in> set ?ims" "m \<noteq> 0" for j m q
  proof -
    note a = active_entry [OF ok that]
    have l: "length (take m (remaining_prompt (work ! j))) = take_count c (work ! j)"
      using a(2) take_count_le [of c "work ! j"] by simp
    then have "take m (remaining_prompt (work ! j)) \<noteq> []" using a(2) that(2) by auto
    from step_one_eq [OF a(4) d this, unfolded l] small a(1,2,3) that(2)
    show "advance_one ?b q j = lift_pool (pool_set_seq_len q j (?g j))"
      "rewind_one ?b q j = lift_pool (pool_set_seq_len q j (?h j))" "j \<in> used_slots p" by auto
  qed
  have dist: "distinct (map fst ?ims)" by simp
  have u: "\<forall>(j, m)\<in>set ?ims. m \<noteq> 0 \<longrightarrow> j \<in> used_slots p" using one(3) by blast
  have "\<forall>(j, m)\<in>set ?ims. m \<noteq> 0 \<longrightarrow> (\<forall>q. advance_one ?b q j = lift_pool (pool_set_seq_len q j (?g j)))" using one(1) by blast
  from for_active_any [OF this wf dist u]
  show "\<exists>p' r. advance_slot_seq_lens (fst (next_batch c work)) p = Some (p', r) \<and> pool_wf p' \<and>
      used_slots p' = used_slots p \<and> pool_geom p' = pool_geom p \<and>
      (\<forall>j<n_slots p. take_count c (work ! j) = 0 \<longrightarrow> slot_len p' j = slot_len p j) \<and>
      (r = Inr () \<longrightarrow> (\<forall>j<n_slots p. take_count c (work ! j) \<noteq> 0 \<longrightarrow> slot_len p' j = ?g j))"
    unfolding advance_slot_seq_lens_def next_batch_build fst_conv using active_iff [OF ok, of _ c, folded is_active_def] by auto
  have "\<forall>(j, m)\<in>set ?ims. m \<noteq> 0 \<longrightarrow> (\<forall>q. rewind_one ?b q j = lift_pool (pool_set_seq_len q j (?h j)))" using one(2) by blast
  from for_active_any [OF this wf dist u]
  show "\<exists>p' r. rewind_slot_seq_lens (fst (next_batch c work)) p = Some (p', r) \<and> pool_wf p' \<and>
      used_slots p' = used_slots p \<and> pool_geom p' = pool_geom p \<and>
      (\<forall>j<n_slots p. take_count c (work ! j) = 0 \<longrightarrow> slot_len p' j = slot_len p j)"
    unfolding rewind_slot_seq_lens_def next_batch_build fst_conv using active_iff [OF ok, of _ c, folded is_active_def] by auto
qed

end
