(* ===== verification/Serve_Engine.thy ===== *)
theory Serve_Engine
  imports Session_Table Swap_Store Slot_Batch
begin

text \<open>
  The multi-slot serving engine: \<^verbatim>\<open>hipfire-arch-qwen35/src/serve_engine.rs\<close> (\<^verbatim>\<open>admit\<close>, \<^verbatim>\<open>evict\<close>,
  \<^verbatim>\<open>restore\<close>, one iteration of \<^verbatim>\<open>run_loop\<close>), the protocol types of \<^verbatim>\<open>hipfire-runtime/src/serve/mod.rs\<close>,
  and the host side of a forward step with its decode-graph cache (\<^verbatim>\<open>forward_slots.rs\<close>).

  The engine is one state record. What lies outside the source is a parameter: the driver's
  copies and memsets, the outcome of each GPU call, the bytes the kernels leave in device memory,
  the sampled token ids, the file system's answers and whether a client still listens. A client
  channel is a number; \<open>e_out\<close> is the log of events that reached their receiver.
\<close>

section \<open>Protocol types (serve/mod.rs)\<close>

datatype done_reason = Eos | MaxTokens | ClientGone

datatype reject_reason =
    EvictionFailed
  | OpenFailed admit_error
  | AllSlotsBusy
  | AdmittedHoldsNoSlot
  | StateResetFailed
  | TurnFailed turn_error
  | ForwardFailed step_error

datatype event = Accepted nat | Token token | Done done_reason | Rejected reject_reason

record submit_request =
  req_session :: "nat option"
  prompt_tokens :: "token list"
  req_convo :: "64 word list"
  continuation :: "token list"
  req_max_tokens :: nat
  reply :: nat

record engine_stats =
  st_admitted :: nat
  st_rejected :: nat
  st_evictions :: nat
  st_restores :: nat
  st_prefix_hits :: nat

definition note_admitted :: "engine_stats \<Rightarrow> engine_stats" where
  "note_admitted s = s\<lparr>st_admitted := st_admitted s + 1\<rparr>"
definition note_rejected :: "engine_stats \<Rightarrow> engine_stats" where
  "note_rejected s = s\<lparr>st_rejected := st_rejected s + 1\<rparr>"
definition note_eviction :: "engine_stats \<Rightarrow> engine_stats" where
  "note_eviction s = s\<lparr>st_evictions := st_evictions s + 1\<rparr>"
definition note_restore :: "engine_stats \<Rightarrow> engine_stats" where
  "note_restore s = s\<lparr>st_restores := st_restores s + 1\<rparr>"
definition note_prefix_hit :: "engine_stats \<Rightarrow> engine_stats" where
  "note_prefix_hit s = s\<lparr>st_prefix_hits := st_prefix_hits s + 1\<rparr>"

section \<open>Engine state\<close>

record in_flight =
  fl_session :: nat
  fl_reply :: nat
  produced :: nat
  max_tokens :: nat

record graph_key =
  gk_n_slots :: nat
  gk_n_rows :: nat
  gk_ctx_bucket :: nat

record decode_graph =
  dg_key :: "graph_key option"
  captures :: nat
  replays :: nat

record engine =
  e_pool :: slot_pool
  e_sessions :: session_table
  e_adm :: admission
  e_swap :: "fs \<times> swap_manager"
  e_k :: "byte list list"
  e_v :: "byte list list"
  e_dn :: "byte list list list"
  e_stamp :: snapshot_stamp
  e_cap :: nat
  e_max_batch :: nat
  e_eos :: token
  e_eot :: "token option"
  e_slots :: "in_flight option list"
  e_work :: "pending_work list"
  e_graph :: decode_graph
  e_stats :: engine_stats
  e_out :: "(nat \<times> event) list"

type_synonym memset = "nat \<Rightarrow> byte list \<Rightarrow> byte list \<times> bool"

record admit_env =
  env_memcpy :: memcpy
  env_memset :: memset
  env_io :: io_env
  env_alive :: "nat \<Rightarrow> bool"

definition send_event :: "(nat \<Rightarrow> bool) \<Rightarrow> engine \<Rightarrow> nat \<Rightarrow> event \<Rightarrow> engine \<times> bool" where
  "send_event alive e client ev =
     (if alive client then (e\<lparr>e_out := e_out e @ [(client, ev)]\<rparr>, True) else (e, False))"

definition bump :: "(engine_stats \<Rightarrow> engine_stats) \<Rightarrow> engine \<Rightarrow> engine" where
  "bump f e = e\<lparr>e_stats := f (e_stats e)\<rparr>"

definition reject :: "(nat \<Rightarrow> bool) \<Rightarrow> engine \<Rightarrow> nat \<Rightarrow> reject_reason \<Rightarrow> engine" where
  "reject alive e client why = bump note_rejected (fst (send_event alive e client (Rejected why)))"

section \<open>Eviction and restore\<close>

definition e_close :: "engine \<Rightarrow> nat \<Rightarrow> engine option" where
  "e_close e sid = do {
     (p, a, t) \<leftarrow> session_close (e_pool e) (e_adm e) (e_sessions e) sid;
     Some (e\<lparr>e_pool := p, e_adm := a, e_sessions := t\<rparr>)
   }"

definition e_mark_swapped :: "engine \<Rightarrow> nat \<Rightarrow> engine option" where
  "e_mark_swapped e sid = do {
     (p, t) \<leftarrow> mark_swapped (e_pool e) (e_sessions e) sid;
     Some (e\<lparr>e_pool := p, e_sessions := t\<rparr>)
   }"

definition e_mark_cold :: "engine \<Rightarrow> nat \<Rightarrow> engine option" where
  "e_mark_cold e sid = do {
     (p, t) \<leftarrow> mark_cold (e_pool e) (e_sessions e) sid;
     Some (e\<lparr>e_pool := p, e_sessions := t\<rparr>)
   }"

definition evict :: "admit_env \<Rightarrow> engine \<Rightarrow> nat \<Rightarrow> (engine \<times> bool) option" where
  "evict env e victim =
     (case sessions (e_sessions e) victim of
        None \<Rightarrow> Some (e, False)
      | Some sess \<Rightarrow>
        (case ses_slot sess of
           None \<Rightarrow> Some (e, False)
         | Some slot \<Rightarrow> do {
             dn \<leftarrow> list_get (e_dn e) slot;
             snap \<leftarrow> capture_slot (env_memcpy env) (e_pool e) slot (e_k e) (e_v e) dn (ses_tokens sess) (e_stamp e);
             case snap of
               Inr s \<Rightarrow>
                 let (swap', r) = park (env_io env) (e_swap e) victim s;
                     e' = e\<lparr>e_swap := swap'\<rparr>
                 in (case r of
                       Inr _ \<Rightarrow> do { e'' \<leftarrow> e_mark_swapped e' victim; Some (e'', True) }
                     | Inl _ \<Rightarrow> do { e'' \<leftarrow> e_mark_cold e' victim; Some (e'', True) })
             | Inl _ \<Rightarrow> do { e'' \<leftarrow> e_mark_cold e victim; Some (e'', True) }
           }))"

definition restore :: "admit_env \<Rightarrow> engine \<Rightarrow> nat \<Rightarrow> nat \<Rightarrow> (engine \<times> bool) option" where
  "restore env e sid slot = do {
     (swap', r) \<leftarrow> unpark (env_io env) (e_swap e) sid;
     let e1 = e\<lparr>e_swap := swap'\<rparr>;
     case r of
       Inr snap \<Rightarrow> do {
         dn \<leftarrow> list_get (e_dn e) slot;
         (p, dev, res) \<leftarrow> restore_slot (env_memcpy env) (e_pool e) slot
             \<lparr>k_arenas = e_k e, v_arenas = e_v e, extra = dn\<rparr> snap (e_stamp e);
         let e2 = e1\<lparr>e_pool := p, e_k := k_arenas dev, e_v := v_arenas dev, e_dn := (e_dn e)[slot := extra dev]\<rparr>;
         case res of
           Inr _ \<Rightarrow> Some (e2\<lparr>e_sessions := mark_resident (e_sessions e2) sid slot (snap_seq_len snap)\<rparr>, True)
         | Inl _ \<Rightarrow> do { e3 \<leftarrow> e_mark_cold e2 sid; Some (e3, False) }
       }
     | Inl _ \<Rightarrow> do { e2 \<leftarrow> e_mark_cold e1 sid; Some (e2, False) }
   }"

section \<open>Admission of a request\<close>

definition busy_sessions :: "engine \<Rightarrow> nat list" where
  "busy_sessions e = map fl_session (List.map_filter id (e_slots e))"

definition e_acquire :: "engine \<Rightarrow> (engine \<times> nat option) option" where
  "e_acquire e = do { (p, r) \<leftarrow> pool_acquire (e_pool e); Some (e\<lparr>e_pool := p\<rparr>, r) }"

text \<open>\<^verbatim>\<open>pool.acquire().or_else(...)\<close>: a free slot, evicting the LRU idle session if there is none.\<close>

definition acquire_or_evict :: "admit_env \<Rightarrow> engine \<Rightarrow> nat \<Rightarrow> (engine \<times> nat option) option" where
  "acquire_or_evict env e existing = do {
     (e1, r) \<leftarrow> e_acquire e;
     case r of
       Some target \<Rightarrow> Some (e1, Some target)
     | None \<Rightarrow>
         (case lru_idle_victim (e_sessions e1) (busy_sessions e) of
            None \<Rightarrow> Some (e1, None)
          | Some v \<Rightarrow>
              if v = existing then Some (e1, None)
              else do { (e2, _) \<leftarrow> evict env e1 v; e_acquire e2 })
   }"

text \<open>The slot of a matched session, bringing it back from the swap store when it holds none.\<close>

definition residentize :: "admit_env \<Rightarrow> engine \<Rightarrow> nat \<Rightarrow> (engine \<times> nat option) option" where
  "residentize env e existing =
     (case Option.bind (sessions (e_sessions e) existing) ses_slot of
        Some slot \<Rightarrow> Some (e, Some slot)
      | None \<Rightarrow> do {
          (e1, free) \<leftarrow> acquire_or_evict env e existing;
          case free of
            None \<Rightarrow> Some (e1, None)
          | Some target \<Rightarrow> do {
              (e2, ok) \<leftarrow> restore env e1 existing target;
              if ok then Some (bump note_restore e2, Some target)
              else do {
                p \<leftarrow> pool_release (e_pool e2) target;
                Some (e2\<lparr>e_pool := p\<rparr>, None)
              }
            }
        })"

definition e_begin_turn :: "engine \<Rightarrow> nat \<Rightarrow> token list \<Rightarrow> (engine \<times> (turn_error + turn_plan)) option" where
  "e_begin_turn e sid prompt = do {
     (p, t, r) \<leftarrow> begin_turn (e_pool e) (e_sessions e) sid prompt;
     Some (e\<lparr>e_pool := p, e_sessions := t\<rparr>, r)
   }"

definition set_turn :: "engine \<Rightarrow> nat \<Rightarrow> token list \<Rightarrow> 64 word list \<Rightarrow> engine" where
  "set_turn e sid toks cv =
     e\<lparr>e_sessions := session_update (e_sessions e) sid (\<lambda>s. s\<lparr>ses_tokens := toks, convo := cv\<rparr>)\<rparr>"

text \<open>Put a request in flight: the work entry and the in-flight record of its slot.\<close>

definition launch :: "engine \<Rightarrow> nat \<Rightarrow> nat \<Rightarrow> submit_request \<Rightarrow> token list \<Rightarrow> nat \<Rightarrow> engine option" where
  "launch e slot sid req toks n_reused = do {
     w \<leftarrow> list_get (e_work e) slot;
     rest \<leftarrow> slice toks n_reused (length toks);
     ws \<leftarrow> list_set (e_work e) slot
       (w\<lparr>remaining_prompt := rest, pw_next_pos := n_reused, decoding := False\<rparr>);
     fs \<leftarrow> list_set (e_slots e) slot
       (Some \<lparr>fl_session = sid, fl_reply = reply req, produced = 0, max_tokens = max (req_max_tokens req) 1\<rparr>);
     Some (e\<lparr>e_work := ws, e_slots := fs\<rparr>)
   }"

text \<open>The continuation branch; the flag says whether the request has been dealt with.\<close>

definition admit_continuation :: "admit_env \<Rightarrow> engine \<Rightarrow> submit_request \<Rightarrow> (engine \<times> bool) option" where
  "admit_continuation env e req =
     (if continuation req = [] then Some (e, False)
      else case find_continuation (e_sessions e) (req_convo req) (busy_sessions e) of
        None \<Rightarrow> Some (e, False)
      | Some existing \<Rightarrow> do {
          let base = (case sessions (e_sessions e) existing of None \<Rightarrow> [] | Some s \<Rightarrow> ses_tokens s);
          (e1, slot_opt) \<leftarrow> residentize env e existing;
          case slot_opt of
            None \<Rightarrow> Some (e1, False)
          | Some slot \<Rightarrow> do {
              let extended = base @ continuation req;
              (e2, r) \<leftarrow> e_begin_turn e1 existing extended;
              case r of
                Inl _ \<Rightarrow> Some (e2, False)
              | Inr plan \<Rightarrow> do {
                  let e3 = set_turn e2 existing extended (req_convo req);
                  let (e4, ok) = send_event (env_alive env) e3 (reply req) (Accepted existing);
                  if ok then do {
                    e5 \<leftarrow> launch e4 slot existing req extended (reused plan);
                    let e6 = e5\<lparr>e_sessions := touch (e_sessions e5) existing\<rparr>;
                    Some (bump note_prefix_hit (bump note_admitted e6), True)
                  }
                  else Some (e4, True)
                }
            }
        })"

text \<open>Open a session, evicting the LRU idle session when the first attempt fails.\<close>

definition e_open :: "engine \<Rightarrow> (engine \<times> (admit_error + nat)) option" where
  "e_open e = do {
     (p, a, t, r) \<leftarrow> session_open (e_pool e) (e_adm e) (e_sessions e) (e_cap e);
     Some (e\<lparr>e_pool := p, e_adm := a, e_sessions := t\<rparr>, r)
   }"

definition open_or_evict :: "admit_env \<Rightarrow> engine \<Rightarrow> nat list \<Rightarrow> nat \<Rightarrow> (engine \<times> nat option) option" where
  "open_or_evict env e busy client = do {
     (e1, r) \<leftarrow> e_open e;
     case r of
       Inr sid \<Rightarrow> Some (e1, Some sid)
     | Inl _ \<Rightarrow>
         (case lru_idle_victim (e_sessions e1) busy of
            None \<Rightarrow> Some (reject (env_alive env) e1 client AllSlotsBusy, None)
          | Some v \<Rightarrow> do {
              (e2, ok) \<leftarrow> evict env e1 v;
              if \<not> ok then Some (reject (env_alive env) e2 client EvictionFailed, None)
              else do {
                (e3, r2) \<leftarrow> e_open (bump note_eviction e2);
                case r2 of
                  Inr sid \<Rightarrow> Some (e3, Some sid)
                | Inl err \<Rightarrow> Some (reject (env_alive env) e3 client (OpenFailed err), None)
              }
            })
   }"

text \<open>\<^verbatim>\<open>DeltaNetState::reset\<close>: zero every buffer, stopping at the first failed memset.\<close>

fun dn_reset :: "memset \<Rightarrow> nat \<Rightarrow> byte list list \<Rightarrow> byte list list \<times> bool" where
  "dn_reset ms call [] = ([], True)"
| "dn_reset ms call (b # bs) =
     (let (b', ok) = ms call b
      in if ok then (let (bs', ok') = dn_reset ms (Suc call) bs in (b' # bs', ok')) else (b' # bs, False))"

definition admit_fresh :: "admit_env \<Rightarrow> engine \<Rightarrow> nat list \<Rightarrow> submit_request \<Rightarrow> engine option" where
  "admit_fresh env e busy req = do {
     (e1, opened) \<leftarrow> open_or_evict env e busy (reply req);
     case opened of
       None \<Rightarrow> Some e1
     | Some sid \<Rightarrow>
         (case Option.bind (sessions (e_sessions e1) sid) ses_slot of
            None \<Rightarrow> Some (reject (env_alive env) e1 (reply req) AdmittedHoldsNoSlot)
          | Some slot \<Rightarrow> do {
              dn \<leftarrow> list_get (e_dn e1) slot;
              let (dn', reset_ok) = dn_reset (env_memset env) 0 dn;
              let e2 = e1\<lparr>e_dn := (e_dn e1)[slot := dn']\<rparr>;
              if \<not> reset_ok then do {
                let (e3, _) = send_event (env_alive env) e2 (reply req) (Rejected StateResetFailed);
                e4 \<leftarrow> e_close e3 sid;
                Some (bump note_rejected e4)
              }
              else do {
                (e3, r) \<leftarrow> e_begin_turn e2 sid (prompt_tokens req);
                case r of
                  Inl err \<Rightarrow> do {
                    let (e4, _) = send_event (env_alive env) e3 (reply req) (Rejected (TurnFailed err));
                    e5 \<leftarrow> e_close e4 sid;
                    Some (bump note_rejected e5)
                  }
                | Inr plan \<Rightarrow> do {
                    let e4 = set_turn e3 sid (prompt_tokens req) (req_convo req);
                    let (e5, ok) = send_event (env_alive env) e4 (reply req) (Accepted sid);
                    if \<not> ok then e_close e5 sid
                    else do {
                      e6 \<leftarrow> launch e5 slot sid req (prompt_tokens req) (reused plan);
                      Some (bump note_admitted e6)
                    }
                  }
              }
            })
   }"

text \<open>\<^verbatim>\<open>admit\<close>; the busy list is computed once, before the continuation branch.\<close>

definition admit_request :: "admit_env \<Rightarrow> engine \<Rightarrow> submit_request \<Rightarrow> engine option" where
  "admit_request env e req = do {
     let busy = busy_sessions e;
     (e1, handled) \<leftarrow> admit_continuation env e req;
     if handled then Some e1 else admit_fresh env e1 busy req
   }"

section \<open>The forward step (forward_slots.rs)\<close>

text \<open>
  What the device answers during one step. \<open>kernels\<close> gives the arenas and the recurrent states
  after the kernels of a batch have run on them.
\<close>

type_synonym gpu_mem = "byte list list \<times> byte list list \<times> byte list list list"

record step_env =
  use_graph :: bool
  upload_ok :: bool
  body_ok :: bool
  stream_ok :: bool
  begin_capture_ok :: bool
  capture_body_ok :: bool
  end_capture_ok :: bool
  instantiate_ok :: bool
  launch_ok :: bool
  kernels :: "slot_batch \<Rightarrow> gpu_mem \<Rightarrow> gpu_mem"
  sync_ok :: bool
  sample_ok :: bool
  read_ids_ok :: bool
  ids :: "int list"
  step_alive :: "nat \<Rightarrow> bool"

definition run_kernels :: "step_env \<Rightarrow> engine \<Rightarrow> slot_batch \<Rightarrow> engine" where
  "run_kernels env e b = (let (k, v, dn) = kernels env b (e_k e, e_v e, e_dn e) in e\<lparr>e_k := k, e_v := v, e_dn := dn\<rparr>)"

definition upload :: "engine \<Rightarrow> engine" where
  "upload e = (if dirty (e_pool e) then e\<lparr>e_pool := mark_uploaded (e_pool e)\<rparr> else e)"

definition e_advance :: "engine \<Rightarrow> slot_batch \<Rightarrow> (engine \<times> (step_error + unit)) option" where
  "e_advance e b = do { (p, r) \<leftarrow> advance_slot_seq_lens b (e_pool e); Some (e\<lparr>e_pool := p\<rparr>, r) }"

definition e_rewind :: "engine \<Rightarrow> slot_batch \<Rightarrow> (engine \<times> (step_error + unit)) option" where
  "e_rewind e b = do { (p, r) \<leftarrow> rewind_slot_seq_lens b (e_pool e); Some (e\<lparr>e_pool := p\<rparr>, r) }"

text \<open>\<^verbatim>\<open>forward_batch_slots_opts\<close> with \<^verbatim>\<open>max_layer = None\<close>: assertions, uploads, kernels, lengths.\<close>

definition forward_opts ::
  "step_env \<Rightarrow> engine \<Rightarrow> slot_batch \<Rightarrow> bool \<Rightarrow> bool \<Rightarrow> (engine \<times> (step_error + unit)) option" where
  "forward_opts env e b skip_uploads ok =
     (if batch_is_empty b then Some (e, Inr ())
      else if \<not> step_assertions b (e_pool e) (length (e_dn e)) (n_slots (e_pool e)) (e_max_batch e) (e_max_batch e)
      then None
      else if \<not> skip_uploads \<and> \<not> upload_ok env then Some (e, Inl StepGpu)
      else
        let e1 = (if skip_uploads then e else upload e);
            e2 = run_kernels env e1 b
        in if \<not> ok then Some (e2, Inl StepGpu) else e_advance e2 b)"

definition DECODE_GRAPH_CTX_BUCKET :: nat where "DECODE_GRAPH_CTX_BUCKET = 256"

definition ctx_bucket_of :: "slot_batch \<Rightarrow> slot_pool \<Rightarrow> nat option" where
  "ctx_bucket_of b p = do {
     d \<leftarrow> list_get (descs p) 0;
     true_ctx \<leftarrow> max_ctx_len b p None;
     Some (max (min (saturating_mul64 (div_ceil true_ctx DECODE_GRAPH_CTX_BUCKET) DECODE_GRAPH_CTX_BUCKET)
                    (i32_as_usize (desc_cap d))) 1)
   }"

definition pure_decode :: "slot_batch \<Rightarrow> bool" where
  "pure_decode b \<longleftrightarrow> \<not> batch_is_empty b \<and> (\<forall>m\<in>set (m_per_slot b). m = 1)"

definition graph_release :: "engine \<Rightarrow> engine" where
  "graph_release e = e\<lparr>e_graph := (e_graph e)\<lparr>dg_key := None\<rparr>\<rparr>"

text \<open>The capture branch: warm the step, rewind, run the body again under capture, keep the graph.\<close>

definition forward_capture ::
  "step_env \<Rightarrow> engine \<Rightarrow> slot_batch \<Rightarrow> graph_key \<Rightarrow> (engine \<times> (step_error + unit)) option" where
  "forward_capture env e b key =
     (let e1 = graph_release e in
      if \<not> stream_ok env then Some (e1, Inl StepGpu)
      else do {
        (e2, r) \<leftarrow> forward_opts env e1 b True (body_ok env);
        case r of
          Inl err \<Rightarrow> Some (e2, Inl err)
        | Inr _ \<Rightarrow> do {
            (e3, r2) \<leftarrow> e_rewind e2 b;
            case r2 of
              Inl err \<Rightarrow> Some (e3, Inl err)
            | Inr _ \<Rightarrow>
                if \<not> begin_capture_ok env then Some (e3, Inl StepGpu)
                else do {
                  (e4, captured) \<leftarrow> forward_opts (env\<lparr>kernels := (\<lambda>_ m. m)\<rparr>) e3 b True (capture_body_ok env);
                  if \<not> end_capture_ok env then Some (e4, Inl StepGpu)
                  else case captured of
                    Inl err \<Rightarrow> Some (e4, Inl err)
                  | Inr _ \<Rightarrow>
                      if \<not> instantiate_ok env then Some (e4, Inl StepGpu)
                      else Some (e4\<lparr>e_graph := \<lparr>dg_key = Some key, captures = captures (e_graph e4) + 1,
                                     replays = replays (e_graph e4)\<rparr>\<rparr>, Inr ())
                }
          }
      })"

definition forward_graphed :: "step_env \<Rightarrow> engine \<Rightarrow> slot_batch \<Rightarrow> (engine \<times> (step_error + unit)) option" where
  "forward_graphed env e b =
     (if \<not> use_graph env \<or> \<not> pure_decode b then forward_opts env e b False (body_ok env)
      else do {
        bucket \<leftarrow> ctx_bucket_of b (e_pool e);
        let key = \<lparr>gk_n_slots = n_slots (e_pool e), gk_n_rows = batch_rows b, gk_ctx_bucket = bucket\<rparr>;
        if \<not> upload_ok env then Some (e, Inl StepGpu)
        else do {
          let e1 = upload e;
          if dg_key (e_graph e1) \<noteq> Some key then forward_capture env e1 b key
          else if \<not> launch_ok env then Some (e1, Inl StepGpu)
          else e_advance (run_kernels env
                 (e1\<lparr>e_graph := (e_graph e1)\<lparr>replays := replays (e_graph e1) + 1\<rparr>\<rparr>) b) b
        }
      })"

section \<open>One iteration of the engine loop\<close>

definition is_terminator :: "engine \<Rightarrow> token \<Rightarrow> bool" where
  "is_terminator e t \<longleftrightarrow> t = e_eos e \<or> e_eot e = Some t"

text \<open>A failed forward rejects and closes every request in flight.\<close>

fun fail_slots :: "(nat \<Rightarrow> bool) \<Rightarrow> step_error \<Rightarrow> nat list \<Rightarrow> engine \<Rightarrow> engine option" where
  "fail_slots alive err [] e = Some e"
| "fail_slots alive err (s # ss) e =
     (case e_slots e ! s of
        None \<Rightarrow> fail_slots alive err ss e
      | Some f \<Rightarrow> do {
          let e1 = e\<lparr>e_slots := (e_slots e)[s := None]\<rparr>;
          let (e2, _) = send_event alive e1 (fl_reply f) (Rejected (ForwardFailed err));
          e3 \<leftarrow> e_close e2 (fl_session f);
          w \<leftarrow> list_get (e_work e3) s;
          fail_slots alive err ss (e3\<lparr>e_work := (e_work e3)[s := w\<lparr>remaining_prompt := []\<rparr>]\<rparr>)
        })"

text \<open>What the loop does with the sampled token of slot \<open>s\<close>.\<close>

definition post_slot :: "(nat \<Rightarrow> bool) \<Rightarrow> int list \<Rightarrow> nat \<Rightarrow> engine \<Rightarrow> engine option" where
  "post_slot alive toks s e = do {
     fo \<leftarrow> list_get (e_slots e) s;
     case fo of
       None \<Rightarrow> Some e
     | Some f \<Rightarrow> do {
         w \<leftarrow> list_get (e_work e) s;
         if remaining_prompt w \<noteq> [] then Some e
         else do {
           raw \<leftarrow> list_get toks s;
           let tok = word_of_int raw;
           let hit_eos = is_terminator e tok;
           let (e1, sent) = (if hit_eos then (e, True) else send_event alive e (fl_reply f) (Token tok));
           let gone = \<not> sent;
           let f' = f\<lparr>produced := produced f + 1\<rparr>;
           let e2 = e1\<lparr>e_slots := (e_slots e1)[s := Some f']\<rparr>;
           let hit_max = (max_tokens f' \<le> produced f');
           if gone \<or> hit_eos \<or> hit_max then do {
             let reason = (if gone then ClientGone else if hit_eos then Eos else MaxTokens);
             let (e3, _) = send_event alive e2 (fl_reply f) (Done reason);
             let e4 = e3\<lparr>e_slots := (e_slots e3)[s := None], e_work := (e_work e3)[s := w\<lparr>remaining_prompt := []\<rparr>]\<rparr>;
             if reason = ClientGone then e_close e4 (fl_session f)
             else Some (e4\<lparr>e_sessions := touch (e_sessions e4) (fl_session f)\<rparr>)
           }
           else Some (e2\<lparr>e_work := (e_work e2)[s := w\<lparr>remaining_prompt := remaining_prompt w @ [tok]\<rparr>],
                         e_sessions := touch (session_update (e_sessions e2) (fl_session f)
                           (\<lambda>x. x\<lparr>ses_tokens := ses_tokens x @ [tok]\<rparr>)) (fl_session f)\<rparr>)
         }
       }
   }"

fun post_slots :: "(nat \<Rightarrow> bool) \<Rightarrow> int list \<Rightarrow> nat list \<Rightarrow> engine \<Rightarrow> engine option" where
  "post_slots alive toks [] e = Some e"
| "post_slots alive toks (s # ss) e = do { e' \<leftarrow> post_slot alive toks s e; post_slots alive toks ss e' }"

definition all_idle :: "engine \<Rightarrow> bool" where
  "all_idle e \<longleftrightarrow> (\<forall>s\<in>set (e_slots e). s = None)"

definition engine_step :: "step_env \<Rightarrow> engine \<Rightarrow> engine option" where
  "engine_step env e =
     (if all_idle e then Some e
      else do {
        let (b, work') = next_batch (max (e_cap e) 1) (e_work e);
        let e1 = e\<lparr>e_work := work'\<rparr>;
        if batch_is_empty b then Some e1
        else do {
          (e2, fwd) \<leftarrow> forward_graphed env e1 b;
          case fwd of
            Inl err \<Rightarrow> fail_slots (step_alive env) err [0..<length (e_slots e2)] e2
          | Inr _ \<Rightarrow>
              if \<not> sync_ok env \<or> \<not> sample_ok env \<or> \<not> read_ids_ok env then Some e2
              else post_slots (step_alive env) (ids env) [0..<length (e_slots e2)] e2
        }
      })"

fun admit_all :: "(admit_env \<times> submit_request) list \<Rightarrow> engine \<Rightarrow> engine option" where
  "admit_all [] e = Some e"
| "admit_all ((env, req) # rest) e = do { e' \<leftarrow> admit_request env e req; admit_all rest e' }"

text \<open>One pass of \<^verbatim>\<open>run_loop\<close>: the requests taken from the channel, then one step.\<close>

definition engine_tick :: "(admit_env \<times> submit_request) list \<Rightarrow> step_env \<Rightarrow> engine \<Rightarrow> engine option" where
  "engine_tick reqs env e = do { e' \<leftarrow> admit_all reqs e; engine_step env e' }"

section \<open>Invariant\<close>

definition slot_dev :: "engine \<Rightarrow> nat \<Rightarrow> device" where
  "slot_dev e k = \<lparr>k_arenas = e_k e, v_arenas = e_v e, extra = e_dn e ! k\<rparr>"

text \<open>
  Request \<open>f\<close> in slot \<open>k\<close>: its session is resident there, the slot holds the computed prefix of
  its tokens, and what is left to compute is exactly the rest. A slot with no request has no work.
\<close>

definition slot_coherent :: "engine \<Rightarrow> nat \<Rightarrow> bool" where
  "slot_coherent e k \<longleftrightarrow>
     (case e_slots e ! k of
        None \<Rightarrow> remaining_prompt (e_work e ! k) = []
      | Some f \<Rightarrow> \<exists>s. sessions (e_sessions e) (fl_session f) = Some s \<and> ses_slot s = Some k \<and>
          pw_next_pos (e_work e ! k) = slot_len (e_pool e) k \<and>
          remaining_prompt (e_work e ! k) = drop (slot_len (e_pool e) k) (ses_tokens s) \<and> produced f < max_tokens f)"

definition rigs_ok :: "engine \<Rightarrow> bool" where
  "rigs_ok e \<longleftrightarrow> length (e_dn e) = n_slots (e_pool e) \<and>
     (\<forall>k<n_slots (e_pool e). rig_ok (e_pool e) (slot_dev e k) (e_stamp e) \<and>
        length (e_k e) * 2 * slab_bytes_of (e_pool e) + sum_list (map length (e_dn e ! k)) < 2305843009213693952)"

definition frame_ok :: "engine \<Rightarrow> bool" where
  "frame_ok e \<longleftrightarrow> n_slots (e_pool e) < 2147483648 \<and> e_cap e \<le> cap_tokens (e_pool e) \<and>
     cap_tokens (e_pool e) < 1073741824 \<and> length (e_slots e) = n_slots (e_pool e) \<and>
     length (e_work e) = n_slots (e_pool e) \<and>
     (\<forall>k<n_slots (e_pool e). pw_slot (e_work e ! k) = k \<and> \<not> decoding (e_work e ! k)) \<and>
     weights_bytes (footprint (e_adm e)) + e_cap e * kv_bytes_per_token (footprint (e_adm e)) \<le> u64_max"

definition resident_lens_ok :: "engine \<Rightarrow> bool" where
  "resident_lens_ok e \<longleftrightarrow> (\<forall>sid s k. sessions (e_sessions e) sid = Some s \<and> ses_slot s = Some k \<longrightarrow>
     slot_len (e_pool e) k \<le> length (ses_tokens s))"

text \<open>
  Every parked snapshot was captured on this rig, belongs to a session that holds no slot, and
  covers no more than that session's tokens.
\<close>

definition parked_ok :: "engine \<Rightarrow> bool" where
  "parked_ok e \<longleftrightarrow> sm_ok (e_swap e) \<and>
     (\<forall>sid snap. sm_parked (e_swap e) sid = Some snap \<longrightarrow>
        sid < next_id (e_sessions e) \<and>
        (\<forall>k<n_slots (e_pool e). snap_fits (e_pool e) (slot_dev e k) (e_stamp e) snap) \<and>
        (\<forall>s. sessions (e_sessions e) sid = Some s \<longrightarrow>
           ses_slot s = None \<and> snap_seq_len snap \<le> length (ses_tokens s)))"

definition core_ok :: "engine \<Rightarrow> bool" where
  "core_ok e \<longleftrightarrow> world_ok (e_pool e) (e_adm e) (e_sessions e) \<and> rigs_ok e \<and> frame_ok e \<and>
     resident_lens_ok e \<and> parked_ok e"

definition engine_ok :: "engine \<Rightarrow> bool" where
  "engine_ok e \<longleftrightarrow> core_ok e \<and> (\<forall>k<n_slots (e_pool e). slot_coherent e k)"

text \<open>Token lists are vectors in memory; a session has fewer than a quintillion tokens.\<close>

definition tokens_small :: "engine \<Rightarrow> bool" where
  "tokens_small e \<longleftrightarrow> (\<forall>sid s. sessions (e_sessions e) sid = Some s \<longrightarrow> length (ses_tokens s) < 1000000000000000000)"

lemma release_opt_geom: "release_opt p so = Some p' \<Longrightarrow> pool_geom p' = pool_geom p"
  by (auto simp: release_opt_def split: option.splits dest: pool_geom_ops)

lemma session_ops_geom:
  "session_open p a t c = Some (p', a', t', r) \<Longrightarrow> pool_geom p' = pool_geom p \<and> footprint a' = footprint a"
  "session_close p a t sid = Some (p', a', t') \<Longrightarrow> pool_geom p' = pool_geom p \<and> footprint a' = footprint a"
  "mark_swapped p t sid = Some (p', t') \<Longrightarrow> pool_geom p' = pool_geom p"
  "mark_cold p t sid = Some (p', t') \<Longrightarrow> pool_geom p' = pool_geom p"
  "begin_turn p t sid prompt = Some (p', t', r') \<Longrightarrow> pool_geom p' = pool_geom p"
  unfolding session_open_def session_close_def mark_swapped_def mark_cold_def begin_turn_def
  by (auto simp: Let_def admit_def adm_release_def split: sum.splits option.splits Option.bind_splits if_splits prod.splits
      dest: pool_geom_ops release_opt_geom)

lemma rig_ok_geom:
  assumes "rig_ok p dev st" and "pool_wf p'" and "pool_geom p' = pool_geom p"
    and "map length (k_arenas dev') = map length (k_arenas dev)" "map length (v_arenas dev') = map length (v_arenas dev)"
    and "map length (extra dev') = map length (extra dev)"
  shows "rig_ok p' dev' st"
proof -
  have l: "length (k_arenas dev') = length (k_arenas dev)" "length (v_arenas dev') = length (v_arenas dev)"
    using assms(4,5) map_eq_imp_length_eq by blast+
  have "length ` set (k_arenas dev') = length ` set (k_arenas dev)"
    "length ` set (v_arenas dev') = length ` set (v_arenas dev)"
    using arg_cong [OF assms(4), of set] arg_cong [OF assms(5), of set] by simp_all
  moreover have "\<forall>a\<in>set (k_arenas dev) \<union> set (v_arenas dev). length a = arena_bytes p"
    using assms(1) by (simp add: rig_ok_def)
  moreover have "arena_bytes p' = arena_bytes p" using assms(3) by (simp add: arena_bytes_def pool_geom_def)
  ultimately have "\<forall>a\<in>set (k_arenas dev') \<union> set (v_arenas dev'). length a = arena_bytes p'"
    by (metis UnE image_eqI UnCI imageE)
  then show ?thesis using assms l unfolding rig_ok_def pool_geom_def by simp
qed

section \<open>Transferring the invariant\<close>

definition same_shape :: "engine \<Rightarrow> engine \<Rightarrow> bool" where
  "same_shape e e' \<longleftrightarrow> pool_geom (e_pool e') = pool_geom (e_pool e) \<and> e_stamp e' = e_stamp e \<and> e_cap e' = e_cap e \<and>
     map length (e_k e') = map length (e_k e) \<and> map length (e_v e') = map length (e_v e) \<and>
     map (map length) (e_dn e') = map (map length) (e_dn e) \<and> footprint (e_adm e') = footprint (e_adm e)"

text \<open>The requests in flight are left alone: same slots, work, sessions' slots and tokens, lengths.\<close>

definition busy_kept :: "engine \<Rightarrow> engine \<Rightarrow> bool" where
  "busy_kept e e' \<longleftrightarrow> e_slots e' = e_slots e \<and> e_work e' = e_work e \<and>
     (\<forall>k<length (e_slots e). \<forall>f. e_slots e ! k = Some f \<longrightarrow>
        (\<forall>s. sessions (e_sessions e) (fl_session f) = Some s \<longrightarrow>
           (\<exists>s'. sessions (e_sessions e') (fl_session f) = Some s' \<and> ses_slot s' = ses_slot s \<and>
              ses_tokens s' = ses_tokens s)) \<and>
        slot_len (e_pool e') k = slot_len (e_pool e) k)"

lemma same_shape_refl [simp]: "same_shape e e"
  by (simp add: same_shape_def)

lemma same_shape_trans: "same_shape a b \<Longrightarrow> same_shape b c \<Longrightarrow> same_shape a c"
  by (simp add: same_shape_def)

lemma busy_kept_refl [simp]: "busy_kept e e"
  by (simp add: busy_kept_def)

lemma busy_kept_trans: "busy_kept a b \<Longrightarrow> busy_kept b c \<Longrightarrow> busy_kept a c"
  unfolding busy_kept_def by (simp; metis)

lemma same_shape_n: "same_shape e e' \<Longrightarrow> n_slots (e_pool e') = n_slots (e_pool e)"
  by (simp add: same_shape_def pool_geom_def)

lemma same_shape_dn:
  assumes "same_shape e e'" and "k < length (e_dn e)"
  shows "map length (e_dn e' ! k) = map length (e_dn e ! k)" "length (e_dn e') = length (e_dn e)"
proof -
  have m: "map (map length) (e_dn e') = map (map length) (e_dn e)" using assms(1) by (simp add: same_shape_def)
  then show l: "length (e_dn e') = length (e_dn e)" using map_eq_imp_length_eq by blast
  from arg_cong [OF m, of "\<lambda>xs. xs ! k"] show "map length (e_dn e' ! k) = map length (e_dn e ! k)"
    using l assms(2) by simp
qed

lemma same_shape_fits:
  assumes "same_shape e e'" and "k < length (e_dn e)" and "snap_fits (e_pool e) (slot_dev e k) (e_stamp e) snap"
  shows "snap_fits (e_pool e') (slot_dev e' k) (e_stamp e') snap"
  using assms same_shape_dn(1) [OF assms(1,2)] map_eq_imp_length_eq [of length "e_k e'" length "e_k e"]
  unfolding snap_fits_def slot_dev_def same_shape_def pool_geom_def by simp

lemma rigs_ok_shape:
  assumes ok: "rigs_ok e" and sh: "same_shape e e'" and wf: "pool_wf (e_pool e')"
  shows "rigs_ok e'"
proof -
  have n: "n_slots (e_pool e') = n_slots (e_pool e)" using sh by (rule same_shape_n)
  have ldn: "length (e_dn e) = n_slots (e_pool e)" using ok by (simp add: rigs_ok_def)
  have lk: "length (e_k e') = length (e_k e)" using sh map_eq_imp_length_eq by (auto simp: same_shape_def)
  have slab: "slab_bytes_of (e_pool e') = slab_bytes_of (e_pool e)" using sh by (simp add: same_shape_def pool_geom_def)
  have "rig_ok (e_pool e') (slot_dev e' k) (e_stamp e') \<and>
      length (e_k e') * 2 * slab_bytes_of (e_pool e') + sum_list (map length (e_dn e' ! k)) < 2305843009213693952"
    if k: "k < n_slots (e_pool e)" for k
  proof -
    have kd: "k < length (e_dn e)" using k ldn by simp
    note dn = same_shape_dn(1) [OF sh kd]
    have r: "rig_ok (e_pool e) (slot_dev e k) (e_stamp e)" using ok k by (simp add: rigs_ok_def)
    have "rig_ok (e_pool e') (slot_dev e' k) (e_stamp e)"
      using sh dn by (intro rig_ok_geom [OF r wf]) (simp_all add: same_shape_def slot_dev_def)
    moreover have "e_stamp e' = e_stamp e" using sh by (simp add: same_shape_def)
    ultimately show ?thesis using ok k lk slab dn by (simp add: rigs_ok_def)
  qed
  moreover have "length (e_dn e') = n_slots (e_pool e')"
    using sh ldn n map_eq_imp_length_eq by (fastforce simp: same_shape_def)
  ultimately show ?thesis using n by (simp add: rigs_ok_def)
qed

lemma frame_ok_shape:
  "frame_ok e \<Longrightarrow> same_shape e e' \<Longrightarrow> e_slots e' = e_slots e \<Longrightarrow> e_work e' = e_work e \<Longrightarrow> frame_ok e'"
  using same_shape_n [of e e'] by (simp add: frame_ok_def same_shape_def pool_geom_def)

lemma slot_coherent_kept:
  assumes c: "slot_coherent e k" and b: "busy_kept e e'" and k: "k < length (e_slots e)"
  shows "slot_coherent e' k"
proof (cases "e_slots e ! k")
  case None
  with c b show ?thesis by (simp add: slot_coherent_def busy_kept_def)
next
  case (Some f)
  with c obtain s where s: "sessions (e_sessions e) (fl_session f) = Some s" "ses_slot s = Some k"
    "pw_next_pos (e_work e ! k) = slot_len (e_pool e) k"
    "remaining_prompt (e_work e ! k) = drop (slot_len (e_pool e) k) (ses_tokens s)" "produced f < max_tokens f"
    by (auto simp: slot_coherent_def)
  from b k Some s(1) obtain s' where s': "sessions (e_sessions e') (fl_session f) = Some s'"
    "ses_slot s' = ses_slot s" "ses_tokens s' = ses_tokens s" and l: "slot_len (e_pool e') k = slot_len (e_pool e) k"
    unfolding busy_kept_def by blast
  moreover have "e_slots e' ! k = Some f" "e_work e' ! k = e_work e ! k" using b Some by (auto simp: busy_kept_def)
  ultimately show ?thesis using s by (simp add: slot_coherent_def)
qed

lemma engine_ok_kept:
  assumes ok: "engine_ok e" and sh: "same_shape e e'" and b: "busy_kept e e'"
    and w: "world_ok (e_pool e') (e_adm e') (e_sessions e')"
    and r: "resident_lens_ok e'" and p: "parked_ok e'"
  shows "engine_ok e'"
proof -
  have c: "core_ok e" and co: "\<forall>k<n_slots (e_pool e). slot_coherent e k" using ok by (auto simp: engine_ok_def)
  have "pool_wf (e_pool e')" using w by (simp add: world_ok_def)
  then have "rigs_ok e'" using c sh rigs_ok_shape by (auto simp: core_ok_def)
  moreover have "frame_ok e" using c by (simp add: core_ok_def)
  then have "frame_ok e'" using frame_ok_shape [OF _ sh] b by (simp add: busy_kept_def)
  moreover have "slot_coherent e' k" if "k < n_slots (e_pool e')" for k
  proof -
    have "k < n_slots (e_pool e)" "length (e_slots e) = n_slots (e_pool e)"
      using that same_shape_n [OF sh] c by (simp_all add: core_ok_def frame_ok_def)
    then show ?thesis using slot_coherent_kept [OF _ b] co by simp
  qed
  ultimately show ?thesis using w r p by (simp add: engine_ok_def core_ok_def)
qed

text \<open>Fields that the invariant does not read.\<close>

lemma engine_ok_out [simp]:
  "engine_ok (e\<lparr>e_out := out\<rparr>) = engine_ok e" "engine_ok (e\<lparr>e_stats := st\<rparr>) = engine_ok e"
  "same_shape e0 (e\<lparr>e_out := out\<rparr>) = same_shape e0 e" "same_shape e0 (e\<lparr>e_stats := st\<rparr>) = same_shape e0 e"
  "busy_kept e0 (e\<lparr>e_out := out\<rparr>) = busy_kept e0 e" "busy_kept e0 (e\<lparr>e_stats := st\<rparr>) = busy_kept e0 e"
  by (simp_all add: engine_ok_def core_ok_def rigs_ok_def frame_ok_def resident_lens_ok_def parked_ok_def
      slot_coherent_def slot_dev_def same_shape_def busy_kept_def cong: option.case_cong)

lemma send_event_fields [simp]:
  "engine_ok (fst (send_event al e c ev)) = engine_ok e" "same_shape e0 (fst (send_event al e c ev)) = same_shape e0 e"
  "busy_kept e0 (fst (send_event al e c ev)) = busy_kept e0 e"
  "e_pool (fst (send_event al e c ev)) = e_pool e" "e_sessions (fst (send_event al e c ev)) = e_sessions e"
  "e_adm (fst (send_event al e c ev)) = e_adm e" "e_slots (fst (send_event al e c ev)) = e_slots e"
  "e_work (fst (send_event al e c ev)) = e_work e" "e_dn (fst (send_event al e c ev)) = e_dn e"
  "snd (send_event al e c ev) = al c"
  by (simp_all add: send_event_def)

lemma bump_fields [simp]:
  "engine_ok (bump f e) = engine_ok e" "same_shape e0 (bump f e) = same_shape e0 e"
  "busy_kept e0 (bump f e) = busy_kept e0 e" "e_pool (bump f e) = e_pool e" "e_sessions (bump f e) = e_sessions e"
  "e_adm (bump f e) = e_adm e" "e_slots (bump f e) = e_slots e" "e_work (bump f e) = e_work e" "e_dn (bump f e) = e_dn e"
  by (simp_all add: bump_def)

end
