(* ===== verification/Engine_Admit.thy ===== *)
theory Engine_Admit
  imports Serve_Engine
begin

text \<open>
  Admission of a request keeps the engine's invariant, never panics and leaves the requests in
  flight alone: lemmas for eviction, restore, the continuation branch and the fresh branch of
  \<^verbatim>\<open>serve_engine.rs::admit\<close>, and the properties that follow.
\<close>

lemma engine_okD:
  assumes "engine_ok e"
  shows "world_ok (e_pool e) (e_adm e) (e_sessions e)" "pool_wf (e_pool e)" "table_ok (e_sessions e)"
    "rigs_ok e" "frame_ok e" "resident_lens_ok e" "parked_ok e" "sm_ok (e_swap e)"
    "held_slots (e_sessions e) = used_slots (e_pool e)"
    "length (e_slots e) = n_slots (e_pool e)" "length (e_work e) = n_slots (e_pool e)"
    "length (e_dn e) = n_slots (e_pool e)"
  using assms by (simp_all add: engine_ok_def core_ok_def world_ok_def frame_ok_def rigs_ok_def parked_ok_def)

lemma busy_mem: "k < length (e_slots e) \<Longrightarrow> e_slots e ! k = Some f \<Longrightarrow> fl_session f \<in> set (busy_sessions e)"
proof -
  assume k: "k < length (e_slots e)" "e_slots e ! k = Some f"
  then have "Some f \<in> set (e_slots e)" by (metis nth_mem)
  then show ?thesis by (force simp: busy_sessions_def List.map_filter_def)
qed

lemma busy_resident:
  assumes "engine_ok e" and "sid \<in> set (busy_sessions e)"
  shows "\<exists>s k. sessions (e_sessions e) sid = Some s \<and> ses_slot s = Some k \<and> k < n_slots (e_pool e)"
proof -
  from assms(2) obtain k f where k: "k < length (e_slots e)" "e_slots e ! k = Some f" "fl_session f = sid"
    by (auto simp: busy_sessions_def List.map_filter_def in_set_conv_nth)
  then have "slot_coherent e k" using assms(1) by (simp add: engine_ok_def core_ok_def frame_ok_def)
  with k engine_okD(10) [OF assms(1)] show ?thesis by (auto simp: slot_coherent_def)
qed

lemma busy_keptI:
  assumes ok: "engine_ok e" and "e_slots e' = e_slots e" and "e_work e' = e_work e"
    and same: "\<And>sid. sid \<in> set (busy_sessions e) \<Longrightarrow> sessions (e_sessions e') sid = sessions (e_sessions e) sid"
    and len: "\<And>sid s k. sid \<in> set (busy_sessions e) \<Longrightarrow> sessions (e_sessions e) sid = Some s \<Longrightarrow> ses_slot s = Some k \<Longrightarrow>
      k < n_slots (e_pool e) \<Longrightarrow> slot_len (e_pool e') k = slot_len (e_pool e) k"
  shows "busy_kept e e'"
proof -
  have "slot_len (e_pool e') k = slot_len (e_pool e) k" if k: "k < length (e_slots e)" "e_slots e ! k = Some f" for k f
  proof -
    have kn: "k < n_slots (e_pool e)" using k engine_okD(10) [OF ok] by simp
    then have "slot_coherent e k" using ok by (simp add: engine_ok_def)
    then obtain s where "sessions (e_sessions e) (fl_session f) = Some s" "ses_slot s = Some k"
      using k by (auto simp: slot_coherent_def)
    from len [OF busy_mem [OF k] this kn] show ?thesis .
  qed
  with assms(2,3) same busy_mem show ?thesis unfolding busy_kept_def by auto
qed

section \<open>Eviction\<close>

text \<open>Taking the slot away from an idle session, whatever happens to its snapshot.\<close>

lemma drop_idle_ok:
  assumes ok: "engine_ok e" and v: "sessions (e_sessions e) v = Some s" "ses_slot s = Some k" "v \<notin> set (busy_sessions e)"
    and s': "ses_slot s' = None" "ses_tokens s' = ses_tokens s"
    and t': "t' = (e_sessions e)\<lparr>sessions := (sessions (e_sessions e))(v \<mapsto> s')\<rparr>"
    and w: "world_ok p' (e_adm e) t'" and g: "pool_geom p' = pool_geom (e_pool e)"
    and len: "\<forall>j<n_slots (e_pool e). j \<noteq> k \<longrightarrow> slot_len p' j = slot_len (e_pool e) j"
    and swap: "sm_ok swap'" "\<And>sid snap. sm_parked swap' sid = Some snap \<Longrightarrow>
        sm_parked (e_swap e) sid = Some snap \<or>
        sid = v \<and> snap_fits (e_pool e) (slot_dev e k) (e_stamp e) snap \<and> snap_seq_len snap \<le> length (ses_tokens s)"
  shows "engine_ok (e\<lparr>e_swap := swap', e_pool := p', e_sessions := t'\<rparr>)"
    "same_shape e (e\<lparr>e_swap := swap', e_pool := p', e_sessions := t'\<rparr>)"
    "busy_kept e (e\<lparr>e_swap := swap', e_pool := p', e_sessions := t'\<rparr>)"
proof -
  let ?e = "e\<lparr>e_swap := swap', e_pool := p', e_sessions := t'\<rparr>"
  note d = engine_okD [OF ok]
  have n: "n_slots p' = n_slots (e_pool e)" using g by (simp add: pool_geom_def)
  show sh: "same_shape e ?e" using g by (simp add: same_shape_def)
  have other: "j \<noteq> k" if "sessions (e_sessions e) sid = Some u" "ses_slot u = Some j" "sid \<noteq> v" for sid u j
    using that v table_ok_slot_inj [OF d(3)] by blast
  show b: "busy_kept e ?e"
    using ok v(3) other len by (intro busy_keptI) (auto simp: t')
  have jn: "j < n_slots (e_pool e)" if "sessions (e_sessions e) sid = Some u" "ses_slot u = Some j" for sid u j
    using that d(2,9) used_slots_less by (auto simp: held_slots_def)
  have "resident_lens_ok ?e"
    unfolding resident_lens_ok_def
  proof (intro allI impI)
    fix sid u j
    assume u: "sessions (e_sessions ?e) sid = Some u \<and> ses_slot u = Some j"
    then have "sid \<noteq> v" "sessions (e_sessions e) sid = Some u" using s' by (auto simp: t' split: if_splits)
    with u other jn len d(6) show "slot_len (e_pool ?e) j \<le> length (ses_tokens u)"
      by (simp add: resident_lens_ok_def)
  qed
  moreover have "parked_ok ?e"
    unfolding parked_ok_def
  proof (intro conjI allI impI)
    fix sid snap
    assume p: "sm_parked (e_swap ?e) sid = Some snap"
    have kn: "k < n_slots (e_pool e)" using jn [OF v(1,2)] .
    have fits: "snap_fits (e_pool e) (slot_dev e j) (e_stamp e) snap" if "j < n_slots (e_pool e)" for j
    proof (cases "sm_parked (e_swap e) sid = Some snap")
      case True
      with d(7) that show ?thesis by (auto simp: parked_ok_def)
    next
      case False
      with swap(2) p have f: "snap_fits (e_pool e) (slot_dev e k) (e_stamp e) snap" by auto
      have "unat (dn_bytes (e_stamp e)) = sum_list (map length (e_dn e ! i))" if "i < n_slots (e_pool e)" for i
        using d(4) that by (auto simp: rigs_ok_def rig_ok_def slot_dev_def)
      from this [OF kn] this [OF \<open>j < n_slots (e_pool e)\<close>] f show ?thesis
        by (simp add: snap_fits_def slot_dev_def)
    qed
    fix j
    assume "j < n_slots (e_pool ?e)"
    then show "snap_fits (e_pool ?e) (slot_dev ?e j) (e_stamp ?e) snap"
      using same_shape_fits [OF sh _ fits] d(12) n by simp
  next
    fix sid snap
    assume p: "sm_parked (e_swap ?e) sid = Some snap"
    show "sid < next_id (e_sessions ?e)"
      using swap(2) [of sid snap] p d(7) table_okD [OF d(3) v(1)] by (auto simp: parked_ok_def t')
    fix u
    assume "sessions (e_sessions ?e) sid = Some u"
    with swap(2) [of sid snap] p d(7) s' v show "ses_slot u = None" "snap_seq_len snap \<le> length (ses_tokens u)"
      by (auto simp: parked_ok_def t' split: if_splits)
  qed (use swap(1) in simp)
  ultimately show "engine_ok ?e" using ok sh b w by (intro engine_ok_kept [OF ok]) simp_all
qed

lemma captured_parkable:
  assumes ok: "engine_ok e" and k: "k < n_slots (e_pool e)" and t: "length ts < 1000000000000000000"
  shows "parkable \<lparr>stamp = e_stamp e, snap_seq_len = slot_len (e_pool e) k, snap_tokens = ts,
    payload = slot_payload (e_pool e) k (slot_dev e k), checksum = checksum_of (slot_payload (e_pool e) k (slot_dev e k))\<rparr>"
proof -
  note d = engine_okD [OF ok]
  have rig: "rig_ok (e_pool e) (slot_dev e k) (e_stamp e)"
    and b: "length (e_k e) * 2 * slab_bytes_of (e_pool e) + sum_list (map length (e_dn e ! k)) < 2305843009213693952"
    using d(4) k by (auto simp: rigs_ok_def)
  have n: "slot_len (e_pool e) k \<le> cap_tokens (e_pool e)" "slot_len (e_pool e) k < 2147483648"
    using pool_wf_len [OF d(2) k] by auto
  have "length (e_k e) * 2 * (slot_len (e_pool e) k * per_pos_bytes (e_pool e)) \<le> length (e_k e) * 2 * slab_bytes_of (e_pool e)"
    using rig_span(1) [OF rig k n(1)] by (rule mult_le_mono2)
  then have "length (slot_payload (e_pool e) k (slot_dev e k)) < 2305843009213693952"
    using length_slot_payload [OF rig k] b unfolding slot_dev_def device.select_convs by linarith
  with n t show ?thesis
    by (simp add: parkable_def snap_sizes_ok_def length_to_bytes HEADER_def)
qed

definition env_lawful :: "admit_env \<Rightarrow> bool" where
  "env_lawful env \<longleftrightarrow> memcpy_lawful (env_memcpy env) \<and>
     (\<forall>n b. length (fst (env_memset env n b)) = length b \<and>
        (snd (env_memset env n b) \<longrightarrow> fst (env_memset env n b) = replicate (length b) 0))"

text \<open>Evicting an idle resident session succeeds, frees exactly its slot and keeps its tokens.\<close>

lemma evict_ok [keeps]:
  assumes ok: "engine_ok e" and small: "tokens_small e" and env: "env_lawful env"
    and v: "sessions (e_sessions e) v = Some s" "ses_slot s = Some k" "v \<notin> set (busy_sessions e)"
  shows "\<exists>s' e'. evict env e v = Some (e', True) \<and> engine_ok e' \<and> same_shape e e' \<and> busy_kept e e' \<and>
    sessions (e_sessions e') = (sessions (e_sessions e))(v \<mapsto> s') \<and> ses_slot s' = None \<and>
    ses_tokens s' = ses_tokens s \<and> next_id (e_sessions e') = next_id (e_sessions e) \<and>
    used_slots (e_pool e') = used_slots (e_pool e) - {k} \<and> e_adm e' = e_adm e"
proof -
  note d = engine_okD [OF ok]
  have k: "k < n_slots (e_pool e)" using v d(2,9) used_slots_less by (auto simp: held_slots_def)
  have rig: "rig_ok (e_pool e) (slot_dev e k) (e_stamp e)" using d(4) k by (simp add: rigs_ok_def)
  have mc: "memcpy_lawful (env_memcpy env)" using env by (simp add: env_lawful_def)
  have dn: "list_get (e_dn e) k = Some (e_dn e ! k)" using k d(12) by simp
  from capture_slot_ok [OF rig k mc, of "ses_tokens s"] obtain r where
    c: "capture_slot (env_memcpy env) (e_pool e) k (e_k e) (e_v e) (e_dn e ! k) (ses_tokens s) (e_stamp e) = Some r"
    and snap: "\<And>x. r = Inr x \<Longrightarrow> x = \<lparr>stamp = e_stamp e, snap_seq_len = slot_len (e_pool e) k, snap_tokens = ses_tokens s,
       payload = slot_payload (e_pool e) k (slot_dev e k), checksum = checksum_of (slot_payload (e_pool e) k (slot_dev e k))\<rparr>"
    by (auto simp: slot_dev_def)
  note start = evict_def v(1,2) dn c
  obtain p1 where m1: "mark_swapped (e_pool e) (e_sessions e) v = Some (p1, (e_sessions e)\<lparr>sessions :=
        (sessions (e_sessions e))(v \<mapsto> s\<lparr>ses_slot := None, ses_residency := Swapped\<rparr>)\<rparr>)"
    "world_ok p1 (e_adm e) ((e_sessions e)\<lparr>sessions := (sessions (e_sessions e))(v \<mapsto> s\<lparr>ses_slot := None, ses_residency := Swapped\<rparr>)\<rparr>)"
    "used_slots p1 = used_slots (e_pool e) - {k}" "\<forall>j<n_slots (e_pool e). j \<noteq> k \<longrightarrow> slot_len p1 j = slot_len (e_pool e) j"
    using mark_swapped_ok [OF d(1) v(1)] v(2) by auto
  obtain p2 where m2: "mark_cold (e_pool e) (e_sessions e) v = Some (p2, (e_sessions e)\<lparr>sessions :=
        (sessions (e_sessions e))(v \<mapsto> s\<lparr>ses_slot := None, ses_residency := Cold, next_pos := 0\<rparr>)\<rparr>)"
    "world_ok p2 (e_adm e) ((e_sessions e)\<lparr>sessions := (sessions (e_sessions e))(v \<mapsto> s\<lparr>ses_slot := None, ses_residency := Cold, next_pos := 0\<rparr>)\<rparr>)"
    "used_slots p2 = used_slots (e_pool e) - {k}" "\<forall>j<n_slots (e_pool e). j \<noteq> k \<longrightarrow> slot_len p2 j = slot_len (e_pool e) j"
    using mark_cold_ok [OF d(1) v(1)] v(2) by auto
  have fin: ?thesis if "evict env e v = Some (e1, True)" "engine_ok e1" "same_shape e e1" "busy_kept e e1"
    "sessions (e_sessions e1) = (sessions (e_sessions e))(v \<mapsto> s1)" "ses_slot s1 = None" "ses_tokens s1 = ses_tokens s"
    "next_id (e_sessions e1) = next_id (e_sessions e)" "used_slots (e_pool e1) = used_slots (e_pool e) - {k}"
    "e_adm e1 = e_adm e" for e1 s1
    using that by blast
  note drop = drop_idle_ok [OF ok v]
  note g1 = session_ops_geom(3) [OF m1(1)] and g2 = session_ops_geom(4) [OF m2(1)]
  show ?thesis
  proof (cases r)
    case (Inl err)
    then have ev: "evict env e v = Some (e\<lparr>e_swap := e_swap e, e_pool := p2, e_sessions := (e_sessions e)\<lparr>sessions :=
        (sessions (e_sessions e))(v \<mapsto> s\<lparr>ses_slot := None, ses_residency := Cold, next_pos := 0\<rparr>)\<rparr>\<rparr>, True)"
      by (simp add: start e_mark_cold_def m2(1))
    show ?thesis
      by (rule fin [OF ev drop [OF _ _ refl m2(2) g2 m2(4) d(8)], of "s\<lparr>ses_slot := None, ses_residency := Cold, next_pos := 0\<rparr>"])
        (simp_all add: m2(3))
  next
    case (Inr x)
    note x = snap [OF Inr]
    obtain swap' res where pk: "park (env_io env) (e_swap e) v x = (swap', res)" by fastforce
    have "parkable x" unfolding x using small v(1) by (intro captured_parkable [OF ok k]) (auto simp: tokens_small_def)
    from park_ok [OF d(8) this pk] have sw: "sm_ok swap'"
      "sm_parked swap' = (sm_parked (e_swap e))(v := if res = Inr () then Some x else None)" by auto
    have "slot_len (e_pool e) k \<le> length (ses_tokens s)" using d(6) v by (auto simp: resident_lens_ok_def)
    with captured_fits [OF rig k, of "ses_tokens s"] have fits: "snap_fits (e_pool e) (slot_dev e k) (e_stamp e) x"
      "snap_seq_len x \<le> length (ses_tokens s)" by (simp_all add: x)
    have new: "sm_parked (e_swap e) sid = Some snap \<or> sid = v \<and> snap_fits (e_pool e) (slot_dev e k) (e_stamp e) snap \<and>
        snap_seq_len snap \<le> length (ses_tokens s)" if "sm_parked swap' sid = Some snap" for sid snap
      using that sw(2) fits by (auto split: if_splits)
    show ?thesis
    proof (cases res)
      case (Inr u)
      then have ev: "evict env e v = Some (e\<lparr>e_swap := swap', e_pool := p1, e_sessions := (e_sessions e)\<lparr>sessions :=
          (sessions (e_sessions e))(v \<mapsto> s\<lparr>ses_slot := None, ses_residency := Swapped\<rparr>)\<rparr>\<rparr>, True)"
        using \<open>r = Inr x\<close> by (simp add: start pk e_mark_swapped_def m1(1))
      show ?thesis
        by (rule fin [OF ev drop [OF _ _ refl m1(2) g1 m1(4) sw(1) new], of "s\<lparr>ses_slot := None, ses_residency := Swapped\<rparr>"])
          (simp_all add: m1(3))
    next
      case (Inl err)
      then have ev: "evict env e v = Some (e\<lparr>e_swap := swap', e_pool := p2, e_sessions := (e_sessions e)\<lparr>sessions :=
          (sessions (e_sessions e))(v \<mapsto> s\<lparr>ses_slot := None, ses_residency := Cold, next_pos := 0\<rparr>)\<rparr>\<rparr>, True)"
        using \<open>r = Inr x\<close> by (simp add: start pk e_mark_cold_def m2(1))
      show ?thesis
        by (rule fin [OF ev drop [OF _ _ refl m2(2) g2 m2(4) sw(1) new], of "s\<lparr>ses_slot := None, ses_residency := Cold, next_pos := 0\<rparr>"])
          (simp_all add: m2(3))
    qed
  qed
qed

section \<open>Bringing a session back\<close>

text \<open>Changing one session that holds no slot, and giving it a fresh slot or none.\<close>

lemma slotless_change_ok:
  assumes ok: "engine_ok e" and x: "sessions (e_sessions e) x = Some s" "ses_slot s = None"
    and sh: "same_shape e e'" and same: "e_slots e' = e_slots e" "e_work e' = e_work e"
    and w: "world_ok (e_pool e') (e_adm e') (e_sessions e')"
    and t': "sessions (e_sessions e') = (sessions (e_sessions e))(x \<mapsto> s')" "next_id (e_sessions e') = next_id (e_sessions e)"
    and s': "ses_tokens s' = ses_tokens s"
      "\<And>t. ses_slot s' = Some t \<Longrightarrow> t \<notin> used_slots (e_pool e) \<and> slot_len (e_pool e') t \<le> length (ses_tokens s)"
    and len: "\<forall>j\<in>used_slots (e_pool e). slot_len (e_pool e') j = slot_len (e_pool e) j"
    and swap: "sm_ok (e_swap e')" "sm_parked (e_swap e') = (sm_parked (e_swap e))(x := None)"
  shows "engine_ok e' \<and> busy_kept e e'"
proof -
  note d = engine_okD [OF ok]
  have used: "j \<in> used_slots (e_pool e)" if "sessions (e_sessions e) sid = Some u" "ses_slot u = Some j" for sid u j
    using that d(9) by (auto simp: held_slots_def)
  have b: "busy_kept e e'"
  proof (rule busy_keptI [OF ok same])
    fix sid
    assume "sid \<in> set (busy_sessions e)"
    with busy_resident [OF ok] x have "sid \<noteq> x" by fastforce
    then show "sessions (e_sessions e') sid = sessions (e_sessions e) sid" by (simp add: t'(1))
  qed (use used len in blast)
  have "resident_lens_ok e'"
    unfolding resident_lens_ok_def
  proof (intro allI impI)
    fix sid u j
    assume u: "sessions (e_sessions e') sid = Some u \<and> ses_slot u = Some j"
    show "slot_len (e_pool e') j \<le> length (ses_tokens u)"
    proof (cases "sid = x")
      case True
      with u t'(1) have "u = s'" by simp
      with u s' show ?thesis by auto
    next
      case False
      with u t'(1) have "sessions (e_sessions e) sid = Some u" by simp
      with u used len d(6) show ?thesis by (auto simp: resident_lens_ok_def)
    qed
  qed
  moreover have "parked_ok e'"
    unfolding parked_ok_def
  proof (intro conjI allI impI)
    fix sid snap
    assume p: "sm_parked (e_swap e') sid = Some snap"
    then have p0: "sm_parked (e_swap e) sid = Some snap" "sid \<noteq> x" using swap(2) by (auto split: if_splits)
    with d(7) t' show "sid < next_id (e_sessions e')" by (auto simp: parked_ok_def)
    { fix j
      assume "j < n_slots (e_pool e')"
      then have j: "j < n_slots (e_pool e)" "j < length (e_dn e)" using same_shape_n [OF sh] d(12) by auto
      with p0 d(7) have "snap_fits (e_pool e) (slot_dev e j) (e_stamp e) snap" by (auto simp: parked_ok_def)
      with same_shape_fits [OF sh j(2)] show "snap_fits (e_pool e') (slot_dev e' j) (e_stamp e') snap" by blast }
    fix u
    assume "sessions (e_sessions e') sid = Some u"
    with p0 d(7) t' show "ses_slot u = None" "snap_seq_len snap \<le> length (ses_tokens u)"
      by (auto simp: parked_ok_def)
  qed (rule swap(1))
  ultimately show ?thesis using engine_ok_kept [OF ok sh b w] b by blast
qed

lemma acquire_or_evict_ok [keeps]:
  assumes ok: "engine_ok e" and small: "tokens_small e" and env: "env_lawful env"
    and x: "sessions (e_sessions e) x = Some s" "ses_slot s = None"
  shows "\<exists>e1 r e0. acquire_or_evict env e x = Some (e1, r) \<and> engine_ok e0 \<and> same_shape e e0 \<and> busy_kept e e0 \<and>
    sessions (e_sessions e0) x = Some s \<and> tokens_small e0 \<and>
    (case r of
       None \<Rightarrow> e1 = e0 \<and> e0 = e \<and> (\<forall>j u. sessions (e_sessions e) j = Some u \<and> ses_slot u \<noteq> None \<longrightarrow> j \<in> set (busy_sessions e))
     | Some t \<Rightarrow> pool_acquire (e_pool e0) = Some (e_pool e1, Some t) \<and> e1 = e0\<lparr>e_pool := e_pool e1\<rparr>)"
proof -
  note d = engine_okD [OF ok]
  obtain p r where a: "pool_acquire (e_pool e) = Some (p, r)"
    using sp.acq_full [OF d(2)] sp.acq_free [OF d(2)] by fastforce
  show ?thesis
  proof (cases r)
    case (Some t)
    with a ok x small show ?thesis
      by (intro exI [of _ "e\<lparr>e_pool := p\<rparr>"] exI [of _ "Some t"] exI [of _ e])
        (simp add: acquire_or_evict_def e_acquire_def)
  next
    case None
    with a have full: "p = e_pool e" "used_slots (e_pool e) = {..<n_slots (e_pool e)}" using sp.acq_NoneD [OF d(2)] by auto
    show ?thesis
    proof (cases "lru_idle_victim (e_sessions e) (busy_sessions e)")
      case None
      then have "\<forall>j u. sessions (e_sessions e) j = Some u \<and> ses_slot u \<noteq> None \<longrightarrow> j \<in> set (busy_sessions e)"
        unfolding lru_idle_victim_None [OF d(3)] evictable_def prod.case by blast
      with None a \<open>r = None\<close> full(1) ok x small show ?thesis
        by (intro exI [of _ e] exI [of _ None]) (simp add: acquire_or_evict_def e_acquire_def)
    next
      case (Some v)
      then obtain u k where v: "sessions (e_sessions e) v = Some u" "ses_slot u = Some k" "v \<notin> set (busy_sessions e)"
        by (auto simp: lru_idle_victim_iff [OF d(3)] evictable_def)
      then have vx: "v \<noteq> x" using x by auto
      from evict_ok [OF ok small env v] obtain u' e' where
        ev: "evict env e v = Some (e', True)" "engine_ok e'" "same_shape e e'" "busy_kept e e'"
          "sessions (e_sessions e') = (sessions (e_sessions e))(v \<mapsto> u')" "used_slots (e_pool e') = used_slots (e_pool e) - {k}"
          "ses_tokens u' = ses_tokens u"
        by blast
      have "tokens_small e'" using small ev(5,7) v(1) by (auto simp: tokens_small_def)
      have k: "k \<in> used_slots (e_pool e)" using v(1,2) d(9) by (auto simp: held_slots_def)
      have "used_slots (e_pool e') \<noteq> {..<n_slots (e_pool e')}"
        using ev(6) k full(2) same_shape_n [OF ev(3)] by auto
      from sp.acq_free [OF engine_okD(2) [OF ev(2)] this] obtain q t where
        "pool_acquire (e_pool e') = Some (q, Some t)" by blast
      with a \<open>r = None\<close> full(1) Some vx ev x \<open>tokens_small e'\<close> show ?thesis
        by (intro exI [of _ "e'\<lparr>e_pool := q\<rparr>"] exI [of _ "Some t"] exI [of _ e'])
          (simp add: acquire_or_evict_def e_acquire_def)
    qed
  qed
qed

text \<open>Restore into a slot that was just acquired for it, or give the slot back.\<close>

lemma restore_ok [keeps]:
  assumes ok: "engine_ok e" and env: "env_lawful env"
    and x: "sessions (e_sessions e) x = Some s" "ses_slot s = None"
    and acq: "pool_acquire (e_pool e) = Some (p1, Some t)"
  shows "\<exists>e2 good. restore env (e\<lparr>e_pool := p1\<rparr>) x t = Some (e2, good) \<and>
    (good \<longrightarrow> engine_ok e2 \<and> same_shape e e2 \<and> busy_kept e e2 \<and>
       (\<exists>s2. sessions (e_sessions e2) = (sessions (e_sessions e))(x \<mapsto> s2) \<and> ses_slot s2 = Some t \<and>
          ses_tokens s2 = ses_tokens s)) \<and>
    (\<not> good \<longrightarrow> (\<exists>p3. pool_release (e_pool e2) t = Some p3 \<and> engine_ok (e2\<lparr>e_pool := p3\<rparr>) \<and>
       same_shape e (e2\<lparr>e_pool := p3\<rparr>) \<and> busy_kept e (e2\<lparr>e_pool := p3\<rparr>))) \<and>
    (tokens_small e \<longrightarrow> tokens_small e2)"
proof -
  note d = engine_okD [OF ok]
  from sp.acq_SomeD [OF d(2) acq] have q: "pool_wf p1" "t < n_slots (e_pool e)" "t \<notin> used_slots (e_pool e)"
    "used_slots p1 = insert t (used_slots (e_pool e))" "n_slots p1 = n_slots (e_pool e)"
    "\<forall>j<n_slots (e_pool e). slot_len p1 j = slot_len (e_pool e) j" by auto
  have g1: "pool_geom p1 = pool_geom (e_pool e)" using acq by (rule pool_geom_ops)
  have usedn: "\<forall>j\<in>used_slots (e_pool e). j < n_slots (e_pool e) \<and> j \<noteq> t" using used_slots_less [OF d(2)] q(3) by auto
  from unpark_ok [OF d(8), of "env_io env" x] obtain swap' r where
    u: "unpark (env_io env) (e_swap e) x = Some (swap', r)" "sm_ok swap'" "sm_parked swap' = (sm_parked (e_swap e))(x := None)"
      "\<And>snap. r = Inr snap \<Longrightarrow> sm_parked (e_swap e) x = Some snap" by blast
  let ?cold = "s\<lparr>ses_slot := None, ses_residency := Cold, next_pos := 0\<rparr>"
  let ?tc = "(e_sessions e)\<lparr>sessions := (sessions (e_sessions e))(x \<mapsto> ?cold)\<rparr>"
  have mc: "mark_cold p1 (e_sessions e) x = Some (p1, ?tc)"
    using x by (simp add: mark_cold_def release_opt_def session_update_def)
  from sp.rel_ok [OF q(1), of t] q obtain p3 where rel: "pool_release p1 t = Some p3" "pool_wf p3"
    "used_slots p3 = used_slots (e_pool e)" "\<forall>j<n_slots (e_pool e). j \<noteq> t \<longrightarrow> slot_len p3 j = slot_len (e_pool e) j" by auto
  have g3: "pool_geom p3 = pool_geom (e_pool e)" using pool_geom_ops(2) [OF rel(1)] g1 by simp
  have wc: "world_ok p3 (e_adm e) ?tc"
    using world_ok_change [OF d(1) x(1) rel(2), of ?cold "clock (e_sessions e)"] x(2) rel(3) by simp
  have given_back: "engine_ok e3 \<and> same_shape e e3 \<and> busy_kept e e3"
    if "e3 = e\<lparr>e_swap := swap', e_k := ks, e_v := vs, e_dn := dn, e_sessions := ?tc, e_pool := p3\<rparr>"
      "map length ks = map length (e_k e)" "map length vs = map length (e_v e)" "map (map length) dn = map (map length) (e_dn e)"
    for e3 ks vs dn
  proof -
    have sh: "same_shape e e3" using that g3 by (simp add: same_shape_def)
    have "engine_ok e3 \<and> busy_kept e e3"
      using that u(2,3) wc rel(4) usedn by (intro slotless_change_ok [OF ok x sh, of ?cold]) auto
    with sh show ?thesis by simp
  qed
  have failed: ?thesis if "restore env (e\<lparr>e_pool := p1\<rparr>) x t = Some (e2, False)" "pool_release (e_pool e2) t = Some p3"
    "engine_ok (e2\<lparr>e_pool := p3\<rparr>) \<and> same_shape e (e2\<lparr>e_pool := p3\<rparr>) \<and> busy_kept e (e2\<lparr>e_pool := p3\<rparr>)"
    "e_sessions e2 = ?tc" for e2
  proof -
    have "tokens_small e \<longrightarrow> tokens_small e2" using x(1) that(4) by (auto simp: tokens_small_def)
    with that show ?thesis by blast
  qed
  show ?thesis
  proof (cases r)
    case (Inl err)
    then have ev: "restore env (e\<lparr>e_pool := p1\<rparr>) x t =
        Some (e\<lparr>e_swap := swap', e_pool := p1, e_sessions := ?tc\<rparr>, False)"
      by (simp add: restore_def u(1) e_mark_cold_def mc)
    have fine: "engine_ok (e\<lparr>e_swap := swap', e_sessions := ?tc, e_pool := p3\<rparr>) \<and>
        same_shape e (e\<lparr>e_swap := swap', e_sessions := ?tc, e_pool := p3\<rparr>) \<and>
        busy_kept e (e\<lparr>e_swap := swap', e_sessions := ?tc, e_pool := p3\<rparr>)"
      by (rule given_back [where ks = "e_k e" and vs = "e_v e" and dn = "e_dn e"]) simp_all
    show ?thesis by (rule failed [OF ev]) (use rel(1) fine in simp_all)
  next
    case (Inr snap)
    have rig0: "rig_ok (e_pool e) (slot_dev e t) (e_stamp e)" using d(4) q(2) by (simp add: rigs_ok_def)
    have rig: "rig_ok p1 (slot_dev e t) (e_stamp e)" by (rule rig_ok_geom [OF rig0 q(1) g1]) simp_all
    have pk: "snap_fits (e_pool e) (slot_dev e t) (e_stamp e) snap" "snap_seq_len snap \<le> length (ses_tokens s)"
      using d(7) u(4) [OF Inr] q(2) x by (auto simp: parked_ok_def)
    then have fits: "snap_fits p1 (slot_dev e t) (e_stamp e) snap" using g1 by (simp add: snap_fits_def pool_geom_def)
    have tn: "t < n_slots p1" using q by simp
    have mcl: "memcpy_lawful (env_memcpy env)" using env by (simp add: env_lawful_def)
    from restore_slot_total [OF rig tn mcl fits] obtain p2 dev' res where
      rs: "restore_slot (env_memcpy env) p1 t (slot_dev e t) snap (e_stamp e) = Some (p2, dev', res)"
        "map length (k_arenas dev') = map length (e_k e)" "map length (v_arenas dev') = map length (e_v e)"
        "map length (extra dev') = map length (e_dn e ! t)" "res \<noteq> Inr () \<longrightarrow> p2 = p1"
        "res = Inr () \<longrightarrow> pool_set_seq_len p1 t (snap_seq_len snap) = Some (Inr p2)"
      by (auto simp: slot_dev_def)
    have dn: "list_get (e_dn e) t = Some (e_dn e ! t)" using q(2) d(12) by simp
    have dnm: "map (map length) ((e_dn e)[t := extra dev']) = map (map length) (e_dn e)"
      using rs(4) q(2) d(12) by (simp add: map_update list_update_same_conv)
    note start = restore_def u(1) Inr dn rs(1) [unfolded slot_dev_def]
    show ?thesis
    proof (cases res)
      case (Inl err)
      then have ev: "restore env (e\<lparr>e_pool := p1\<rparr>) x t = Some (e\<lparr>e_swap := swap', e_pool := p1, e_k := k_arenas dev',
          e_v := v_arenas dev', e_dn := (e_dn e)[t := extra dev'], e_sessions := ?tc\<rparr>, False)"
        using rs(5) by (simp add: start e_mark_cold_def mc)
      have fine: "engine_ok (e\<lparr>e_swap := swap', e_k := k_arenas dev', e_v := v_arenas dev',
            e_dn := (e_dn e)[t := extra dev'], e_sessions := ?tc, e_pool := p3\<rparr>) \<and>
          same_shape e (e\<lparr>e_swap := swap', e_k := k_arenas dev', e_v := v_arenas dev',
            e_dn := (e_dn e)[t := extra dev'], e_sessions := ?tc, e_pool := p3\<rparr>) \<and>
          busy_kept e (e\<lparr>e_swap := swap', e_k := k_arenas dev', e_v := v_arenas dev',
            e_dn := (e_dn e)[t := extra dev'], e_sessions := ?tc, e_pool := p3\<rparr>)"
        by (rule given_back [OF refl rs(2,3) dnm])
      show ?thesis by (rule failed [OF ev]) (use rel(1) fine in simp_all)
    next
      case (Inr v)
      then have "res = Inr ()" by simp
      with rs(6) have set: "pool_set_seq_len p1 t (snap_seq_len snap) = Some (Inr p2)" by simp
      have "snap_seq_len snap \<le> cap_tokens p1" using fits by (simp add: snap_fits_def)
      from sp.setl_ok [OF q(1) _ this, of t] q set have p2: "pool_wf p2" "used_slots p2 = insert t (used_slots (e_pool e))"
        "slot_len p2 t = snap_seq_len snap" "\<forall>j<n_slots (e_pool e). j \<noteq> t \<longrightarrow> slot_len p2 j = slot_len (e_pool e) j" by auto
      let ?t2 = "mark_resident (e_sessions e) x t (snap_seq_len snap)"
      let ?s2 = "s\<lparr>ses_slot := Some t, ses_residency := Resident, next_pos := snap_seq_len snap,
        last_used := clock (e_sessions e) + 1\<rparr>"
      note mr = mark_resident_ok [OF d(1) x p2(1,2) q(3), of "snap_seq_len snap"]
      have t2: "sessions ?t2 = (sessions (e_sessions e))(x \<mapsto> ?s2)" "next_id ?t2 = next_id (e_sessions e)"
        unfolding conjunct1 [OF mr] by simp_all
      let ?e2 = "e\<lparr>e_swap := swap', e_pool := p2, e_k := k_arenas dev', e_v := v_arenas dev',
        e_dn := (e_dn e)[t := extra dev'], e_sessions := ?t2\<rparr>"
      have sh: "same_shape e ?e2" using rs(2,3) dnm pool_geom_ops(3) [OF set] g1 by (simp add: same_shape_def)
      have "engine_ok ?e2 \<and> busy_kept e ?e2"
        using u(2,3) conjunct2 [OF mr] t2 p2 usedn q(3) pk(2)
        by (intro slotless_change_ok [OF ok x sh, of ?s2]) auto
      moreover have "restore env (e\<lparr>e_pool := p1\<rparr>) x t = Some (?e2, True)"
        using \<open>res = Inr ()\<close> by (simp add: start)
      moreover have "tokens_small e \<longrightarrow> tokens_small ?e2" using x(1) t2(1) by (auto simp: tokens_small_def)
      ultimately show ?thesis using sh t2(1)
        by (intro exI [of _ ?e2] exI [of _ True]) (auto intro: exI [of _ ?s2])
    qed
  qed
qed

lemma residentize_ok [keeps]:
  assumes ok: "engine_ok e" and small: "tokens_small e" and env: "env_lawful env"
    and x: "sessions (e_sessions e) x = Some s"
  shows "\<exists>e1 r. residentize env e x = Some (e1, r) \<and> engine_ok e1 \<and> same_shape e e1 \<and> busy_kept e e1 \<and>
    tokens_small e1 \<and>
    (\<forall>k. r = Some k \<longrightarrow> (\<exists>s1. sessions (e_sessions e1) x = Some s1 \<and> ses_slot s1 = Some k \<and>
       ses_tokens s1 = ses_tokens s))"
proof (cases "ses_slot s")
  case (Some k)
  with x ok small show ?thesis by (simp add: residentize_def)
next
  case None
  from acquire_or_evict_ok [OF ok small env x None] obtain e1 r e0 where
    a: "acquire_or_evict env e x = Some (e1, r)" "engine_ok e0" "same_shape e e0" "busy_kept e e0"
      "sessions (e_sessions e0) x = Some s" "tokens_small e0"
    and r: "case r of None \<Rightarrow> e1 = e0 \<and> e0 = e \<and> (\<forall>j u. sessions (e_sessions e) j = Some u \<and> ses_slot u \<noteq> None \<longrightarrow>
          j \<in> set (busy_sessions e))
      | Some t \<Rightarrow> pool_acquire (e_pool e0) = Some (e_pool e1, Some t) \<and> e1 = e0\<lparr>e_pool := e_pool e1\<rparr>" by blast
  note start = residentize_def x None a(1)
  show ?thesis
  proof (cases r)
    case None
    with r a small show ?thesis by (simp add: start)
  next
    case (Some t)
    with r have acq: "pool_acquire (e_pool e0) = Some (e_pool e1, Some t)" and e1: "e0\<lparr>e_pool := e_pool e1\<rparr> = e1" by auto
    from restore_ok [OF a(2) env a(5) None acq] obtain e2 good where
      rs: "restore env e1 x t = Some (e2, good)"
        "good \<longrightarrow> engine_ok e2 \<and> same_shape e0 e2 \<and> busy_kept e0 e2 \<and>
          (\<exists>s2. sessions (e_sessions e2) = (sessions (e_sessions e0))(x \<mapsto> s2) \<and> ses_slot s2 = Some t \<and> ses_tokens s2 = ses_tokens s)"
        "\<not> good \<longrightarrow> (\<exists>p3. pool_release (e_pool e2) t = Some p3 \<and> engine_ok (e2\<lparr>e_pool := p3\<rparr>) \<and>
          same_shape e0 (e2\<lparr>e_pool := p3\<rparr>) \<and> busy_kept e0 (e2\<lparr>e_pool := p3\<rparr>))"
        "tokens_small e2"
      using a(6) unfolding e1 by blast
    show ?thesis
    proof (cases good)
      case True
      with rs(2) obtain s2 where g: "engine_ok e2" "same_shape e0 e2" "busy_kept e0 e2"
        "sessions (e_sessions e2) = (sessions (e_sessions e0))(x \<mapsto> s2)" "ses_slot s2 = Some t" "ses_tokens s2 = ses_tokens s" by blast
      with True Some rs(1,4) same_shape_trans [OF a(3)] busy_kept_trans [OF a(4)] show ?thesis
        by (simp add: start tokens_small_def)
    next
      case False
      with rs(3) obtain p3 where g: "pool_release (e_pool e2) t = Some p3" "engine_ok (e2\<lparr>e_pool := p3\<rparr>)"
        "same_shape e0 (e2\<lparr>e_pool := p3\<rparr>)" "busy_kept e0 (e2\<lparr>e_pool := p3\<rparr>)" by blast
      with False Some rs(1,4) same_shape_trans [OF a(3)] busy_kept_trans [OF a(4)] show ?thesis
        by (simp add: start tokens_small_def)
    qed
  qed
qed

section \<open>Starting a turn\<close>

text \<open>Editing an idle session that holds slot \<open>k\<close>, and moving the length of that slot.\<close>

lemma idle_edit_ok:
  assumes ok: "engine_ok e" and x: "sessions (e_sessions e) x = Some s" "ses_slot s = Some k" "x \<notin> set (busy_sessions e)"
    and s': "ses_slot s' = Some k" "slot_len p' k \<le> length (ses_tokens s')"
    and t': "sessions t' = (sessions (e_sessions e))(x \<mapsto> s')" "next_id t' = next_id (e_sessions e)"
    and w: "world_ok p' (e_adm e) t'" and g: "pool_geom p' = pool_geom (e_pool e)"
    and len: "\<forall>j<n_slots (e_pool e). j \<noteq> k \<longrightarrow> slot_len p' j = slot_len (e_pool e) j"
  shows "engine_ok (e\<lparr>e_pool := p', e_sessions := t'\<rparr>)" "same_shape e (e\<lparr>e_pool := p', e_sessions := t'\<rparr>)"
    "busy_kept e (e\<lparr>e_pool := p', e_sessions := t'\<rparr>)"
proof -
  let ?e = "e\<lparr>e_pool := p', e_sessions := t'\<rparr>"
  note d = engine_okD [OF ok]
  show sh: "same_shape e ?e" using g by (simp add: same_shape_def)
  have other: "j \<noteq> k" if "sessions (e_sessions e) sid = Some u" "ses_slot u = Some j" "sid \<noteq> x" for sid u j
    using that x table_ok_slot_inj [OF d(3)] by blast
  have jn: "j < n_slots (e_pool e)" if "sessions (e_sessions e) sid = Some u" "ses_slot u = Some j" for sid u j
    using that d(2,9) used_slots_less by (auto simp: held_slots_def)
  show b: "busy_kept e ?e"
    using ok x(3) other len by (intro busy_keptI) (auto simp: t')
  have "resident_lens_ok ?e"
    unfolding resident_lens_ok_def
  proof (intro allI impI)
    fix sid u j
    assume u: "sessions (e_sessions ?e) sid = Some u \<and> ses_slot u = Some j"
    show "slot_len (e_pool ?e) j \<le> length (ses_tokens u)"
    proof (cases "sid = x")
      case True
      with u t'(1) s' show ?thesis by auto
    next
      case False
      with u t'(1) have "sessions (e_sessions e) sid = Some u" by simp
      with u False other jn len d(6) show ?thesis by (simp add: resident_lens_ok_def)
    qed
  qed
  moreover have "parked_ok ?e"
    unfolding parked_ok_def
  proof (intro conjI allI impI)
    fix sid snap
    assume "sm_parked (e_swap ?e) sid = Some snap"
    then have p: "sm_parked (e_swap e) sid = Some snap" by simp
    with d(7) t'(2) show "sid < next_id (e_sessions ?e)" by (auto simp: parked_ok_def)
    { fix j
      assume "j < n_slots (e_pool ?e)"
      then have j: "j < n_slots (e_pool e)" "j < length (e_dn e)" using same_shape_n [OF sh] d(12) by auto
      with p d(7) have "snap_fits (e_pool e) (slot_dev e j) (e_stamp e) snap" by (auto simp: parked_ok_def)
      with same_shape_fits [OF sh j(2)] show "snap_fits (e_pool ?e) (slot_dev ?e j) (e_stamp ?e) snap" by blast }
    have "sid \<noteq> x" using p d(7) x(1,2) by (auto simp: parked_ok_def)
    fix u
    assume "sessions (e_sessions ?e) sid = Some u"
    with \<open>sid \<noteq> x\<close> p d(7) t'(1) show "ses_slot u = None" "snap_seq_len snap \<le> length (ses_tokens u)"
      by (auto simp: parked_ok_def)
  qed (use d(8) in simp)
  ultimately show "engine_ok ?e" using engine_ok_kept [OF ok sh b] w by simp
qed

lemma turn_ok [keeps]:
  assumes ok: "engine_ok e" and x: "sessions (e_sessions e) x = Some s" "ses_slot s = Some k" "x \<notin> set (busy_sessions e)"
  shows "\<exists>e2 plan. e_begin_turn e x prompt = Some (e2, Inr plan) \<and>
    plan = plan_turn (ses_tokens s) (slot_len (e_pool e) k) prompt \<and>
    engine_ok (set_turn e2 x prompt cv) \<and> same_shape e (set_turn e2 x prompt cv) \<and> busy_kept e (set_turn e2 x prompt cv) \<and>
    (\<exists>s3. sessions (e_sessions (set_turn e2 x prompt cv)) = (sessions (e_sessions e))(x \<mapsto> s3) \<and> ses_slot s3 = Some k \<and>
       ses_tokens s3 = prompt) \<and>
    slot_len (e_pool (set_turn e2 x prompt cv)) k = reused plan \<and> reused plan \<le> length prompt \<and>
    reused plan \<le> slot_len (e_pool e) k"
proof -
  note d = engine_okD [OF ok]
  let ?plan = "plan_turn (ses_tokens s) (slot_len (e_pool e) k) prompt"
  let ?s1 = "s\<lparr>ses_tokens := take (reused ?plan) (ses_tokens s), next_pos := reused ?plan\<rparr>"
  let ?t1 = "(e_sessions e)\<lparr>sessions := (sessions (e_sessions e))(x \<mapsto> ?s1)\<rparr>"
  let ?s3 = "?s1\<lparr>ses_tokens := prompt, convo := cv\<rparr>"
  let ?t3 = "(e_sessions e)\<lparr>sessions := (sessions (e_sessions e))(x \<mapsto> ?s3)\<rparr>"
  from begin_turn_ok [OF d(1) x(1,2), of prompt] obtain p' where
    b: "begin_turn (e_pool e) (e_sessions e) x prompt = Some (p', ?t1, Inr ?plan)" "world_ok p' (e_adm e) ?t1"
      "slot_len p' k = reused ?plan" "\<forall>j<n_slots (e_pool e). j \<noteq> k \<longrightarrow> slot_len p' j = slot_len (e_pool e) j" by blast
  have le: "reused ?plan \<le> length prompt" "reused ?plan \<le> slot_len (e_pool e) k"
    using plan_turn_prefix(2) [of "ses_tokens s" "slot_len (e_pool e) k" prompt] by (simp_all add: plan_turn_def Let_def)
  have t3: "session_update ?t1 x (\<lambda>s. s\<lparr>ses_tokens := prompt, convo := cv\<rparr>) = ?t3" by (simp add: session_update_def)
  have "world_ok p' (e_adm e) ?t3"
    using session_update_ok [OF b(2), of "\<lambda>s. s\<lparr>ses_tokens := prompt, convo := cv\<rparr>" x] by (simp add: t3)
  note i = idle_edit_ok [OF ok x, of ?s3 p' ?t3, OF _ _ _ _ this session_ops_geom(5) [OF b(1)] b(4)]
  have st: "set_turn (e\<lparr>e_pool := p', e_sessions := ?t1\<rparr>) x prompt cv = e\<lparr>e_pool := p', e_sessions := ?t3\<rparr>"
    by (simp add: set_turn_def t3)
  have "e_begin_turn e x prompt = Some (e\<lparr>e_pool := p', e_sessions := ?t1\<rparr>, Inr ?plan)"
    by (simp add: e_begin_turn_def b(1))
  moreover have "engine_ok (e\<lparr>e_pool := p', e_sessions := ?t3\<rparr>) \<and> same_shape e (e\<lparr>e_pool := p', e_sessions := ?t3\<rparr>) \<and>
      busy_kept e (e\<lparr>e_pool := p', e_sessions := ?t3\<rparr>)"
    using i b(3) le x(2) by simp
  moreover have "sessions ?t3 = (sessions (e_sessions e))(x \<mapsto> ?s3) \<and> ses_slot ?s3 = Some k \<and> ses_tokens ?s3 = prompt"
    using x(2) by simp
  ultimately show ?thesis
    using b(3) le by (intro exI [of _ "e\<lparr>e_pool := p', e_sessions := ?t1\<rparr>"] exI [of _ ?plan]) (auto simp: st intro: exI [of _ ?s3])
qed

text \<open>An idle session's slot carries no request, so launching into it disturbs nobody.\<close>

lemma idle_slot_empty:
  assumes ok: "engine_ok e" and x: "sessions (e_sessions e) x = Some s" "ses_slot s = Some k" "x \<notin> set (busy_sessions e)"
  shows "k < n_slots (e_pool e)" "e_slots e ! k = None"
proof -
  note d = engine_okD [OF ok]
  show k: "k < n_slots (e_pool e)" using x d(2,9) used_slots_less by (auto simp: held_slots_def)
  show "e_slots e ! k = None"
  proof (rule ccontr)
    assume "e_slots e ! k \<noteq> None"
    then obtain f where f: "e_slots e ! k = Some f" by blast
    have "slot_coherent e k" using ok k by (simp add: engine_ok_def)
    with f obtain u where "sessions (e_sessions e) (fl_session f) = Some u" "ses_slot u = Some k"
      by (auto simp: slot_coherent_def)
    then have "fl_session f = x" using x table_ok_slot_inj [OF d(3)] by blast
    with busy_mem [OF _ f] k d(10) x(3) show False by simp
  qed
qed

lemma launch_engine_ok [keeps]:
  assumes ok: "engine_ok e" and x: "sessions (e_sessions e) x = Some s" "ses_slot s = Some k" "x \<notin> set (busy_sessions e)"
    and n: "slot_len (e_pool e) k = n" "ses_tokens s = toks" "n \<le> length toks"
  shows "\<exists>e'. launch e k x req toks n = Some e' \<and> engine_ok e' \<and> same_shape e e' \<and> e_sessions e' = e_sessions e \<and>
    e_pool e' = e_pool e \<and> e_adm e' = e_adm e \<and>
    e_slots e' = (e_slots e)[k := Some \<lparr>fl_session = x, fl_reply = reply req, produced = 0, max_tokens = max (req_max_tokens req) 1\<rparr>] \<and>
    (\<forall>j<n_slots (e_pool e). j \<noteq> k \<longrightarrow> e_work e' ! j = e_work e ! j) \<and>
    remaining_prompt (e_work e' ! k) = drop n toks \<and> pw_next_pos (e_work e' ! k) = n"
proof -
  note d = engine_okD [OF ok] and i = idle_slot_empty [OF ok x]
  let ?f = "\<lparr>fl_session = x, fl_reply = reply req, produced = 0, max_tokens = max (req_max_tokens req) 1\<rparr>"
  let ?w = "(e_work e ! k)\<lparr>remaining_prompt := drop n toks, pw_next_pos := n, decoding := False\<rparr>"
  let ?e = "e\<lparr>e_work := (e_work e)[k := ?w], e_slots := (e_slots e)[k := Some ?f]\<rparr>"
  have l: "launch e k x req toks n = Some ?e"
    using i(1) d(10,11) n(3) by (simp add: launch_def)
  have sh: "same_shape e ?e" by (simp add: same_shape_def)
  have "slot_coherent ?e j" if j: "j < n_slots (e_pool e)" for j
  proof (cases "j = k")
    case True
    with i(1) d(10,11) x n show ?thesis by (simp add: slot_coherent_def)
  next
    case False
    have "slot_coherent e j" using ok j by (simp add: engine_ok_def)
    with False show ?thesis by (simp add: slot_coherent_def cong: option.case_cong)
  qed
  moreover have "frame_ok ?e" using d(5) i(1) d(11) by (auto simp: frame_ok_def nth_list_update)
  moreover have "rigs_ok ?e" using rigs_ok_shape [OF d(4) sh] d(2) by simp
  moreover have "resident_lens_ok ?e" using d(6) by (simp add: resident_lens_ok_def)
  moreover have "parked_ok ?e" using d(7) by (simp add: parked_ok_def slot_dev_def)
  ultimately have "engine_ok ?e" using d(1) by (simp add: engine_ok_def core_ok_def)
  then show ?thesis using l sh i(1) d(11) by (intro exI [of _ ?e]) auto
qed

text \<open>A touch only moves the LRU stamp.\<close>

lemma touch_engine_ok [keeps]:
  assumes ok: "engine_ok e"
  shows "engine_ok (e\<lparr>e_sessions := touch (e_sessions e) x\<rparr>)" "same_shape e (e\<lparr>e_sessions := touch (e_sessions e) x\<rparr>)"
    "busy_kept e (e\<lparr>e_sessions := touch (e_sessions e) x\<rparr>)"
proof -
  let ?e = "e\<lparr>e_sessions := touch (e_sessions e) x\<rparr>"
  note d = engine_okD [OF ok]
  show sh: "same_shape e ?e" by (simp add: same_shape_def)
  show b: "busy_kept e ?e" by (auto simp: busy_kept_def touch_sessions)
  have "resident_lens_ok ?e" using d(6) by (auto simp: resident_lens_ok_def touch_sessions split: if_splits)
  moreover have "parked_ok ?e" using d(7) by (auto simp: parked_ok_def slot_dev_def touch_sessions split: if_splits)
  ultimately show "engine_ok ?e" using engine_ok_kept [OF ok sh b] touch_ok [OF d(1)] by simp
qed

section \<open>Opening\<close>

lemma open_keeps:
  assumes ok: "engine_ok e"
  shows "\<exists>e1 r. e_open e = Some (e1, r) \<and> engine_ok e1 \<and> same_shape e e1 \<and> busy_kept e e1 \<and>
    (case r of
       Inl err \<Rightarrow> e_pool e1 = e_pool e \<and> e_sessions e1 = e_sessions e \<and> e_dn e1 = e_dn e
     | Inr sid \<Rightarrow> sid = next_id (e_sessions e) \<and> sid \<notin> set (busy_sessions e) \<and>
         (\<exists>k s. k < n_slots (e_pool e) \<and> k \<notin> used_slots (e_pool e) \<and> slot_len (e_pool e1) k = 0 \<and>
            sessions (e_sessions e1) = (sessions (e_sessions e))(sid \<mapsto> s) \<and> ses_slot s = Some k \<and> ses_tokens s = []))"
proof -
  note d = engine_okD [OF ok]
  have "real_need (e_adm e) (e_cap e) \<le> u64_max" using d(5) by (simp add: frame_ok_def real_need_def)
  from session_open_ok [OF d(1) this] obtain p' a' t' r where
    o: "session_open (e_pool e) (e_adm e) (e_sessions e) (e_cap e) = Some (p', a', t', r)" "world_ok p' a' t'"
      "\<forall>j<n_slots (e_pool e). slot_len p' j = slot_len (e_pool e) j"
    and c: "case r of
       Inl err \<Rightarrow> p' = e_pool e \<and> t' = e_sessions e \<and> used_bytes a' = used_bytes (e_adm e) \<and>
         (err = PoolFull \<longrightarrow> used_slots (e_pool e) = {..<n_slots (e_pool e)})
     | Inr sid \<Rightarrow> sid = next_id (e_sessions e) \<and> sessions (e_sessions e) sid = None \<and>
         (\<exists>k. k \<notin> used_slots (e_pool e) \<and> used_slots p' = insert k (used_slots (e_pool e)) \<and>
            k < n_slots (e_pool e) \<and> slot_len p' k = 0 \<and>
            t' = (e_sessions e)\<lparr>sessions := (sessions (e_sessions e))(sid \<mapsto>
                   \<lparr>ses_slot = Some k, granted_ctx = e_cap e, ses_tokens = [], next_pos = 0,
                    ses_residency = Resident, convo = [], last_used = clock (e_sessions e) + 1\<rparr>),
                  next_id := sid + 1, clock := clock (e_sessions e) + 1\<rparr> \<and>
            admitted a' = admitted (e_adm e) @ [e_cap e])" by blast
  let ?e = "e\<lparr>e_pool := p', e_adm := a', e_sessions := t'\<rparr>"
  have eo: "e_open e = Some (?e, r)" by (simp add: e_open_def o(1))
  have sh: "same_shape e ?e" using session_ops_geom(1) [OF o(1)] by (simp add: same_shape_def)
  have jn: "j < n_slots (e_pool e)" if "sessions (e_sessions e) sid = Some u" "ses_slot u = Some j" for sid u j
    using that d(2,9) used_slots_less by (auto simp: held_slots_def)
  have fits: "snap_fits (e_pool ?e) (slot_dev ?e j) (e_stamp ?e) snap"
    if "sm_parked (e_swap e) sid = Some snap" "j < n_slots (e_pool ?e)" for sid snap j
  proof -
    have j: "j < n_slots (e_pool e)" "j < length (e_dn e)" using that(2) same_shape_n [OF sh] d(12) by auto
    with that(1) d(7) have "snap_fits (e_pool e) (slot_dev e j) (e_stamp e) snap" by (auto simp: parked_ok_def)
    with same_shape_fits [OF sh j(2)] show ?thesis by blast
  qed
  show ?thesis
  proof (cases r)
    case (Inl err)
    with c have eq: "p' = e_pool e" "t' = e_sessions e" by auto
    have b: "busy_kept e ?e" by (simp add: busy_kept_def eq)
    have "resident_lens_ok ?e" using d(6) by (simp add: resident_lens_ok_def eq)
    moreover have "parked_ok ?e" using d(7) by (simp add: parked_ok_def slot_dev_def eq)
    ultimately have "engine_ok ?e" using engine_ok_kept [OF ok sh b] o(2) by simp
    with eo sh b Inl eq show ?thesis by auto
  next
    case (Inr sid)
    with c obtain k s where s: "sid = next_id (e_sessions e)" "sessions (e_sessions e) sid = None"
      "k \<notin> used_slots (e_pool e)" "k < n_slots (e_pool e)" "slot_len p' k = 0"
      "sessions t' = (sessions (e_sessions e))(sid \<mapsto> s)" "next_id t' = sid + 1" "ses_slot s = Some k" "ses_tokens s = []" by auto
    have nb: "sid \<notin> set (busy_sessions e)" using busy_resident [OF ok] s(2) by fastforce
    have b: "busy_kept e ?e" using nb o(3) by (intro busy_keptI [OF ok]) (auto simp: s(6))
    have "resident_lens_ok ?e"
      using d(6) o(3) jn s by (auto simp: resident_lens_ok_def split: if_splits)
    moreover have "parked_ok ?e"
      unfolding parked_ok_def
    proof (intro conjI allI impI)
      fix j snap
      assume p: "sm_parked (e_swap ?e) j = Some snap"
      with d(7) have j: "j < next_id (e_sessions e)" by (auto simp: parked_ok_def)
      then show "j < next_id (e_sessions ?e)" using s(1,7) by simp
      fix u
      assume "sessions (e_sessions ?e) j = Some u"
      with j s(1,6) p d(7) show "ses_slot u = None" "snap_seq_len snap \<le> length (ses_tokens u)"
        by (auto simp: parked_ok_def)
    qed (use d(8) fits in auto)
    ultimately have "engine_ok ?e" using engine_ok_kept [OF ok sh b] o(2) by simp
    then show ?thesis using eo sh b Inr s nb by (intro exI [of _ ?e] exI [of _ r]) auto
  qed
qed

lemma busy_kept_sessions: "busy_kept e e' \<Longrightarrow> busy_sessions e' = busy_sessions e"
  by (simp add: busy_kept_def busy_sessions_def)

lemma reject_fields [simp]:
  "engine_ok (reject al e c why) = engine_ok e" "same_shape e0 (reject al e c why) = same_shape e0 e"
  "busy_kept e0 (reject al e c why) = busy_kept e0 e"
  by (simp_all add: reject_def)

lemma tokens_small_same: "e_sessions e' = e_sessions e \<Longrightarrow> tokens_small e' = tokens_small e"
  by (simp add: tokens_small_def)

lemma open_or_evict_ok [keeps]:
  assumes ok: "engine_ok e" and small: "tokens_small e" and env: "env_lawful env"
  shows "\<exists>e1 r. open_or_evict env e (busy_sessions e) c = Some (e1, r) \<and> engine_ok e1 \<and> same_shape e e1 \<and> busy_kept e e1 \<and>
    (\<forall>sid. r = Some sid \<longrightarrow> sid \<notin> set (busy_sessions e) \<and>
       (\<exists>s k. sessions (e_sessions e1) sid = Some s \<and> ses_slot s = Some k \<and> ses_tokens s = [] \<and> slot_len (e_pool e1) k = 0))"
proof -
  from open_keeps [OF ok] obtain e1 r where
    o: "e_open e = Some (e1, r)" "engine_ok e1" "same_shape e e1" "busy_kept e e1"
    and c: "case r of
       Inl err \<Rightarrow> e_pool e1 = e_pool e \<and> e_sessions e1 = e_sessions e \<and> e_dn e1 = e_dn e
     | Inr sid \<Rightarrow> sid = next_id (e_sessions e) \<and> sid \<notin> set (busy_sessions e) \<and>
         (\<exists>k s. k < n_slots (e_pool e) \<and> k \<notin> used_slots (e_pool e) \<and> slot_len (e_pool e1) k = 0 \<and>
            sessions (e_sessions e1) = (sessions (e_sessions e))(sid \<mapsto> s) \<and> ses_slot s = Some k \<and> ses_tokens s = [])" by blast
  note start = open_or_evict_def o(1)
  show ?thesis
  proof (cases r)
    case (Inr sid)
    with o c show ?thesis by (auto simp: start)
  next
    case (Inl err)
    with c have same: "e_sessions e1 = e_sessions e" by simp
    have b1: "busy_sessions e1 = busy_sessions e" using o(4) by (rule busy_kept_sessions)
    show ?thesis
    proof (cases "lru_idle_victim (e_sessions e1) (busy_sessions e)")
      case None
      with Inl o show ?thesis by (simp add: start)
    next
      case (Some v)
      then obtain u k where v: "sessions (e_sessions e1) v = Some u" "ses_slot u = Some k" "v \<notin> set (busy_sessions e1)"
        by (auto simp: lru_idle_victim_iff [OF engine_okD(3) [OF o(2)]] evictable_def b1)
      have "tokens_small e1" using small tokens_small_same [OF same] by simp
      from evict_ok [OF o(2) this env v] obtain e2 where
        ev: "evict env e1 v = Some (e2, True)" "engine_ok e2" "same_shape e1 e2" "busy_kept e1 e2" by blast
      have "engine_ok (bump note_eviction e2)" using ev(2) by simp
      from open_keeps [OF this] obtain e3 r3 where
        o3: "e_open (bump note_eviction e2) = Some (e3, r3)" "engine_ok e3" "same_shape e2 e3" "busy_kept e2 e3"
        and c3: "case r3 of Inl err \<Rightarrow> True | Inr sid \<Rightarrow> sid \<notin> set (busy_sessions e2) \<and>
         (\<exists>k s. slot_len (e_pool e3) k = 0 \<and> (\<exists>m. sessions (e_sessions e3) = m(sid \<mapsto> s)) \<and> ses_slot s = Some k \<and> ses_tokens s = [])"
        by (fastforce simp: same_shape_def busy_kept_def bump_def busy_sessions_def split: sum.splits)
      have t: "same_shape e e3" "busy_kept e e3"
        using same_shape_trans [OF o(3) same_shape_trans [OF ev(3) o3(3)]] busy_kept_trans [OF o(4) busy_kept_trans [OF ev(4) o3(4)]]
        by auto
      have b2: "busy_sessions e2 = busy_sessions e" using busy_kept_sessions [OF ev(4)] b1 by simp
      show ?thesis
      proof (cases r3)
        case (Inl err3)
        with \<open>r = Inl err\<close> Some ev(1) o3(1,2) t show ?thesis by (simp add: start)
      next
        case (Inr sid)
        with \<open>r = Inl err\<close> Some ev(1) o3(1,2) t c3 b2 show ?thesis by (auto simp: start)
      qed
    qed
  qed
qed

lemma dn_reset_lengths:
  "(\<forall>n b. length (fst (ms n b)) = length b) \<Longrightarrow> map length (fst (dn_reset ms c bs)) = map length bs"
  by (induction bs arbitrary: c) (auto simp: Let_def split_beta)

text \<open>Replacing the recurrent state of one slot by buffers of the same sizes.\<close>

lemma dn_replace_ok:
  assumes ok: "engine_ok e" and k: "k < n_slots (e_pool e)" and l: "map length dn' = map length (e_dn e ! k)"
  shows "engine_ok (e\<lparr>e_dn := (e_dn e)[k := dn']\<rparr>)" "same_shape e (e\<lparr>e_dn := (e_dn e)[k := dn']\<rparr>)"
    "busy_kept e (e\<lparr>e_dn := (e_dn e)[k := dn']\<rparr>)"
proof -
  let ?e = "e\<lparr>e_dn := (e_dn e)[k := dn']\<rparr>"
  note d = engine_okD [OF ok]
  show sh: "same_shape e ?e" using l k d(12) by (simp add: same_shape_def map_update list_update_same_conv)
  show b: "busy_kept e ?e" by (simp add: busy_kept_def)
  have "parked_ok ?e"
    unfolding parked_ok_def
  proof (intro conjI allI impI)
    fix sid snap j
    assume "sm_parked (e_swap ?e) sid = Some snap" "j < n_slots (e_pool ?e)"
    then show "snap_fits (e_pool ?e) (slot_dev ?e j) (e_stamp ?e) snap"
      using same_shape_fits [OF sh] d(7,12) by (auto simp: parked_ok_def)
  qed (use d(7) in \<open>auto simp: parked_ok_def\<close>)
  moreover have "resident_lens_ok ?e" using d(6) by (simp add: resident_lens_ok_def)
  ultimately show "engine_ok ?e" using engine_ok_kept [OF ok sh b] d(1) by simp
qed

lemma close_engine_ok [keeps]:
  assumes ok: "engine_ok e" and x: "x \<notin> set (busy_sessions e)"
  shows "\<exists>e'. e_close e x = Some e' \<and> engine_ok e' \<and> same_shape e e' \<and> busy_kept e e'"
proof -
  note d = engine_okD [OF ok]
  from session_close_ok [OF d(1), of x] obtain p' a' t' where
    c: "session_close (e_pool e) (e_adm e) (e_sessions e) x = Some (p', a', t')" "world_ok p' a' t'"
      "sessions t' = (sessions (e_sessions e))(x := None)" "next_id t' = next_id (e_sessions e)"
      "\<forall>j<n_slots (e_pool e). j \<in> held_slots t' \<longrightarrow> slot_len p' j = slot_len (e_pool e) j" by blast
  let ?e = "e\<lparr>e_pool := p', e_adm := a', e_sessions := t'\<rparr>"
  have sh: "same_shape e ?e" using session_ops_geom(2) [OF c(1)] by (simp add: same_shape_def)
  have len: "slot_len p' j = slot_len (e_pool e) j" if "sessions (e_sessions e) sid = Some u" "ses_slot u = Some j" "sid \<noteq> x" for sid u j
  proof -
    have "j < n_slots (e_pool e)" using that d(2,9) used_slots_less by (auto simp: held_slots_def)
    moreover have "j \<in> held_slots t'" unfolding held_slots_def using that c(3) by auto
    ultimately show ?thesis using c(5) by blast
  qed
  have b: "busy_kept e ?e" using x len c(3) by (intro busy_keptI [OF ok]) auto
  have "resident_lens_ok ?e" using d(6) len c(3) by (auto simp: resident_lens_ok_def split: if_splits)
  moreover have "parked_ok ?e"
    unfolding parked_ok_def
  proof (intro conjI allI impI)
    fix sid snap j
    assume "sm_parked (e_swap ?e) sid = Some snap" "j < n_slots (e_pool ?e)"
    then show "snap_fits (e_pool ?e) (slot_dev ?e j) (e_stamp ?e) snap"
      using same_shape_fits [OF sh] same_shape_n [OF sh] d(7,12) by (auto simp: parked_ok_def)
  qed (use d(7) c(3,4) in \<open>auto simp: parked_ok_def split: if_splits\<close>)
  ultimately have "engine_ok ?e" using engine_ok_kept [OF ok sh b] c(2) by simp
  then show ?thesis using sh b by (simp add: e_close_def c(1))
qed

section \<open>The whole of admit\<close>

text \<open>The requests already in flight keep their slot, their work, their tokens and their length.\<close>

definition flight_kept :: "engine \<Rightarrow> engine \<Rightarrow> bool" where
  "flight_kept e e' \<longleftrightarrow>
     (\<forall>k<length (e_slots e). \<forall>f. e_slots e ! k = Some f \<longrightarrow>
        e_slots e' ! k = Some f \<and> e_work e' ! k = e_work e ! k \<and>
        slot_len (e_pool e') k = slot_len (e_pool e) k \<and>
        map_option ses_tokens (sessions (e_sessions e') (fl_session f)) =
          map_option ses_tokens (sessions (e_sessions e) (fl_session f)) \<and>
        Option.bind (sessions (e_sessions e') (fl_session f)) ses_slot =
          Option.bind (sessions (e_sessions e) (fl_session f)) ses_slot)"

lemma busy_flight_kept:
  assumes ok: "engine_ok e" and b: "busy_kept e e'"
  shows "flight_kept e e'"
  unfolding flight_kept_def
proof (intro allI impI)
  fix k f
  assume k: "k < length (e_slots e)" "e_slots e ! k = Some f"
  then have "slot_coherent e k" using ok engine_okD(10) [OF ok] by (simp add: engine_ok_def)
  with k obtain s where s: "sessions (e_sessions e) (fl_session f) = Some s" by (auto simp: slot_coherent_def)
  with b k obtain s' where "sessions (e_sessions e') (fl_session f) = Some s'" "ses_slot s' = ses_slot s" "ses_tokens s' = ses_tokens s"
    "slot_len (e_pool e') k = slot_len (e_pool e) k" unfolding busy_kept_def by blast
  with s b k show "e_slots e' ! k = Some f \<and> e_work e' ! k = e_work e ! k \<and> slot_len (e_pool e') k = slot_len (e_pool e) k \<and>
      map_option ses_tokens (sessions (e_sessions e') (fl_session f)) = map_option ses_tokens (sessions (e_sessions e) (fl_session f)) \<and>
      Option.bind (sessions (e_sessions e') (fl_session f)) ses_slot = Option.bind (sessions (e_sessions e) (fl_session f)) ses_slot"
    by (simp add: busy_kept_def)
qed

lemma flight_kept_fields [simp]:
  "flight_kept e0 (e\<lparr>e_out := out\<rparr>) = flight_kept e0 e" "flight_kept e0 (e\<lparr>e_stats := st\<rparr>) = flight_kept e0 e"
  "flight_kept e0 (bump f e) = flight_kept e0 e" "flight_kept e0 (fst (send_event al e c ev)) = flight_kept e0 e"
  by (simp_all add: flight_kept_def bump_def send_event_def)

lemma flight_kept_trans: "flight_kept a b \<Longrightarrow> flight_kept b c \<Longrightarrow> length (e_slots b) = length (e_slots a) \<Longrightarrow> flight_kept a c"
  unfolding flight_kept_def by (simp; metis)

lemma launch_flight_kept:
  assumes ok: "engine_ok e" and x: "sessions (e_sessions e) x = Some s" "ses_slot s = Some k" "x \<notin> set (busy_sessions e)"
    and e': "e_sessions e' = e_sessions e" "e_pool e' = e_pool e" "e_slots e' = (e_slots e)[k := g]"
      "\<forall>j<n_slots (e_pool e). j \<noteq> k \<longrightarrow> e_work e' ! j = e_work e ! j"
  shows "flight_kept e e'"
  using idle_slot_empty [OF ok x] e' engine_okD(10) [OF ok] unfolding flight_kept_def by (metis nth_list_update_neq option.distinct(1))

text \<open>Send \<^verbatim>\<open>Accepted\<close> and put the request in flight.\<close>

lemma accept_launch_ok:
  assumes ok: "engine_ok e" and x: "sessions (e_sessions e) x = Some s" "ses_slot s = Some k" "x \<notin> set (busy_sessions e)"
    and n: "slot_len (e_pool e) k = n" "ses_tokens s = toks" "n \<le> length toks"
  shows "\<exists>e'. launch (fst (send_event al e c ev)) k x req toks n = Some e' \<and> engine_ok e' \<and> same_shape e e' \<and>
    flight_kept e e' \<and> e_slots e' ! k =
      Some \<lparr>fl_session = x, fl_reply = reply req, produced = 0, max_tokens = max (req_max_tokens req) 1\<rparr> \<and>
    remaining_prompt (e_work e' ! k) = drop n toks"
proof -
  let ?e = "fst (send_event al e c ev)"
  have ok': "engine_ok ?e" and x': "sessions (e_sessions ?e) x = Some s" "x \<notin> set (busy_sessions ?e)"
    using ok x by (simp_all add: busy_sessions_def)
  from launch_engine_ok [OF ok' x'(1) x(2) x'(2) _ n(2,3), of req] n(1) obtain e' where
    l: "launch ?e k x req toks n = Some e'" "engine_ok e'" "same_shape ?e e'" "e_sessions e' = e_sessions e"
      "e_pool e' = e_pool e"
      "e_slots e' = (e_slots e)[k := Some \<lparr>fl_session = x, fl_reply = reply req, produced = 0, max_tokens = max (req_max_tokens req) 1\<rparr>]"
      "\<forall>j<n_slots (e_pool e). j \<noteq> k \<longrightarrow> e_work e' ! j = e_work e ! j" "remaining_prompt (e_work e' ! k) = drop n toks" by auto
  have "flight_kept e e'" using launch_flight_kept [OF ok x l(4,5,6,7)] .
  moreover have "same_shape e e'" using same_shape_trans [OF _ l(3)] by simp
  moreover have "k < length (e_slots e)" using idle_slot_empty(1) [OF ok x] engine_okD(10) [OF ok] by simp
  ultimately show ?thesis using l by simp
qed

lemma admit_continuation_ok [keeps]:
  assumes ok: "engine_ok e" and small: "tokens_small e" and env: "env_lawful env"
  shows "\<exists>e1 h. admit_continuation env e req = Some (e1, h) \<and> engine_ok e1 \<and> same_shape e e1 \<and> flight_kept e e1 \<and>
    (\<not> h \<longrightarrow> busy_kept e e1 \<and> tokens_small e1)"
proof (cases "continuation req = [] \<or> find_continuation (e_sessions e) (req_convo req) (busy_sessions e) = None")
  case True
  with ok small busy_flight_kept [OF ok busy_kept_refl] show ?thesis by (auto simp: admit_continuation_def)
next
  case False
  then obtain x where f: "find_continuation (e_sessions e) (req_convo req) (busy_sessions e) = Some x" and ne: "continuation req \<noteq> []"
    by auto
  from find_continuation_iff [OF engine_okD(3) [OF ok]] f obtain s where
    s: "sessions (e_sessions e) x = Some s" "x \<notin> set (busy_sessions e)" by (auto simp: continues_def)
  from residentize_ok [OF ok small env s(1)] obtain e1 r where
    rz: "residentize env e x = Some (e1, r)" "engine_ok e1" "same_shape e e1" "busy_kept e e1" "tokens_small e1"
      "\<And>k. r = Some k \<Longrightarrow> \<exists>s1. sessions (e_sessions e1) x = Some s1 \<and> ses_slot s1 = Some k \<and> ses_tokens s1 = ses_tokens s" by blast
  note start = admit_continuation_def ne f s(1) rz(1) Let_def
  show ?thesis
  proof (cases r)
    case None
    then have "admit_continuation env e req = Some (e1, False)" by (simp add: start)
    with rz(2-5) busy_flight_kept [OF ok rz(4)] show ?thesis by blast
  next
    case (Some k)
    from rz(6) [OF this] obtain s1 where s1: "sessions (e_sessions e1) x = Some s1" "ses_slot s1 = Some k" "ses_tokens s1 = ses_tokens s"
      by blast
    have nb: "x \<notin> set (busy_sessions e1)" using busy_kept_sessions [OF rz(4)] s(2) by simp
    let ?ext = "ses_tokens s @ continuation req"
    from turn_ok [OF rz(2) s1(1,2) nb, of ?ext "req_convo req"] obtain e2 plan s3 where
      t: "e_begin_turn e1 x ?ext = Some (e2, Inr plan)" "engine_ok (set_turn e2 x ?ext (req_convo req))"
        "same_shape e1 (set_turn e2 x ?ext (req_convo req))" "busy_kept e1 (set_turn e2 x ?ext (req_convo req))"
        "sessions (e_sessions (set_turn e2 x ?ext (req_convo req))) = (sessions (e_sessions e1))(x \<mapsto> s3)"
        "ses_slot s3 = Some k" "ses_tokens s3 = ?ext"
        "slot_len (e_pool (set_turn e2 x ?ext (req_convo req))) k = reused plan" "reused plan \<le> length ?ext" by blast
    let ?e3 = "set_turn e2 x ?ext (req_convo req)"
    have k3: "busy_kept e ?e3" "same_shape e ?e3" using busy_kept_trans [OF rz(4) t(4)] same_shape_trans [OF rz(3) t(3)] by auto
    have nb3: "x \<notin> set (busy_sessions ?e3)" using busy_kept_sessions [OF k3(1)] s(2) by simp
    have x3: "sessions (e_sessions ?e3) x = Some s3" using t(5) by simp
    have fk: "flight_kept e ?e3" by (rule busy_flight_kept [OF ok k3(1)])
    show ?thesis
    proof (cases "env_alive env (reply req)")
      case False
      then have "admit_continuation env e req = Some (?e3, True)"
        using Some t(1) by (simp add: start split_beta send_event_def)
      with t(2) k3 fk show ?thesis by blast
    next
      case True
      let ?e4 = "fst (send_event (env_alive env) ?e3 (reply req) (Accepted x))"
      from accept_launch_ok [OF t(2) x3 t(6) nb3 t(8,7,9), of "env_alive env" "reply req" "Accepted x" req] obtain e5 where
        l: "launch ?e4 k x req ?ext (reused plan) = Some e5" "engine_ok e5" "same_shape ?e3 e5" "flight_kept ?e3 e5" by blast
      let ?e6 = "e5\<lparr>e_sessions := touch (e_sessions e5) x\<rparr>"
      note th = touch_engine_ok [OF l(2), of x]
      have "same_shape e ?e6" using same_shape_trans [OF k3(2) same_shape_trans [OF l(3) th(2)]] .
      moreover have "flight_kept e ?e6"
      proof (rule flight_kept_trans [OF fk flight_kept_trans [OF l(4) busy_flight_kept [OF l(2) th(3)]]])
        show "length (e_slots ?e3) = length (e_slots e)" using k3(1) by (simp add: busy_kept_def)
        show "length (e_slots e5) = length (e_slots ?e3)"
          using engine_okD(10) [OF l(2)] engine_okD(10) [OF t(2)] same_shape_n [OF l(3)] by simp
      qed
      moreover have "admit_continuation env e req = Some (bump note_prefix_hit (bump note_admitted ?e6), True)"
        using Some t(1) True l(1) by (simp add: start split_beta)
      ultimately show ?thesis using th(1) by (intro exI [of _ "bump note_prefix_hit (bump note_admitted ?e6)"] exI [of _ True]) simp
    qed
  qed
qed

lemma admit_fresh_ok [keeps]:
  assumes ok: "engine_ok e" and small: "tokens_small e" and env: "env_lawful env"
  shows "\<exists>e'. admit_fresh env e (busy_sessions e) req = Some e' \<and> engine_ok e' \<and> same_shape e e' \<and> flight_kept e e'"
proof -
  from open_or_evict_ok [OF ok small env, of "reply req"] obtain e1 r where
    o: "open_or_evict env e (busy_sessions e) (reply req) = Some (e1, r)" "engine_ok e1" "same_shape e e1" "busy_kept e e1"
      "\<And>sid. r = Some sid \<Longrightarrow> sid \<notin> set (busy_sessions e) \<and>
         (\<exists>s k. sessions (e_sessions e1) sid = Some s \<and> ses_slot s = Some k \<and> ses_tokens s = [] \<and> slot_len (e_pool e1) k = 0)" by blast
  have fin: ?thesis if "admit_fresh env e (busy_sessions e) req = Some e'" "engine_ok e'" "same_shape e e'" "flight_kept e e'" for e'
    using that by blast
  show ?thesis
  proof (cases r)
    case None
    then have "admit_fresh env e (busy_sessions e) req = Some e1" by (simp add: admit_fresh_def o(1))
    with o(2,3) busy_flight_kept [OF ok o(4)] show ?thesis by blast
  next
    case (Some x)
    with o(5) obtain s k where s: "x \<notin> set (busy_sessions e)" "sessions (e_sessions e1) x = Some s" "ses_slot s = Some k" by blast
    have nb1: "x \<notin> set (busy_sessions e1)" using busy_kept_sessions [OF o(4)] s(1) by simp
    have k: "k < n_slots (e_pool e1)" using idle_slot_empty(1) [OF o(2) s(2,3) nb1] .
    have dn: "list_get (e_dn e1) k = Some (e_dn e1 ! k)" using k engine_okD(12) [OF o(2)] by simp
    let ?rs = "dn_reset (env_memset env) 0 (e_dn e1 ! k)"
    let ?e2 = "e1\<lparr>e_dn := (e_dn e1)[k := fst ?rs]\<rparr>"
    have "map length (fst ?rs) = map length (e_dn e1 ! k)" using env by (intro dn_reset_lengths) (simp add: env_lawful_def)
    note d2 = dn_replace_ok [OF o(2) k this]
    have k2: "same_shape e ?e2" "busy_kept e ?e2" using same_shape_trans [OF o(3) d2(2)] busy_kept_trans [OF o(4) d2(3)] by auto
    have nb2: "x \<notin> set (busy_sessions ?e2)" using busy_kept_sessions [OF k2(2)] s(1) by simp
    note start = admit_fresh_def o(1) Some s(2,3) dn Let_def
    show ?thesis
    proof (cases "snd ?rs")
      case False
      let ?e3 = "fst (send_event (env_alive env) ?e2 (reply req) (Rejected StateResetFailed))"
      have "engine_ok ?e3" "x \<notin> set (busy_sessions ?e3)" using d2(1) nb2 by (simp_all add: busy_sessions_def)
      from close_engine_ok [OF this] obtain e4 where
        c: "e_close ?e3 x = Some e4" "engine_ok e4" "same_shape ?e3 e4" "busy_kept ?e3 e4" by blast
      have "same_shape e ?e3" "busy_kept e ?e3" using k2 by simp_all
      with c have "same_shape e e4" "flight_kept e e4"
        using same_shape_trans busy_flight_kept [OF ok busy_kept_trans] by blast+
      moreover have "admit_fresh env e (busy_sessions e) req = Some (bump note_rejected e4)"
        using False c(1) by (simp add: start split_beta)
      ultimately show ?thesis using c(2) by simp
    next
      case True
      have s2: "sessions (e_sessions ?e2) x = Some s" using s(2) by simp
      from turn_ok [OF d2(1) s2 s(3) nb2, of "prompt_tokens req" "req_convo req"] obtain e3 plan s3 where
        t: "e_begin_turn ?e2 x (prompt_tokens req) = Some (e3, Inr plan)"
          "engine_ok (set_turn e3 x (prompt_tokens req) (req_convo req))"
          "same_shape ?e2 (set_turn e3 x (prompt_tokens req) (req_convo req))"
          "busy_kept ?e2 (set_turn e3 x (prompt_tokens req) (req_convo req))"
          "sessions (e_sessions (set_turn e3 x (prompt_tokens req) (req_convo req))) = (sessions (e_sessions ?e2))(x \<mapsto> s3)"
          "ses_slot s3 = Some k" "ses_tokens s3 = prompt_tokens req"
          "slot_len (e_pool (set_turn e3 x (prompt_tokens req) (req_convo req))) k = reused plan"
          "reused plan \<le> length (prompt_tokens req)" by blast
      let ?e4 = "set_turn e3 x (prompt_tokens req) (req_convo req)"
      let ?e5 = "fst (send_event (env_alive env) ?e4 (reply req) (Accepted x))"
      have k4: "busy_kept e ?e4" "same_shape e ?e4" using busy_kept_trans [OF k2(2) t(4)] same_shape_trans [OF k2(1) t(3)] by auto
      have nb4: "x \<notin> set (busy_sessions ?e4)" using busy_kept_sessions [OF k4(1)] s(1) by simp
      have x4: "sessions (e_sessions ?e4) x = Some s3" using t(5) by simp
      show ?thesis
      proof (cases "env_alive env (reply req)")
        case alive: False
        have "engine_ok ?e5" "x \<notin> set (busy_sessions ?e5)" using t(2) nb4 by (simp_all add: busy_sessions_def)
        from close_engine_ok [OF this] obtain e6 where
          c: "e_close ?e5 x = Some e6" "engine_ok e6" "same_shape ?e5 e6" "busy_kept ?e5 e6" by blast
        have "same_shape e ?e5" "busy_kept e ?e5" using k4 by simp_all
        with c have "same_shape e e6" "flight_kept e e6"
          using same_shape_trans busy_flight_kept [OF ok busy_kept_trans] by blast+
        moreover have "admit_fresh env e (busy_sessions e) req = Some e6"
          using True t(1) c(1) alive by (simp add: start split_beta)
        ultimately show ?thesis using c(2) by blast
      next
        case alive: True
        from accept_launch_ok [OF t(2) x4 t(6) nb4 t(8,7,9), of "env_alive env" "reply req" "Accepted x" req] obtain e6 where
          l: "launch ?e5 k x req (prompt_tokens req) (reused plan) = Some e6" "engine_ok e6" "same_shape ?e4 e6" "flight_kept ?e4 e6"
          by blast
        have "flight_kept e e6"
          using flight_kept_trans [OF busy_flight_kept [OF ok k4(1)] l(4)] k4(1) by (simp add: busy_kept_def)
        moreover have "admit_fresh env e (busy_sessions e) req = Some (bump note_admitted e6)"
          using True t(1) alive l(1) by (simp add: start split_beta)
        ultimately show ?thesis using l(2) same_shape_trans [OF k4(2) l(3)] by simp
      qed
    qed
  qed
qed

lemma admit_request_ok [keeps]:
  assumes ok: "engine_ok e" and small: "tokens_small e" and env: "env_lawful env"
  shows "\<exists>e'. admit_request env e req = Some e' \<and> engine_ok e' \<and> same_shape e e' \<and> flight_kept e e'"
proof -
  from admit_continuation_ok [OF assms, of req] obtain e1 h where
    c: "admit_continuation env e req = Some (e1, h)" "engine_ok e1" "same_shape e e1" "flight_kept e e1"
      "\<not> h \<longrightarrow> busy_kept e e1 \<and> tokens_small e1" by blast
  show ?thesis
  proof (cases h)
    case True
    with c show ?thesis by (simp add: admit_request_def)
  next
    case False
    with c(5) have b: "busy_kept e e1" "tokens_small e1" by auto
    from admit_fresh_ok [OF c(2) b(2) env, of req] obtain e' where
      f: "admit_fresh env e1 (busy_sessions e) req = Some e'" "engine_ok e'" "same_shape e1 e'" "flight_kept e1 e'"
      by (auto simp: busy_kept_sessions [OF b(1)])
    have "flight_kept e e'" using flight_kept_trans [OF c(4) f(4)] b(1) by (simp add: busy_kept_def)
    with False c(1) f same_shape_trans [OF c(3) f(3)] show ?thesis by (simp add: admit_request_def)
  qed
qed

section \<open>A concrete engine\<close>

definition demo_engine :: "nat \<Rightarrow> engine" where
  "demo_engine budget =
     \<lparr>e_pool = rig_pool,
      e_sessions = \<lparr>sessions = [0 \<mapsto> \<lparr>ses_slot = Some 0, granted_ctx = 128, ses_tokens = [5, 6], next_pos = 2,
        ses_residency = Resident, convo = [11], last_used = 1\<rparr>], next_id = 1, clock = 1\<rparr>,
      e_adm = \<lparr>footprint = \<lparr>weights_bytes = 1000, kv_bytes_per_token = 2\<rparr>, budget_bytes = budget, admitted = [128],
        host_budget = 1000, host_used = 0\<rparr>,
      e_swap = demo_manager, e_k = [replicate 256 7], e_v = [replicate 256 8], e_dn = [[[9, 10]], [[0, 0]]],
      e_stamp = demo_stamp, e_cap = 128, e_max_batch = 128, e_eos = 2, e_eot = None,
      e_slots = [None, None],
      e_work = [\<lparr>pw_slot = 0, remaining_prompt = [], pw_next_pos = 2, decoding = False\<rparr>,
        \<lparr>pw_slot = 1, remaining_prompt = [], pw_next_pos = 0, decoding = False\<rparr>],
      e_graph = \<lparr>dg_key = None, captures = 0, replays = 0\<rparr>,
      e_stats = \<lparr>st_admitted = 0, st_rejected = 0, st_evictions = 0, st_restores = 0, st_prefix_hits = 0\<rparr>,
      e_out = []\<rparr>"

definition demo_env :: admit_env where
  "demo_env = \<lparr>env_memcpy = demo_memcpy, env_memset = (\<lambda>_ b. (replicate (length b) 0, True)), env_io = io_fine,
     env_alive = (\<lambda>_. True)\<rparr>"

definition demo_request :: submit_request where
  "demo_request = \<lparr>req_session = None, prompt_tokens = [3, 4], req_convo = [21], continuation = [], req_max_tokens = 8, reply = 77\<rparr>"

lemma demo_env_lawful: "env_lawful demo_env"
  using demo_rig(1) by (simp add: env_lawful_def demo_env_def)

lemma demo_world_engine:
  assumes "1256 < budget" and "budget \<le> u64_max"
  shows "world_ok rig_pool (e_adm (demo_engine budget)) (e_sessions (demo_engine budget))"
proof -
  have "pool_wf rig_pool" using demo_rig(3) [of 0] by (simp add: rig_ok_def)
  moreover have "table_ok (e_sessions (demo_engine budget))"
    by (auto simp: demo_engine_def table_ok_def split: if_splits)
  moreover have "held_slots (e_sessions (demo_engine budget)) = used_slots rig_pool"
    by (auto simp: demo_engine_def held_slots_def used_slots_def rig_pool_def less_Suc_eq split: if_splits)
  moreover have "mset (admitted (e_adm (demo_engine budget))) = mimage granted_ctx (sessions (e_sessions (demo_engine budget)))"
    using mimage_insert [of "Map.empty :: nat \<rightharpoonup> session" 0 granted_ctx] by (simp add: demo_engine_def)
  moreover have "adm_ok (e_adm (demo_engine budget))"
    using assms by (simp add: demo_engine_def adm_ok_def real_used_def)
  ultimately show ?thesis by (simp add: world_ok_def)
qed

lemma demo_engine_ok:
  assumes "1256 < budget" and "budget \<le> u64_max"
  shows "engine_ok (demo_engine budget)" "tokens_small (demo_engine budget)"
proof -
  have rigs: "rig_ok rig_pool \<lparr>k_arenas = [replicate 256 7], v_arenas = [replicate 256 8], extra = dn\<rparr> demo_stamp"
    if "map length dn = [2]" for dn
    by (rule rig_ok_geom [OF demo_rig(3) [of 7]]) (use demo_rig(3) [of 0] that in \<open>simp_all add: rig_ok_def rig_dev_def\<close>)
  have "rigs_ok (demo_engine budget)"
    using rigs [of "[[9, 10]]"] rigs [of "[[0, 0]]"]
    by (auto simp: rigs_ok_def slot_dev_def demo_engine_def less_Suc_eq rig_pool_def)
  moreover have "frame_ok (demo_engine budget)"
    by (auto simp: frame_ok_def demo_engine_def rig_pool_def less_Suc_eq)
  moreover have "resident_lens_ok (demo_engine budget)"
    by (auto simp: resident_lens_ok_def demo_engine_def rig_pool_def slot_len_def split: if_splits)
  moreover have "parked_ok (demo_engine budget)"
    using demo_manager_ok(1) by (simp add: parked_ok_def demo_engine_def sm_parked_def parked_map_def demo_manager_def)
  moreover have "\<forall>k<n_slots rig_pool. slot_coherent (demo_engine budget) k"
    by (auto simp: slot_coherent_def demo_engine_def rig_pool_def less_Suc_eq)
  ultimately show "engine_ok (demo_engine budget)"
    using demo_world_engine [OF assms] by (simp add: engine_ok_def core_ok_def demo_engine_def)
  show "tokens_small (demo_engine budget)" by (auto simp: tokens_small_def demo_engine_def split: if_splits)
qed

section \<open>Properties\<close>

text \<open>
  Property C3. Admitting a request never panics and never disturbs the requests already in
  flight, whatever the driver, the file system and the client do: each keeps its slot, its
  outstanding work, its session's tokens and slot, and the length of its cache; and the engine's
  invariant (slots, sessions, budget, arenas and parked snapshots agree) holds again afterwards.
\<close>

theorem admit_preserves_in_flight:
  assumes "engine_ok e" and "tokens_small e" and "env_lawful env"
  shows "\<exists>e'. admit_request env e req = Some e' \<and> engine_ok e' \<and> flight_kept e e'"
  using admit_request_ok [OF assms] by blast

theorem admit_preserves_in_flight_witness:
  "\<exists>e'. admit_request demo_env (demo_engine 1000000) demo_request = Some e' \<and> engine_ok e'"
  using admit_preserves_in_flight [OF demo_engine_ok [of 1000000] demo_env_lawful] by force

text \<open>
  Property C23. A continuation is a strict extension: the turn that appends the new tokens to a
  resident session's own tokens reuses every cached position and rewinds nothing, so the recurrent
  state, which cannot be rewound, stays valid; exactly the tokens after the cached ones are computed.
\<close>

theorem continuation_never_rewinds:
  assumes ok: "engine_ok e" and x: "sessions (e_sessions e) x = Some s" "ses_slot s = Some k" "x \<notin> set (busy_sessions e)"
    and new: "suffix \<noteq> []"
  shows "\<exists>e2 plan. e_begin_turn e x (ses_tokens s @ suffix) = Some (e2, Inr plan) \<and>
    reused plan = slot_len (e_pool e) k \<and> slot_len (e_pool e2) k = slot_len (e_pool e) k \<and>
    to_prefill plan = length (ses_tokens s) + length suffix - slot_len (e_pool e) k"
proof -
  note d = engine_okD [OF ok]
  let ?p = "ses_tokens s @ suffix"
  let ?plan = "plan_turn (ses_tokens s) (slot_len (e_pool e) k) ?p"
  have le: "slot_len (e_pool e) k \<le> length (ses_tokens s)" using d(6) x by (auto simp: resident_lens_ok_def)
  have "lcp (ses_tokens s) ?p = length (ses_tokens s)"
    using lcp_greatest [of "length (ses_tokens s)" "ses_tokens s" ?p] lcp_bounds(1) [of "ses_tokens s" ?p] by simp
  with le new have r: "reused ?plan = slot_len (e_pool e) k" by (cases suffix) (simp_all add: plan_turn_def Let_def)
  from turn_ok [OF ok x, of ?p "convo s"] obtain e2 where
    t: "e_begin_turn e x ?p = Some (e2, Inr ?plan)" "slot_len (e_pool (set_turn e2 x ?p (convo s))) k = reused ?plan" by blast
  have "to_prefill ?plan = length ?p - slot_len (e_pool e) k"
    using plan_turn_prefix(2) [of "ses_tokens s" "slot_len (e_pool e) k" ?p] r by simp
  with t r show ?thesis by (auto simp: set_turn_def)
qed

theorem continuation_never_rewinds_witness:
  "\<exists>e2 plan. e_begin_turn (demo_engine 1000000) 0 ([5, 6] @ [9]) = Some (e2, Inr plan) \<and> reused plan = 2 \<and> to_prefill plan = 1"
proof -
  let ?s = "\<lparr>ses_slot = Some 0, granted_ctx = 128, ses_tokens = [5, 6], next_pos = 2,
    ses_residency = Resident, convo = [11], last_used = 1\<rparr>"
  have x: "sessions (e_sessions (demo_engine 1000000)) 0 = Some ?s" "ses_slot ?s = Some 0"
    "0 \<notin> set (busy_sessions (demo_engine 1000000))"
    by (simp_all add: demo_engine_def busy_sessions_def List.map_filter_def)
  have "slot_len (e_pool (demo_engine 1000000)) 0 = 2" by (simp add: demo_engine_def rig_pool_def slot_len_def)
  with continuation_never_rewinds [OF demo_engine_ok(1) x, of "[9]"] show ?thesis by auto
qed

text \<open>
  Property C29. Eviction does not return budget: when the controller refuses a session for want of
  budget, a new conversation is refused even after an idle session has been evicted for it. The
  admitted contexts stay charged, no request is launched, the client is told, and the evicted
  session has lost its slot for nothing; the next new conversation meets the same refusal.
\<close>

theorem eviction_returns_no_budget:
  assumes ok: "engine_ok e" and small: "tokens_small e" and env: "env_lawful env"
    and fresh: "continuation req = []" and refused: "admit (e_adm e) (e_cap e) = Inl err"
    and idle: "lru_idle_victim (e_sessions e) (busy_sessions e) = Some v"
  shows "\<exists>e' s. admit_request env e req = Some e' \<and> e_adm e' = e_adm e \<and> e_slots e' = e_slots e \<and>
    admit (e_adm e') (e_cap e') = Inl err \<and> sessions (e_sessions e') v = Some s \<and> ses_slot s = None \<and>
    (env_alive env (reply req) \<longrightarrow> (reply req, Rejected (OpenFailed err)) \<in> set (e_out e'))"
proof -
  obtain u k where v: "sessions (e_sessions e) v = Some u" "ses_slot u = Some k" "v \<notin> set (busy_sessions e)"
    using idle by (auto simp: lru_idle_victim_iff [OF engine_okD(3) [OF ok]] evictable_def)
  from evict_ok [OF ok small env v] obtain s' e2 where
    ev: "evict env e v = Some (e2, True)" "same_shape e e2" "busy_kept e e2"
      "sessions (e_sessions e2) = (sessions (e_sessions e))(v \<mapsto> s')" "ses_slot s' = None" "e_adm e2 = e_adm e" by blast
  have cap: "e_cap e2 = e_cap e" using ev(2) by (simp add: same_shape_def)
  have o1: "e_open e = Some (e, Inl err)" by (simp add: e_open_def session_open_def refused)
  have o2: "e_open (bump note_eviction e2) = Some (bump note_eviction e2, Inl err)"
    using refused cap ev(6) by (simp add: e_open_def session_open_def bump_def)
  let ?e' = "reject (env_alive env) (bump note_eviction e2) (reply req) (OpenFailed err)"
  have "admit_request env e req = Some ?e'"
    by (simp add: admit_request_def admit_continuation_def fresh admit_fresh_def open_or_evict_def o1 idle ev(1) o2 Let_def)
  moreover have "e_adm ?e' = e_adm e" "e_slots ?e' = e_slots e" "e_cap ?e' = e_cap e" "sessions (e_sessions ?e') v = Some s'"
    using ev cap by (simp_all add: reject_def bump_def send_event_def busy_kept_def)
  moreover have "env_alive env (reply req) \<longrightarrow> (reply req, Rejected (OpenFailed err)) \<in> set (e_out ?e')"
    by (simp add: reject_def bump_def send_event_def)
  ultimately show ?thesis using refused ev(5) by auto
qed

theorem eviction_returns_no_budget_witness:
  "\<exists>e' s. admit_request demo_env (demo_engine 1300) demo_request = Some e' \<and> sessions (e_sessions e') 0 = Some s \<and>
     ses_slot s = None \<and> (77, Rejected (OpenFailed (WouldExceedBudget 256 44))) \<in> set (e_out e')"
proof -
  have refused: "admit (e_adm (demo_engine 1300)) (e_cap (demo_engine 1300)) = Inl (WouldExceedBudget 256 44)"
    by (simp add: demo_engine_def admit_def used_bytes_def)
  have idle: "lru_idle_victim (e_sessions (demo_engine 1300)) (busy_sessions (demo_engine 1300)) = Some 0"
    by (simp add: lru_idle_victim_def demo_engine_def session_entries_def List.map_filter_def evictable_def busy_sessions_def)
  have "continuation demo_request = []" by (simp add: demo_request_def)
  from eviction_returns_no_budget [OF demo_engine_ok demo_env_lawful this refused idle]
  show ?thesis by (auto simp: demo_env_def demo_request_def)
qed

end
