(* ===== verification/Engine_Step.thy ===== *)
theory Engine_Step
  imports Engine_Admit
begin

text \<open>
  One step of \<^verbatim>\<open>serve_engine.rs::run_loop\<close> keeps the engine's invariant: lemmas for the three forward
  paths (plain, graph capture, graph replay), the failure path that closes every request, and the
  handling of the sampled tokens; then runs of the whole loop.
\<close>

text \<open>Kernels change the contents of device buffers, never their number or size.\<close>

definition kernels_keep_shape :: "step_env \<Rightarrow> bool" where
  "kernels_keep_shape env \<longleftrightarrow> (\<forall>b k v dn k' v' dn'. kernels env b (k, v, dn) = (k', v', dn') \<longrightarrow>
     map length k' = map length k \<and> map length v' = map length v \<and> map (map length) dn' = map (map length) dn)"

text \<open>Everything of the engine but the pool, the device memory and the graph cache is the same.\<close>

definition host_kept :: "engine \<Rightarrow> engine \<Rightarrow> bool" where
  "host_kept e e' \<longleftrightarrow> same_shape e e' \<and> e_sessions e' = e_sessions e \<and> e_adm e' = e_adm e \<and> e_swap e' = e_swap e \<and>
     e_slots e' = e_slots e \<and> e_work e' = e_work e \<and> e_max_batch e' = e_max_batch e \<and> e_out e' = e_out e \<and>
     e_eos e' = e_eos e \<and> e_eot e' = e_eot e"

lemma host_kept_refl [simp]: "host_kept e e"
  by (simp add: host_kept_def)

lemma host_kept_trans: "host_kept a b \<Longrightarrow> host_kept b c \<Longrightarrow> host_kept a c"
  unfolding host_kept_def by (auto intro: same_shape_trans)

lemma run_kernels_kept: "kernels_keep_shape env \<Longrightarrow> host_kept e (run_kernels env e b)" "e_pool (run_kernels env e b) = e_pool e"
  by (auto simp: run_kernels_def host_kept_def same_shape_def kernels_keep_shape_def Let_def split_beta prod_eq_iff)

section \<open>The forward step\<close>

text \<open>The batch of a work list, and the pools a step may pass through.\<close>

definition mid_step :: "nat \<Rightarrow> pending_work list \<Rightarrow> slot_pool \<Rightarrow> slot_pool \<Rightarrow> bool" where
  "mid_step c work p0 p \<longleftrightarrow> pool_wf p \<and> pool_geom p = pool_geom p0 \<and> used_slots p = used_slots p0 \<and>
     (\<forall>j<n_slots p0. take_count c (work ! j) = 0 \<longrightarrow> slot_len p j = slot_len p0 j)"

definition stepped :: "nat \<Rightarrow> pending_work list \<Rightarrow> slot_pool \<Rightarrow> slot_pool \<Rightarrow> bool" where
  "stepped c work p0 p \<longleftrightarrow> mid_step c work p0 p \<and>
     (\<forall>j<n_slots p0. take_count c (work ! j) \<noteq> 0 \<longrightarrow> slot_len p j = pw_next_pos (work ! j) + take_count c (work ! j))"

definition small_steps :: "nat \<Rightarrow> slot_pool \<Rightarrow> pending_work list \<Rightarrow> bool" where
  "small_steps c p work \<longleftrightarrow> (\<forall>j<n_slots p. take_count c (work ! j) \<noteq> 0 \<longrightarrow>
     pw_next_pos (work ! j) + take_count c (work ! j) < 2147483648)"

lemma mid_step_work:
  assumes "mid_step c work p0 p" and "work_ok p0 work" and "small_steps c p0 work"
  shows "pool_wf p" "work_ok p work" "\<forall>j<n_slots p. take_count c (work ! j) \<noteq> 0 \<longrightarrow> pw_next_pos (work ! j) + take_count c (work ! j) < 2147483648"
    "n_slots p = n_slots p0"
  using assms by (simp_all add: mid_step_def work_ok_def small_steps_def pool_geom_def)

lemma advance_mid:
  assumes m: "mid_step c work p0 (e_pool e)" and w: "work_ok p0 work" "small_steps c p0 work"
  shows "\<exists>e' r. e_advance e (fst (next_batch c work)) = Some (e', r) \<and> host_kept e e' \<and> mid_step c work p0 (e_pool e') \<and>
    (r = Inr () \<longrightarrow> stepped c work p0 (e_pool e'))"
proof -
  note s = mid_step_work [OF m w]
  from step_pass_any(1) [OF s(1-3)] obtain p' r where
    a: "advance_slot_seq_lens (fst (next_batch c work)) (e_pool e) = Some (p', r)" "pool_wf p'"
      "used_slots p' = used_slots (e_pool e)" "pool_geom p' = pool_geom (e_pool e)"
      "\<forall>j<n_slots (e_pool e). take_count c (work ! j) = 0 \<longrightarrow> slot_len p' j = slot_len (e_pool e) j"
      "r = Inr () \<longrightarrow> (\<forall>j<n_slots (e_pool e). take_count c (work ! j) \<noteq> 0 \<longrightarrow>
         slot_len p' j = pw_next_pos (work ! j) + take_count c (work ! j))" by blast
  have "mid_step c work p0 p'" using m a(2-5) s(4) by (simp add: mid_step_def)
  with a s(4) show ?thesis
    by (simp add: e_advance_def host_kept_def same_shape_def stepped_def)
qed

lemma rewind_mid:
  assumes m: "mid_step c work p0 (e_pool e)" and w: "work_ok p0 work" "small_steps c p0 work"
  shows "\<exists>e' r. e_rewind e (fst (next_batch c work)) = Some (e', r) \<and> host_kept e e' \<and> mid_step c work p0 (e_pool e')"
proof -
  note s = mid_step_work [OF m w]
  from step_pass_any(2) [OF s(1-3)] obtain p' r where
    a: "rewind_slot_seq_lens (fst (next_batch c work)) (e_pool e) = Some (p', r)" "pool_wf p'"
      "used_slots p' = used_slots (e_pool e)" "pool_geom p' = pool_geom (e_pool e)"
      "\<forall>j<n_slots (e_pool e). take_count c (work ! j) = 0 \<longrightarrow> slot_len p' j = slot_len (e_pool e) j" by blast
  have "mid_step c work p0 p'" using m a(2-5) s(4) by (simp add: mid_step_def)
  with a show ?thesis by (simp add: e_rewind_def host_kept_def same_shape_def)
qed

lemma upload_mid: "mid_step c work p0 (e_pool e) \<Longrightarrow> mid_step c work p0 (e_pool (upload e)) \<and> host_kept e (upload e)"
  by (auto simp: upload_def mark_uploaded_def mid_step_def host_kept_def same_shape_def pool_wf_def desc_ok_def pool_geom_def
      used_slots_def slot_len_def)

text \<open>What a step needs of the engine so that its assertions hold.\<close>

definition batch_fits :: "nat \<Rightarrow> pending_work list \<Rightarrow> slot_pool \<Rightarrow> engine \<Rightarrow> bool" where
  "batch_fits c work p0 e \<longleftrightarrow> length (e_dn e) = n_slots p0 \<and> batch_rows (fst (next_batch c work)) \<le> e_max_batch e"

lemma batch_fits_kept: "host_kept e e' \<Longrightarrow> batch_fits c work p0 e \<Longrightarrow> batch_fits c work p0 e'"
  using map_eq_imp_length_eq by (fastforce simp: host_kept_def batch_fits_def same_shape_def)

lemma forward_opts_mid:
  assumes m: "mid_step c work p0 (e_pool e)" and w: "work_ok p0 work" "small_steps c p0 work"
    and f: "batch_fits c work p0 e" and k: "kernels_keep_shape env" and ne: "\<not> batch_is_empty (fst (next_batch c work))"
  shows "\<exists>e' r. forward_opts env e (fst (next_batch c work)) skip ok = Some (e', r) \<and> host_kept e e' \<and>
    mid_step c work p0 (e_pool e') \<and> (r = Inr () \<longrightarrow> stepped c work p0 (e_pool e'))"
proof -
  let ?b = "fst (next_batch c work)"
  note s = mid_step_work [OF m w]
  have "length (m_per_slot ?b) = n_slots (e_pool e)"
    using s(2) by (simp add: next_batch_build batch_build_eq work_ok_def)
  then have as: "step_assertions ?b (e_pool e) (length (e_dn e)) (n_slots (e_pool e)) (e_max_batch e) (e_max_batch e)"
    using f s(4) by (simp add: step_assertions_def batch_fits_def)
  show ?thesis
  proof (cases "\<not> skip \<and> \<not> upload_ok env")
    case True
    with ne as m show ?thesis by (simp add: forward_opts_def)
  next
    case False
    let ?e1 = "if skip then e else upload e"
    let ?e2 = "run_kernels env ?e1 ?b"
    have m1: "mid_step c work p0 (e_pool ?e1)" "host_kept e ?e1" using m upload_mid by auto
    have h2: "host_kept e ?e2" using host_kept_trans [OF m1(2) run_kernels_kept(1) [OF k]] .
    have m2: "mid_step c work p0 (e_pool ?e2)" using m1(1) by (simp add: run_kernels_kept(2))
    show ?thesis
    proof (cases ok)
      case True
      from advance_mid [OF m2 w] obtain e' r where
        "e_advance ?e2 ?b = Some (e', r)" "host_kept ?e2 e'" "mid_step c work p0 (e_pool e')"
        "r = Inr () \<longrightarrow> stepped c work p0 (e_pool e')" by blast
      with True False ne as host_kept_trans [OF h2] show ?thesis by (auto simp: forward_opts_def Let_def)
    next
      case not_ok: False
      with False ne as h2 m2 show ?thesis by (auto simp: forward_opts_def Let_def)
    qed
  qed
qed

lemma forward_capture_mid:
  assumes m: "mid_step c work p0 (e_pool e)" and w: "work_ok p0 work" "small_steps c p0 work"
    and f: "batch_fits c work p0 e" and k: "kernels_keep_shape env" and ne: "\<not> batch_is_empty (fst (next_batch c work))"
  shows "\<exists>e' r. forward_capture env e (fst (next_batch c work)) key = Some (e', r) \<and> host_kept e e' \<and>
    mid_step c work p0 (e_pool e') \<and> (r = Inr () \<longrightarrow> stepped c work p0 (e_pool e'))"
proof -
  let ?b = "fst (next_batch c work)"
  have fin: ?thesis if "forward_capture env e ?b key = Some (e', r)" "host_kept e e'" "mid_step c work p0 (e_pool e')"
    "r = Inr () \<longrightarrow> stepped c work p0 (e_pool e')" for e' r
    using that by blast
  let ?e1 = "graph_release e"
  have h1: "host_kept e ?e1" and m1: "mid_step c work p0 (e_pool ?e1)"
    using m by (simp_all add: graph_release_def host_kept_def same_shape_def)
  show ?thesis
  proof (cases "stream_ok env")
    case False
    then have "forward_capture env e ?b key = Some (?e1, Inl StepGpu)" by (simp add: forward_capture_def Let_def)
    from fin [OF this h1 m1] show ?thesis by simp
  next
    case st: True
    from forward_opts_mid [OF m1 w batch_fits_kept [OF h1 f] k ne, of True "body_ok env"] obtain e2 r2 where
      s2: "forward_opts env ?e1 ?b True (body_ok env) = Some (e2, r2)" "host_kept ?e1 e2" "mid_step c work p0 (e_pool e2)" by blast
    note h2 = host_kept_trans [OF h1 s2(2)]
    from rewind_mid [OF s2(3) w] obtain e3 r3 where
      s3: "e_rewind e2 ?b = Some (e3, r3)" "host_kept e2 e3" "mid_step c work p0 (e_pool e3)" by blast
    note h3 = host_kept_trans [OF h2 s3(2)]
    have k': "kernels_keep_shape (env\<lparr>kernels := (\<lambda>_ m. m)\<rparr>)" by (simp add: kernels_keep_shape_def)
    from forward_opts_mid [OF s3(3) w batch_fits_kept [OF h3 f] k' ne, of True "capture_body_ok env"] obtain e4 r4 where
      s4: "forward_opts (env\<lparr>kernels := (\<lambda>_ m. m)\<rparr>) e3 ?b True (capture_body_ok env) = Some (e4, r4)" "host_kept e3 e4"
        "mid_step c work p0 (e_pool e4)" "r4 = Inr () \<longrightarrow> stepped c work p0 (e_pool e4)" by blast
    note h4 = host_kept_trans [OF h3 s4(2)]
    let ?e5 = "e4\<lparr>e_graph := \<lparr>dg_key = Some key, captures = captures (e_graph e4) + 1, replays = replays (e_graph e4)\<rparr>\<rparr>"
    have h5: "host_kept e ?e5" using h4 by (simp add: host_kept_def same_shape_def)
    note start = forward_capture_def Let_def st s2(1)
    show ?thesis
    proof (cases r2)
      case (Inl err)
      then have "forward_capture env e ?b key = Some (e2, Inl err)" by (simp add: start)
      from fin [OF this h2 s2(3)] show ?thesis by simp
    next
      case r2: (Inr u2)
      show ?thesis
      proof (cases r3)
        case (Inl err)
        then have "forward_capture env e ?b key = Some (e3, Inl err)" using r2 by (simp add: start s3(1))
        from fin [OF this h3 s3(3)] show ?thesis by simp
      next
        case r3: (Inr u3)
        show ?thesis
        proof (cases "begin_capture_ok env")
          case False
          then have "forward_capture env e ?b key = Some (e3, Inl StepGpu)" using r2 r3 by (simp add: start s3(1))
          from fin [OF this h3 s3(3)] show ?thesis by simp
        next
          case bc: True
          consider (bad) err where "forward_capture env e ?b key = Some (e4, Inl err)"
            | (good) "forward_capture env e ?b key = Some (?e5, Inr ())" "r4 = Inr ()"
            using r2 r3 bc by (cases r4; cases "end_capture_ok env"; cases "instantiate_ok env") (auto simp: start s3(1) s4(1))
          then show ?thesis
          proof cases
            case (bad err)
            from fin [OF bad h4 s4(3)] show ?thesis by simp
          next
            case good
            from fin [OF good(1) h5] s4(3,4) good(2) show ?thesis by simp
          qed
        qed
      qed
    qed
  qed
qed

lemma ctx_bucket_total: "pool_wf p \<Longrightarrow> \<exists>n. ctx_bucket_of b p = Some n"
  by (auto simp: ctx_bucket_of_def max_ctx_len_def pool_wf_def)

lemma forward_graphed_mid:
  assumes m: "mid_step c work p0 (e_pool e)" and w: "work_ok p0 work" "small_steps c p0 work"
    and f: "batch_fits c work p0 e" and k: "kernels_keep_shape env" and ne: "\<not> batch_is_empty (fst (next_batch c work))"
  shows "\<exists>e' r. forward_graphed env e (fst (next_batch c work)) = Some (e', r) \<and> host_kept e e' \<and>
    mid_step c work p0 (e_pool e') \<and> (r = Inr () \<longrightarrow> stepped c work p0 (e_pool e'))"
proof -
  let ?b = "fst (next_batch c work)"
  show ?thesis
  proof (cases "\<not> use_graph env \<or> \<not> pure_decode ?b")
    case True
    with forward_opts_mid [OF assms, of False "body_ok env"] show ?thesis by (simp add: forward_graphed_def)
  next
    case False
    have "pool_wf (e_pool e)" using m by (simp add: mid_step_def)
    from ctx_bucket_total [OF this, of ?b] obtain bucket where bk: "ctx_bucket_of ?b (e_pool e) = Some bucket" by blast
    let ?key = "\<lparr>gk_n_slots = n_slots (e_pool e), gk_n_rows = batch_rows ?b, gk_ctx_bucket = bucket\<rparr>"
    note start = forward_graphed_def False bk Let_def
    have u: "mid_step c work p0 (e_pool (upload e))" "host_kept e (upload e)" using upload_mid [OF m] by auto
    consider (noup) "\<not> upload_ok env" | (cap) "upload_ok env" "dg_key (e_graph (upload e)) \<noteq> Some ?key"
      | (nolaunch) "upload_ok env" "dg_key (e_graph (upload e)) = Some ?key" "\<not> launch_ok env"
      | (replay) "upload_ok env" "dg_key (e_graph (upload e)) = Some ?key" "launch_ok env" by blast
    then show ?thesis
    proof cases
      case noup
      with m show ?thesis using False by (simp add: forward_graphed_def bk Let_def)
    next
      case cap
      from forward_capture_mid [OF u(1) w batch_fits_kept [OF u(2) f] k ne, of ?key] cap host_kept_trans [OF u(2)] False
      show ?thesis by (auto simp: forward_graphed_def bk Let_def)
    next
      case nolaunch
      with u show ?thesis using False by (simp add: forward_graphed_def bk Let_def)
    next
      case replay
      let ?e1 = "(upload e)\<lparr>e_graph := (e_graph (upload e))\<lparr>replays := replays (e_graph (upload e)) + 1\<rparr>\<rparr>"
      let ?e2 = "run_kernels env ?e1 ?b"
      have h1: "host_kept e ?e1" using u(2) by (simp add: host_kept_def same_shape_def)
      have m2: "mid_step c work p0 (e_pool ?e2)" using u(1) by (simp add: run_kernels_kept(2))
      from advance_mid [OF m2 w] obtain e' r where
        "e_advance ?e2 ?b = Some (e', r)" "host_kept ?e2 e'" "mid_step c work p0 (e_pool e')"
        "r = Inr () \<longrightarrow> stepped c work p0 (e_pool e')" by blast
      with replay False host_kept_trans [OF host_kept_trans [OF h1 run_kernels_kept(1) [OF k]]]
      show ?thesis by (auto simp: forward_graphed_def bk Let_def)
    qed
  qed
qed

section \<open>After a failed forward\<close>

text \<open>
  The state between a failed forward and the end of the loop that closes the requests: the lengths
  of the slots in flight are unknown, everything else agrees.
\<close>

definition failing :: "engine \<Rightarrow> bool" where
  "failing e \<longleftrightarrow> world_ok (e_pool e) (e_adm e) (e_sessions e) \<and> rigs_ok e \<and> frame_ok e \<and> parked_ok e \<and>
     (\<forall>sid s k. sessions (e_sessions e) sid = Some s \<and> ses_slot s = Some k \<and> e_slots e ! k = None \<longrightarrow>
        slot_len (e_pool e) k \<le> length (ses_tokens s)) \<and>
     (\<forall>k<n_slots (e_pool e). e_slots e ! k = None \<longrightarrow> remaining_prompt (e_work e ! k) = []) \<and>
     (\<forall>k<n_slots (e_pool e). \<forall>f. e_slots e ! k = Some f \<longrightarrow>
        (\<exists>s. sessions (e_sessions e) (fl_session f) = Some s \<and> ses_slot s = Some k))"

lemma failing_out [simp]: "failing (e\<lparr>e_out := out\<rparr>) = failing e"
  by (simp add: failing_def rigs_ok_def frame_ok_def parked_ok_def slot_dev_def cong: option.case_cong)

lemma failingD:
  assumes "failing e"
  shows "world_ok (e_pool e) (e_adm e) (e_sessions e)" "rigs_ok e" "frame_ok e" "parked_ok e"
    "sessions (e_sessions e) sid = Some s \<Longrightarrow> ses_slot s = Some k \<Longrightarrow> e_slots e ! k = None \<Longrightarrow>
      slot_len (e_pool e) k \<le> length (ses_tokens s)"
    "k < n_slots (e_pool e) \<Longrightarrow> e_slots e ! k = None \<Longrightarrow> remaining_prompt (e_work e ! k) = []"
    "k < n_slots (e_pool e) \<Longrightarrow> e_slots e ! k = Some f \<Longrightarrow>
      \<exists>s. sessions (e_sessions e) (fl_session f) = Some s \<and> ses_slot s = Some k"
  using assms unfolding failing_def by blast+

lemma failing_done:
  assumes f: "failing e" and none: "\<forall>k<n_slots (e_pool e). e_slots e ! k = None"
  shows "engine_ok e"
proof -
  note d = failingD [OF f]
  have "k < n_slots (e_pool e)" if "sessions (e_sessions e) sid = Some s" "ses_slot s = Some k" for sid s k
    using that d(1) used_slots_less [of "e_pool e"] by (auto simp: world_ok_def held_slots_def)
  then have "resident_lens_ok e" using d(5) none by (auto simp: resident_lens_ok_def)
  then show ?thesis using d(1-4,6) none by (simp add: engine_ok_def core_ok_def slot_coherent_def)
qed

text \<open>Closing a session never hurts the snapshots that are parked.\<close>

lemma parked_ok_close:
  assumes p: "parked_ok e" and sh: "same_shape e e'" and ldn: "length (e_dn e) = n_slots (e_pool e)"
    and s: "sessions (e_sessions e') = (sessions (e_sessions e))(x := None)" "next_id (e_sessions e') = next_id (e_sessions e)"
    and w: "e_swap e' = e_swap e"
  shows "parked_ok e'"
  unfolding parked_ok_def
proof (intro conjI allI impI)
  fix sid snap j
  assume "sm_parked (e_swap e') sid = Some snap" "j < n_slots (e_pool e')"
  then show "snap_fits (e_pool e') (slot_dev e' j) (e_stamp e') snap"
    using same_shape_fits [OF sh] same_shape_n [OF sh] p ldn w by (auto simp: parked_ok_def)
qed (use p s w in \<open>auto simp: parked_ok_def split: if_splits\<close>)

lemma fail_one_ok:
  assumes f: "failing e" and k: "k < n_slots (e_pool e)" "e_slots e ! k = Some fl"
  shows "\<exists>e'. e_close (e\<lparr>e_slots := (e_slots e)[k := None]\<rparr>) (fl_session fl) = Some e' \<and> e_work e' = e_work e \<and>
    e_slots e' = (e_slots e)[k := None] \<and> same_shape e e' \<and> e_out e' = e_out e \<and>
    sessions (e_sessions e') = (sessions (e_sessions e))(fl_session fl := None) \<and>
    failing (e'\<lparr>e_work := (e_work e')[k := (e_work e' ! k)\<lparr>remaining_prompt := []\<rparr>]\<rparr>)"
proof -
  let ?x = "fl_session fl"
  have w: "world_ok (e_pool e) (e_adm e) (e_sessions e)" and r: "rigs_ok e" and fr: "frame_ok e" and p: "parked_ok e"
    using f by (simp_all add: failing_def)
  have t: "table_ok (e_sessions e)" and hu: "held_slots (e_sessions e) = used_slots (e_pool e)" and wf: "pool_wf (e_pool e)"
    using w by (simp_all add: world_ok_def)
  have l: "length (e_slots e) = n_slots (e_pool e)" "length (e_work e) = n_slots (e_pool e)" using fr by (simp_all add: frame_ok_def)
  obtain s where s: "sessions (e_sessions e) ?x = Some s" "ses_slot s = Some k" using failingD(7) [OF f k] by blast
  from session_close_ok [OF w, of ?x] obtain p' a' t' where
    c: "session_close (e_pool e) (e_adm e) (e_sessions e) ?x = Some (p', a', t')" "world_ok p' a' t'"
      "sessions t' = (sessions (e_sessions e))(?x := None)" "next_id t' = next_id (e_sessions e)"
      "\<forall>j<n_slots (e_pool e). j \<in> held_slots t' \<longrightarrow> slot_len p' j = slot_len (e_pool e) j" by blast
  let ?e1 = "e\<lparr>e_slots := (e_slots e)[k := None], e_pool := p', e_adm := a', e_sessions := t'\<rparr>"
  let ?e2 = "?e1\<lparr>e_work := (e_work e)[k := (e_work e ! k)\<lparr>remaining_prompt := []\<rparr>]\<rparr>"
  have sh: "same_shape e ?e2" "same_shape e ?e1" using session_ops_geom(2) [OF c(1)] by (simp_all add: same_shape_def)
  have n: "n_slots p' = n_slots (e_pool e)" using same_shape_n [OF sh(1)] by simp
  have other: "sid \<noteq> ?x \<Longrightarrow> j \<noteq> k" if "sessions (e_sessions e) sid = Some u" "ses_slot u = Some j" for sid u j
    using that s table_ok_slot_inj [OF t] by metis
  have len: "slot_len p' j \<le> length (ses_tokens u)"
    if "sessions t' sid = Some u" "ses_slot u = Some j" "(e_slots e)[k := None] ! j = None" for sid u j
  proof -
    have sid: "sid \<noteq> ?x" "sessions (e_sessions e) sid = Some u" using that(1) c(3) by (auto split: if_splits)
    have "j \<in> held_slots t'" "j \<in> held_slots (e_sessions e)" using that sid by (auto simp: held_slots_def)
    then have "slot_len p' j = slot_len (e_pool e) j" using c(5) hu used_slots_less [OF wf] by blast
    then show ?thesis using failingD(5) [OF f sid(2) that(2)] that(3) other [OF sid(2) that(2) sid(1)] by simp
  qed
  have idle: "remaining_prompt ((e_work e)[k := (e_work e ! k)\<lparr>remaining_prompt := []\<rparr>] ! j) = []"
    if "j < n_slots (e_pool e)" "(e_slots e)[k := None] ! j = None" for j
    using that failingD(6) [OF f that(1)] l by (cases "j = k") simp_all
  have held: "\<exists>u. sessions t' (fl_session g) = Some u \<and> ses_slot u = Some j"
    if j: "j < n_slots (e_pool e)" "(e_slots e)[k := None] ! j = Some g" for j g
  proof -
    have jk: "j \<noteq> k" "e_slots e ! j = Some g" using j l k(1) by (auto simp: nth_list_update split: if_splits)
    with failingD(7) [OF f j(1)] obtain u where u: "sessions (e_sessions e) (fl_session g) = Some u" "ses_slot u = Some j" by blast
    then have "fl_session g \<noteq> ?x" using s jk(1) by auto
    with u c(3) show ?thesis by simp
  qed
  have "rigs_ok ?e2" using rigs_ok_shape [OF r sh(1)] c(2) by (simp add: world_ok_def)
  moreover have "frame_ok ?e2" using fr n l session_ops_geom(2) [OF c(1)] k(1)
    by (auto simp: frame_ok_def nth_list_update pool_geom_def)
  moreover have "parked_ok ?e2" using r by (intro parked_ok_close [OF p sh(1), of ?x]) (simp_all add: c(3,4) rigs_ok_def)
  ultimately have "failing ?e2" using c(2) len idle held n unfolding failing_def by simp blast
  then show ?thesis using sh c l by (simp add: e_close_def)
qed

lemma fail_slots_ok:
  assumes "failing e" and "\<forall>k\<in>set ss. k < n_slots (e_pool e)"
  shows "\<exists>e'. fail_slots al err ss e = Some e' \<and> failing e' \<and> same_shape e e' \<and>
    (\<forall>k<n_slots (e_pool e). e_slots e' ! k = (if k \<in> set ss then None else e_slots e ! k)) \<and>
    (\<forall>sid. sessions (e_sessions e') sid = (if \<exists>k\<in>set ss. \<exists>f. e_slots e ! k = Some f \<and> fl_session f = sid then None
       else sessions (e_sessions e) sid))"
  using assms
proof (induction ss arbitrary: e)
  case Nil
  then show ?case by simp
next
  case (Cons k ss)
  have l: "length (e_slots e) = n_slots (e_pool e)" "length (e_work e) = n_slots (e_pool e)"
    using Cons.prems(1) by (simp_all add: failing_def frame_ok_def)
  show ?case
  proof (cases "e_slots e ! k")
    case None
    from Cons.IH [of e] Cons.prems obtain e' where
      "fail_slots al err ss e = Some e'" "failing e'" "same_shape e e'"
      "\<forall>j<n_slots (e_pool e). e_slots e' ! j = (if j \<in> set ss then None else e_slots e ! j)"
      "\<forall>sid. sessions (e_sessions e') sid = (if \<exists>j\<in>set ss. \<exists>f. e_slots e ! j = Some f \<and> fl_session f = sid then None
         else sessions (e_sessions e) sid)" by auto
    with None show ?thesis by (intro exI [of _ e']) simp
  next
    case (Some f)
    let ?e1 = "fst (send_event al (e\<lparr>e_slots := (e_slots e)[k := None]\<rparr>) (fl_reply f) (Rejected (ForwardFailed err)))"
    let ?out = "e_out ?e1"
    have k: "k < n_slots (e_pool e)" using Cons.prems(2) by simp
    have "failing (e\<lparr>e_out := ?out\<rparr>)" "k < n_slots (e_pool (e\<lparr>e_out := ?out\<rparr>))" "e_slots (e\<lparr>e_out := ?out\<rparr>) ! k = Some f"
      using Cons.prems Some by simp_all
    from fail_one_ok [OF this] obtain e2 where
      e2: "e_close (e\<lparr>e_out := ?out, e_slots := (e_slots e)[k := None]\<rparr>) (fl_session f) = Some e2" "e_work e2 = e_work e"
        "e_slots e2 = (e_slots e)[k := None]" "same_shape (e\<lparr>e_out := ?out\<rparr>) e2"
        "sessions (e_sessions e2) = (sessions (e_sessions e))(fl_session f := None)"
        "failing (e2\<lparr>e_work := (e_work e2)[k := (e_work e2 ! k)\<lparr>remaining_prompt := []\<rparr>]\<rparr>)" by auto
    let ?e3 = "e2\<lparr>e_work := (e_work e2)[k := (e_work e2 ! k)\<lparr>remaining_prompt := []\<rparr>]\<rparr>"
    have e1: "?e1 = e\<lparr>e_out := ?out, e_slots := (e_slots e)[k := None]\<rparr>" by (simp add: send_event_def)
    have start: "fail_slots al err (k # ss) e = fail_slots al err ss ?e3"
      using e2(1,2) k l Some by (simp add: e1 [symmetric] split_beta)
    have sh: "same_shape e ?e3" using e2(4) by (simp add: same_shape_def)
    have n: "n_slots (e_pool ?e3) = n_slots (e_pool e)" using same_shape_n [OF sh] by simp
    have fld: "e_slots ?e3 = e_slots e2" "e_sessions ?e3 = e_sessions e2" by simp_all
    from Cons.IH [OF e2(6), unfolded fld n] Cons.prems(2) obtain e' where
      e': "fail_slots al err ss ?e3 = Some e'" "failing e'" "same_shape ?e3 e'"
        "\<forall>j<n_slots (e_pool e). e_slots e' ! j = (if j \<in> set ss then None else e_slots e2 ! j)"
        "\<forall>sid. sessions (e_sessions e') sid = (if \<exists>k\<in>set ss. \<exists>f. e_slots e2 ! k = Some f \<and> fl_session f = sid then None
           else sessions (e_sessions e2) sid)" by auto
    have "sessions (e_sessions e') sid = (if \<exists>j\<in>set (k # ss). \<exists>g. e_slots e ! j = Some g \<and> fl_session g = sid then None
       else sessions (e_sessions e) sid)" for sid
      using e'(5) e2(3,5) Some k l by (auto simp: nth_list_update)
    moreover have "e_slots e' ! j = (if j \<in> set (k # ss) then None else e_slots e ! j)" if "j < n_slots (e_pool e)" for j
      using e'(4) e2(3) that k l by (auto simp: nth_list_update)
    ultimately show ?thesis using e'(1-3) same_shape_trans [OF sh] start by auto
  qed
qed

end
