(* ===== verification/Engine_Run.thy ===== *)
theory Engine_Run
  imports Engine_Step "HOL-Library.Sublist"
begin

text \<open>
  Whole iterations of \<^verbatim>\<open>serve_engine.rs::run_loop\<close>: the forward step, the handling of the sampled
  tokens and of failures together keep the engine's invariant and never panic while a batch fits
  the staging buffers; the properties of the loop, and the situations in which it goes wrong.
\<close>

section \<open>From the scheduler to the forward step\<close>

abbreviation chunk_of :: "engine \<Rightarrow> nat" where
  "chunk_of e \<equiv> max (e_cap e) 1"

lemma in_flightD:
  assumes "engine_ok e" and "k < n_slots (e_pool e)" and "e_slots e ! k = Some f"
  shows "\<exists>s. sessions (e_sessions e) (fl_session f) = Some s \<and> ses_slot s = Some k \<and>
    pw_next_pos (e_work e ! k) = slot_len (e_pool e) k \<and>
    remaining_prompt (e_work e ! k) = drop (slot_len (e_pool e) k) (ses_tokens s) \<and>
    slot_len (e_pool e) k \<le> length (ses_tokens s) \<and> produced f < max_tokens f"
proof -
  have "slot_coherent e k" using assms by (simp add: engine_ok_def)
  then obtain s where "sessions (e_sessions e) (fl_session f) = Some s" "ses_slot s = Some k"
    "pw_next_pos (e_work e ! k) = slot_len (e_pool e) k"
    "remaining_prompt (e_work e ! k) = drop (slot_len (e_pool e) k) (ses_tokens s)" "produced f < max_tokens f"
    using assms(3) by (auto simp: slot_coherent_def)
  then show ?thesis using engine_okD(6) [OF assms(1)] by (auto simp: resident_lens_ok_def)
qed

lemma idleD:
  "engine_ok e \<Longrightarrow> k < n_slots (e_pool e) \<Longrightarrow> e_slots e ! k = None \<Longrightarrow> remaining_prompt (e_work e ! k) = []"
  by (auto simp: engine_ok_def slot_coherent_def)

lemma working_slot:
  assumes "engine_ok e" and "k < n_slots (e_pool e)" and "remaining_prompt (e_work e ! k) \<noteq> []"
  shows "\<exists>f. e_slots e ! k = Some f"
  using assms idleD by (cases "e_slots e ! k") auto

lemma take_count_bound: "take_count c w \<noteq> 0 \<Longrightarrow> remaining_prompt w \<noteq> []" "take_count c w \<le> max c 1"
  by (auto simp: take_count_def split: if_splits)

lemma step_setup:
  assumes ok: "engine_ok e"
  shows "work_ok (e_pool e) (e_work e)" "small_steps (chunk_of e) (e_pool e) (e_work e)"
    "mid_step c (e_work e) (e_pool e) (e_pool e)"
proof -
  note d = engine_okD [OF ok]
  have n: "n_slots (e_pool e) < 2147483648" "e_cap e < 1073741824" "cap_tokens (e_pool e) < 1073741824"
    using d(5) by (auto simp: frame_ok_def)
  have used: "k \<in> used_slots (e_pool e)" if k: "k < n_slots (e_pool e)" "remaining_prompt (e_work e ! k) \<noteq> []" for k
  proof -
    from working_slot [OF ok k] obtain f where f: "e_slots e ! k = Some f" ..
    from in_flightD [OF ok k(1) f] have "k \<in> held_slots (e_sessions e)" by (auto simp: held_slots_def)
    then show ?thesis using d(9) by simp
  qed
  then show "work_ok (e_pool e) (e_work e)" using d(5,11) n by (simp add: work_ok_def frame_ok_def)
  show "small_steps (chunk_of e) (e_pool e) (e_work e)"
    unfolding small_steps_def
  proof (intro allI impI)
    fix k assume k: "k < n_slots (e_pool e)" "take_count (chunk_of e) (e_work e ! k) \<noteq> 0"
    from working_slot [OF ok k(1) take_count_bound(1) [OF k(2)]] obtain f where f: "e_slots e ! k = Some f" ..
    from in_flightD [OF ok k(1) f] have "pw_next_pos (e_work e ! k) = slot_len (e_pool e) k" by blast
    moreover have "slot_len (e_pool e) k \<le> cap_tokens (e_pool e)" using pool_wf_len [OF d(2) k(1)] by simp
    ultimately show "pw_next_pos (e_work e ! k) + take_count (chunk_of e) (e_work e ! k) < 2147483648"
      using take_count_bound(2) [of "chunk_of e" "e_work e ! k"] n by simp
  qed
  show "mid_step c (e_work e) (e_pool e) (e_pool e)" using d(2) by (simp add: mid_step_def)
qed

lemma after_step_fields [simp]:
  "pw_slot (after_step c w) = pw_slot w" "decoding (after_step c w) = decoding w"
  "remaining_prompt (after_step c w) = drop (take_count c w) (remaining_prompt w)"
  "pw_next_pos (after_step c w) = pw_next_pos w + take_count c w"
  by (simp_all add: after_step_def)

text \<open>The parts of the invariant that survive any step, successful or not.\<close>

lemma mid_engine_parts:
  assumes ok: "engine_ok e" and h: "host_kept (e\<lparr>e_work := map (after_step c) (e_work e)\<rparr>) e'"
    and m: "mid_step c (e_work e) (e_pool e) (e_pool e')"
  shows "same_shape e e'" "world_ok (e_pool e') (e_adm e') (e_sessions e')" "rigs_ok e'" "frame_ok e'" "parked_ok e'"
proof -
  note d = engine_okD [OF ok]
  have hk: "e_sessions e' = e_sessions e" "e_adm e' = e_adm e" "e_swap e' = e_swap e" "e_slots e' = e_slots e"
    "e_work e' = map (after_step c) (e_work e)" using h by (simp_all add: host_kept_def)
  show sh: "same_shape e e'" using h by (simp add: host_kept_def same_shape_def)
  have wf: "pool_wf (e_pool e')" "used_slots (e_pool e') = used_slots (e_pool e)" using m by (simp_all add: mid_step_def)
  show "world_ok (e_pool e') (e_adm e') (e_sessions e')" using d(1) wf hk by (simp add: world_ok_def)
  show "rigs_ok e'" using rigs_ok_shape [OF d(4) sh wf(1)] .
  have n: "n_slots (e_pool e') = n_slots (e_pool e)" "e_cap e' = e_cap e" "cap_tokens (e_pool e') = cap_tokens (e_pool e)"
    using sh by (simp_all add: same_shape_def pool_geom_def)
  show "frame_ok e'" using d(5) by (simp add: frame_ok_def hk n)
  show "parked_ok e'"
    using d(7,12) same_shape_fits [OF sh] n(1) unfolding parked_ok_def hk by simp
qed
lemma take_count_idle: "engine_ok e \<Longrightarrow> k < n_slots (e_pool e) \<Longrightarrow> e_slots e ! k = None \<Longrightarrow> take_count c (e_work e ! k) = 0"
  using idleD [of e k] by (simp add: take_count_def)

lemma stepped_engine_ok:
  assumes ok: "engine_ok e" and h: "host_kept (e\<lparr>e_work := map (after_step c) (e_work e)\<rparr>) e'"
    and s: "stepped c (e_work e) (e_pool e) (e_pool e')"
  shows "engine_ok e'"
proof -
  have m: "mid_step c (e_work e) (e_pool e) (e_pool e')" using s by (simp add: stepped_def)
  note d = engine_okD [OF ok] and parts = mid_engine_parts [OF ok h m]
  have hk: "e_sessions e' = e_sessions e" "e_slots e' = e_slots e" "e_work e' = map (after_step c) (e_work e)"
    using h by (simp_all add: host_kept_def)
  have n: "n_slots (e_pool e') = n_slots (e_pool e)" using same_shape_n [OF parts(1)] .
  have len: "slot_len (e_pool e') k = slot_len (e_pool e) k + take_count c (e_work e ! k)"
    if k: "k < n_slots (e_pool e)" for k
  proof (cases "take_count c (e_work e ! k) = 0")
    case True
    with m k show ?thesis by (simp add: mid_step_def)
  next
    case False
    from working_slot [OF ok k take_count_bound(1) [OF False]] obtain f where f: "e_slots e ! k = Some f" ..
    with in_flightD [OF ok k f] s k False show ?thesis by (auto simp: stepped_def)
  qed
  have "slot_coherent e' k" if k: "k < n_slots (e_pool e)" for k
  proof (cases "e_slots e ! k")
    case None
    with idleD [OF ok k None] k d(11) show ?thesis by (simp add: slot_coherent_def hk)
  next
    case (Some f)
    from in_flightD [OF ok k Some] k len [OF k] d(11) Some show ?thesis by (auto simp: slot_coherent_def hk add.commute)
  qed
  moreover have "resident_lens_ok e'"
    unfolding resident_lens_ok_def hk
  proof (intro allI impI)
    fix sid u k
    assume a: "sessions (e_sessions e) sid = Some u \<and> ses_slot u = Some k"
    then have k: "k < n_slots (e_pool e)" using d(2,9) used_slots_less by (auto simp: held_slots_def)
    have old: "slot_len (e_pool e) k \<le> length (ses_tokens u)" using a d(6) by (auto simp: resident_lens_ok_def)
    show "slot_len (e_pool e') k \<le> length (ses_tokens u)"
    proof (cases "e_slots e ! k")
      case None
      with old len [OF k] take_count_idle [OF ok k] show ?thesis by simp
    next
      case (Some f)
      from in_flightD [OF ok k Some] obtain v where
        v: "sessions (e_sessions e) (fl_session f) = Some v" "ses_slot v = Some k"
          "remaining_prompt (e_work e ! k) = drop (slot_len (e_pool e) k) (ses_tokens v)" by blast
      then have "v = u" using a table_ok_slot_inj [OF d(3)] by (metis option.inject)
      with v(3) len [OF k] old take_count_le [of c "e_work e ! k"] show ?thesis by simp
    qed
  qed
  ultimately show ?thesis using parts n by (simp add: engine_ok_def core_ok_def)
qed

lemma mid_failing:
  assumes ok: "engine_ok e" and h: "host_kept (e\<lparr>e_work := map (after_step c) (e_work e)\<rparr>) e'"
    and m: "mid_step c (e_work e) (e_pool e) (e_pool e')"
  shows "failing e'"
proof -
  note d = engine_okD [OF ok] and parts = mid_engine_parts [OF ok h m]
  have hk: "e_sessions e' = e_sessions e" "e_slots e' = e_slots e" "e_work e' = map (after_step c) (e_work e)"
    using h by (simp_all add: host_kept_def)
  have n: "n_slots (e_pool e') = n_slots (e_pool e)" using same_shape_n [OF parts(1)] .
  have "slot_len (e_pool e') k \<le> length (ses_tokens u)"
    if a: "sessions (e_sessions e) sid = Some u" "ses_slot u = Some k" "e_slots e ! k = None" for sid u k
  proof -
    have k: "k < n_slots (e_pool e)" using a d(2,9) used_slots_less by (auto simp: held_slots_def)
    have "slot_len (e_pool e') k = slot_len (e_pool e) k" using m k take_count_idle [OF ok k a(3)] by (simp add: mid_step_def)
    then show ?thesis using a d(6) by (auto simp: resident_lens_ok_def)
  qed
  moreover have "remaining_prompt (map (after_step c) (e_work e) ! k) = []"
    if "k < n_slots (e_pool e)" "e_slots e ! k = None" for k
    using that idleD [OF ok that] d(11) by simp
  moreover have "\<exists>s. sessions (e_sessions e) (fl_session f) = Some s \<and> ses_slot s = Some k"
    if "k < n_slots (e_pool e)" "e_slots e ! k = Some f" for k f
    using in_flightD [OF ok that] by blast
  ultimately show ?thesis using parts unfolding failing_def hk n by blast
qed

section \<open>The sampled tokens\<close>

lemma finish_slot_ok:
  assumes ok: "engine_ok e" and k: "k < n_slots (e_pool e)" "e_slots e ! k = Some f"
  shows "engine_ok (e\<lparr>e_slots := (e_slots e)[k := None], e_work := (e_work e)[k := (e_work e ! k)\<lparr>remaining_prompt := []\<rparr>]\<rparr>)"
    "fl_session f \<notin> set (busy_sessions
      (e\<lparr>e_slots := (e_slots e)[k := None], e_work := (e_work e)[k := (e_work e ! k)\<lparr>remaining_prompt := []\<rparr>]\<rparr>))"
proof -
  let ?e = "e\<lparr>e_slots := (e_slots e)[k := None], e_work := (e_work e)[k := (e_work e ! k)\<lparr>remaining_prompt := []\<rparr>]\<rparr>"
  note d = engine_okD [OF ok]
  have "slot_coherent ?e j" if j: "j < n_slots (e_pool e)" for j
  proof (cases "j = k")
    case True
    with j d(10,11) show ?thesis by (simp add: slot_coherent_def)
  next
    case False
    have "slot_coherent e j" using ok j by (simp add: engine_ok_def)
    with False show ?thesis by (simp add: slot_coherent_def cong: option.case_cong)
  qed
  moreover have "frame_ok ?e" using d(5) k(1) d(11) by (auto simp: frame_ok_def nth_list_update)
  moreover have "rigs_ok ?e" "resident_lens_ok ?e" "parked_ok ?e"
    using d(4,6,7) by (simp_all add: rigs_ok_def resident_lens_ok_def parked_ok_def slot_dev_def)
  ultimately show "engine_ok ?e" using d(1) by (simp add: engine_ok_def core_ok_def)
  show "fl_session f \<notin> set (busy_sessions ?e)"
  proof
    assume "fl_session f \<in> set (busy_sessions ?e)"
    then obtain j g where "j < length (e_slots e)" "(e_slots e)[k := None] ! j = Some g" "fl_session g = fl_session f"
      by (auto simp: busy_sessions_def List.map_filter_def in_set_conv_nth)
    then have g: "j \<noteq> k" "j < n_slots (e_pool e)" "e_slots e ! j = Some g" "fl_session g = fl_session f"
      using k d(10) by (auto simp: nth_list_update split: if_splits)
    from in_flightD [OF ok g(2,3)] in_flightD [OF ok k] g(1,4) show False by auto
  qed
qed

lemma push_token_ok:
  assumes ok: "engine_ok e" and k: "k < n_slots (e_pool e)" "e_slots e ! k = Some f" "remaining_prompt (e_work e ! k) = []"
    and more: "produced f + 1 < max_tokens f"
  shows "engine_ok (e\<lparr>e_slots := (e_slots e)[k := Some (f\<lparr>produced := produced f + 1\<rparr>)],
      e_work := (e_work e)[k := (e_work e ! k)\<lparr>remaining_prompt := [tok]\<rparr>],
      e_sessions := session_update (e_sessions e) (fl_session f) (\<lambda>x. x\<lparr>ses_tokens := ses_tokens x @ [tok]\<rparr>)\<rparr>)"
proof -
  let ?t = "session_update (e_sessions e) (fl_session f) (\<lambda>x. x\<lparr>ses_tokens := ses_tokens x @ [tok]\<rparr>)"
  let ?e = "e\<lparr>e_slots := (e_slots e)[k := Some (f\<lparr>produced := produced f + 1\<rparr>)],
      e_work := (e_work e)[k := (e_work e ! k)\<lparr>remaining_prompt := [tok]\<rparr>], e_sessions := ?t\<rparr>"
  note d = engine_okD [OF ok]
  from in_flightD [OF ok k(1,2)] obtain s where s: "sessions (e_sessions e) (fl_session f) = Some s" "ses_slot s = Some k"
    "pw_next_pos (e_work e ! k) = slot_len (e_pool e) k" "slot_len (e_pool e) k = length (ses_tokens s)"
    using k(3) by (auto simp: drop_eq_Nil)
  have t: "sessions ?t = (sessions (e_sessions e))(fl_session f \<mapsto> s\<lparr>ses_tokens := ses_tokens s @ [tok]\<rparr>)"
    "next_id ?t = next_id (e_sessions e)" using s(1) by (simp_all add: session_update_def)
  have "slot_coherent ?e j" if j: "j < n_slots (e_pool e)" for j
  proof (cases "j = k")
    case True
    with j d(10,11) s t more show ?thesis by (simp add: slot_coherent_def)
  next
    case False
    show ?thesis
    proof (cases "e_slots e ! j")
      case None
      with idleD [OF ok j] False show ?thesis by (simp add: slot_coherent_def)
    next
      case (Some g)
      from in_flightD [OF ok j Some] s(1,2) False have "fl_session g \<noteq> fl_session f" by auto
      with in_flightD [OF ok j Some] Some False t show ?thesis by (auto simp: slot_coherent_def)
    qed
  qed
  moreover have "frame_ok ?e" using d(5) k(1) d(11) by (auto simp: frame_ok_def nth_list_update)
  moreover have "rigs_ok ?e" using d(4) by (simp add: rigs_ok_def slot_dev_def)
  moreover have "resident_lens_ok ?e" using d(6) t s by (auto simp: resident_lens_ok_def)
  moreover have "sm_parked (e_swap e) (fl_session f) = None"
    using d(7) s(1,2) by (cases "sm_parked (e_swap e) (fl_session f)") (auto simp: parked_ok_def)
  then have "parked_ok ?e" using d(7) t by (auto simp: parked_ok_def slot_dev_def)
  moreover have "world_ok (e_pool e) (e_adm e) ?t" using d(1) by (intro session_update_ok) auto
  ultimately show ?thesis by (simp add: engine_ok_def core_ok_def)
qed

text \<open>
  What one slot looks like after its sampled token: an idle or prefilling slot is left alone; a slot
  whose prompt is computed either goes on with one token of work, or is freed after the client,
  if it still listens, has been sent the end of its request.
\<close>

definition slot_post :: "(nat \<Rightarrow> bool) \<Rightarrow> (nat \<times> event) list \<Rightarrow> engine \<Rightarrow> engine \<Rightarrow> nat \<Rightarrow> bool" where
  "slot_post al new e e' k \<longleftrightarrow>
     (\<forall>f. e_slots e ! k = Some f \<and> remaining_prompt (e_work e ! k) = [] \<longrightarrow>
        (e_slots e' ! k = None \<and> remaining_prompt (e_work e' ! k) = [] \<and>
           (al (fl_reply f) \<longrightarrow> (\<exists>r. (fl_reply f, Done r) \<in> set new))) \<or>
        (e_slots e' ! k = Some (f\<lparr>produced := produced f + 1\<rparr>) \<and> produced f + 1 < max_tokens f \<and>
           length (remaining_prompt (e_work e' ! k)) = 1)) \<and>
     (e_slots e ! k = None \<or> remaining_prompt (e_work e ! k) \<noteq> [] \<longrightarrow>
        e_slots e' ! k = e_slots e ! k \<and> e_work e' ! k = e_work e ! k)"

definition slot_same :: "engine \<Rightarrow> engine \<Rightarrow> nat \<Rightarrow> bool" where
  "slot_same e e' j \<longleftrightarrow> e_slots e' ! j = e_slots e ! j \<and> e_work e' ! j = e_work e ! j"

text \<open>What every pass over the slots leaves alone.\<close>

definition pass_kept :: "engine \<Rightarrow> engine \<Rightarrow> (nat \<times> event) list \<Rightarrow> bool" where
  "pass_kept e e' new \<longleftrightarrow> same_shape e e' \<and> e_max_batch e' = e_max_batch e \<and> e_out e' = e_out e @ new"

lemma pass_kept_trans: "pass_kept a b x \<Longrightarrow> pass_kept b c y \<Longrightarrow> pass_kept a c (x @ y)"
  by (auto simp: pass_kept_def intro: same_shape_trans)

lemma post_slot_ok [keeps]:
  assumes ok: "engine_ok e" and k: "k < n_slots (e_pool e)" "k < length toks"
  shows "\<exists>e' new. post_slot al toks k e = Some e' \<and> engine_ok e' \<and> pass_kept e e' new \<and> slot_post al new e e' k \<and>
    (\<forall>j<n_slots (e_pool e). j \<noteq> k \<longrightarrow> slot_same e e' j)"
proof -
  note d = engine_okD [OF ok]
  have g: "list_get (e_slots e) k = Some (e_slots e ! k)" "list_get (e_work e) k = Some (e_work e ! k)" "list_get toks k = Some (toks ! k)"
    using k d(10,11) by (simp_all add: list_get_def)
  have fin: ?thesis if "post_slot al toks k e = Some e'" "engine_ok e'" "pass_kept e e' new" "slot_post al new e e' k"
    "\<forall>j<n_slots (e_pool e). j \<noteq> k \<longrightarrow> slot_same e e' j" for e' new using that by blast
  have kept: "pass_kept e e []" by (simp add: pass_kept_def)
  show ?thesis
  proof (cases "e_slots e ! k")
    case None
    then have "post_slot al toks k e = Some e" by (simp add: post_slot_def g)
    from fin [OF this ok kept] None show ?thesis by (simp add: slot_post_def slot_same_def)
  next
    case (Some f)
    show ?thesis
    proof (cases "remaining_prompt (e_work e ! k) = []")
      case False
      with Some have "post_slot al toks k e = Some e" by (simp add: post_slot_def g)
      from fin [OF this ok kept] False show ?thesis by (simp add: slot_post_def slot_same_def)
    next
      case rem: True
      let ?tok = "word_of_int (toks ! k) :: token" and ?f = "f\<lparr>produced := produced f + 1\<rparr>" and ?w = "e_work e ! k"
      let ?eos = "is_terminator e ?tok"
      let ?out1 = "if \<not> ?eos \<and> al (fl_reply f) then [(fl_reply f, Token ?tok)] else []"
      let ?gone = "\<not> ?eos \<and> \<not> al (fl_reply f)"
      let ?stop = "?gone \<or> ?eos \<or> max_tokens f \<le> produced f + 1"
      show ?thesis
      proof (cases ?stop)
        case False
        let ?e1 = "e\<lparr>e_out := e_out e @ ?out1\<rparr>"
        let ?t = "session_update (e_sessions e) (fl_session f) (\<lambda>x. x\<lparr>ses_tokens := ses_tokens x @ [?tok]\<rparr>)"
        let ?e2 = "?e1\<lparr>e_slots := (e_slots e)[k := Some ?f], e_work := (e_work e)[k := ?w\<lparr>remaining_prompt := [?tok]\<rparr>], e_sessions := ?t\<rparr>"
        let ?e3 = "?e2\<lparr>e_sessions := touch ?t (fl_session f)\<rparr>"
        have e2: "engine_ok ?e2" using push_token_ok [of ?e1 k f ?tok] ok k(1) Some rem False by simp
        have p: "post_slot al toks k e = Some ?e3"
          using False rem by (auto simp: post_slot_def g Some Let_def send_event_def)
        have "pass_kept e ?e3 ?out1" by (simp add: pass_kept_def same_shape_def)
        moreover have "slot_post al ?out1 e ?e3 k" using Some rem False k d(10,11) by (simp add: slot_post_def)
        moreover have "\<forall>j<n_slots (e_pool e). j \<noteq> k \<longrightarrow> slot_same e ?e3 j" by (simp add: slot_same_def)
        ultimately show ?thesis using fin [OF p] touch_engine_ok(1) [OF e2, of "fl_session f"] by simp
      next
        case stop: True
        let ?why = "if ?gone then ClientGone else if ?eos then Eos else MaxTokens"
        let ?out2 = "?out1 @ (if al (fl_reply f) then [(fl_reply f, Done ?why)] else [])"
        let ?e1 = "e\<lparr>e_out := e_out e @ ?out2\<rparr>"
        let ?e2 = "?e1\<lparr>e_slots := (e_slots e)[k := None], e_work := (e_work e)[k := ?w\<lparr>remaining_prompt := []\<rparr>]\<rparr>"
        note drop = finish_slot_ok [of ?e1 k f, simplified, OF ok k(1) Some]
        show ?thesis
        proof (cases ?gone)
          case True
          from close_engine_ok [OF drop] obtain e3 where
            c: "e_close ?e2 (fl_session f) = Some e3" "engine_ok e3" "same_shape ?e2 e3" "busy_kept ?e2 e3" by auto
          have e3: "e_slots e3 = e_slots ?e2" "e_work e3 = e_work ?e2" "e_max_batch e3 = e_max_batch e" "e_out e3 = e_out ?e2"
            using c(1) by (auto simp: e_close_def split: Option.bind_splits)
          have p: "post_slot al toks k e = Some e3"
            using True rem c(1) by (auto simp: post_slot_def g Some Let_def send_event_def)
          have "pass_kept e e3 ?out2" using c(3) e3 by (simp add: pass_kept_def same_shape_def)
          moreover have "slot_post al ?out2 e e3 k" using Some rem True k d(10,11) e3 by (simp add: slot_post_def)
          moreover have "\<forall>j<n_slots (e_pool e). j \<noteq> k \<longrightarrow> slot_same e e3 j" using e3 by (simp add: slot_same_def)
          ultimately show ?thesis using fin [OF p c(2)] by simp
        next
          case False
          let ?e3 = "?e2\<lparr>e_sessions := touch (e_sessions e) (fl_session f)\<rparr>"
          have ok3: "engine_ok ?e3" using touch_engine_ok(1) [OF drop(1), of "fl_session f"] by simp
          have p: "post_slot al toks k e = Some ?e3"
            using False stop rem by (auto simp: post_slot_def g Some Let_def send_event_def)
          have "pass_kept e ?e3 ?out2" by (simp add: pass_kept_def same_shape_def)
          moreover have "slot_post al ?out2 e ?e3 k" using Some rem k d(10,11) by (simp add: slot_post_def)
          moreover have "\<forall>j<n_slots (e_pool e). j \<noteq> k \<longrightarrow> slot_same e ?e3 j" by (simp add: slot_same_def)
          ultimately show ?thesis using fin [OF p ok3] by simp
        qed
      qed
    qed
  qed
qed

lemma slot_post_later:
  "slot_post al new e e1 k \<Longrightarrow> slot_same e1 e' k \<Longrightarrow> slot_post al (new @ rest) e e' k"
  "slot_same e e1 k \<Longrightarrow> slot_post al rest e1 e' k \<Longrightarrow> slot_post al (new @ rest) e e' k"
  unfolding slot_post_def slot_same_def by auto

lemma post_slots_ok [keeps]:
  assumes "engine_ok e" and "\<forall>k\<in>set ss. k < n_slots (e_pool e) \<and> k < length toks" and "distinct ss"
  shows "\<exists>e' new. post_slots al toks ss e = Some e' \<and> engine_ok e' \<and> pass_kept e e' new \<and>
    (\<forall>k<n_slots (e_pool e). if k \<in> set ss then slot_post al new e e' k else slot_same e e' k)"
  using assms
proof (induction ss arbitrary: e)
  case Nil
  then show ?case by (intro exI [of _ e] exI [of _ "[]"]) (simp add: pass_kept_def slot_same_def)
next
  case (Cons k ss)
  from post_slot_ok [OF Cons.prems(1), of k toks al] Cons.prems(2) obtain e1 new where
    e1: "post_slot al toks k e = Some e1" "engine_ok e1" "pass_kept e e1 new" "slot_post al new e e1 k"
      "\<forall>j<n_slots (e_pool e). j \<noteq> k \<longrightarrow> slot_same e e1 j" by auto
  have n: "n_slots (e_pool e1) = n_slots (e_pool e)" using e1(3) same_shape_n by (simp add: pass_kept_def)
  from Cons.IH [OF e1(2)] Cons.prems(2,3) obtain e' rest where
    e': "post_slots al toks ss e1 = Some e'" "engine_ok e'" "pass_kept e1 e' rest"
      "\<forall>j<n_slots (e_pool e). if j \<in> set ss then slot_post al rest e1 e' j else slot_same e1 e' j"
    unfolding n by auto
  have "if j \<in> set (k # ss) then slot_post al (new @ rest) e e' j else slot_same e e' j" if j: "j < n_slots (e_pool e)" for j
  proof (cases "j = k")
    case True
    with e'(4) j Cons.prems(3) have "slot_same e1 e' k" by auto
    with True slot_post_later(1) [OF e1(4)] show ?thesis by simp
  next
    case False
    with e1(5) j have "slot_same e e1 j" by blast
    with e'(4) j False slot_post_later(2) [of e e1 j al rest e' new] show ?thesis by (auto simp: slot_same_def)
  qed
  with e'(1,2) e1(1) pass_kept_trans [OF e1(3) e'(3)] show ?case by auto
qed

lemma fail_slots_out:
  assumes "fail_slots al err ss e = Some e'"
  shows "\<exists>new. e_out e' = e_out e @ new \<and> e_max_batch e' = e_max_batch e \<and>
    (\<forall>k\<in>set ss. \<forall>f. e_slots e ! k = Some f \<and> al (fl_reply f) \<longrightarrow> (fl_reply f, Rejected (ForwardFailed err)) \<in> set new)"
  using assms
proof (induction ss arbitrary: e)
  case Nil
  then show ?case by simp
next
  case (Cons k ss)
  show ?case
  proof (cases "e_slots e ! k")
    case None
    with Cons show ?thesis by auto
  next
    case (Some f)
    let ?sent = "if al (fl_reply f) then [(fl_reply f, Rejected (ForwardFailed err))] else []"
    from Cons.prems Some obtain e1 w where
      e1: "e_close (fst (send_event al (e\<lparr>e_slots := (e_slots e)[k := None]\<rparr>) (fl_reply f) (Rejected (ForwardFailed err)))) (fl_session f) = Some e1"
        "fail_slots al err ss (e1\<lparr>e_work := (e_work e1)[k := w\<lparr>remaining_prompt := []\<rparr>]\<rparr>) = Some e'"
      by (auto simp: split_beta split: Option.bind_splits)
    have f1: "e_out e1 = e_out e @ ?sent" "e_max_batch e1 = e_max_batch e" "e_slots e1 = (e_slots e)[k := None]"
      using e1(1) by (auto simp: e_close_def send_event_def split: Option.bind_splits if_splits)
    from Cons.IH [OF e1(2)] obtain new where
      new: "e_out e' = e_out e1 @ new" "e_max_batch e' = e_max_batch e1"
        "\<forall>j\<in>set ss. \<forall>g. e_slots e1 ! j = Some g \<and> al (fl_reply g) \<longrightarrow> (fl_reply g, Rejected (ForwardFailed err)) \<in> set new" by auto
    have "(fl_reply g, Rejected (ForwardFailed err)) \<in> set (?sent @ new)"
      if "j \<in> set (k # ss)" "e_slots e ! j = Some g" "al (fl_reply g)" for j g
      using that new(3) f1(3) Some by (cases "j = k") auto
    with new(1,2) f1(1,2) show ?thesis by (intro exI [of _ "?sent @ new"]) auto
  qed
qed

section \<open>One iteration\<close>

definition fits_staging :: "engine \<Rightarrow> bool" where
  "fits_staging e \<longleftrightarrow> batch_rows (fst (next_batch (chunk_of e) (e_work e))) \<le> e_max_batch e"

abbreviation sampled :: "step_env \<Rightarrow> bool" where
  "sampled env \<equiv> sync_ok env \<and> sample_ok env \<and> read_ids_ok env"

text \<open>Every slot that runs stays within the pool's capacity.\<close>

definition within_cap :: "engine \<Rightarrow> bool" where
  "within_cap e \<longleftrightarrow> (\<forall>k<n_slots (e_pool e). take_count (chunk_of e) (e_work e ! k) \<noteq> 0 \<longrightarrow>
     pw_next_pos (e_work e ! k) + take_count (chunk_of e) (e_work e ! k) \<le> cap_tokens (e_pool e))"

lemma stepped_within_cap: "stepped (chunk_of e) (e_work e) (e_pool e) p \<Longrightarrow> within_cap e"
  using pool_wf_len [of p] by (fastforce simp: stepped_def mid_step_def within_cap_def pool_geom_def)

text \<open>The outcomes of an iteration, with what was sent to clients.\<close>

definition step_outcome :: "step_env \<Rightarrow> engine \<Rightarrow> engine \<Rightarrow> (nat \<times> event) list \<Rightarrow> bool" where
  "step_outcome env e e' new \<longleftrightarrow>
     (let n = n_slots (e_pool e); e1 = e\<lparr>e_work := map (after_step (chunk_of e)) (e_work e)\<rparr> in
      \<comment> \<open>nothing to do\<close>
      ((\<forall>k<n. remaining_prompt (e_work e ! k) = []) \<and> new = [] \<and> (\<forall>k<n. slot_same e1 e' k)) \<or>
      \<comment> \<open>the forward failed\<close>
      ((\<forall>k<n. e_slots e' ! k = None) \<and>
         (\<forall>k<n. \<forall>f. e_slots e ! k = Some f \<and> step_alive env (fl_reply f) \<longrightarrow>
            (\<exists>err. (fl_reply f, Rejected (ForwardFailed err)) \<in> set new))) \<or>
      \<comment> \<open>it went through but no token could be sampled or read\<close>
      (within_cap e \<and> \<not> sampled env \<and> new = [] \<and> (\<forall>k<n. slot_same e1 e' k)) \<or>
      \<comment> \<open>it went through and every slot got its token\<close>
      (within_cap e \<and> sampled env \<and> (\<forall>k<n. slot_post (step_alive env) new e1 e' k)))"

lemma idle_work_empty:
  assumes ok: "engine_ok e" and idle: "all_idle e"
  shows "\<forall>k<n_slots (e_pool e). remaining_prompt (e_work e ! k) = []" "map (after_step c) (e_work e) = e_work e"
proof -
  note d = engine_okD [OF ok]
  show a: "\<forall>k<n_slots (e_pool e). remaining_prompt (e_work e ! k) = []"
    using idle idleD [OF ok] d(10) by (simp add: all_idle_def)
  show "map (after_step c) (e_work e) = e_work e"
    using a d(11) by (intro nth_equalityI) (simp_all add: after_step_def take_count_def)
qed

lemma empty_batch_no_work:
  assumes "batch_is_empty (fst (next_batch (max c 1) work))" and "k < length work" and "\<not> decoding (work ! k)"
  shows "remaining_prompt (work ! k) = []"
proof -
  have "take (take_count (max c 1) (work ! k)) (remaining_prompt (work ! k)) = []"
    using assms(1,2) by (auto simp: batch_is_empty_def next_batch_build batch_build_eq taken_def)
  then show ?thesis using assms(3) by (auto simp: take_count_def min_def split: if_splits)
qed

lemma engine_step_ok [keeps]:
  assumes ok: "engine_ok e" and env: "kernels_keep_shape env" "length (ids env) = n_slots (e_pool e)" and fit: "fits_staging e"
  shows "\<exists>e' new. engine_step env e = Some e' \<and> engine_ok e' \<and> pass_kept e e' new \<and> step_outcome env e e' new"
proof -
  note d = engine_okD [OF ok]
  let ?c = "chunk_of e" and ?n = "n_slots (e_pool e)"
  let ?e1 = "e\<lparr>e_work := map (after_step ?c) (e_work e)\<rparr>" and ?b = "fst (next_batch ?c (e_work e))"
  have fin: ?thesis if "engine_step env e = Some e'" "engine_ok e'" "pass_kept e e' new" "step_outcome env e e' new" for e' new
    using that by blast
  have nb: "snd (next_batch ?c (e_work e)) = map (after_step ?c) (e_work e)" by (simp add: next_batch_build)
  show ?thesis
  proof (cases "all_idle e")
    case True
    then have "engine_step env e = Some e" by (simp add: engine_step_def)
    from fin [OF this ok, of "[]"] idle_work_empty [OF ok True] show ?thesis
      by (simp add: pass_kept_def step_outcome_def slot_same_def Let_def)
  next
    case busy: False
    show ?thesis
    proof (cases "batch_is_empty ?b")
      case True
      then have a: "\<forall>k<?n. remaining_prompt (e_work e ! k) = []"
        using empty_batch_no_work [of "e_cap e" "e_work e"] d(5,11) by (simp add: frame_ok_def)
      have "map (after_step ?c) (e_work e) = e_work e"
        using a d(11) by (intro nth_equalityI) (simp_all add: after_step_def take_count_def)
      then have "engine_step env e = Some e" using busy True nb by (simp add: engine_step_def Let_def split_beta)
      from fin [OF this ok, of "[]"] a show ?thesis
        using d(11) by (simp add: pass_kept_def step_outcome_def slot_same_def Let_def after_step_def take_count_def)
    next
      case work: False
      note set = step_setup [OF ok]
      have m: "mid_step ?c (e_work e) (e_pool e) (e_pool ?e1)" using set(3) by simp
      have bf: "batch_fits ?c (e_work e) (e_pool e) ?e1" using d(12) fit by (simp add: batch_fits_def fits_staging_def)
      from forward_graphed_mid [OF m set(1,2) bf env(1) work] obtain e2 r where
        f: "forward_graphed env ?e1 ?b = Some (e2, r)" "host_kept ?e1 e2" "mid_step ?c (e_work e) (e_pool e) (e_pool e2)"
          "r = Inr () \<longrightarrow> stepped ?c (e_work e) (e_pool e) (e_pool e2)" by blast
      have k2: "pass_kept e e2 []" using f(2) by (simp add: pass_kept_def host_kept_def same_shape_def)
      have s2: "e_slots e2 = e_slots e" "e_work e2 = e_work ?e1" using f(2) by (simp_all add: host_kept_def)
      have n2: "n_slots (e_pool e2) = ?n" using k2 same_shape_n by (simp add: pass_kept_def)
      have start: "engine_step env e = (case r of Inl err \<Rightarrow> fail_slots (step_alive env) err [0..<length (e_slots e2)] e2
         | Inr _ \<Rightarrow> if \<not> sync_ok env \<or> \<not> sample_ok env \<or> \<not> read_ids_ok env then Some e2
             else post_slots (step_alive env) (ids env) [0..<length (e_slots e2)] e2)"
        using busy nb work f(1) by (cases r) (simp_all add: engine_step_def Let_def split_beta)
      show ?thesis
      proof (cases r)
        case (Inl err)
        from fail_slots_ok [OF mid_failing [OF ok f(2,3)], of "[0..<?n]" "step_alive env" err] n2 obtain e' where
          e': "fail_slots (step_alive env) err [0..<?n] e2 = Some e'" "failing e'" "same_shape e2 e'"
            "\<forall>k<?n. e_slots e' ! k = None" by auto
        from fail_slots_out [OF e'(1)] obtain new where
          new: "e_out e' = e_out e2 @ new" "e_max_batch e' = e_max_batch e2"
            "\<forall>k<?n. \<forall>f. e_slots e ! k = Some f \<and> step_alive env (fl_reply f) \<longrightarrow> (fl_reply f, Rejected (ForwardFailed err)) \<in> set new"
          unfolding s2 by auto
        have st: "engine_step env e = Some e'" using Inl e'(1) d(10) by (simp add: start s2)
        have "n_slots (e_pool e') = ?n" using e'(3) n2 same_shape_n by simp
        with failing_done [OF e'(2)] e'(4) have "engine_ok e'" by simp
        moreover have "pass_kept e e' new" using pass_kept_trans [OF k2, of e' new] new e'(3) by (simp add: pass_kept_def)
        moreover have "step_outcome env e e' new" using e'(4) new(3) unfolding step_outcome_def Let_def by blast
        ultimately show ?thesis using fin [OF st] by blast
      next
        case (Inr u)
        then have ok2: "engine_ok e2" and wc: "within_cap e"
          using stepped_engine_ok [OF ok f(2)] stepped_within_cap f(4) by simp_all
        show ?thesis
        proof (cases "sampled env")
          case False
          then have "engine_step env e = Some e2" using Inr by (auto simp: start)
          moreover have "step_outcome env e e2 []" using False s2 wc by (simp add: step_outcome_def slot_same_def Let_def)
          ultimately show ?thesis using fin ok2 k2 by blast
        next
          case True
          from post_slots_ok [OF ok2, of "[0..<?n]" "ids env" "step_alive env"] env(2) n2 obtain e' new where
            e': "post_slots (step_alive env) (ids env) [0..<?n] e2 = Some e'" "engine_ok e'" "pass_kept e2 e' new"
              "\<forall>k<?n. slot_post (step_alive env) new e2 e' k" by auto
          have st: "engine_step env e = Some e'" using Inr True e'(1) d(10) by (simp add: start s2)
          have "\<forall>k<?n. slot_post (step_alive env) new ?e1 e' k" using e'(4) s2 by (simp add: slot_post_def)
          then have "step_outcome env e e' new" using True wc by (simp add: step_outcome_def Let_def)
          then show ?thesis using fin [OF st e'(2)] pass_kept_trans [OF k2 e'(3)] by simp
        qed
      qed
    qed
  qed
qed

section \<open>Every request ends\<close>

text \<open>
  What a slot still has to do: prompt tokens to compute and tokens to produce. The engine is live
  when every request in flight has something to compute.
\<close>

definition slot_debt :: "engine \<Rightarrow> nat \<Rightarrow> nat" where
  "slot_debt e k = (case e_slots e ! k of None \<Rightarrow> 0
     | Some f \<Rightarrow> length (remaining_prompt (e_work e ! k)) + (max_tokens f - produced f))"

definition live :: "engine \<Rightarrow> bool" where
  "live e \<longleftrightarrow> (\<forall>k<n_slots (e_pool e). e_slots e ! k \<noteq> None \<longrightarrow> remaining_prompt (e_work e ! k) \<noteq> [])"

fun terminal :: "event \<Rightarrow> bool" where
  "terminal (Done r) = True"
| "terminal (Rejected r) = True"
| "terminal _ = False"

text \<open>The request of slot \<open>k\<close> is still there or has been answered.\<close>

definition kept_or_answered :: "step_env \<Rightarrow> (nat \<times> event) list \<Rightarrow> engine \<Rightarrow> engine \<Rightarrow> nat \<Rightarrow> bool" where
  "kept_or_answered env new e e' k \<longleftrightarrow> (\<forall>f. e_slots e ! k = Some f \<longrightarrow>
     (\<exists>f'. e_slots e' ! k = Some f' \<and> fl_reply f' = fl_reply f) \<or>
     (e_slots e' ! k = None \<and> (step_alive env (fl_reply f) \<longrightarrow> (\<exists>ev. (fl_reply f, ev) \<in> set new \<and> terminal ev))))"

lemma batch_rows_sum: "batch_rows (fst (next_batch c work)) = sum_list (map (take_count c) work)"
proof -
  have "length (take (take_count c w) (remaining_prompt w)) = take_count c w" for w
    using take_count_le [of c w] by simp
  then show ?thesis
    by (simp add: batch_rows_def next_batch_build batch_build_eq length_concat taken_def comp_def split_beta)
qed

text \<open>How much closer to its end a slot is after a successful iteration.\<close>

definition closer :: "nat \<Rightarrow> engine \<Rightarrow> engine \<Rightarrow> nat \<Rightarrow> bool" where
  "closer c e e' k \<longleftrightarrow> slot_debt e' k \<le> slot_debt e k - 1 \<and> take_count c (e_work e' ! k) \<le> take_count c (e_work e ! k) \<and>
     (e_slots e' ! k \<noteq> None \<longrightarrow> remaining_prompt (e_work e' ! k) \<noteq> [])"

lemma closer_freed:
  "remaining_prompt (e_work e' ! k) = [] \<Longrightarrow> e_slots e' ! k = None \<Longrightarrow> closer c e e' k"
  by (simp add: closer_def slot_debt_def take_count_def)

lemma step_closer:
  assumes ok: "engine_ok e" "engine_ok e'" and sh: "same_shape e e'" and lv: "live e" and s: "sampled env"
    and out: "step_outcome env e e' new" and k: "k < n_slots (e_pool e)"
  shows "closer (chunk_of e) e e' k \<and> kept_or_answered env new e e' k"
proof -
  let ?c = "chunk_of e" and ?e1 = "e\<lparr>e_work := map (after_step (chunk_of e)) (e_work e)\<rparr>"
  have k': "k < n_slots (e_pool e')" using same_shape_n [OF sh] k by simp
  have freed: ?thesis if none: "e_slots e' ! k = None" and "kept_or_answered env new e e' k"
    using closer_freed [OF idleD [OF ok(2) k' none] none] that(2) by blast
  have w1: "e_work ?e1 ! k = after_step ?c (e_work e ! k)" using k engine_okD(11) [OF ok(1)] by simp
  have nd: "\<not> decoding (e_work e ! k)" using engine_okD(5) [OF ok(1)] k by (simp add: frame_ok_def)
  have nd': "\<not> decoding (e_work e' ! k)" using engine_okD(5) [OF ok(2)] k' by (simp add: frame_ok_def)
  consider
      (nothing) "remaining_prompt (e_work e ! k) = []" "slot_same ?e1 e' k"
    | (failed) "e_slots e' ! k = None" "\<forall>f. e_slots e ! k = Some f \<and> step_alive env (fl_reply f) \<longrightarrow>
        (\<exists>err. (fl_reply f, Rejected (ForwardFailed err)) \<in> set new)"
    | (good) "slot_post (step_alive env) new ?e1 e' k"
    using out s k unfolding step_outcome_def Let_def by (elim disjE conjE) simp_all
  then show ?thesis
  proof cases
    case nothing
    then have "e_slots e' ! k = None" "e_slots e ! k = None" using lv k by (auto simp: live_def slot_same_def)
    then show ?thesis using freed by (simp add: kept_or_answered_def)
  next
    case failed
    from freed [OF failed(1)] failed show ?thesis unfolding kept_or_answered_def by (metis terminal.simps(2))
  next
    case good
    show ?thesis
    proof (cases "e_slots e ! k")
      case None
      then have "e_slots e' ! k = None" using good by (simp add: slot_post_def)
      then show ?thesis using freed None by (simp add: kept_or_answered_def)
    next
      case (Some f)
      have rem: "remaining_prompt (e_work e ! k) \<noteq> []" using lv k Some by (simp add: live_def)
      then have t: "0 < take_count ?c (e_work e ! k)" using nd by (simp add: take_count_def)
      have mx: "produced f < max_tokens f" using in_flightD [OF ok(1) k Some] by blast
      show ?thesis
      proof (cases "remaining_prompt (e_work ?e1 ! k) = []")
        case False
        then have same: "e_slots e' ! k = Some f" "e_work e' ! k = after_step ?c (e_work e ! k)"
          using good Some w1 by (simp_all add: slot_post_def)
        have "closer ?c e e' k"
          using same False w1 t rem nd unfolding closer_def slot_debt_def
          by (simp add: Some) (simp add: take_count_def after_step_def)
        then show ?thesis using same Some by (simp add: kept_or_answered_def)
      next
        case True
        from good Some True consider
            (stop) "e_slots e' ! k = None" "step_alive env (fl_reply f) \<longrightarrow> (\<exists>r. (fl_reply f, Done r) \<in> set new)"
          | (go) "e_slots e' ! k = Some (f\<lparr>produced := produced f + 1\<rparr>)" "length (remaining_prompt (e_work e' ! k)) = 1"
          unfolding slot_post_def by auto
        then show ?thesis
        proof cases
          case stop
          from freed [OF stop(1)] stop Some show ?thesis unfolding kept_or_answered_def by (metis option.inject terminal.simps(1))
        next
          case go
          obtain l where "length (remaining_prompt (e_work e ! k)) = Suc l" using rem by (cases "remaining_prompt (e_work e ! k)") auto
          then have "closer ?c e e' k"
            using go mx t nd' unfolding closer_def slot_debt_def by (auto simp: Some take_count_def)
          then show ?thesis using go Some by (simp add: kept_or_answered_def)
        qed
      qed
    qed
  qed
qed

lemma closer_fits:
  assumes "\<forall>k<n_slots (e_pool e). closer (chunk_of e) e e' k" and "pass_kept e e' new" and "fits_staging e"
    and "length (e_work e) = n_slots (e_pool e)" "length (e_work e') = n_slots (e_pool e')"
  shows "fits_staging e'"
proof -
  have n: "n_slots (e_pool e') = n_slots (e_pool e)" "e_cap e' = e_cap e" "e_max_batch e' = e_max_batch e"
    using assms(2) same_shape_n [of e e'] by (simp_all add: pass_kept_def same_shape_def)
  have "sum_list (map (take_count (chunk_of e)) (e_work e')) \<le> sum_list (map (take_count (chunk_of e)) (e_work e))"
    using assms(1,4,5) n by (intro sum_list_mono2) (auto simp: closer_def)
  then show ?thesis using assms(3) n by (simp add: fits_staging_def batch_rows_sum)
qed

lemma step_progress:
  assumes ok: "engine_ok e" and env: "kernels_keep_shape env" "length (ids env) = n_slots (e_pool e)" "sampled env"
    and fit: "fits_staging e" and lv: "live e"
  shows "\<exists>e' new. engine_step env e = Some e' \<and> engine_ok e' \<and> pass_kept e e' new \<and> live e' \<and> fits_staging e' \<and>
    (\<forall>k<n_slots (e_pool e). slot_debt e' k \<le> slot_debt e k - 1 \<and> kept_or_answered env new e e' k)"
proof -
  from engine_step_ok [OF ok env(1,2) fit] obtain e' new where
    e': "engine_step env e = Some e'" "engine_ok e'" "pass_kept e e' new" "step_outcome env e e' new" by blast
  have sh: "same_shape e e'" using e'(3) by (simp add: pass_kept_def)
  note cl = step_closer [OF ok e'(2) sh lv env(3) e'(4)]
  have "live e'" using cl same_shape_n [OF sh] by (simp add: live_def closer_def)
  moreover have "fits_staging e'"
    using closer_fits [OF _ e'(3) fit engine_okD(11) [OF ok] engine_okD(11) [OF e'(2)]] cl by blast
  ultimately show ?thesis using e' cl by (auto simp: closer_def)
qed

fun run_steps :: "step_env list \<Rightarrow> engine \<Rightarrow> engine option" where
  "run_steps [] e = Some e"
| "run_steps (env # envs) e = do { e' \<leftarrow> engine_step env e; run_steps envs e' }"

definition answered_in :: "engine \<Rightarrow> engine \<Rightarrow> nat \<Rightarrow> bool" where
  "answered_in e e' client \<longleftrightarrow> (\<exists>ev. (client, ev) \<in> set (drop (length (e_out e)) (e_out e')) \<and> terminal ev)"

lemma answered_in_earlier: "answered_in e1 e' c \<Longrightarrow> e_out e1 = e_out e @ new \<Longrightarrow> answered_in e e' c"
  unfolding answered_in_def using set_drop_subset_set_drop [of "length (e_out e)" "length (e_out e1)" "e_out e'"] by auto

lemma run_steps_drain:
  assumes "engine_ok e" and "live e" and "fits_staging e"
    and "\<forall>env\<in>set envs. kernels_keep_shape env \<and> length (ids env) = n_slots (e_pool e) \<and> sampled env"
    and "\<forall>k<n_slots (e_pool e). slot_debt e k \<le> length envs"
  shows "\<exists>e'. run_steps envs e = Some e' \<and> engine_ok e' \<and> all_idle e' \<and> prefix (e_out e) (e_out e') \<and>
    (\<forall>k<n_slots (e_pool e). \<forall>f. e_slots e ! k = Some f \<and> (\<forall>env\<in>set envs. step_alive env (fl_reply f)) \<longrightarrow>
       answered_in e e' (fl_reply f))"
  using assms
proof (induction envs arbitrary: e)
  case Nil
  have none: "e_slots e ! k = None" if k: "k < n_slots (e_pool e)" for k
  proof (rule ccontr)
    assume "e_slots e ! k \<noteq> None"
    then obtain f where f: "e_slots e ! k = Some f" by blast
    from in_flightD [OF Nil.prems(1) k f] Nil.prems(5) k f show False by (auto simp: slot_debt_def)
  qed
  then have "all_idle e" using engine_okD(10) [OF Nil.prems(1)] by (auto simp: all_idle_def in_set_conv_nth)
  with none Nil.prems(1) show ?case by simp
next
  case (Cons env envs)
  have "kernels_keep_shape env" "length (ids env) = n_slots (e_pool e)" "sampled env" using Cons.prems(4) by simp_all
  from step_progress [OF Cons.prems(1) this Cons.prems(3,2)] obtain e1 new where
    e1: "engine_step env e = Some e1" "engine_ok e1" "pass_kept e e1 new" "live e1" "fits_staging e1"
      "\<forall>k<n_slots (e_pool e). slot_debt e1 k \<le> slot_debt e k - 1 \<and> kept_or_answered env new e e1 k" by blast
  have n: "n_slots (e_pool e1) = n_slots (e_pool e)" using e1(3) same_shape_n by (simp add: pass_kept_def)
  have debt: "\<forall>k<n_slots (e_pool e). slot_debt e1 k \<le> length envs"
  proof (intro allI impI)
    fix k assume k: "k < n_slots (e_pool e)"
    then have "slot_debt e1 k \<le> slot_debt e k - 1" "slot_debt e k \<le> Suc (length envs)" using e1(6) Cons.prems(5) by auto
    then show "slot_debt e1 k \<le> length envs" by simp
  qed
  from Cons.IH [OF e1(2,4,5)] Cons.prems(4) debt obtain e' where
    e': "run_steps envs e1 = Some e'" "engine_ok e'" "all_idle e'" "prefix (e_out e1) (e_out e')"
      "\<forall>k<n_slots (e_pool e). \<forall>f. e_slots e1 ! k = Some f \<and> (\<forall>env\<in>set envs. step_alive env (fl_reply f)) \<longrightarrow>
         answered_in e1 e' (fl_reply f)" unfolding n by auto
  have out: "e_out e1 = e_out e @ new" using e1(3) by (simp add: pass_kept_def)
  have "answered_in e e' (fl_reply f)"
    if k: "k < n_slots (e_pool e)" "e_slots e ! k = Some f" and al: "\<forall>env'\<in>set (env # envs). step_alive env' (fl_reply f)" for k f
  proof -
    from e1(6) k al consider (kept) f' where "e_slots e1 ! k = Some f'" "fl_reply f' = fl_reply f"
      | (told) ev where "(fl_reply f, ev) \<in> set new" "terminal ev" unfolding kept_or_answered_def by fastforce
    then show ?thesis
    proof cases
      case kept
      with e'(5) k al have "answered_in e1 e' (fl_reply f)" by auto
      then show ?thesis using answered_in_earlier out by blast
    next
      case told
      with e'(4) show ?thesis by (auto simp: answered_in_def out prefix_def)
    qed
  qed
  with e1(1) e'(1-4) out append_prefixD show ?case by (intro exI [of _ e']) auto
qed


text \<open>A busy engine: two requests in flight, the first with \<open>n\<close> of its tokens computed.\<close>

definition busy_engine :: "nat \<Rightarrow> token list \<Rightarrow> token list \<Rightarrow> engine" where
  "busy_engine n a b = (demo_engine 1000000)\<lparr>
     e_pool := rig_pool\<lparr>descs := [(descs rig_pool ! 0)\<lparr>desc_seq_len := int n\<rparr>, (descs rig_pool ! 1)\<lparr>desc_seq_len := 0\<rparr>],
       in_use := [True, True]\<rparr>,
     e_sessions := \<lparr>sessions = [0 \<mapsto> \<lparr>ses_slot = Some 0, granted_ctx = 128, ses_tokens = a, next_pos = 0,
         ses_residency = Resident, convo = [11], last_used = 1\<rparr>, 1 \<mapsto> \<lparr>ses_slot = Some 1, granted_ctx = 128, ses_tokens = b,
         next_pos = 0, ses_residency = Resident, convo = [12], last_used = 2\<rparr>], next_id = 2, clock = 2\<rparr>,
     e_adm := (e_adm (demo_engine 1000000))\<lparr>admitted := [128, 128]\<rparr>,
     e_slots := [Some \<lparr>fl_session = 0, fl_reply = 70, produced = 0, max_tokens = 2\<rparr>,
       Some \<lparr>fl_session = 1, fl_reply = 71, produced = 0, max_tokens = 1\<rparr>],
     e_work := [\<lparr>pw_slot = 0, remaining_prompt = drop n a, pw_next_pos = n, decoding = False\<rparr>,
       \<lparr>pw_slot = 1, remaining_prompt = b, pw_next_pos = 0, decoding = False\<rparr>]\<rparr>"

lemma busy_engine_fields [simp]:
  "n_slots (e_pool (busy_engine n a b)) = 2" "e_cap (busy_engine n a b) = 128" "e_max_batch (busy_engine n a b) = 128"
  "cap_tokens (e_pool (busy_engine n a b)) = 128"
  by (simp_all add: busy_engine_def demo_engine_def rig_pool_def)

lemma busy_engine_ok:
  assumes n: "n \<le> length a" "n \<le> 128"
  shows "engine_ok (busy_engine n a b)"
proof -
  let ?e = "busy_engine n a b"
  have base: "rigs_ok (demo_engine 1000000)" using engine_okD(4) [OF demo_engine_ok(1)] by simp
  have wf: "pool_wf (e_pool ?e)"
    using demo_rig(3) [of 0] n(2) by (auto simp: rig_ok_def pool_wf_def desc_ok_def busy_engine_def rig_pool_def less_Suc_eq)
  have sh: "same_shape (demo_engine 1000000) ?e"
    by (simp add: same_shape_def busy_engine_def demo_engine_def pool_geom_def rig_pool_def)
  have len: "slot_len (e_pool ?e) 0 = n" "slot_len (e_pool ?e) (Suc 0) = 0"
    by (simp_all add: busy_engine_def rig_pool_def slot_len_def)
  have "table_ok (e_sessions ?e)" by (auto simp: busy_engine_def table_ok_def split: if_splits)
  moreover have "held_slots (e_sessions ?e) = used_slots (e_pool ?e)"
    by (auto simp: busy_engine_def held_slots_def used_slots_def rig_pool_def less_Suc_eq split: if_splits)
  moreover have "mset (admitted (e_adm ?e)) = mimage granted_ctx (sessions (e_sessions ?e))"
    using mimage_insert [of "Map.empty :: nat \<rightharpoonup> session" 0 granted_ctx]
      mimage_insert [of "[0 \<mapsto> s] :: nat \<rightharpoonup> session" 1 granted_ctx for s] by (simp add: busy_engine_def)
  moreover have "adm_ok (e_adm ?e)" by (simp add: busy_engine_def demo_engine_def adm_ok_def real_used_def)
  ultimately have "world_ok (e_pool ?e) (e_adm ?e) (e_sessions ?e)" using wf by (simp add: world_ok_def)
  moreover have "frame_ok ?e" by (auto simp: frame_ok_def busy_engine_def demo_engine_def rig_pool_def less_Suc_eq)
  moreover have "resident_lens_ok ?e"
    using len n(1) by (auto simp: resident_lens_ok_def busy_engine_def split: if_splits)
  moreover have "parked_ok ?e"
    using demo_manager_ok(1) by (simp add: parked_ok_def busy_engine_def demo_engine_def sm_parked_def parked_map_def demo_manager_def)
  moreover have "slot_coherent ?e k" if "k < 2" for k
    using that len by (auto simp: slot_coherent_def busy_engine_def less_Suc_eq numeral_2_eq_2)
  ultimately show ?thesis using rigs_ok_shape [OF base sh wf] by (simp add: engine_ok_def core_ok_def)
qed

definition demo_step :: step_env where
  "demo_step = \<lparr>use_graph = True, upload_ok = True, body_ok = True, stream_ok = True, begin_capture_ok = True,
     capture_body_ok = True, end_capture_ok = True, instantiate_ok = True, launch_ok = True, kernels = (\<lambda>_ m. m),
     sync_ok = True, sample_ok = True, read_ids_ok = True, ids = [40, 41], step_alive = (\<lambda>_. True)\<rparr>"

lemma demo_step_lawful: "kernels_keep_shape demo_step" "length (ids demo_step) = 2"
  by (simp_all add: demo_step_def kernels_keep_shape_def)


section \<open>Where the loop goes wrong\<close>

lemma sum_two: "i < length xs \<Longrightarrow> j < length xs \<Longrightarrow> i \<noteq> j \<Longrightarrow> xs ! i + xs ! j \<le> sum_list (xs :: nat list)"
proof -
  assume a: "i < length xs" "j < length xs" "i \<noteq> j"
  have "sum ((!) xs) {i, j} \<le> sum ((!) xs) {0..<length xs}" using a by (intro sum_mono2) auto
  then show ?thesis using a by (simp add: sum_list_sum_nth)
qed

lemma pure_decode_rows: "pure_decode (fst (next_batch c work)) \<Longrightarrow> batch_rows (fst (next_batch c work)) = length work"
proof -
  assume a: "pure_decode (fst (next_batch c work))"
  have t: "min (length (remaining_prompt w)) (take_count c w) = take_count c w" for w using take_count_le [of c w] by simp
  have "\<forall>w\<in>set work. take_count c w = 1"
    using a unfolding pure_decode_def next_batch_build fst_conv batch_build_eq by (auto simp: taken_def t)
  then show ?thesis unfolding batch_rows_sum by (induction work) auto
qed

text \<open>
  Property C26. Two prompts that are admitted together crash the engine when they are long: every
  prompt fits the context the engine was built for, but the scheduler takes a whole context of
  tokens from each slot while the staging buffers hold only one, and the assertion of the forward
  step panics, whatever the device does.
\<close>

theorem concurrent_prefills_panic:
  assumes "engine_ok e" and "e_max_batch e = max (e_cap e) (n_slots (e_pool e))"
    and "i < n_slots (e_pool e)" "j < n_slots (e_pool e)" "i \<noteq> j"
    and "length (remaining_prompt (e_work e ! i)) \<le> e_cap e" "length (remaining_prompt (e_work e ! j)) \<le> e_cap e"
    and "e_max_batch e < length (remaining_prompt (e_work e ! i)) + length (remaining_prompt (e_work e ! j))"
  shows "engine_step env e = None"
proof -
  note d = engine_okD [OF assms(1)]
  let ?c = "chunk_of e" and ?b = "fst (next_batch (chunk_of e) (e_work e))"
  have t: "take_count ?c (e_work e ! k) = length (remaining_prompt (e_work e ! k))"
    if "k < n_slots (e_pool e)" "length (remaining_prompt (e_work e ! k)) \<le> e_cap e" for k
    using that d(5) by (auto simp: take_count_def frame_ok_def)
  have "take_count ?c (e_work e ! i) + take_count ?c (e_work e ! j) \<le> batch_rows ?b"
    using sum_two [of i "map (take_count ?c) (e_work e)" j] assms(3-5) d(11) by (simp add: batch_rows_sum)
  then have big: "e_max_batch e < batch_rows ?b" using assms(8) t [OF assms(3,6)] t [OF assms(4,7)] by simp
  then have work: "\<not> batch_is_empty ?b" by (auto simp: batch_is_empty_def batch_rows_def)
  have busy: "\<not> all_idle e"
  proof
    assume "all_idle e"
    from idle_work_empty(1) [OF assms(1) this] assms(3,4,8) show False by simp
  qed
  have nd: "\<not> pure_decode ?b" using pure_decode_rows [of ?c "e_work e"] big assms(2) d(11) by auto
  have nb: "snd (next_batch ?c (e_work e)) = map (after_step ?c) (e_work e)" by (simp add: next_batch_build)
  have "forward_graphed env (e\<lparr>e_work := map (after_step ?c) (e_work e)\<rparr>) ?b = None"
    using nd work big by (simp add: forward_graphed_def forward_opts_def step_assertions_def)
  then show ?thesis using busy work nb by (simp add: engine_step_def Let_def split_beta)
qed

theorem concurrent_prefills_panic_witness:
  "engine_ok (busy_engine 0 (replicate 100 5) (replicate 100 6)) \<and>
   engine_step demo_step (busy_engine 0 (replicate 100 5) (replicate 100 6)) = None"
proof -
  let ?e = "busy_engine 0 (replicate 100 5) (replicate 100 6)"
  have ok: "engine_ok ?e" by (simp add: busy_engine_ok)
  have w: "remaining_prompt (e_work ?e ! 0) = replicate 100 5" "remaining_prompt (e_work ?e ! 1) = replicate 100 6"
    by (simp_all add: busy_engine_def)
  have "engine_step demo_step ?e = None"
    by (rule concurrent_prefills_panic [OF ok, of 0 1]) (simp_all only: w busy_engine_fields, simp_all)
  then show ?thesis using ok by blast
qed

text \<open>
  Property C28. A slot that outgrows the context takes every other request down with it: when one
  request would pass the capacity of its slot, the iteration ends with no request in flight, and
  every client that still listens is sent the rejection, including those whose own requests were
  fine.
\<close>

theorem overlong_request_fails_all:
  assumes "engine_ok e" and "kernels_keep_shape env" and "length (ids env) = n_slots (e_pool e)" and "fits_staging e"
    and "i < n_slots (e_pool e)" "take_count (max (e_cap e) 1) (e_work e ! i) \<noteq> 0"
    and "cap_tokens (e_pool e) < pw_next_pos (e_work e ! i) + take_count (max (e_cap e) 1) (e_work e ! i)"
  shows "\<exists>e' new. engine_step env e = Some e' \<and> engine_ok e' \<and> all_idle e' \<and> e_out e' = e_out e @ new \<and>
    (\<forall>k<n_slots (e_pool e). \<forall>f. e_slots e ! k = Some f \<and> step_alive env (fl_reply f) \<longrightarrow>
       (\<exists>err. (fl_reply f, Rejected (ForwardFailed err)) \<in> set new))"
proof -
  from engine_step_ok [OF assms(1-4)] obtain e' new where
    e': "engine_step env e = Some e'" "engine_ok e'" "pass_kept e e' new" "step_outcome env e e' new" by blast
  have "\<not> within_cap e" using assms(5-7) by (auto simp: within_cap_def not_le)
  moreover have "remaining_prompt (e_work e ! i) \<noteq> []" using assms(6) take_count_bound(1) by blast
  ultimately have out: "\<forall>k<n_slots (e_pool e). e_slots e' ! k = None"
    "\<forall>k<n_slots (e_pool e). \<forall>f. e_slots e ! k = Some f \<and> step_alive env (fl_reply f) \<longrightarrow>
       (\<exists>err. (fl_reply f, Rejected (ForwardFailed err)) \<in> set new)"
    using e'(4) assms(5) unfolding step_outcome_def Let_def by blast+
  have "n_slots (e_pool e') = n_slots (e_pool e)" using e'(3) same_shape_n by (simp add: pass_kept_def)
  with out(1) engine_okD(10) [OF e'(2)] have "all_idle e'" by (auto simp: all_idle_def in_set_conv_nth)
  then show ?thesis using e'(1-3) out(2) by (auto simp: pass_kept_def)
qed

theorem overlong_request_fails_all_witness:
  "\<exists>e'. engine_step demo_step (busy_engine 128 (replicate 130 5) [8]) = Some e' \<and> all_idle e'"
proof -
  let ?e = "busy_engine 128 (replicate 130 5) [8]"
  have t: "take_count (max (e_cap ?e) 1) (e_work ?e ! 0) = 2" "pw_next_pos (e_work ?e ! 0) = 128"
    by (simp_all add: take_count_def) (simp_all add: busy_engine_def)
  have ok: "engine_ok ?e" by (rule busy_engine_ok) simp_all
  have env: "kernels_keep_shape demo_step" "length (ids demo_step) = n_slots (e_pool ?e)" using demo_step_lawful by simp_all
  have fit: "fits_staging ?e" by (simp add: fits_staging_def batch_rows_sum) (simp add: busy_engine_def take_count_def)
  have i: "0 < n_slots (e_pool ?e)" "take_count (max (e_cap ?e) 1) (e_work ?e ! 0) \<noteq> 0"
    "cap_tokens (e_pool ?e) < pw_next_pos (e_work ?e ! 0) + take_count (max (e_cap ?e) 1) (e_work ?e ! 0)"
    unfolding t by simp_all
  from overlong_request_fails_all [OF ok env fit i] show ?thesis by blast
qed



end
