(* ===== verification/Rig_Build.thy ===== *)
theory Rig_Build
  imports Engine_Run
begin

text \<open>
  The engine's start-up and lifetime: \<^verbatim>\<open>serve_engine.rs::Rig::build\<close> with the initial locals of
  \<^verbatim>\<open>run_loop\<close>, and runs of the loop from there. The model file, the tokenizer, the GPU allocator and
  the recurrent-state constructor are parameters: \<open>build_env\<close> says what each call answers.
\<close>

record engine_config =
  cfg_n_slots :: nat
  cfg_cap_tokens :: nat
  cfg_host_budget_bytes :: nat
  cfg_swap_dir :: string

datatype layer_type = FullAttention | LinearAttention

record qwen_config =
  n_kv_heads :: nat
  head_dim :: nat
  layer_types :: "layer_type list"

record build_env =
  be_open :: bool
  be_config :: "qwen_config option"
  be_tokenizer :: "(token \<times> token option) option"
  be_stat :: "nat option"
  be_mem :: "nat option"
  be_gpu :: bool
  be_weights :: bool
  be_pool_mem :: "nat option"
  be_arena :: "nat \<Rightarrow> bool"
  be_dn :: "nat \<Rightarrow> byte list list option"
  be_staging :: bool
  be_pbs :: bool
  be_scratch :: bool
  be_logits :: bool
  be_out_tokens :: bool
  be_io :: io_env
  be_fs :: fs
  be_dir_exists :: bool

datatype build_error =
    OpenModel | BadConfig | BadTokenizer | StatModel | PreflightRefused pool_error | GpuInit | LoadWeights
  | PoolFailed pool_error | ArenaFailed | DnFailed | StagingFailed | PbsFailed | ScratchFailed
  | LogitsFailed | OutTokensFailed | SwapFailed swap_error

definition per_pos_bytes_of :: "qwen_config \<Rightarrow> nat" where
  "per_pos_bytes_of c = u64_wrap (u64_wrap (n_kv_heads c * (head_dim c div 32)) * 34)"

definition n_fa_layers_of :: "qwen_config \<Rightarrow> nat" where
  "n_fa_layers_of c = length (filter (\<lambda>t. t = FullAttention) (layer_types c))"

definition planned_bytes :: "engine_config \<Rightarrow> qwen_config \<Rightarrow> nat \<Rightarrow> nat" where
  "planned_bytes cfg c weight_bytes =
     (let cap_rounded = u64_wrap (div_ceil (cfg_cap_tokens cfg) 128 * 128);
          kv_bytes = u64_wrap (u64_wrap (u64_wrap (u64_wrap (n_fa_layers_of c * 2) * cfg_n_slots cfg) * cap_rounded) *
                       per_pos_bytes_of c)
      in u64_wrap (u64_wrap (weight_bytes + kv_bytes) + 768 * 1024 * 1024))"

text \<open>The loops that allocate: one K and one V arena per full-attention layer, one state per slot.\<close>

fun alloc_arenas :: "(nat \<Rightarrow> bool) \<Rightarrow> nat \<Rightarrow> nat \<Rightarrow> nat \<Rightarrow> (byte list list \<times> byte list list) option" where
  "alloc_arenas ok call bytes 0 = Some ([], [])"
| "alloc_arenas ok call bytes (Suc n) =
     (if ok call \<and> ok (call + 1) then do {
        (ks, vs) \<leftarrow> alloc_arenas ok (call + 2) bytes n;
        Some (replicate bytes 0 # ks, replicate bytes 0 # vs)
      }
      else None)"

fun alloc_states :: "(nat \<Rightarrow> byte list list option) \<Rightarrow> nat \<Rightarrow> nat \<Rightarrow> byte list list list option" where
  "alloc_states new call 0 = Some []"
| "alloc_states new call (Suc n) = do { s \<leftarrow> new call; ss \<leftarrow> alloc_states new (call + 1) n; Some (s # ss) }"

definition fresh_engine ::
  "engine_config \<Rightarrow> qwen_config \<Rightarrow> token \<times> token option \<Rightarrow> nat \<Rightarrow> slot_pool \<Rightarrow> byte list list \<times> byte list list \<Rightarrow>
   byte list list list \<Rightarrow> fs \<times> swap_manager \<Rightarrow> engine option" where
  "fresh_engine cfg c tok weight_bytes pool arenas dn swap = do {
     dn0 \<leftarrow> list_get dn 0;
     d0 \<leftarrow> list_get (descs pool) 0;
     Some \<lparr>e_pool = pool, e_sessions = empty_table,
       e_adm = set_host_budget (admission_new \<lparr>weights_bytes = weight_bytes,
           kv_bytes_per_token = u64_wrap (u64_wrap (n_fa_layers_of c * 2) * per_pos_bytes_of c)\<rparr> R9700_VRAM_BYTES)
         (cfg_host_budget_bytes cfg),
       e_swap = swap, e_k = fst arenas, e_v = snd arenas, e_dn = dn,
       e_stamp = \<lparr>model_hash = of_nat weight_bytes, kv_dtype_tag = 1, stamp_per_pos_bytes = of_nat (per_pos_bytes_of c),
         n_fa_layers = of_nat (n_fa_layers_of c), dn_layout_version = 1, stamp_cap = of_int (desc_cap d0),
         dn_bytes = of_nat (sum_list (map length dn0))\<rparr>,
       e_cap = cfg_cap_tokens cfg, e_max_batch = max (cfg_cap_tokens cfg) (cfg_n_slots cfg),
       e_eos = fst tok, e_eot = snd tok, e_slots = replicate (cfg_n_slots cfg) None,
       e_work = map (\<lambda>s. \<lparr>pw_slot = s, remaining_prompt = [], pw_next_pos = 0, decoding = False\<rparr>) [0..<cfg_n_slots cfg],
       e_graph = \<lparr>dg_key = None, captures = 0, replays = 0\<rparr>,
       e_stats = \<lparr>st_admitted = 0, st_rejected = 0, st_evictions = 0, st_restores = 0, st_prefix_hits = 0\<rparr>,
       e_out = []\<rparr>
   }"

definition rig_build :: "build_env \<Rightarrow> engine_config \<Rightarrow> (build_error + engine) option" where
  "rig_build env cfg =
     (if \<not> be_open env then Some (Inl OpenModel)
      else case be_config env of None \<Rightarrow> Some (Inl BadConfig)
      | Some c \<Rightarrow> (case be_tokenizer env of None \<Rightarrow> Some (Inl BadTokenizer)
      | Some tok \<Rightarrow> (case be_stat env of None \<Rightarrow> Some (Inl StatModel)
      | Some weight_bytes \<Rightarrow>
        (case preflight_alloc (be_mem env) (planned_bytes cfg c weight_bytes) R9700_VRAM_BYTES of
           Inl err \<Rightarrow> Some (Inl (PreflightRefused err))
         | Inr _ \<Rightarrow>
           if \<not> be_gpu env then Some (Inl GpuInit)
           else if \<not> be_weights env then Some (Inl LoadWeights)
           else do {
             np \<leftarrow> pool_new (be_pool_mem env) (cfg_n_slots cfg) (cfg_cap_tokens cfg) (per_pos_bytes_of c);
             case np of Inl err \<Rightarrow> Some (Inl (PoolFailed err))
             | Inr pool \<Rightarrow>
               (case alloc_arenas (be_arena env) 0 (arena_bytes pool) (n_fa_layers_of c) of None \<Rightarrow> Some (Inl ArenaFailed)
                | Some arenas \<Rightarrow>
                  (case alloc_states (be_dn env) 0 (cfg_n_slots cfg) of None \<Rightarrow> Some (Inl DnFailed)
                   | Some dn \<Rightarrow>
                     if \<not> be_staging env then Some (Inl StagingFailed)
                     else if \<not> be_pbs env then Some (Inl PbsFailed)
                     else if \<not> be_scratch env then Some (Inl ScratchFailed)
                     else if \<not> be_logits env then Some (Inl LogitsFailed)
                     else if \<not> be_out_tokens env then Some (Inl OutTokensFailed)
                     else case manager_new (be_io env) (be_fs env) (be_dir_exists env) (cfg_swap_dir cfg)
                                 (cfg_host_budget_bytes cfg) of
                            (_, Inl err) \<Rightarrow> Some (Inl (SwapFailed err))
                          | (f', Inr m) \<Rightarrow> do {
                              e \<leftarrow> fresh_engine cfg c tok weight_bytes pool arenas dn (f', m);
                              Some (Inr e)
                            }))
           }))))"

section \<open>A built rig satisfies the invariant\<close>

text \<open>
  What the build relies on: the model has at least one full-attention layer, the configuration asks
  for a non-empty context and its size arithmetic stays within 64 bits, and the recurrent states
  of all slots have the same shape.
\<close>

definition kv_plan :: "engine_config \<Rightarrow> qwen_config \<Rightarrow> nat" where
  "kv_plan cfg c = n_fa_layers_of c * 2 * cfg_n_slots cfg * (div_ceil (cfg_cap_tokens cfg) 128 * 128) *
     (n_kv_heads c * (head_dim c div 32) * 34)"

definition build_sane :: "build_env \<Rightarrow> engine_config \<Rightarrow> bool" where
  "build_sane env cfg \<longleftrightarrow> 0 < cfg_cap_tokens cfg \<and> cfg_host_budget_bytes cfg < 9223372036854775808 \<and>
     (\<forall>c w. be_config env = Some c \<and> be_stat env = Some w \<longrightarrow>
        0 < n_fa_layers_of c \<and> w + kv_plan cfg c + 805306368 \<le> u64_max) \<and>
     (\<exists>shape. sum_list shape < 1152921504606846976 \<and> (\<forall>k s. be_dn env k = Some s \<longrightarrow> map length s = shape))"

lemma alloc_arenas_shape:
  "alloc_arenas ok call bytes n = Some (ks, vs) \<Longrightarrow> ks = replicate n (replicate bytes 0) \<and> vs = replicate n (replicate bytes 0)"
  by (induction n arbitrary: call ks vs) (auto split: Option.bind_splits if_splits)

lemma alloc_states_shape:
  assumes "alloc_states new call n = Some ss" and "\<forall>k s. new k = Some s \<longrightarrow> map length s = shape"
  shows "map (map length) ss = replicate n shape"
  using assms by (induction n arbitrary: call ss) (auto split: Option.bind_splits)

lemma rounded_cap: "0 < x \<Longrightarrow> 128 \<le> div_ceil x 128 * 128"
  using div_ceil_mult_ge [of 128 x] by (cases "div_ceil x 128") simp_all

text \<open>The sizes of the plan, when nothing wraps around.\<close>

lemma plan_sizes:
  assumes f: "0 < n_fa_layers_of c" and cap: "0 < cfg_cap_tokens cfg" and n: "0 < cfg_n_slots cfg" and p: "0 < per_pos_bytes_of c"
    and plan: "w + kv_plan cfg c + 805306368 \<le> u64_max"
  shows "per_pos_bytes_of c = n_kv_heads c * (head_dim c div 32) * 34" "34 \<le> per_pos_bytes_of c"
    "planned_bytes cfg c w = w + kv_plan cfg c + 805306368"
    "n_fa_layers_of c * 2 * cfg_n_slots cfg * (div_ceil (cfg_cap_tokens cfg) 128 * 128) * per_pos_bytes_of c = kv_plan cfg c"
proof -
  let ?cap = "div_ceil (cfg_cap_tokens cfg) 128 * 128" and ?x = "n_kv_heads c * (head_dim c div 32)"
  let ?a = "n_fa_layers_of c * 2" and ?n = "cfg_n_slots cfg"
  have x: "0 < ?x" using p by (cases "?x = 0") (simp_all add: per_pos_bytes_of_def)
  have cp: "0 < ?cap" using rounded_cap [OF cap] by linarith
  have k: "kv_plan cfg c = ?a * ?n * ?cap * (?x * 34)" by (simp add: kv_plan_def)
  have pl: "?a * ?n * ?cap * (?x * 34) \<le> u64_max" using plan k by linarith
  moreover have "1 * (?x * 34) \<le> ?a * ?n * ?cap * (?x * 34)" "?a * ?n * ?cap * 1 \<le> ?a * ?n * ?cap * (?x * 34)"
    "?a * ?n * 1 \<le> ?a * ?n * ?cap" "?a * 1 \<le> ?a * ?n" "1 * ?cap \<le> ?a * ?n * ?cap"
    using f n cp x by (intro mult_le_mono; simp)+
  ultimately have b: "?x * 34 \<le> u64_max" "?a * ?n * ?cap \<le> u64_max" "?a * ?n \<le> u64_max" "?a \<le> u64_max" "?cap \<le> u64_max"
    by linarith+
  show p': "per_pos_bytes_of c = ?x * 34" using b(1) by (simp add: per_pos_bytes_of_def)
  show "34 \<le> per_pos_bytes_of c" using x p' by simp
  show "?a * ?n * ?cap * per_pos_bytes_of c = kv_plan cfg c" using p' k by simp
  show "planned_bytes cfg c w = w + kv_plan cfg c + 805306368"
    unfolding planned_bytes_def Let_def p' u64_wrap_id [OF b(5)] u64_wrap_id [OF b(4)] u64_wrap_id [OF b(3)]
      u64_wrap_id [OF b(2)] u64_wrap_id [OF pl] k [symmetric] using plan by simp
qed

lemma fresh_engine_ok:
  assumes new: "pool_new mem (cfg_n_slots cfg) (cfg_cap_tokens cfg) (per_pos_bytes_of c) = Some (Inr pool)"
    and f: "0 < n_fa_layers_of c" and cap: "0 < cfg_cap_tokens cfg" and plan: "w + kv_plan cfg c + 805306368 \<le> u64_max"
    and pre: "planned_bytes cfg c w \<le> R9700_VRAM_BYTES"
    and dn: "map (map length) dn = replicate (cfg_n_slots cfg) shape" "sum_list shape < 1152921504606846976"
    and ar: "arenas = (replicate (n_fa_layers_of c) (replicate (arena_bytes pool) 0), replicate (n_fa_layers_of c) (replicate (arena_bytes pool) 0))"
    and sw: "sm_ok swap" "sm_parked swap = Map.empty"
  shows "\<exists>e. fresh_engine cfg c tok w pool arenas dn swap = Some e \<and> engine_ok e \<and> all_idle e \<and> e_sessions e = empty_table"
proof -
  let ?n = "cfg_n_slots cfg" and ?ppb = "per_pos_bytes_of c" and ?cap = "div_ceil (cfg_cap_tokens cfg) 128 * 128"
  have n: "0 < ?n" and p: "0 < ?ppb" using new by (auto simp: pool_new_def split: if_splits)
  note sz = plan_sizes [OF f cap n p plan]
  have tot: "w + n_fa_layers_of c * 2 * ?n * ?cap * ?ppb + 805306368 \<le> 34359738368"
    using pre unfolding sz(3) sz(4) [symmetric] R9700_eq .
  have pg: "div_ceil (cfg_cap_tokens cfg) PAGE_TOKENS * PAGE_TOKENS = ?cap" by (simp add: PAGE_TOKENS_def)
  have capge: "128 \<le> ?cap" "cfg_cap_tokens cfg \<le> ?cap" using rounded_cap [OF cap] div_ceil_mult_ge [of 128 "cfg_cap_tokens cfg"] by simp_all
  define N where "N = n_fa_layers_of c * 2 * ?n * ?cap * ?ppb"
  have m1: "1 * (2 * (?cap * ?ppb)) \<le> n_fa_layers_of c * ?n * (2 * (?cap * ?ppb))"
    and m2: "1 * (n_fa_layers_of c * 2 * (?cap * ?ppb)) \<le> ?n * (n_fa_layers_of c * 2 * (?cap * ?ppb))"
    using f n by (intro mult_le_mono; simp)+
  have N: "n_fa_layers_of c * ?n * (2 * (?cap * ?ppb)) = N" "?n * (n_fa_layers_of c * 2 * (?cap * ?ppb)) = N"
    by (simp_all add: N_def ac_simps)
  have m3: "n_fa_layers_of c * 2 * 1 * 128 * 34 \<le> N" "1 * 2 * ?n * 128 * 34 \<le> N" "1 * 2 * 1 * ?cap * 34 \<le> N"
    "1 * 2 * 1 * 128 * ?ppb \<le> N"
    unfolding N_def using f n capge(1) sz(2) by (intro mult_le_mono; simp)+
  have tot': "w + N + 805306368 \<le> 34359738368" using tot by (simp add: N_def)
  have bnd: "?cap < 1073741824" "?n < 2147483648" "n_fa_layers_of c < 4294967296" "?ppb < 4294967296"
    "?cap * ?ppb \<le> u64_max" "n_fa_layers_of c * 2 * (?cap * ?ppb) \<le> N" "N \<le> 34359738368"
  proof -
    have NN: "N \<le> 33554432000" using tot' by simp
    then show "N \<le> 34359738368" by simp
    show "?cap < 1073741824" "?n < 2147483648" "n_fa_layers_of c < 4294967296" "?ppb < 4294967296" using m3 NN by simp_all
    show "n_fa_layers_of c * 2 * (?cap * ?ppb) \<le> N" using m2 unfolding N(2) mult_1 .
    have "?cap * ?ppb \<le> N" using m1 unfolding N(1) by (rule order_trans [rotated]) simp
    then show "?cap * ?ppb \<le> u64_max" using NN by (rule order_trans [OF _ order_trans]) simp
  qed
  have fits: "div_ceil (cfg_cap_tokens cfg) PAGE_TOKENS * PAGE_TOKENS * ?ppb \<le> u64_max" using bnd(5) pg by simp
  note pf = pool_new_fields [OF new fits]
  from pool_new_wf [OF new fits] sz(2) have wf: "pool_wf pool" "used_slots pool = {}" "n_slots pool = ?n" by auto
  have ldn: "length dn = ?n" using arg_cong [OF dn(1), of length] by simp
  have dnk: "map length (dn ! k) = shape" if "k < ?n" for k
    using arg_cong [OF dn(1), of "\<lambda>xs. xs ! k"] that ldn by simp
  let ?st = "\<lparr>model_hash = of_nat w, kv_dtype_tag = 1, stamp_per_pos_bytes = of_nat ?ppb,
         n_fa_layers = of_nat (n_fa_layers_of c), dn_layout_version = 1, stamp_cap = of_int (desc_cap (descs pool ! 0)),
         dn_bytes = of_nat (sum_list (map length (dn ! 0)))\<rparr>"
  obtain e where e: "fresh_engine cfg c tok w pool arenas dn swap = Some e" "e_pool e = pool" "e_sessions e = empty_table"
    "e_k e = fst arenas" "e_v e = snd arenas" "e_dn e = dn" "e_stamp e = ?st" "e_cap e = cfg_cap_tokens cfg" "e_swap e = swap"
    "e_slots e = replicate ?n None" "e_adm e = set_host_budget (admission_new \<lparr>weights_bytes = w,
           kv_bytes_per_token = u64_wrap (u64_wrap (n_fa_layers_of c * 2) * ?ppb)\<rparr> R9700_VRAM_BYTES) (cfg_host_budget_bytes cfg)"
    "e_work e = map (\<lambda>s. \<lparr>pw_slot = s, remaining_prompt = [], pw_next_pos = 0, decoding = False\<rparr>) [0..<?n]"
    using n ldn wf(3) by (simp add: fresh_engine_def list_get_def)
  have slab: "slab_bytes_of pool = ?cap * ?ppb" using pf(3,5) pg by simp
  have "rig_ok pool (slot_dev e k) ?st \<and>
      length (e_k e) * 2 * slab_bytes_of pool + sum_list (map length (dn ! k)) < 2305843009213693952" if k: "k < ?n" for k
    unfolding rig_ok_def slot_dev_def e slab ar
    using wf(1) dn(2) dnk [OF k] dnk [OF n] bnd(3,4,6,7) pf(3) by (auto simp: unat_of_nat)
  then have rigs: "rigs_ok e" using ldn wf(3) by (simp add: rigs_ok_def e)
  have "u64_wrap (u64_wrap (n_fa_layers_of c * 2) * ?ppb) \<le> n_fa_layers_of c * 2 * ?ppb"
    unfolding u64_wrap_def by (meson le_trans mod_less_eq_dividend mult_le_mono1)
  then have "cfg_cap_tokens cfg * u64_wrap (u64_wrap (n_fa_layers_of c * 2) * ?ppb) \<le> ?cap * (n_fa_layers_of c * 2 * ?ppb)"
    using capge(2) by (intro mult_le_mono)
  then have "w + cfg_cap_tokens cfg * u64_wrap (u64_wrap (n_fa_layers_of c * 2) * ?ppb) \<le> u64_max"
    using bnd(6) tot' by (simp add: ac_simps)
  then have frame: "frame_ok e" using bnd(1,2) wf(3) pf(5) pg capge(2)
    by (simp add: frame_ok_def e set_host_budget_def admission_new_def)
  have "mimage granted_ctx (sessions empty_table) = {#}" by (simp add: empty_table_def)
  then have "world_ok pool (e_adm e) empty_table"
    using wf by (simp add: world_ok_def e set_host_budget_def admission_new_def adm_ok_def R9700_eq)
  moreover have "parked_ok e" using sw by (simp add: parked_ok_def e)
  moreover have "resident_lens_ok e" by (simp add: resident_lens_ok_def e empty_table_def)
  moreover have "\<forall>k<?n. slot_coherent e k" by (simp add: slot_coherent_def e)
  ultimately have "engine_ok e" using rigs frame wf(3) by (simp add: engine_ok_def core_ok_def e(2,3))
  moreover have "all_idle e" by (simp add: all_idle_def e)
  ultimately show ?thesis using e(1,3) by blast
qed

lemma rig_build_ok:
  assumes b: "rig_build env cfg = Some (Inr e)" and sane: "build_sane env cfg"
  shows "engine_ok e \<and> all_idle e \<and> e_sessions e = empty_table"
proof -
  from b obtain c tok w pool arenas dn f' m where
    o: "be_config env = Some c" "be_stat env = Some w"
      "preflight_alloc (be_mem env) (planned_bytes cfg c w) R9700_VRAM_BYTES = Inr ()"
      "pool_new (be_pool_mem env) (cfg_n_slots cfg) (cfg_cap_tokens cfg) (per_pos_bytes_of c) = Some (Inr pool)"
      "alloc_arenas (be_arena env) 0 (arena_bytes pool) (n_fa_layers_of c) = Some arenas"
      "alloc_states (be_dn env) 0 (cfg_n_slots cfg) = Some dn"
      "manager_new (be_io env) (be_fs env) (be_dir_exists env) (cfg_swap_dir cfg) (cfg_host_budget_bytes cfg) = (f', Inr m)"
      "fresh_engine cfg c tok w pool arenas dn (f', m) = Some e"
    unfolding rig_build_def by (auto split: if_splits option.splits sum.splits Option.bind_splits prod.splits)
  from sane o(1,2) obtain shape where
    s: "0 < cfg_cap_tokens cfg" "cfg_host_budget_bytes cfg < 9223372036854775808" "0 < n_fa_layers_of c"
      "w + kv_plan cfg c + 805306368 \<le> u64_max" "sum_list shape < 1152921504606846976"
      "\<forall>k s. be_dn env k = Some s \<longrightarrow> map length s = shape" by (auto simp: build_sane_def)
  have ar: "arenas = (replicate (n_fa_layers_of c) (replicate (arena_bytes pool) 0), replicate (n_fa_layers_of c) (replicate (arena_bytes pool) 0))"
    using alloc_arenas_shape [of "be_arena env" 0 "arena_bytes pool" "n_fa_layers_of c" "fst arenas" "snd arenas"] o(5)
    by (simp add: prod_eq_iff)
  have pre: "planned_bytes cfg c w \<le> R9700_VRAM_BYTES" using o(3) preflight_alloc_Inr by blast
  from fresh_engine_ok [OF o(4) s(3,1,4) pre alloc_states_shape [OF o(6) s(6)] s(5) ar manager_new_ok [OF o(7) s(2)], of tok]
  show ?thesis using o(8) by auto
qed

section \<open>Runs of the engine loop\<close>

text \<open>
  The states the loop passes through: requests are admitted one by one, and an iteration runs when
  its batch fits the staging buffers. Whether the batch fits is up to the clients (see below).
\<close>

inductive engine_run :: "engine \<Rightarrow> engine \<Rightarrow> bool" for e0 where
  run_start: "engine_run e0 e0"
| run_admit: "engine_run e0 e \<Longrightarrow> tokens_small e \<Longrightarrow> env_lawful env \<Longrightarrow> admit_request env e req = Some e' \<Longrightarrow> engine_run e0 e'"
| run_step: "engine_run e0 e \<Longrightarrow> kernels_keep_shape env \<Longrightarrow> length (ids env) = n_slots (e_pool e) \<Longrightarrow> fits_staging e \<Longrightarrow>
    engine_step env e = Some e' \<Longrightarrow> engine_run e0 e'"

inductive_cases engine_runE: "engine_run e0 e"

lemma engine_run_ok:
  assumes "engine_run e0 e" and "engine_ok e0"
  shows "engine_ok e \<and> same_shape e0 e"
  using assms
proof (induction rule: engine_run.induct)
  case run_start
  then show ?case by simp
next
  case (run_admit e env req e')
  then have ok: "engine_ok e" "same_shape e0 e" by simp_all
  from admit_request_ok [OF ok(1) run_admit.hyps(2,3), of req] run_admit.hyps(4) same_shape_trans [OF ok(2)]
  show ?case by auto
next
  case (run_step e env e')
  then have ok: "engine_ok e" "same_shape e0 e" by simp_all
  from engine_step_ok [OF ok(1) run_step.hyps(2-4)] run_step.hyps(5) same_shape_trans [OF ok(2)]
  show ?case by (auto simp: pass_kept_def)
qed

text \<open>
  Property C1. From the rig the engine builds, through any sequence of admitted requests and
  iterations, whatever the driver, the file system, the kernels and the clients do, the invariant
  of the whole engine holds: no slot is shared, the controller, the table, the pool, the arenas and
  the parked snapshots agree, and what is left to compute of each request is exactly the part of its
  tokens that is not in its slot. In every such state admission cannot panic, and an iteration cannot
  panic unless its batch exceeds the staging buffers.
\<close>

theorem engine_lifetime_safe:
  assumes "rig_build benv cfg = Some (Inr e0)" and "build_sane benv cfg" and "engine_run e0 e"
  shows "engine_ok e \<and>
    (\<forall>env req. env_lawful env \<and> tokens_small e \<longrightarrow> admit_request env e req \<noteq> None) \<and>
    (\<forall>env. kernels_keep_shape env \<and> length (ids env) = n_slots (e_pool e) \<and> fits_staging e \<longrightarrow> engine_step env e \<noteq> None)"
proof -
  have ok: "engine_ok e" using engine_run_ok [OF assms(3)] rig_build_ok [OF assms(1,2)] by blast
  have "admit_request env e req \<noteq> None" if "env_lawful env" "tokens_small e" for env req
    using admit_request_ok [OF ok that(2,1), of req] by auto
  moreover have "engine_step env e \<noteq> None"
    if "kernels_keep_shape env" "length (ids env) = n_slots (e_pool e)" "fits_staging e" for env
    using engine_step_ok [OF ok that] by auto
  ultimately show ?thesis using ok by blast
qed

text \<open>A small model: one attention layer, one KV head, two slots of 128 tokens, a two-byte state.\<close>

definition tiny_config :: engine_config where
  "tiny_config = \<lparr>cfg_n_slots = 2, cfg_cap_tokens = 128, cfg_host_budget_bytes = 1000, cfg_swap_dir = ''/scratch''\<rparr>"

definition tiny_build :: build_env where
  "tiny_build = \<lparr>be_open = True, be_config = Some \<lparr>n_kv_heads = 1, head_dim = 32, layer_types = [LinearAttention, FullAttention]\<rparr>,
     be_tokenizer = Some (2, None), be_stat = Some 1000, be_mem = Some 34359738368, be_gpu = True, be_weights = True,
     be_pool_mem = Some 34359738368, be_arena = (\<lambda>_. True), be_dn = (\<lambda>_. Some [[0, 0]]), be_staging = True, be_pbs = True,
     be_scratch = True, be_logits = True, be_out_tokens = True, be_io = io_fine, be_fs = Map.empty, be_dir_exists = False\<rparr>"

lemma tiny_build_sane: "build_sane tiny_build tiny_config"
  by (auto simp: build_sane_def tiny_build_def tiny_config_def n_fa_layers_of_def kv_plan_def div_ceil_def intro!: exI [of _ "[2]"])

lemma tiny_builds: "\<exists>e. rig_build tiny_build tiny_config = Some (Inr e)"
proof -
  have c: "per_pos_bytes_of \<lparr>n_kv_heads = Suc 0, head_dim = 32, layer_types = ts\<rparr> = 34"
    "n_fa_layers_of \<lparr>n_kv_heads = k, head_dim = h, layer_types = [LinearAttention, FullAttention]\<rparr> = 1" for ts k h
    by (simp_all add: per_pos_bytes_of_def n_fa_layers_of_def)
  have a: "alloc_states (\<lambda>_. Some s) k 2 = Some [s, s]" for s k by (simp add: numeral_2_eq_2)
  obtain pool where p: "pool_new (Some 34359738368) 2 128 34 = Some (Inr pool)" "descs pool \<noteq> []"
    by (simp add: pool_new_def PAGE_TOKENS_def div_ceil_def checked_mul64_def preflight_alloc_def
        R9700_VRAM_BYTES_def saturating_add64_def HEADROOM_BYTES_def Let_def)
  show ?thesis
    using p(2) by (simp add: rig_build_def tiny_build_def tiny_config_def c planned_bytes_def div_ceil_def preflight_alloc_def
        R9700_VRAM_BYTES_def saturating_add64_def HEADROOM_BYTES_def Let_def p(1) a manager_new_def store_new_def
        io_fine_def fresh_engine_def list_get_def split: list.split)
qed

theorem engine_lifetime_safe_witness:
  "\<exists>e0 e1. rig_build tiny_build tiny_config = Some (Inr e0) \<and> admit_request demo_env e0 demo_request = Some e1 \<and> engine_ok e1"
proof -
  obtain e0 where b: "rig_build tiny_build tiny_config = Some (Inr e0)" using tiny_builds by blast
  have small: "tokens_small e0" using rig_build_ok [OF b tiny_build_sane] by (simp add: tokens_small_def empty_table_def)
  from engine_lifetime_safe [OF b tiny_build_sane run_start] demo_env_lawful small obtain e1 where
    e1: "admit_request demo_env e0 demo_request = Some e1" by blast
  from engine_lifetime_safe [OF b tiny_build_sane run_admit [OF run_start small demo_env_lawful e1]] b e1
  show ?thesis by blast
qed

end
