(* ===== verification/Weight_Pager.thy ===== *)
theory Weight_Pager
  imports Prelude
begin

text \<open>
  Residency of paged weights, \<^verbatim>\<open>hipfire-runtime/src/weight_pager.rs\<close>: the pager keeps a least recently
  used queue of the weights in VRAM under a byte budget and fetches a cold weight through a
  transport. The trait \<^verbatim>\<open>Transport\<close> is an argument of the pager's operations and an interface
  (locale \<open>weight_transport\<close>); \<^verbatim>\<open>PreadH2DTransport\<close> is the implementation the code has. What
  the file system, the allocator and the copy answer is a parameter (\<open>pager_env\<close>); the record \<open>gpu\<close> logs the
  addresses that were handed out, handed back and lost.
\<close>

section \<open>Identity and types\<close>

datatype expert_role = GateUp | Down
datatype shared_role = SharedGate | SharedUp | SharedDown | SigmoidGate
datatype attn_role = AttnQ | AttnK | AttnV | AttnO | AttnQkv
datatype norm_kind = NormAttn | NormFfn | NormFinal

datatype weight_id =
    Expert "16 word" "16 word" expert_role
  | SharedExpert "16 word" shared_role
  | Router "16 word"
  | DenseAttn "16 word" attn_role
  | Norm "16 word" norm_kind
  | Embed
  | LmHead

record byte_range =
  range_offset :: nat
  range_len :: nat

record gpu_tensor =
  dev_ptr :: "64 word"
  dev_bytes :: "byte list"

record gpu =
  allocated :: "64 word list"
  freed :: "64 word list"
  leaked :: "64 word list"

datatype pager_error =
    NotRegistered weight_id
  | HipFailed
  | BudgetExhausted nat nat nat
  | Unimplemented string

record resident_weight =
  res_tensor :: gpu_tensor
  res_bytes :: nat

record 't pager =
  resident :: "weight_id \<rightharpoonup> resident_weight"
  lru :: "weight_id list"
  vram_used :: nat
  catalog :: "weight_id \<rightharpoonup> byte_range"
  transport :: 't
  vram_budget :: nat

section \<open>The pread transport\<close>

record pread_transport =
  tr_file :: "byte list"
  staging :: "byte list"
  tr_next_handle :: nat

text \<open>What the operating system and the allocator answer to the next call.\<close>

record pager_env =
  read_works :: bool
  malloc_at :: "64 word option"
  copy_works :: bool

definition pread_into_staging :: "pager_env \<Rightarrow> pread_transport \<Rightarrow> nat \<Rightarrow> nat \<Rightarrow> pread_transport \<times> bool" where
  "pread_into_staging env t offset n =
     (let t1 = (if length (staging t) < n then t\<lparr>staging := staging t @ replicate (n - length (staging t)) 0\<rparr> else t)
      in if read_works env \<and> offset + n \<le> length (tr_file t)
         then (t1\<lparr>staging := take n (drop offset (tr_file t)) @ drop n (staging t1)\<rparr>, True)
         else (t1, False))"

definition next_handle :: "pread_transport \<Rightarrow> pread_transport \<times> nat" where
  "next_handle t = (t\<lparr>tr_next_handle := tr_next_handle t + 1\<rparr>, tr_next_handle t)"

text \<open>
  \<^verbatim>\<open>Gpu::upload_raw\<close> allocates and copies. When the copy fails, the early return drops the buffer, and a
  \<^verbatim>\<open>DeviceBuffer\<close> that is dropped is not freed: the address goes to \<open>leaked\<close>.
\<close>

definition upload_raw :: "pager_env \<Rightarrow> gpu \<Rightarrow> byte list \<Rightarrow> gpu \<times> (pager_error + gpu_tensor)" where
  "upload_raw env g bytes =
     (case malloc_at env of
        None \<Rightarrow> (g, Inl HipFailed)
      | Some a \<Rightarrow>
          let g1 = g\<lparr>allocated := allocated g @ [a]\<rparr>
          in if copy_works env then (g1, Inr \<lparr>dev_ptr = a, dev_bytes = bytes\<rparr>)
             else (g1\<lparr>leaked := leaked g1 @ [a]\<rparr>, Inl HipFailed))"

definition pread_fetch ::
  "pager_env \<Rightarrow> pread_transport \<Rightarrow> gpu \<Rightarrow> nat \<Rightarrow> nat \<Rightarrow> pread_transport \<times> gpu \<times> (pager_error + gpu_tensor)" where
  "pread_fetch env t g offset n =
     (let (t1, ok) = pread_into_staging env t offset n
      in if \<not> ok then (t1, g, Inl HipFailed)
         else
           let (g1, r) = upload_raw env g (take n (staging t1))
           in (case r of
                 Inl e \<Rightarrow> (t1, g1, Inl e)
               | Inr tns \<Rightarrow> (fst (next_handle t1), g1, Inr tns)))"

section \<open>The pager\<close>

definition pager_new :: "'t \<Rightarrow> nat \<Rightarrow> 't pager" where
  "pager_new t budget = \<lparr>resident = Map.empty, lru = [], vram_used = 0, catalog = Map.empty, transport = t, vram_budget = budget\<rparr>"

definition register :: "'t pager \<Rightarrow> weight_id \<Rightarrow> byte_range \<Rightarrow> 't pager" where
  "register p wid r = p\<lparr>catalog := (catalog p)(wid \<mapsto> r)\<rparr>"

definition is_resident :: "'t pager \<Rightarrow> weight_id \<Rightarrow> bool" where
  "is_resident p wid \<longleftrightarrow> resident p wid \<noteq> None"

definition pager_get :: "'t pager \<Rightarrow> weight_id \<Rightarrow> gpu_tensor option" where
  "pager_get p wid = map_option res_tensor (resident p wid)"

definition touch_lru :: "'t pager \<Rightarrow> weight_id \<Rightarrow> 't pager" where
  "touch_lru p wid =
     (case position (\<lambda>x. x = wid) (lru p) of
        None \<Rightarrow> p
      | Some i \<Rightarrow> p\<lparr>lru := take i (lru p) @ drop (Suc i) (lru p) @ [wid]\<rparr>)"

definition would_fit :: "'t pager \<Rightarrow> nat \<Rightarrow> pager_error + unit" where
  "would_fit p need =
     (if vram_budget p \<noteq> u64_max \<and> vram_budget p < need
      then Inl (BudgetExhausted need (vram_used p) (vram_budget p)) else Inr ())"

definition free_tensor :: "gpu \<Rightarrow> gpu_tensor \<Rightarrow> gpu" where
  "free_tensor g tns = g\<lparr>freed := freed g @ [dev_ptr tns]\<rparr>"

text \<open>The loop of \<^verbatim>\<open>evict_lru_until\<close>, popping the front of the queue.\<close>

fun evict_loop :: "nat \<Rightarrow> nat \<Rightarrow> weight_id list \<Rightarrow> 't pager \<Rightarrow> gpu \<Rightarrow> 't pager \<times> gpu \<times> (pager_error + unit)" where
  "evict_loop need target [] p g =
     (if target < vram_used p then (p\<lparr>lru := []\<rparr>, g, Inl (BudgetExhausted need (vram_used p) (vram_budget p)))
      else (p\<lparr>lru := []\<rparr>, g, Inr ()))"
| "evict_loop need target (wid # queue) p g =
     (if vram_used p \<le> target then (p\<lparr>lru := wid # queue\<rparr>, g, Inr ())
      else case resident p wid of
             None \<Rightarrow> evict_loop need target queue p g
           | Some r \<Rightarrow> evict_loop need target queue
               (p\<lparr>resident := (resident p)(wid := None), vram_used := vram_used p - res_bytes r\<rparr>) (free_tensor g (res_tensor r)))"

definition evict_lru_until :: "'t pager \<Rightarrow> gpu \<Rightarrow> nat \<Rightarrow> 't pager \<times> gpu \<times> (pager_error + unit)" where
  "evict_lru_until p g need =
     (case would_fit p need of
        Inl e \<Rightarrow> (p, g, Inl e)
      | Inr _ \<Rightarrow> evict_loop need (vram_budget p - need) (lru p) p g)"

type_synonym 't fetcher = "'t \<Rightarrow> gpu \<Rightarrow> nat \<Rightarrow> nat \<Rightarrow> 't \<times> gpu \<times> (pager_error + gpu_tensor)"

definition ensure_resident :: "'t fetcher \<Rightarrow> 't pager \<Rightarrow> gpu \<Rightarrow> weight_id \<Rightarrow> 't pager \<times> gpu \<times> (pager_error + unit)" where
  "ensure_resident fetch p g wid =
     (if resident p wid \<noteq> None then (touch_lru p wid, g, Inr ())
      else case catalog p wid of
        None \<Rightarrow> (p, g, Inl (NotRegistered wid))
      | Some br \<Rightarrow>
          let need = range_len br
          in (case would_fit p need of
                Inl e \<Rightarrow> (p, g, Inl e)
              | Inr _ \<Rightarrow>
                  let (p1, g1, r) =
                    (if vram_budget p \<noteq> u64_max \<and> vram_budget p < saturating_add64 (vram_used p) need
                     then evict_lru_until p g need else (p, g, Inr ()))
                  in (case r of
                        Inl e \<Rightarrow> (p1, g1, Inl e)
                      | Inr _ \<Rightarrow>
                          let (t', g2, f) = fetch (transport p1) g1 (range_offset br) (range_len br);
                              p2 = p1\<lparr>transport := t'\<rparr>
                          in (case f of
                                Inl e \<Rightarrow> (p2, g2, Inl e)
                              | Inr tns \<Rightarrow>
                                  (p2\<lparr>vram_used := saturating_add64 (vram_used p2) need,
                                      resident := (resident p2)(wid \<mapsto> \<lparr>res_tensor = tns, res_bytes = need\<rparr>),
                                      lru := lru p2 @ [wid]\<rparr>, g2, Inr ())))))"

definition insert_resident :: "'t pager \<Rightarrow> weight_id \<Rightarrow> gpu_tensor \<Rightarrow> nat \<Rightarrow> 't pager" where
  "insert_resident p wid tns n =
     (let p1 = (case resident p wid of
                  None \<Rightarrow> p
                | Some prev \<Rightarrow> p\<lparr>resident := (resident p)(wid := None), vram_used := vram_used p - res_bytes prev,
                                 lru := filter (\<lambda>x. x \<noteq> wid) (lru p)\<rparr>)
      in p1\<lparr>resident := (resident p1)(wid \<mapsto> \<lparr>res_tensor = tns, res_bytes = n\<rparr>), lru := lru p1 @ [wid],
            vram_used := saturating_add64 (vram_used p1) n\<rparr>)"

text \<open>
  \<^verbatim>\<open>free_all\<close> drains the map; the order of a hash map is not specified, the queue's order stands for it.
\<close>

definition free_all :: "'t pager \<Rightarrow> gpu \<Rightarrow> 't pager \<times> gpu" where
  "free_all p g =
     (p\<lparr>resident := Map.empty, lru := [], vram_used := 0\<rparr>,
      g\<lparr>freed := freed g @ map (dev_ptr \<circ> res_tensor) (List.map_filter (resident p) (lru p))\<rparr>)"

text \<open>
  The driver's host-to-device copy at an offset asserts that the range lies in the buffer, and then answers
  with success or an error. \<^verbatim>\<open>patch_expert_ptr_table\<close> writes the resident buffers' addresses into two device
  tables of 8-byte entries with it; a missing expert is a panic.
\<close>

type_synonym poke = "byte list \<Rightarrow> nat \<Rightarrow> byte list \<Rightarrow> (pager_error + byte list) option"

definition memcpy_htod_offset :: "bool \<Rightarrow> poke" where
  "memcpy_htod_offset works buf offset bytes =
     (if offset + length bytes \<le> length buf
      then Some (if works then Inr (take offset buf @ bytes @ drop (offset + length bytes) buf) else Inl HipFailed)
      else None)"

fun patch_expert_ptr_table ::
  "poke \<Rightarrow> 't pager \<Rightarrow> 16 word \<Rightarrow> 16 word list \<Rightarrow> byte list \<times> byte list \<Rightarrow> ((byte list \<times> byte list) \<times> (pager_error + unit)) option" where
  "patch_expert_ptr_table poke p layer [] tabs = Some (tabs, Inr ())"
| "patch_expert_ptr_table poke p layer (idx # rest) (gate_up, down) = do {
     a \<leftarrow> resident p (Expert layer idx GateUp);
     b \<leftarrow> resident p (Expert layer idx Down);
     let offset = unat idx * 8;
     ra \<leftarrow> poke gate_up offset (le_bytes 8 (unat (dev_ptr (res_tensor a))));
     case ra of
       Inl e \<Rightarrow> Some ((gate_up, down), Inl e)
     | Inr gate_up' \<Rightarrow> do {
         rb \<leftarrow> poke down offset (le_bytes 8 (unat (dev_ptr (res_tensor b))));
         case rb of
           Inl e \<Rightarrow> Some ((gate_up', down), Inl e)
         | Inr down' \<Rightarrow> patch_expert_ptr_table poke p layer rest (gate_up', down')
       }
   }"

section \<open>The invariant\<close>

definition buffer_of :: "byte list \<Rightarrow> byte_range \<Rightarrow> resident_weight \<Rightarrow> bool" where
  "buffer_of file br r \<longleftrightarrow>
     range_offset br + range_len br \<le> length file \<and> res_bytes r = range_len br \<and>
     dev_bytes (res_tensor r) = take (range_len br) (drop (range_offset br) file)"

definition pager_ok :: "byte list \<Rightarrow> 't pager \<Rightarrow> gpu \<Rightarrow> bool" where
  "pager_ok file p g \<longleftrightarrow>
     distinct (lru p) \<and> set (lru p) = dom (resident p) \<and>
     vram_used p = msum res_bytes (resident p) \<and> vram_used p \<le> vram_budget p \<and> vram_budget p < u64_max \<and>
     (\<forall>wid r. resident p wid = Some r \<longrightarrow> (\<exists>br. catalog p wid = Some br \<and> buffer_of file br r)) \<and>
     mset (allocated g) = mset (freed g) + mset (leaked g) + mimage (dev_ptr \<circ> res_tensor) (resident p)"

lemma pager_okD:
  assumes "pager_ok file p g"
  shows "distinct (lru p)" "set (lru p) = dom (resident p)" "vram_used p = msum res_bytes (resident p)"
    "vram_used p \<le> vram_budget p" "vram_budget p < u64_max" "finite (dom (resident p))"
    "mset (allocated g) = mset (freed g) + mset (leaked g) + mimage (dev_ptr \<circ> res_tensor) (resident p)"
    "\<And>wid r. resident p wid = Some r \<Longrightarrow> \<exists>br. catalog p wid = Some br \<and> buffer_of file br r"
  using assms finite_set [of "lru p"] by (auto simp: pager_ok_def)

definition weight_size :: "(weight_id \<rightharpoonup> byte_range) \<Rightarrow> weight_id \<Rightarrow> nat" where
  "weight_size cat wid = (case cat wid of None \<Rightarrow> 0 | Some br \<Rightarrow> range_len br)"

lemma pager_used_lru:
  assumes "pager_ok file p g"
  shows "vram_used p = sum_list (map (weight_size (catalog p)) (lru p))"
proof -
  note ok = pager_okD [OF assms]
  have "vram_used p = (\<Sum>wid\<in>set (lru p). res_bytes (the (resident p wid)))"
    using ok(2,3) by (simp add: msum_def)
  also have "\<dots> = (\<Sum>wid\<in>set (lru p). weight_size (catalog p) wid)"
    using ok(2) by (intro sum.cong) (fastforce simp: weight_size_def buffer_of_def dest: ok(8))+
  finally show ?thesis using ok(1) by (simp add: sum.distinct_set_conv_list)
qed

section \<open>The least recently used policy\<close>

text \<open>
  What the pager promises: a queue of weights, least recently used first; an access moves its weight to
  the back, after dropping the shortest front that makes room for it.
\<close>

fun lru_trim :: "('k \<Rightarrow> nat) \<Rightarrow> nat \<Rightarrow> 'k list \<Rightarrow> 'k list" where
  "lru_trim sz limit [] = []"
| "lru_trim sz limit (k # ks) =
     (if sum_list (map sz (k # ks)) \<le> limit then k # ks else lru_trim sz limit ks)"

definition lru_access :: "('k \<Rightarrow> nat) \<Rightarrow> nat \<Rightarrow> 'k \<Rightarrow> 'k list \<Rightarrow> 'k list" where
  "lru_access sz budget k ks =
     (if k \<in> set ks then remove1 k ks @ [k] else lru_trim sz (budget - sz k) ks @ [k])"

lemma lru_trim_fits: "sum_list (map sz (lru_trim sz limit ks)) \<le> limit"
  by (induction ks) auto

lemma lru_trim_suffix: "\<exists>front. ks = front @ lru_trim sz limit ks"
proof (induction ks)
  case Nil
  then show ?case by simp
next
  case (Cons k ks)
  then obtain front where "ks = front @ lru_trim sz limit ks" ..
  then show ?case
    by (cases "sum_list (map sz (k # ks)) \<le> limit") (auto intro: exI [of _ "k # front"])
qed

lemma lru_trim_subset: "set (lru_trim sz limit ks) \<subseteq> set ks"
  by (metis lru_trim_suffix set_append sup_ge2)

lemma lru_trim_distinct: "distinct ks \<Longrightarrow> distinct (lru_trim sz limit ks)"
  by (metis distinct_append lru_trim_suffix)

lemma lru_trim_id: "sum_list (map sz ks) \<le> limit \<Longrightarrow> lru_trim sz limit ks = ks"
  by (cases ks) auto

lemma lru_trim_keeps:
  "sum_list (map sz back) \<le> limit \<Longrightarrow> \<exists>rest. lru_trim sz limit (front @ back) = rest @ back"
proof (induction front)
  case Nil
  then show ?case by (simp add: lru_trim_id)
next
  case (Cons k front)
  then obtain rest where "lru_trim sz limit (front @ back) = rest @ back" by auto
  then show ?case
    by (cases "sum_list (map sz (k # front @ back)) \<le> limit") (auto intro: exI [of _ "k # front"])
qed

section \<open>Eviction\<close>

lemma leaked_free [simp]: "leaked (free_tensor g tns) = leaked g"
  by (simp add: free_tensor_def)

text \<open>Dropping the front of the queue keeps the invariant; it is one turn of the loop.\<close>

lemma evict_one_ok:
  assumes "pager_ok file (p\<lparr>lru := wid # queue\<rparr>) g" and "resident p wid = Some r"
  shows "pager_ok file
           (p\<lparr>resident := (resident p)(wid := None), vram_used := vram_used p - res_bytes r, lru := queue\<rparr>)
           (free_tensor g (res_tensor r))"
proof -
  note ok = pager_okD [OF assms(1), simplified]
  have sum: "msum res_bytes (resident p) = res_bytes r + msum res_bytes ((resident p)(wid := None))"
    and imgs: "mimage (dev_ptr \<circ> res_tensor) (resident p)
               = add_mset (dev_ptr (res_tensor r)) (mimage (dev_ptr \<circ> res_tensor) ((resident p)(wid := None)))"
    using msum_remove [OF ok(6) assms(2)] mimage_remove [OF ok(6) assms(2), of "dev_ptr \<circ> res_tensor"] by simp_all
  have q: "set queue = dom (resident p) - {wid}" using ok(1,2) by auto
  have "\<exists>br. catalog p w = Some br \<and> buffer_of file br x"
    if "((resident p)(wid := None)) w = Some x" for w x
    using that ok(8) by (auto split: if_splits)
  then show ?thesis
    unfolding pager_ok_def free_tensor_def using ok(1,3,4,5,7) sum imgs q by simp
qed

text \<open>
  Under the invariant the loop never runs out of residents: it succeeds for every target, leaves the
  policy's queue, and forgets exactly the weights it dropped.
\<close>

lemma evict_loop_ok:
  assumes "pager_ok file (p\<lparr>lru := queue\<rparr>) g"
  shows "\<exists>p' g'. evict_loop need target queue p g = (p', g', Inr ()) \<and> pager_ok file p' g' \<and>
           lru p' = lru_trim (weight_size (catalog p)) target queue \<and>
           catalog p' = catalog p \<and> transport p' = transport p \<and> vram_budget p' = vram_budget p \<and>
           leaked g' = leaked g \<and> (\<forall>w. resident p' w = (if w \<in> set (lru p') then resident p w else None))"
  using assms
proof (induction queue arbitrary: p g)
  case Nil
  have "dom (resident p) = {}" and "vram_used p = 0"
    using pager_okD(2) [OF Nil] pager_used_lru [OF Nil] by simp_all
  then show ?case using Nil by simp
next
  case (Cons wid queue)
  note ok = pager_okD [OF Cons.prems, simplified]
  have used: "vram_used p = sum_list (map (weight_size (catalog p)) (wid # queue))"
    using pager_used_lru [OF Cons.prems] by simp
  show ?case
  proof (cases "vram_used p \<le> target")
    case True
    have "\<forall>w. resident p w = (if w \<in> set (wid # queue) then resident p w else None)"
      using ok(2) by auto
    then show ?thesis using True Cons.prems used by simp
  next
    case False
    obtain r where r: "resident p wid = Some r" using ok(2) by auto
    let ?p = "p\<lparr>resident := (resident p)(wid := None), vram_used := vram_used p - res_bytes r\<rparr>"
    let ?g = "free_tensor g (res_tensor r)"
    have "pager_ok file (?p\<lparr>lru := queue\<rparr>) ?g"
      using evict_one_ok [OF Cons.prems r] by simp
    from Cons.IH [OF this] obtain p' g' where
      run: "evict_loop need target queue ?p ?g = (p', g', Inr ())" and ok': "pager_ok file p' g'"
      and l: "lru p' = lru_trim (weight_size (catalog p)) target queue"
      and fr: "catalog p' = catalog p" "transport p' = transport p" "vram_budget p' = vram_budget p"
      and lk: "leaked g' = leaked g"
      and res: "\<forall>w. resident p' w = (if w \<in> set (lru p') then resident ?p w else None)"
      by auto
    have "wid \<notin> set (lru p')"
      using ok(1) lru_trim_subset [of "weight_size (catalog p)" target queue] l by auto
    then have "\<forall>w. resident p' w = (if w \<in> set (lru p') then resident p w else None)"
      using res by auto
    moreover have "lru p' = lru_trim (weight_size (catalog p)) target (wid # queue)"
      using False l used by simp
    ultimately show ?thesis using False r run ok' fr lk by simp
  qed
qed

text \<open>Making room for a weight that can fit always succeeds.\<close>

lemma make_room_ok:
  assumes "pager_ok file p g" and "need \<le> vram_budget p"
  shows "\<exists>p1 g1. (if vram_budget p \<noteq> u64_max \<and> vram_budget p < saturating_add64 (vram_used p) need
                   then evict_lru_until p g need else (p, g, Inr ())) = (p1, g1, Inr ()) \<and>
           pager_ok file p1 g1 \<and> lru p1 = lru_trim (weight_size (catalog p)) (vram_budget p - need) (lru p) \<and>
           vram_used p1 + need \<le> vram_budget p \<and> catalog p1 = catalog p \<and> transport p1 = transport p \<and>
           vram_budget p1 = vram_budget p \<and> leaked g1 = leaked g \<and>
           (\<forall>w. resident p1 w = (if w \<in> set (lru p1) then resident p w else None))"
proof (cases "vram_budget p < saturating_add64 (vram_used p) need")
  case True
  have "pager_ok file (p\<lparr>lru := lru p\<rparr>) g" using assms(1) by simp
  from evict_loop_ok [OF this, of need "vram_budget p - need"] obtain p1 g1 where
    run: "evict_loop need (vram_budget p - need) (lru p) p g = (p1, g1, Inr ())" and ok: "pager_ok file p1 g1"
    and l: "lru p1 = lru_trim (weight_size (catalog p)) (vram_budget p - need) (lru p)"
    and fr: "catalog p1 = catalog p" "transport p1 = transport p" "vram_budget p1 = vram_budget p" "leaked g1 = leaked g"
      "\<forall>w. resident p1 w = (if w \<in> set (lru p1) then resident p w else None)"
    by auto
  have "vram_used p1 \<le> vram_budget p - need"
    using pager_used_lru [OF ok] lru_trim_fits [of "weight_size (catalog p)" "vram_budget p - need" "lru p"] l fr(1)
    by simp
  moreover have "evict_lru_until p g need = (p1, g1, Inr ())"
    using run assms(2) by (simp add: evict_lru_until_def would_fit_def)
  ultimately show ?thesis using True ok l fr assms pager_okD(5) [OF assms(1)] by simp
next
  case False
  have fits: "vram_used p + need \<le> vram_budget p"
    using False pager_okD(5) [OF assms(1)] by (simp add: saturating_add64_def)
  have "lru_trim (weight_size (catalog p)) (vram_budget p - need) (lru p) = lru p"
    using fits pager_used_lru [OF assms(1)] by (intro lru_trim_id) simp
  moreover have "\<forall>w. resident p w = (if w \<in> set (lru p) then resident p w else None)"
    using pager_okD(2) [OF assms(1)] by auto
  ultimately show ?thesis using False fits assms(1) by simp
qed

lemma take_drop_position:
  "position (\<lambda>x. x = k) ks = Some i \<Longrightarrow> take i ks @ drop (Suc i) ks = remove1 k ks"
  by (induction ks arbitrary: i) (auto split: if_splits)

lemma touch_lru_eq:
  "touch_lru p wid = (if wid \<in> set (lru p) then p\<lparr>lru := remove1 wid (lru p) @ [wid]\<rparr> else p)"
proof (cases "position (\<lambda>x. x = wid) (lru p)")
  case None
  then have "wid \<notin> set (lru p)" by (auto simp: position_None_iff)
  then show ?thesis using None by (simp add: touch_lru_def)
next
  case (Some i)
  then have "wid \<in> set (lru p)" by (auto simp: position_Some_iff)
  moreover have "take i (lru p) @ drop (Suc i) (lru p) @ [wid] = remove1 wid (lru p) @ [wid]"
    using take_drop_position [OF Some] by (metis append.assoc)
  ultimately show ?thesis using Some by (simp add: touch_lru_def)
qed

lemma touch_lru_ok [keeps]: "pager_ok file p g \<Longrightarrow> pager_ok file (touch_lru p wid) g"
  by (auto simp: pager_ok_def touch_lru_eq set_remove1_eq)

lemma evict_lru_until_ok [keeps]:
  assumes "pager_ok file p g" and "evict_lru_until p g need = (p', g', r)"
  shows "pager_ok file p' g' \<and> transport p' = transport p \<and> catalog p' = catalog p \<and>
         vram_budget p' = vram_budget p \<and> leaked g' = leaked g"
proof (cases "need \<le> vram_budget p")
  case True
  have "pager_ok file (p\<lparr>lru := lru p\<rparr>) g" using assms(1) by simp
  from evict_loop_ok [OF this, of need "vram_budget p - need"] show ?thesis
    using assms(2) True by (auto simp: evict_lru_until_def would_fit_def)
next
  case False
  then show ?thesis using assms pager_okD(5) [OF assms(1)] by (simp add: evict_lru_until_def would_fit_def)
qed

lemma mset_map_filter_lru:
  "distinct ks \<Longrightarrow> set ks = dom m \<Longrightarrow> mset (map f (List.map_filter m ks)) = mimage f m"
proof -
  assume d: "distinct ks" "set ks = dom m"
  then have "filter (\<lambda>k. m k \<noteq> None) ks = ks" by (auto intro!: filter_True)
  then have "List.map_filter m ks = map (\<lambda>k. the (m k)) ks"
    by (simp add: List.map_filter_def comp_def)
  then show ?thesis using d by (simp add: mimage_def mset_set_set [symmetric] comp_def)
qed

lemma free_all_ok [keeps]:
  assumes "pager_ok file p g" and "free_all p g = (p', g')"
  shows "pager_ok file p' g' \<and> transport p' = transport p \<and> catalog p' = catalog p \<and>
         vram_budget p' = vram_budget p \<and> leaked g' = leaked g \<and>
         mset (allocated g') = mset (freed g') + mset (leaked g')"
proof -
  note ok = pager_okD [OF assms(1)]
  have fl: "mset (map (dev_ptr \<circ> res_tensor) (List.map_filter (resident p) (lru p)))
            = mimage (dev_ptr \<circ> res_tensor) (resident p)"
    by (rule mset_map_filter_lru [OF ok(1,2)])
  have "p' = p\<lparr>resident := Map.empty, lru := [], vram_used := 0\<rparr>"
    and "g' = g\<lparr>freed := freed g @ map (dev_ptr \<circ> res_tensor) (List.map_filter (resident p) (lru p))\<rparr>"
    using assms(2) by (simp_all add: free_all_def)
  then show ?thesis using ok(5,7) fl by (simp add: pager_ok_def)
qed

section \<open>The transport interface\<close>

text \<open>
  What the pager relies on in a transport: a fetch that succeeds hands out a buffer with the requested
  bytes of the file, a fetch that fails hands out nothing that it does not lose itself, and the file
  does not change.
\<close>

locale weight_transport =
  fixes fetch :: "'t fetcher" and file_of :: "'t \<Rightarrow> byte list"
  assumes fetch_ok: "fetch t g offset n = (t', g', Inr tns) \<Longrightarrow>
      offset + n \<le> length (file_of t) \<and> dev_bytes tns = take n (drop offset (file_of t)) \<and>
      g' = g\<lparr>allocated := allocated g @ [dev_ptr tns]\<rparr>"
    and fetch_err: "fetch t g offset n = (t', g', Inl e) \<Longrightarrow>
      \<exists>lost. g' = g\<lparr>allocated := allocated g @ lost, leaked := leaked g @ lost\<rparr>"
    and fetch_file: "fetch t g offset n = (t', g', r) \<Longrightarrow> file_of t' = file_of t"
begin

lemma load_ok:
  assumes "pager_ok (file_of (transport p)) p g" and "resident p wid = None" and "catalog p wid = Some br"
    and "vram_used p + range_len br \<le> vram_budget p"
    and "fetch (transport p) g (range_offset br) (range_len br) = (t', g', Inr tns)"
  shows "pager_ok (file_of (transport p))
           (p\<lparr>transport := t', vram_used := saturating_add64 (vram_used p) (range_len br),
              resident := (resident p)(wid \<mapsto> \<lparr>res_tensor = tns, res_bytes = range_len br\<rparr>), lru := lru p @ [wid]\<rparr>) g'"
proof -
  note ok = pager_okD [OF assms(1)]
  let ?r = "\<lparr>res_tensor = tns, res_bytes = range_len br\<rparr>"
  have buf: "buffer_of (file_of (transport p)) br ?r"
    and g': "g' = g\<lparr>allocated := allocated g @ [dev_ptr tns]\<rparr>"
    using fetch_ok [OF assms(5)] by (simp_all add: buffer_of_def)
  have fresh: "wid \<notin> set (lru p)" using ok(2) assms(2) by auto
  have "\<exists>b. catalog p w = Some b \<and> buffer_of (file_of (transport p)) b x"
    if "((resident p)(wid \<mapsto> ?r)) w = Some x" for w x
    using that ok(8) buf assms(3) by (auto split: if_splits)
  moreover have "saturating_add64 (vram_used p) (range_len br) = vram_used p + range_len br"
    using assms(4) ok(5) by (simp add: saturating_add64_def)
  ultimately show ?thesis
    unfolding pager_ok_def g' using ok(1,2,3,5,7) fresh assms(2,4)
      msum_insert [OF ok(6) assms(2), where f = res_bytes and v = ?r]
      mimage_insert [OF ok(6) assms(2), where f = "dev_ptr \<circ> res_tensor" and v = ?r]
    by simp
qed

lemma lose_ok:
  assumes "pager_ok file p g" and "fetch t g offset n = (t', g', Inl e)"
  shows "pager_ok file (p\<lparr>transport := t'\<rparr>) g'"
  using assms(1) fetch_err [OF assms(2)] by (auto simp: pager_ok_def)

text \<open>One request, by the case it falls in.\<close>

lemma ensure_hit:
  assumes "resident p wid \<noteq> None"
  shows "ensure_resident fetch p g wid = (touch_lru p wid, g, Inr ())"
  using assms by (simp add: ensure_resident_def)

lemma ensure_unregistered:
  "resident p wid = None \<Longrightarrow> catalog p wid = None \<Longrightarrow>
   ensure_resident fetch p g wid = (p, g, Inl (NotRegistered wid))"
  by (simp add: ensure_resident_def)

lemma ensure_too_big:
  "resident p wid = None \<Longrightarrow> catalog p wid = Some br \<Longrightarrow> vram_budget p < range_len br \<Longrightarrow> vram_budget p < u64_max \<Longrightarrow>
   ensure_resident fetch p g wid = (p, g, Inl (BudgetExhausted (range_len br) (vram_used p) (vram_budget p)))"
  by (simp add: ensure_resident_def would_fit_def)

lemma ensure_cold:
  assumes ok: "pager_ok (file_of (transport p)) p g" and cold: "resident p wid = None" "catalog p wid = Some br"
    and small: "range_len br \<le> vram_budget p"
    and run: "ensure_resident fetch p g wid = (p', g', r)"
  obtains p1 g1 t' f where
    "fetch (transport p) g1 (range_offset br) (range_len br) = (t', g', f)"
    "leaked g1 = leaked g" "pager_ok (file_of (transport p)) p' g'" "catalog p' = catalog p"
    "vram_budget p' = vram_budget p" "file_of (transport p') = file_of (transport p)"
    "case f of Inl e \<Rightarrow> r = Inl e \<and> lru p' = lru_trim (weight_size (catalog p)) (vram_budget p - range_len br) (lru p)
             | Inr tns \<Rightarrow> r = Inr () \<and> lru p' = lru_access (weight_size (catalog p)) (vram_budget p) wid (lru p) \<and>
                          resident p' wid = Some \<lparr>res_tensor = tns, res_bytes = range_len br\<rparr>"
proof -
  from make_room_ok [OF ok small] obtain p1 g1 where
    room: "(if vram_budget p \<noteq> u64_max \<and> vram_budget p < saturating_add64 (vram_used p) (range_len br)
            then evict_lru_until p g (range_len br) else (p, g, Inr ())) = (p1, g1, Inr ())"
    and ok1: "pager_ok (file_of (transport p)) p1 g1"
    and l1: "lru p1 = lru_trim (weight_size (catalog p)) (vram_budget p - range_len br) (lru p)"
    and u1: "vram_used p1 + range_len br \<le> vram_budget p"
    and fr: "catalog p1 = catalog p" "transport p1 = transport p" "vram_budget p1 = vram_budget p"
      "leaked g1 = leaked g"
    and res: "\<forall>w. resident p1 w = (if w \<in> set (lru p1) then resident p w else None)"
    by blast
  obtain t' g2 f where f: "fetch (transport p) g1 (range_offset br) (range_len br) = (t', g2, f)"
    by (cases "fetch (transport p) g1 (range_offset br) (range_len br)") auto
  have miss: "wid \<notin> set (lru p)" using pager_okD(2) [OF ok] cold by auto
  have none: "resident p1 wid = None" using res cold by simp
  have acc: "lru_access (weight_size (catalog p)) (vram_budget p) wid (lru p) = lru p1 @ [wid]"
    using miss cold l1 by (simp add: lru_access_def weight_size_def)
  note same = fetch_file [OF f]
  show ?thesis
  proof (cases f)
    case (Inl e)
    then have "p' = p1\<lparr>transport := t'\<rparr>" "g' = g2" "r = Inl e"
      using run cold room small f fr by (simp_all add: ensure_resident_def would_fit_def Let_def)
    then show ?thesis
      using that [OF f [folded \<open>g' = g2\<close>]] Inl lose_ok [OF ok1 f [unfolded Inl]] fr l1 same by simp
  next
    case (Inr tns)
    then have p': "p' = p1\<lparr>transport := t', vram_used := saturating_add64 (vram_used p1) (range_len br),
        resident := (resident p1)(wid \<mapsto> \<lparr>res_tensor = tns, res_bytes = range_len br\<rparr>), lru := lru p1 @ [wid]\<rparr>"
      and "g' = g2" "r = Inr ()"
      using run cold room small f fr by (simp_all add: ensure_resident_def would_fit_def Let_def)
    moreover have "pager_ok (file_of (transport p)) p' g2"
      using load_ok [of p1 g1 wid br t' g2 tns] ok1 none cold(2) u1 f fr Inr p' by simp
    ultimately show ?thesis
      using that [OF f [folded \<open>g' = g2\<close>]] Inr fr acc same by simp
  qed
qed

text \<open>Every request keeps the invariant, and loses a buffer only when its fetch does.\<close>

lemma ensure_ok [keeps]:
  assumes ok: "pager_ok (file_of (transport p)) p g" and run: "ensure_resident fetch p g wid = (p', g', r)"
  shows "pager_ok (file_of (transport p')) p' g' \<and> catalog p' = catalog p \<and> vram_budget p' = vram_budget p \<and>
         file_of (transport p') = file_of (transport p) \<and>
         ((\<forall>t x offset n t' x' f. fetch t x offset n = (t', x', f) \<longrightarrow> leaked x' = leaked x) \<longrightarrow> leaked g' = leaked g)"
proof (cases "resident p wid = None")
  case False
  then have "p' = touch_lru p wid \<and> g' = g" using run ensure_hit by simp
  then show ?thesis using touch_lru_ok [OF ok, of wid] by (auto simp: touch_lru_eq split: if_splits)
next
  case cold: True
  show ?thesis
  proof (cases "catalog p wid")
    case None
    then show ?thesis using run ok ensure_unregistered [OF cold] by simp
  next
    case (Some br)
    show ?thesis
    proof (cases "range_len br \<le> vram_budget p")
      case True
      from ok cold Some True run show ?thesis
        by (rule ensure_cold) fastforce
    next
      case False
      then show ?thesis using run ok ensure_too_big [OF cold Some] pager_okD(5) [OF ok] by simp
    qed
  qed
qed

text \<open>The pager's queue follows the policy; what a request that fails leaves behind is said case by case.\<close>

lemma ensure_refines:
  assumes ok: "pager_ok (file_of (transport p)) p g" and run: "ensure_resident fetch p g wid = (p', g', r)"
  shows "case r of
           Inr _ \<Rightarrow> lru p' = lru_access (weight_size (catalog p)) (vram_budget p) wid (lru p)
         | Inl e \<Rightarrow> wid \<notin> set (lru p) \<and>
             (case catalog p wid of
                None \<Rightarrow> e = NotRegistered wid \<and> p' = p \<and> g' = g
              | Some br \<Rightarrow>
                  if vram_budget p < range_len br
                  then e = BudgetExhausted (range_len br) (vram_used p) (vram_budget p) \<and> p' = p \<and> g' = g
                  else lru p' = lru_trim (weight_size (catalog p)) (vram_budget p - range_len br) (lru p))"
proof (cases "resident p wid = None")
  case False
  then have "wid \<in> set (lru p)" using pager_okD(2) [OF ok] by auto
  then show ?thesis using run ensure_hit [OF False, of g] by (auto simp: touch_lru_eq lru_access_def)
next
  case cold: True
  then have miss: "wid \<notin> set (lru p)" using pager_okD(2) [OF ok] by auto
  show ?thesis
  proof (cases "catalog p wid")
    case None
    then show ?thesis using run miss ensure_unregistered [OF cold, of g] by auto
  next
    case (Some br)
    show ?thesis
    proof (cases "range_len br \<le> vram_budget p")
      case True
      from ok cold Some True run show ?thesis
        by (rule ensure_cold) (use True miss Some in \<open>auto split: sum.splits\<close>)
    next
      case False
      then show ?thesis using run miss Some ensure_too_big [OF cold Some, of g] pager_okD(5) [OF ok] by auto
    qed
  qed
qed

text \<open>A request whose fetch succeeds succeeds.\<close>

lemma ensure_success:
  assumes ok: "pager_ok (file_of (transport p)) p g" and reg: "catalog p wid = Some br"
    and small: "range_len br \<le> vram_budget p"
    and fine: "\<And>x t' x' f. fetch (transport p) x (range_offset br) (range_len br) = (t', x', f) \<Longrightarrow> \<exists>tns. f = Inr tns"
  shows "\<exists>p' g'. ensure_resident fetch p g wid = (p', g', Inr ()) \<and> resident p' wid \<noteq> None"
proof (cases "resident p wid = None")
  case False
  then show ?thesis by (simp add: ensure_hit touch_lru_eq)
next
  case True
  obtain p' g' r where run: "ensure_resident fetch p g wid = (p', g', r)"
    by (cases "ensure_resident fetch p g wid") auto
  from ok True reg small run show ?thesis
    by (rule ensure_cold) (use run fine in \<open>fastforce split: sum.splits\<close>)
qed

end

text \<open>The pread transport keeps the contract, whatever the operating system and the allocator answer.\<close>

lemma none_lost:
  "\<exists>lost. g = g\<lparr>allocated := allocated g @ lost, leaked := leaked g @ lost\<rparr> \<and> (c \<longrightarrow> lost = [])"
  by (rule exI [of _ "[]"]) simp

lemma pread_fetch_cases:
  "pread_fetch env t g offset n = (t', g', r) \<Longrightarrow>
   tr_file t' = tr_file t \<and>
   (case r of
      Inr tns \<Rightarrow> offset + n \<le> length (tr_file t) \<and> dev_bytes tns = take n (drop offset (tr_file t)) \<and>
                 g' = g\<lparr>allocated := allocated g @ [dev_ptr tns]\<rparr>
    | Inl e \<Rightarrow> e = HipFailed \<and> (\<exists>lost. g' = g\<lparr>allocated := allocated g @ lost, leaked := leaked g @ lost\<rparr> \<and>
                                    (copy_works env \<longrightarrow> lost = [])))"
  by (auto simp: pread_fetch_def pread_into_staging_def upload_raw_def next_handle_def Let_def
      intro: none_lost split: if_splits option.splits)

interpretation pread: weight_transport "pread_fetch env" tr_file for env
  by unfold_locales (auto dest!: pread_fetch_cases)

lemma pread_fetch_quiet: "copy_works env \<Longrightarrow> pread_fetch env t g offset n = (t', g', r) \<Longrightarrow> leaked g' = leaked g"
  by (auto dest!: pread_fetch_cases split: sum.splits)

definition io_works :: "pager_env \<Rightarrow> bool" where
  "io_works env \<longleftrightarrow> read_works env \<and> malloc_at env \<noteq> None \<and> copy_works env"

lemma pread_fetch_works:
  "io_works env \<Longrightarrow> offset + n \<le> length (tr_file t) \<Longrightarrow> pread_fetch env t g offset n = (t', g', r) \<Longrightarrow> \<exists>tns. r = Inr tns"
  by (auto simp: io_works_def pread_fetch_def pread_into_staging_def upload_raw_def Let_def split: if_splits)

section \<open>Runs of the pager\<close>

datatype pager_op = Ensure pager_env weight_id | Touch weight_id | Evict nat | FreeAll

fun pager_step :: "pager_op \<Rightarrow> pread_transport pager \<times> gpu \<Rightarrow> pread_transport pager \<times> gpu" where
  "pager_step (Ensure env wid) (p, g) = (let (p', g', _) = ensure_resident (pread_fetch env) p g wid in (p', g'))"
| "pager_step (Touch wid) (p, g) = (touch_lru p wid, g)"
| "pager_step (Evict need) (p, g) = (let (p', g', _) = evict_lru_until p g need in (p', g'))"
| "pager_step FreeAll (p, g) = free_all p g"

definition load_catalog :: "pread_transport \<Rightarrow> nat \<Rightarrow> (weight_id \<times> byte_range) list \<Rightarrow> pread_transport pager" where
  "load_catalog t budget cat = fold (\<lambda>(wid, br) p. register p wid br) cat (pager_new t budget)"

abbreviation no_gpu :: gpu where
  "no_gpu \<equiv> \<lparr>allocated = [], freed = [], leaked = []\<rparr>"

fun copies :: "pager_op \<Rightarrow> bool" where
  "copies (Ensure env wid) = copy_works env"
| "copies _ = True"

lemma load_catalog_ok:
  "budget < u64_max \<Longrightarrow>
   pager_ok (tr_file t) (load_catalog t budget cat) no_gpu \<and> transport (load_catalog t budget cat) = t \<and>
   vram_budget (load_catalog t budget cat) = budget \<and> catalog (load_catalog t budget cat) = map_of (rev cat)"
proof -
  assume b: "budget < u64_max"
  have "resident p' = resident p \<and> lru p' = lru p \<and> vram_used p' = vram_used p \<and> transport p' = transport p \<and>
        vram_budget p' = vram_budget p \<and> catalog p' = catalog p ++ map_of (rev cat)"
    if "p' = fold (\<lambda>(wid, br) p. register p wid br) cat p" for p p' :: "pread_transport pager"
    using that
    by (induction cat arbitrary: p p') (auto simp: register_def map_add_assoc [symmetric])
  from this [OF refl, of "pager_new t budget"] b show ?thesis
    by (simp add: load_catalog_def pager_new_def pager_ok_def)
qed

lemma pager_step_ok:
  assumes "pager_ok (tr_file (transport p)) p g" and "pager_step op (p, g) = (p', g')"
  shows "pager_ok (tr_file (transport p')) p' g' \<and> catalog p' = catalog p \<and> vram_budget p' = vram_budget p \<and>
         tr_file (transport p') = tr_file (transport p) \<and> (copies op \<longrightarrow> leaked g' = leaked g)"
proof (cases op)
  case (Ensure env wid)
  then obtain r where "ensure_resident (pread_fetch env) p g wid = (p', g', r)"
    using assms(2) by (auto split: prod.splits)
  from pread.ensure_ok [OF assms(1) this] show ?thesis
    using pread_fetch_quiet [of env] unfolding Ensure copies.simps by blast
next
  case (Touch wid)
  then show ?thesis using assms touch_lru_ok [OF assms(1), of wid] by (auto simp: touch_lru_eq split: if_splits)
next
  case (Evict need)
  then show ?thesis using assms by (auto split: prod.splits dest: evict_lru_until_ok)
next
  case FreeAll
  then show ?thesis using assms free_all_ok [OF assms(1), of p' g'] by auto
qed

lemma pager_run_ok:
  assumes "pager_ok (tr_file (transport p)) p g" and "fold pager_step ops (p, g) = (p', g')"
  shows "pager_ok (tr_file (transport p')) p' g' \<and> catalog p' = catalog p \<and> vram_budget p' = vram_budget p \<and>
         tr_file (transport p') = tr_file (transport p) \<and> ((\<forall>op\<in>set ops. copies op) \<longrightarrow> leaked g' = leaked g)"
  using assms
proof (induction ops arbitrary: p g)
  case Nil
  then show ?case by simp
next
  case (Cons op ops)
  obtain p1 g1 where step: "pager_step op (p, g) = (p1, g1)" by (cases "pager_step op (p, g)") auto
  note one = pager_step_ok [OF Cons.prems(1) step]
  have "fold pager_step ops (p1, g1) = (p', g')" using Cons.prems(2) step by simp
  from Cons.IH [OF conjunct1 [OF one] this] one show ?case by auto
qed

text \<open>
  Property C31. A pager with a finite budget, loaded with any catalog and driven by any sequence of requests,
  touches, evictions and resets, whatever the file system, the allocator and the copies answer: the bytes
  it counts are the bytes of its residents and never exceed the budget; every resident buffer holds exactly
  the registered bytes of the file; every buffer that was allocated is handed back once, or resident, or was
  lost by an upload whose copy failed; when no copy fails none is lost, and a reset hands all of them back.
\<close>

theorem pager_run_safe:
  assumes "budget < u64_max"
    and "fold pager_step ops (load_catalog t budget cat, no_gpu) = (p, g)"
  shows "vram_used p = msum res_bytes (resident p) \<and> vram_used p \<le> budget \<and>
         (\<forall>wid tns. pager_get p wid = Some tns \<longrightarrow>
            (\<exists>br. map_of (rev cat) wid = Some br \<and>
                  dev_bytes tns = take (range_len br) (drop (range_offset br) (tr_file t)) \<and>
                  length (dev_bytes tns) = range_len br)) \<and>
         mset (allocated g) = mset (freed g) + mset (leaked g) + mimage (dev_ptr \<circ> res_tensor) (resident p) \<and>
         ((\<forall>op\<in>set ops. copies op) \<longrightarrow>
            leaked g = [] \<and> mset (freed (snd (free_all p g))) = mset (allocated (snd (free_all p g))))"
proof -
  note start = load_catalog_ok [OF assms(1), of t cat]
  then have "pager_ok (tr_file (transport (load_catalog t budget cat))) (load_catalog t budget cat) no_gpu" by simp
  note run = pager_run_ok [OF this assms(2)]
  then have ok: "pager_ok (tr_file t) p g" and cat: "catalog p = map_of (rev cat)" and b: "vram_budget p = budget"
    and lk: "(\<forall>op\<in>set ops. copies op) \<longrightarrow> leaked g = []"
    using start by auto
  note inv = pager_okD [OF ok]
  have get: "\<exists>br. map_of (rev cat) wid = Some br \<and>
               dev_bytes tns = take (range_len br) (drop (range_offset br) (tr_file t)) \<and>
               length (dev_bytes tns) = range_len br"
    if "pager_get p wid = Some tns" for wid tns
    using that by (auto simp: pager_get_def buffer_of_def cat [symmetric] dest!: inv(8))
  have free: "mset (allocated (snd (free_all p g))) = mset (freed (snd (free_all p g))) + mset (leaked g)"
    using free_all_ok [OF ok, of "fst (free_all p g)" "snd (free_all p g)"] by simp
  show ?thesis
    using inv(3,4,7) b get lk free by auto
qed

abbreviation demo_gate :: "16 word \<Rightarrow> weight_id" where
  "demo_gate i \<equiv> Expert 0 i GateUp"

definition demo_file :: pread_transport where
  "demo_file = \<lparr>tr_file = [1, 2, 3, 4, 5, 6], staging = [], tr_next_handle = 0\<rparr>"

definition demo_cat :: "(weight_id \<times> byte_range) list" where
  "demo_cat = [(demo_gate 0, \<lparr>range_offset = 0, range_len = 2\<rparr>), (Expert 0 0 Down, \<lparr>range_offset = 2, range_len = 2\<rparr>),
               (demo_gate 1, \<lparr>range_offset = 4, range_len = 2\<rparr>)]"

definition demo_io :: "64 word \<Rightarrow> pager_env" where
  "demo_io a = \<lparr>read_works = True, malloc_at = Some a, copy_works = True\<rparr>"

definition demo_ops :: "pager_op list" where
  "demo_ops = [Ensure (demo_io 256) (demo_gate 0), Ensure (demo_io 512) (Expert 0 0 Down), Ensure (demo_io 768) (demo_gate 1)]"

definition demo_pager :: "pread_transport pager \<times> gpu" where
  "demo_pager = fold pager_step demo_ops (load_catalog demo_file 4 demo_cat, no_gpu)"

lemmas pager_eval = demo_pager_def demo_ops_def demo_file_def demo_cat_def demo_io_def load_catalog_def register_def pager_new_def
  ensure_resident_def would_fit_def evict_lru_until_def free_tensor_def saturating_add64_def pread_fetch_def
  pread_into_staging_def upload_raw_def next_handle_def Let_def

lemma demo_pager_state: "lru (fst demo_pager) = [Expert 0 0 Down, demo_gate 1]" "freed (snd demo_pager) = [256]"
  by (simp_all add: pager_eval)

lemma demo_copies: "\<forall>op\<in>set demo_ops. copies op"
  by (simp add: demo_ops_def demo_io_def)

theorem pager_run_safe_witness:
  "vram_used (fst demo_pager) \<le> 4 \<and> lru (fst demo_pager) = [Expert 0 0 Down, demo_gate 1] \<and>
   leaked (snd demo_pager) = [] \<and> freed (snd demo_pager) = [256] \<and>
   mset (freed (snd (free_all (fst demo_pager) (snd demo_pager))))
     = mset (allocated (snd (free_all (fst demo_pager) (snd demo_pager))))"
  using pager_run_safe [where budget = 4 and t = demo_file and cat = demo_cat
      and ops = demo_ops and p = "fst demo_pager" and g = "snd demo_pager"] demo_pager_state
  by (simp add: demo_pager_def [symmetric] demo_copies)


lemma demo_pager_ok: "pager_ok (tr_file (transport (fst demo_pager))) (fst demo_pager) (snd demo_pager)"
  using pager_run_ok [of "load_catalog demo_file 4 demo_cat" no_gpu demo_ops "fst demo_pager" "snd demo_pager"]
    load_catalog_ok [of 4 demo_file demo_cat] by (auto simp: demo_pager_def [symmetric])


section \<open>The experts of a layer\<close>

text \<open>Of the policy's queue, the weights accessed last stay while they fit together.\<close>

lemma lru_access_recent:
  assumes "distinct (front @ hot)" and "sum sz (insert k (set hot)) \<le> budget"
  shows "\<exists>front' hot'. lru_access sz budget k (front @ hot) = front' @ hot' \<and> set hot' = insert k (set hot)"
proof -
  consider (old) "k \<in> set front" | (recent) "k \<in> set hot" "k \<notin> set front" | (miss) "k \<notin> set (front @ hot)"
    by auto
  then show ?thesis
  proof cases
    case old
    then show ?thesis
      by (intro exI [of _ "remove1 k front"] exI [of _ "hot @ [k]"]) (simp add: lru_access_def remove1_append)
  next
    case recent
    then show ?thesis using assms(1)
      by (intro exI [of _ front] exI [of _ "remove1 k hot @ [k]"]) (auto simp: lru_access_def remove1_append)
  next
    case miss
    then have "sum_list (map sz hot) \<le> budget - sz k"
      using assms by (simp add: sum.distinct_set_conv_list [symmetric])
    then obtain rest where "lru_trim sz (budget - sz k) (front @ hot) = rest @ hot"
      using lru_trim_keeps [of sz hot "budget - sz k" front] by auto
    then show ?thesis using miss
      by (intro exI [of _ rest] exI [of _ "hot @ [k]"]) (simp add: lru_access_def)
  qed
qed

text \<open>The calls a caller of \<^verbatim>\<open>patch_expert_ptr_table\<close> owes: both matrices of every routed expert.\<close>

fun ensure_all ::
  "(pager_env \<times> weight_id) list \<Rightarrow> pread_transport pager \<Rightarrow> gpu \<Rightarrow> pread_transport pager \<times> gpu \<times> (pager_error + unit)" where
  "ensure_all [] p g = (p, g, Inr ())"
| "ensure_all ((env, wid) # rest) p g =
     (case ensure_resident (pread_fetch env) p g wid of
        (p', g', Inl e) \<Rightarrow> (p', g', Inl e)
      | (p', g', Inr _) \<Rightarrow> ensure_all rest p' g')"

definition expert_ids :: "16 word \<Rightarrow> 16 word list \<Rightarrow> weight_id list" where
  "expert_ids layer top_indices = concat (map (\<lambda>i. [Expert layer i GateUp, Expert layer i Down]) top_indices)"

definition stored :: "pread_transport pager \<Rightarrow> weight_id \<Rightarrow> bool" where
  "stored p wid \<longleftrightarrow> (\<exists>br. catalog p wid = Some br \<and> range_offset br + range_len br \<le> length (tr_file (transport p)))"

lemma ensure_all_ok:
  assumes "pager_ok (tr_file (transport p)) p g" and "lru p = front @ hot"
    and "\<forall>(env, wid)\<in>set calls. io_works env \<and> stored p wid"
    and "sum (weight_size (catalog p)) (snd ` set calls \<union> set hot) \<le> vram_budget p"
  shows "\<exists>p' g'. ensure_all calls p g = (p', g', Inr ()) \<and> pager_ok (tr_file (transport p)) p' g' \<and>
           catalog p' = catalog p \<and> snd ` set calls \<union> set hot \<subseteq> dom (resident p')"
  using assms
proof (induction calls arbitrary: p g front hot)
  case Nil
  then show ?case using pager_okD(2) [OF Nil(1)] by auto
next
  case (Cons call calls)
  obtain env wid where call: "call = (env, wid)" by (cases call)
  let ?sz = "weight_size (catalog p)" and ?W = "snd ` set (call # calls) \<union> set hot"
  have W: "sum ?sz V \<le> vram_budget p" if "V \<subseteq> ?W" for V
  proof -
    have "sum ?sz V \<le> sum ?sz ?W" using that by (intro sum_mono2) auto
    then show ?thesis using Cons.prems(4) by linarith
  qed
  from Cons.prems(3) call obtain br where io: "io_works env" and br: "catalog p wid = Some br"
    and inside: "range_offset br + range_len br \<le> length (tr_file (transport p))"
    by (auto simp: stored_def)
  have "range_len br \<le> vram_budget p" using W [of "{wid}"] call br by (simp add: weight_size_def)
  then obtain p1 g1 where run: "ensure_resident (pread_fetch env) p g wid = (p1, g1, Inr ())"
    using pread.ensure_success [where env = env, OF Cons.prems(1) br] pread_fetch_works [OF io inside] by blast
  note one = pread.ensure_ok [OF Cons.prems(1) run] and ref = pread.ensure_refines [OF Cons.prems(1) run]
  obtain front' hot' where l: "lru p1 = front' @ hot'" and b: "set hot' = insert wid (set hot)"
    using lru_access_recent [of front hot ?sz wid "vram_budget p"] pager_okD(1) [OF Cons.prems(1)] ref
      W [of "insert wid (set hot)"] Cons.prems(2) call by auto
  have W': "snd ` set calls \<union> set hot' = ?W" using b call by auto
  have "\<exists>p' g'. ensure_all calls p1 g1 = (p', g', Inr ()) \<and> pager_ok (tr_file (transport p1)) p' g' \<and>
          catalog p' = catalog p1 \<and> snd ` set calls \<union> set hot' \<subseteq> dom (resident p')"
    using one l Cons.prems(3) Cons.prems(4) W'
    by (intro Cons.IH [where front = front' and hot = hot']) (auto simp: stored_def)
  then show ?case unfolding W' call using run one by simp
qed

definition ptr_at :: "byte list \<Rightarrow> 16 word \<Rightarrow> nat" where
  "ptr_at tab i = le_nat (take 8 (drop (8 * unat i) tab))"

lemma ptr_at_poke:
  assumes "8 * unat i + 8 \<le> length tab" and "n < 256 ^ 8"
  shows "ptr_at (take (8 * unat i) tab @ le_bytes 8 n @ drop (8 * unat i + 8) tab) j =
         (if i = j then n else ptr_at tab j)"
proof (cases "i = j")
  case True
  then show ?thesis using assms by (simp add: ptr_at_def le_nat_le_bytes del: le_bytes.simps)
next
  case False
  then consider "unat j < unat i" | "unat i < unat j"
    by (metis linorder_neqE_nat word_unat_eq_iff)
  then show ?thesis
  proof cases
    case 1
    then have "take 8 (drop (8 * unat j) (take (8 * unat i) tab)) = take 8 (drop (8 * unat j) tab)"
      by (simp add: drop_take min_def)
    then show ?thesis using False 1 assms by (simp add: ptr_at_def)
  next
    case 2
    then obtain k where k: "8 * unat j = 8 * unat i + 8 + k" by (metis Suc_leI add.commute le_Suc_ex mult_Suc_right mult_le_mono2)
    then show ?thesis using False assms by (simp add: ptr_at_def ac_simps)
  qed
qed

definition expert_ptr :: "'t pager \<Rightarrow> 16 word \<Rightarrow> expert_role \<Rightarrow> 16 word \<Rightarrow> nat" where
  "expert_ptr p layer role i = unat (dev_ptr (the (pager_get p (Expert layer i role))))"

lemma memcpy_ptr:
  assumes "8 * unat i + 8 \<le> length tab"
  shows "\<exists>tab'. memcpy_htod_offset True tab (unat i * 8) (le_bytes 8 (unat (a :: 64 word))) = Some (Inr tab') \<and>
           length tab' = length tab \<and> (\<forall>j. ptr_at tab' j = (if i = j then unat a else ptr_at tab j))"
proof -
  have "unat a < 256 ^ 8" using unsigned_less [of a, where 'a = nat] by simp
  then show ?thesis
    using assms ptr_at_poke [OF assms] by (simp add: memcpy_htod_offset_def mult.commute del: le_bytes.simps)
qed

lemma patch_ok:
  assumes "\<forall>i\<in>set top_indices. Expert layer i GateUp \<in> dom (resident p) \<and> Expert layer i Down \<in> dom (resident p)"
    and "\<forall>i\<in>set top_indices. 8 * unat i + 8 \<le> length gate_up \<and> 8 * unat i + 8 \<le> length down"
  shows "\<exists>gu dn. patch_expert_ptr_table (memcpy_htod_offset True) p layer top_indices (gate_up, down) = Some ((gu, dn), Inr ()) \<and>
           (\<forall>j. ptr_at gu j = (if j \<in> set top_indices then expert_ptr p layer GateUp j else ptr_at gate_up j) \<and>
                ptr_at dn j = (if j \<in> set top_indices then expert_ptr p layer Down j else ptr_at down j))"
  using assms
proof (induction top_indices arbitrary: gate_up down)
  case Nil
  then show ?case by simp
next
  case (Cons i rest)
  from Cons.prems(1) obtain a b where a: "resident p (Expert layer i GateUp) = Some a"
    and b: "resident p (Expert layer i Down) = Some b" by auto
  have lens: "8 * unat i + 8 \<le> length gate_up" "8 * unat i + 8 \<le> length down" using Cons.prems(2) by simp_all
  from memcpy_ptr [OF lens(1), of "dev_ptr (res_tensor a)"] obtain gate_up' where
    gu: "memcpy_htod_offset True gate_up (unat i * 8) (le_bytes 8 (unat (dev_ptr (res_tensor a)))) = Some (Inr gate_up')"
    and gu_len: "length gate_up' = length gate_up"
    and gu_at: "\<And>j. ptr_at gate_up' j = (if i = j then expert_ptr p layer GateUp j else ptr_at gate_up j)"
    using a by (fastforce simp: expert_ptr_def pager_get_def)
  from memcpy_ptr [OF lens(2), of "dev_ptr (res_tensor b)"] obtain down' where
    dn: "memcpy_htod_offset True down (unat i * 8) (le_bytes 8 (unat (dev_ptr (res_tensor b)))) = Some (Inr down')"
    and dn_len: "length down' = length down"
    and dn_at: "\<And>j. ptr_at down' j = (if i = j then expert_ptr p layer Down j else ptr_at down j)"
    using b by (fastforce simp: expert_ptr_def pager_get_def)
  obtain gu' dn' where
    run: "patch_expert_ptr_table (memcpy_htod_offset True) p layer rest (gate_up', down') = Some ((gu', dn'), Inr ())"
    and tabs: "\<And>j. ptr_at gu' j = (if j \<in> set rest then expert_ptr p layer GateUp j else ptr_at gate_up' j)"
      "\<And>j. ptr_at dn' j = (if j \<in> set rest then expert_ptr p layer Down j else ptr_at down' j)"
    using Cons.IH [of gate_up' down'] Cons.prems gu_len dn_len by auto
  have "patch_expert_ptr_table (memcpy_htod_offset True) p layer (i # rest) (gate_up, down) = Some ((gu', dn'), Inr ())"
    using a b gu dn run by (simp del: le_bytes.simps)
  then show ?case using tabs gu_at dn_at by (intro exI [of _ gu'] exI [of _ dn']) simp
qed

lemma set_expert_ids: "set (expert_ids layer idx) = (\<Union>i\<in>set idx. {Expert layer i GateUp, Expert layer i Down})"
  by (auto simp: expert_ids_def)

text \<open>
  The protocol of \<^verbatim>\<open>patch_expert_ptr_table\<close>: when the routed experts' matrices are registered, lie
  inside the file and fit the budget together, and the transfers succeed, the requests for them all
  succeed whatever was resident before, a later request never evicts an earlier one's weight, the patch
  does not panic, and afterwards the two device tables hold for every routed expert the address of a
  buffer with exactly the bytes of its matrix, every other entry being untouched.
\<close>

theorem routed_experts_resident:
  assumes "pager_ok (tr_file (transport p)) p g"
    and "map snd calls = expert_ids layer top_indices" and "\<forall>(env, wid)\<in>set calls. io_works env \<and> stored p wid"
    and "sum (weight_size (catalog p)) (set (expert_ids layer top_indices)) \<le> vram_budget p"
    and "\<forall>i\<in>set top_indices. 8 * unat i + 8 \<le> length gate_up \<and> 8 * unat i + 8 \<le> length down"
  shows "\<exists>p' g' gu dn. ensure_all calls p g = (p', g', Inr ()) \<and>
           patch_expert_ptr_table (memcpy_htod_offset True) p' layer top_indices (gate_up, down) = Some ((gu, dn), Inr ()) \<and>
           (\<forall>wid\<in>set (expert_ids layer top_indices). \<exists>br tns. catalog p wid = Some br \<and> pager_get p' wid = Some tns \<and>
              dev_bytes tns = take (range_len br) (drop (range_offset br) (tr_file (transport p)))) \<and>
           (\<forall>j. ptr_at gu j = (if j \<in> set top_indices then expert_ptr p' layer GateUp j else ptr_at gate_up j) \<and>
                ptr_at dn j = (if j \<in> set top_indices then expert_ptr p' layer Down j else ptr_at down j))"
proof -
  have ids: "snd ` set calls = set (expert_ids layer top_indices)" using assms(2) by (metis list.set_map)
  obtain p' g' where run: "ensure_all calls p g = (p', g', Inr ())" and ok: "pager_ok (tr_file (transport p)) p' g'"
    and cat: "catalog p' = catalog p" and all: "set (expert_ids layer top_indices) \<subseteq> dom (resident p')"
    using ensure_all_ok [OF assms(1), of "lru p" "[]" calls] assms(3,4) ids by auto
  have bytes: "\<exists>br tns. catalog p wid = Some br \<and> pager_get p' wid = Some tns \<and>
                 dev_bytes tns = take (range_len br) (drop (range_offset br) (tr_file (transport p)))"
    if "wid \<in> set (expert_ids layer top_indices)" for wid
  proof -
    from that all obtain r where r: "resident p' wid = Some r" by auto
    from pager_okD(8) [OF ok r] r cat show ?thesis by (auto simp: pager_get_def buffer_of_def)
  qed
  have "\<forall>i\<in>set top_indices. Expert layer i GateUp \<in> dom (resident p') \<and> Expert layer i Down \<in> dom (resident p')"
    using all by (auto simp: set_expert_ids)
  from patch_ok [OF this assms(5)] obtain gu dn where
    "patch_expert_ptr_table (memcpy_htod_offset True) p' layer top_indices (gate_up, down) = Some ((gu, dn), Inr ())"
    and "\<forall>j. ptr_at gu j = (if j \<in> set top_indices then expert_ptr p' layer GateUp j else ptr_at gate_up j) \<and>
             ptr_at dn j = (if j \<in> set top_indices then expert_ptr p' layer Down j else ptr_at down j)" by blast
  then show ?thesis using run bytes by (intro exI [of _ p'] exI [of _ g'] exI [of _ gu] exI [of _ dn]) simp
qed

theorem routed_experts_resident_witness:
  "\<exists>p' g' gu dn. ensure_all [(demo_io 2048, demo_gate 0), (demo_io 4096, Expert 0 0 Down)] (fst demo_pager) (snd demo_pager)
       = (p', g', Inr ()) \<and>
     patch_expert_ptr_table (memcpy_htod_offset True) p' 0 [0] (replicate 16 0, replicate 16 0) = Some ((gu, dn), Inr ())"
proof -
  have cat: "catalog (fst demo_pager) = map_of (rev demo_cat)" "vram_budget (fst demo_pager) = 4"
    "tr_file (transport (fst demo_pager)) = [1, 2, 3, 4, 5, 6]"
    by (simp_all add: pager_eval)
  show ?thesis
    using routed_experts_resident [OF demo_pager_ok, where layer = 0 and top_indices = "[0]"
        and calls = "[(demo_io 2048, demo_gate 0), (demo_io 4096, Expert 0 0 Down)]"
        and gate_up = "replicate 16 0" and down = "replicate 16 0"]
    by (auto simp: cat expert_ids_def weight_size_def demo_cat_def io_works_def demo_io_def stored_def)
qed

section \<open>Weights inserted by the loader\<close>

text \<open>
  \<^verbatim>\<open>insert_resident\<close> serves weights that are meant to stay (\<^verbatim>\<open>always-resident\<close>), but puts them in the queue and
  does not look at the budget. It keeps the count exact; the queue may drop them, and then they have no
  place in the file to come back from.
\<close>

lemma insert_resident_counts:
  assumes "finite (dom (resident p))" and "vram_used p = msum res_bytes (resident p)"
    and "msum res_bytes (resident p) + n \<le> u64_max"
  shows "vram_used (insert_resident p wid tns n) = msum res_bytes (resident (insert_resident p wid tns n))"
proof (cases "resident p wid")
  case None
  then show ?thesis
    using assms msum_insert [OF assms(1) None, where f = res_bytes]
    by (simp add: insert_resident_def Let_def saturating_add64_def)
next
  case (Some prev)
  have fin: "finite (dom ((resident p)(wid := None)))" using assms(1) by simp
  have "msum res_bytes ((resident p)(wid \<mapsto> \<lparr>res_tensor = tns, res_bytes = n\<rparr>)) =
        n + msum res_bytes ((resident p)(wid := None))"
    using msum_insert [OF fin, where f = res_bytes and k = wid and v = "\<lparr>res_tensor = tns, res_bytes = n\<rparr>"] by simp
  then show ?thesis
    using Some assms msum_remove [OF assms(1) Some, of res_bytes]
    by (simp add: insert_resident_def Let_def saturating_add64_def)
qed

lemma always_resident_weight_lost:
  "let p0 = insert_resident (load_catalog demo_file 4 demo_cat) Embed \<lparr>dev_ptr = 64, dev_bytes = [9, 9, 9]\<rparr> 3;
       (p1, g1, r1) = ensure_resident (pread_fetch (demo_io 256)) p0 no_gpu (demo_gate 0);
       (p2, g2, r2) = ensure_resident (pread_fetch (demo_io 512)) p1 g1 Embed
   in is_resident p0 Embed \<and> r1 = Inr () \<and> \<not> is_resident p1 Embed \<and> r2 = Inl (NotRegistered Embed)"
  by (simp add: pager_eval insert_resident_def is_resident_def)

end
