(* ===== verification/Loop_Guard.thy ===== *)
theory Loop_Guard
  imports Prelude
begin

text \<open>
  The repetition guard of the token stream, \<^verbatim>\<open>hipfire-runtime/src/loop_guard.rs\<close>. A hash map's iteration
  order is unspecified: it is the parameter \<open>order\<close>, a rearrangement of the keys.
\<close>

section \<open>The guard\<close>

type_synonym gram = "token list"

datatype stop_reason = NgramRepeat gram nat

record loop_guard =
  ngram_threshold :: nat
  ngram_window :: nat
  lg_enabled :: bool

definition guard_new :: "nat \<Rightarrow> nat \<Rightarrow> loop_guard" where
  "guard_new threshold window = \<lparr>ngram_threshold = threshold, ngram_window = window, lg_enabled = (0 < threshold)\<rparr>"

definition guard_off :: loop_guard where
  "guard_off = \<lparr>ngram_threshold = 0, ngram_window = 0, lg_enabled = False\<rparr>"

text \<open>\<^verbatim>\<open>slice::windows\<close>: the contiguous sublists of a given length, in order.\<close>

definition windows_of :: "nat \<Rightarrow> 'a list \<Rightarrow> 'a list list" where
  "windows_of k xs = map (\<lambda>i. take k (drop i xs)) [0..<Suc (length xs) - k]"

fun count_grams :: "gram list \<Rightarrow> (gram \<rightharpoonup> nat) \<Rightarrow> (gram \<rightharpoonup> nat)" where
  "count_grams [] m = m"
| "count_grams (w # ws) m =
     count_grams ws (m(w \<mapsto> (case m w of None \<Rightarrow> 0 | Some c \<Rightarrow> c) + 1))"

type_synonym map_order = "gram list \<Rightarrow> gram list"

definition guard_check :: "map_order \<Rightarrow> loop_guard \<Rightarrow> token list \<Rightarrow> stop_reason option" where
  "guard_check order gd streamed =
     (if \<not> lg_enabled gd then None
      else if length streamed < 4 then None
      else
        let window_start = length streamed - ngram_window gd;
            window = drop window_start streamed
        in if length window < 4 then None
           else
             let ngram_counts = count_grams (windows_of 4 window) Map.empty;
                 (max_ngram, max_count) =
                   (case max_by_key snd (map (\<lambda>k. (k, the (ngram_counts k))) (order (remdups (windows_of 4 window)))) of
                      Some kc \<Rightarrow> kc
                    | None \<Rightarrow> (replicate 4 0, 0))
             in if ngram_threshold gd \<le> max_count then Some (NgramRepeat max_ngram max_count) else None)"

definition window_len :: "loop_guard \<Rightarrow> nat \<Rightarrow> nat" where
  "window_len gd n = (let window_start = n - ngram_window gd in n - window_start)"

section \<open>What it detects\<close>

text \<open>The number of positions of a list at which a given list occurs.\<close>

definition occurrences :: "'a list \<Rightarrow> 'a list \<Rightarrow> nat" where
  "occurrences k xs = card {i. i + length k \<le> length xs \<and> take (length k) (drop i xs) = k}"

definition recent :: "loop_guard \<Rightarrow> token list \<Rightarrow> token list" where
  "recent gd streamed = drop (length streamed - ngram_window gd) streamed"

lemma window_len_recent: "window_len gd (length streamed) = length (recent gd streamed)"
  by (simp add: window_len_def recent_def)

lemma count_grams_eq:
  "count_grams ws m k =
     (if k \<in> set ws then Some ((case m k of None \<Rightarrow> 0 | Some c \<Rightarrow> c) + count_list ws k) else m k)"
  by (induction ws arbitrary: m) (auto simp: count_list_0_iff split: option.splits)

lemma count_grams_empty:
  "count_grams ws Map.empty k = (if k \<in> set ws then Some (count_list ws k) else None)"
  by (simp add: count_grams_eq)

lemma count_list_map_upt: "count_list (map f [0..<n]) k = card {i. i < n \<and> f i = k}"
proof (induction n)
  case 0
  then show ?case by simp
next
  case (Suc n)
  have "{i. i < Suc n \<and> f i = k} = {i. i < n \<and> f i = k} \<union> (if f n = k then {n} else {})"
    by (auto simp: less_Suc_eq)
  then show ?case using Suc by simp
qed

lemma count_windows:
  assumes "length k = n" and "0 < n"
  shows "count_list (windows_of n xs) k = occurrences k xs"
proof -
  have "{i. i < Suc (length xs) - n \<and> take n (drop i xs) = k} = {i. i + n \<le> length xs \<and> take n (drop i xs) = k}"
    by auto
  then show ?thesis using assms by (simp add: windows_of_def count_list_map_upt occurrences_def)
qed

lemma windows_length: "w \<in> set (windows_of n xs) \<Longrightarrow> length w = n"
  by (auto simp: windows_of_def)

lemma occurrences_pos_window:
  assumes "0 < occurrences k xs" and "length k = n" and "0 < n"
  shows "k \<in> set (windows_of n xs)"
  using assms count_windows [OF assms(2,3), of xs] count_list_0_iff [of "windows_of n xs" k] by force

lemma check_max:
  assumes order: "\<And>ks. set (order ks) = set ks" and long: "4 \<le> length xs"
  obtains g c where "max_by_key snd (map (\<lambda>k. (k, the (count_grams (windows_of 4 xs) Map.empty k)))
                       (order (remdups (windows_of 4 xs)))) = Some (g, c)"
    and "length g = 4" and "c = occurrences g xs" and "\<And>k. length k = 4 \<Longrightarrow> occurrences k xs \<le> c"
    and "0 < c"
proof -
  let ?ws = "windows_of 4 xs" and ?m = "count_grams (windows_of 4 xs) Map.empty"
  let ?l = "map (\<lambda>k. (k, the (?m k))) (order (remdups ?ws))"
  have val: "the (?m k) = occurrences k xs" if "k \<in> set ?ws" for k
    using that count_windows [of k 4 xs] windows_length [OF that] by (simp add: count_grams_empty)
  have "0 \<in> set [0..<Suc (length xs) - 4]" using long by simp
  then have "take 4 (drop 0 xs) \<in> set ?ws" unfolding windows_of_def by (metis image_eqI list.set_map)
  then have "order (remdups ?ws) \<noteq> []" using order [of "remdups ?ws"] by auto
  then obtain g c where best: "max_by_key snd ?l = Some (g, c)"
    by (cases "max_by_key snd ?l") auto
  note mx = max_by_key_Some [OF best]
  from mx have g: "g \<in> set ?ws" and c: "c = occurrences g xs"
    using order [of "remdups ?ws"] val by auto
  have top: "occurrences k xs \<le> c" if "length k = 4" for k
  proof (cases "occurrences k xs = 0")
    case False
    then have "k \<in> set ?ws" using occurrences_pos_window [of k xs 4] that by simp
    then have "(k, occurrences k xs) \<in> set ?l" using order [of "remdups ?ws"] val by (force simp: image_iff)
    then show ?thesis using mx by force
  qed simp
  have "0 < c" using c g count_windows [of g 4 xs] windows_length [OF g] count_list_0_iff [of ?ws g] by force
  with best g c top windows_length [OF g] show ?thesis by (intro that [of g c])
qed

text \<open>
  Property C34. The guard fires exactly when it is enabled and some four-token sequence occurs at least
  threshold times in the trailing window, whatever order the hash map is iterated in; the sequence and the
  count it reports are those of a most frequent one.
\<close>

theorem loop_guard_exact:
  assumes "\<forall>ks. set (order ks) = set ks"
  shows "(guard_check order (guard_new threshold window) streamed = None \<longleftrightarrow>
            threshold = 0 \<or> (\<forall>k. length k = 4 \<longrightarrow> occurrences k (recent (guard_new threshold window) streamed) < threshold)) \<and>
         (\<forall>g c. guard_check order (guard_new threshold window) streamed = Some (NgramRepeat g c) \<longrightarrow>
            length g = 4 \<and> c = occurrences g (recent (guard_new threshold window) streamed) \<and> threshold \<le> c \<and>
            (\<forall>k. length k = 4 \<longrightarrow> occurrences k (recent (guard_new threshold window) streamed) \<le> c))"
    (is "?none \<and> ?some")
proof (cases "threshold = 0 \<or> length (recent (guard_new threshold window) streamed) < 4")
  case True
  have "occurrences k (recent (guard_new threshold window) streamed) = 0"
    if "length k = 4" "length (recent (guard_new threshold window) streamed) < 4" for k
    using that by (simp add: occurrences_def)
  then show ?thesis using True by (auto simp: guard_check_def guard_new_def recent_def Let_def)
next
  case False
  let ?gd = "guard_new threshold window" and ?xs = "recent (guard_new threshold window) streamed"
  from False have t: "0 < threshold" and long: "4 \<le> length ?xs" by auto
  then have "4 \<le> length streamed" by (simp add: recent_def)
  have ord: "set (order ks) = set ks" for ks using assms by simp
  obtain g c where best: "max_by_key snd (map (\<lambda>k. (k, the (count_grams (windows_of 4 ?xs) Map.empty k)))
                       (order (remdups (windows_of 4 ?xs)))) = Some (g, c)"
    and g: "length g = 4" and c: "c = occurrences g ?xs" and top: "\<And>k. length k = 4 \<Longrightarrow> occurrences k ?xs \<le> c"
    and "0 < c"
    using that by (rule check_max [of order, OF ord long])
  have xs: "drop (length streamed - ngram_window ?gd) streamed = ?xs" by (simp add: recent_def)
  have eq: "guard_check order ?gd streamed = (if threshold \<le> c then Some (NgramRepeat g c) else None)"
    using t long \<open>4 \<le> length streamed\<close> unfolding guard_check_def Let_def xs best
    by (simp add: guard_new_def split_def)
  have "(\<forall>k. length k = 4 \<longrightarrow> occurrences k ?xs < threshold) \<longleftrightarrow> c < threshold"
    using top g c by (auto intro: le_less_trans)
  then show ?thesis using eq t g c top by (auto split: if_splits)
qed

text \<open>The stream 1 2 3 4 1 2 3 4 1 2 3 4, in which the four-token sequence 1 2 3 4 occurs three times.\<close>

definition demo_stream :: "token list" where
  "demo_stream = [1, 2, 3, 4, 1, 2, 3, 4, 1, 2, 3, 4]"

theorem loop_guard_exact_witness:
  "(\<forall>ks. set (rev (ks :: gram list)) = set ks) \<and>
   guard_check rev (guard_new 3 256) demo_stream = Some (NgramRepeat [1, 2, 3, 4] 3) \<and>
   occurrences [1, 2, 3, 4] (recent (guard_new 3 256) demo_stream) = 3"
proof -
  have "guard_check rev (guard_new 3 256) demo_stream = Some (NgramRepeat [1, 2, 3, 4] 3)"
    by code_simp
  then show ?thesis using loop_guard_exact [of rev 3 256 demo_stream] by simp
qed

end
