(* ===== verification/Ngram_Mod.thy ===== *)
theory Ngram_Mod
  imports Prelude
begin

unbundle bit_operations_syntax

text \<open>
  The direct-mapped n-gram pool that drafts tokens for speculative decoding,
  \<^verbatim>\<open>hipfire-runtime/src/ngram_mod.rs\<close>. Hashes are 64-bit words, tokens 32-bit words. The pool slides a
  rolling hash over the context; the lemmas relate every use of it to the hash of the whole window.
\<close>

section \<open>The pool\<close>

definition HASH_MUL :: "64 word" where
  "HASH_MUL = 6364136223846793005"

definition EMPTY :: token where
  "EMPTY = 4294967295"

record ngram_config =
  capacity :: nat
  n_match :: nat
  n_min :: nat
  n_max :: nat

definition default_config :: ngram_config where
  "default_config = \<lparr>capacity = 2 ^ 22, n_match = 24, n_min = 48, n_max = 64\<rparr>"

record ngram_pool =
  cfg :: ngram_config
  table :: "token list"
  occupied :: nat
  pmask :: nat
  mul_pow :: "64 word"
  low_accept_streak :: nat

datatype ngram_error = BadCapacity | BadMatch | BadMax | MinAboveMax

fun is_power_of_two :: "nat \<Rightarrow> bool" where
  "is_power_of_two n = (if n \<le> 1 then n = 1 else even n \<and> is_power_of_two (n div 2))"

declare is_power_of_two.simps [simp del]

definition ngram_new :: "ngram_config \<Rightarrow> ngram_error + ngram_pool" where
  "ngram_new c =
     (if capacity c = 0 \<or> \<not> is_power_of_two (capacity c) then Inl BadCapacity
      else if n_match c = 0 then Inl BadMatch
      else if n_max c = 0 then Inl BadMax
      else if n_max c < n_min c then Inl MinAboveMax
      else Inr \<lparr>cfg = c, table = replicate (capacity c) EMPTY, occupied = 0, pmask = capacity c - 1,
                mul_pow = (if n_match c \<le> 1 then 1 else HASH_MUL ^ ((n_match c - 1) mod 2 ^ 32)),
                low_accept_streak = 0\<rparr>)"

definition ngram_clear :: "ngram_pool \<Rightarrow> ngram_pool" where
  "ngram_clear p = p\<lparr>table := replicate (length (table p)) EMPTY, occupied := 0, low_accept_streak := 0\<rparr>"

fun hash_from :: "64 word \<Rightarrow> token list \<Rightarrow> 64 word" where
  "hash_from h [] = h"
| "hash_from h (t # ts) = hash_from (h * HASH_MUL + ucast t) ts"

definition hash_window :: "token list \<Rightarrow> 64 word" where
  "hash_window tokens = hash_from 0 tokens"

definition roll_hash :: "64 word \<Rightarrow> token \<Rightarrow> token \<Rightarrow> 64 word \<Rightarrow> 64 word" where
  "roll_hash h old new_tok mp = (h - ucast old * mp) * HASH_MUL + ucast new_tok"

definition slot_index :: "ngram_pool \<Rightarrow> 64 word \<Rightarrow> nat" where
  "slot_index p h = unat (h AND word_of_nat (pmask p))"

definition ngram_store :: "ngram_pool \<Rightarrow> 64 word \<Rightarrow> token \<Rightarrow> ngram_pool option" where
  "ngram_store p h next_tok = do {
     let idx = slot_index p h;
     cur \<leftarrow> list_get (table p) idx;
     let p1 = (if cur = EMPTY then p\<lparr>occupied := occupied p + 1\<rparr> else p);
     tab \<leftarrow> list_set (table p1) idx next_tok;
     Some (p1\<lparr>table := tab\<rparr>)
   }"

text \<open>The loop of \<^verbatim>\<open>insert_range\<close> at position \<open>j\<close> with the hash of the window before it.\<close>

function insert_loop :: "token list \<Rightarrow> ngram_pool \<Rightarrow> 64 word \<Rightarrow> nat \<Rightarrow> ngram_pool option" where
  "insert_loop ctx p h j =
     (if length ctx \<le> j then None
      else case ngram_store p h (ctx ! j) of
             None \<Rightarrow> None
           | Some p1 \<Rightarrow>
               if length ctx \<le> j + 1 then Some p1
               else if j < n_match (cfg p) then None
               else insert_loop ctx p1
                      (roll_hash h (ctx ! (j - n_match (cfg p))) (ctx ! j) (mul_pow p)) (j + 1))"
  by pat_completeness auto
termination
  by (relation "measure (\<lambda>(ctx, p, h, j). length ctx - j)") auto

declare insert_loop.simps [simp del]

definition insert_range :: "ngram_pool \<Rightarrow> token list \<Rightarrow> nat \<Rightarrow> ngram_pool option" where
  "insert_range p ctx next_token_start =
     (let n = n_match (cfg p); start = max next_token_start n
      in if length ctx \<le> start then Some p
         else do {
           w \<leftarrow> slice ctx (start - n) start;
           p1 \<leftarrow> insert_loop ctx p (hash_window w) start;
           Some (if capacity (cfg p) div 4 < occupied p1 then ngram_clear p1 else p1)
         })"

text \<open>The loop of \<^verbatim>\<open>draft\<close>: \<open>fuel\<close> is the number of iterations left of \<^verbatim>\<open>0..limit\<close>.\<close>

fun draft_loop :: "ngram_pool \<Rightarrow> token list \<Rightarrow> nat \<Rightarrow> nat \<Rightarrow> 64 word \<Rightarrow> token list \<Rightarrow> token list option" where
  "draft_loop p ctx base 0 h out = Some out"
| "draft_loop p ctx base (Suc fuel) h out = do {
     tok \<leftarrow> list_get (table p) (slot_index p h);
     if tok = EMPTY then Some out
     else do {
       let k = length out;
       let out' = out @ [tok];
       old \<leftarrow> (if k < n_match (cfg p) then list_get ctx (base + k) else list_get out' (k - n_match (cfg p)));
       draft_loop p ctx base fuel (roll_hash h old tok (mul_pow p)) out'
     }
   }"

definition ngram_draft :: "ngram_pool \<Rightarrow> token list \<Rightarrow> nat \<Rightarrow> token list option option" where
  "ngram_draft p ctx caller_max =
     (let n = n_match (cfg p); limit = min (n_max (cfg p)) caller_max
      in if limit = 0 \<or> length ctx < n \<or> limit < n_min (cfg p) then Some None
         else do {
           let base = length ctx - n;
           out \<leftarrow> draft_loop p ctx base limit (hash_window (drop base ctx)) [];
           Some (if length out < n_min (cfg p) then None else Some out)
         })"

definition record_draft_result :: "ngram_pool \<Rightarrow> nat \<Rightarrow> nat \<Rightarrow> ngram_pool \<times> bool" where
  "record_draft_result p drafted accepted =
     (let low = (0 < drafted \<and> saturating_mul64 accepted 4 < drafted)
      in if \<not> low then (p\<lparr>low_accept_streak := 0\<rparr>, False)
         else
           let p1 = p\<lparr>low_accept_streak := min (low_accept_streak p + 1) 4294967295\<rparr>
           in if low_accept_streak p1 < 5 then (p1, False) else (ngram_clear p1, True))"

section \<open>The rolling hash\<close>

lemma hash_from_eq: "hash_from h ts = h * HASH_MUL ^ length ts + hash_from 0 ts"
proof (induction ts arbitrary: h)
  case Nil
  then show ?case by simp
next
  case (Cons t ts)
  have "hash_from h (t # ts) = (h * HASH_MUL + ucast t) * HASH_MUL ^ length ts + hash_from 0 ts"
    using Cons [of "h * HASH_MUL + ucast t"] by simp
  moreover have "hash_from 0 (t # ts) = ucast t * HASH_MUL ^ length ts + hash_from 0 ts"
    using Cons [of "ucast t"] by simp
  ultimately show ?case by (simp add: algebra_simps)
qed

lemma hash_from_append: "hash_from h (ts @ us) = hash_from (hash_from h ts) us"
  by (induction ts arbitrary: h) simp_all

text \<open>Sliding the window by one token is the same as hashing the new window.\<close>

lemma roll_hash_window:
  "roll_hash (hash_window (old # ts)) old new_tok (HASH_MUL ^ length ts) = hash_window (ts @ [new_tok])"
proof -
  have "hash_window (old # ts) = ucast old * HASH_MUL ^ length ts + hash_from 0 ts"
    unfolding hash_window_def hash_from.simps using hash_from_eq [of "ucast old" ts] by simp
  then show ?thesis by (simp add: roll_hash_def hash_window_def hash_from_append)
qed

section \<open>The invariant\<close>

lemma is_power_of_two_iff: "is_power_of_two n \<longleftrightarrow> (\<exists>k. n = 2 ^ k)"
proof (induction n rule: is_power_of_two.induct)
  case (1 n)
  show ?case
  proof (cases "n \<le> 1")
    case True
    have "n = 1" if n: "n = 2 ^ k" for k
    proof -
      have "k < 2 ^ k" by (rule less_exp)
      with n True have "k = 0" by linarith
      with n show ?thesis by simp
    qed
    moreover have "\<exists>k. n = 2 ^ k" if "n = 1" using that by (intro exI [of _ 0]) simp
    ultimately show ?thesis using True by (auto simp: is_power_of_two.simps [of n])
  next
    case False
    have "(\<exists>k. n = 2 ^ k) \<longleftrightarrow> even n \<and> (\<exists>k. n div 2 = 2 ^ k)"
    proof
      assume "\<exists>k. n = 2 ^ k"
      then obtain k where "n = 2 ^ k" ..
      with False show "even n \<and> (\<exists>k. n div 2 = 2 ^ k)" by (cases k) auto
    next
      assume "even n \<and> (\<exists>k. n div 2 = 2 ^ k)"
      then obtain k where "even n" "n div 2 = 2 ^ k" by auto
      then have "n = 2 ^ Suc k" by (metis dvd_mult_div_cancel power_Suc)
      then show "\<exists>k. n = 2 ^ k" ..
    qed
    then show ?thesis using False 1 by (simp add: is_power_of_two.simps [of n])
  qed
qed

definition pool_ok :: "ngram_pool \<Rightarrow> bool" where
  "pool_ok p \<longleftrightarrow>
     is_power_of_two (capacity (cfg p)) \<and> capacity (cfg p) \<le> 2 ^ 63 \<and> length (table p) = capacity (cfg p) \<and>
     pmask p = capacity (cfg p) - 1 \<and> 0 < n_match (cfg p) \<and> n_match (cfg p) \<le> 2 ^ 32 \<and>
     n_min (cfg p) \<le> n_max (cfg p) \<and> mul_pow p = HASH_MUL ^ (n_match (cfg p) - 1) \<and>
     occupied p = length (filter (\<lambda>t. t \<noteq> EMPTY) (table p)) \<and> low_accept_streak p < 5"

lemma slot_index_eq:
  assumes "pool_ok p"
  shows "slot_index p h = unat h mod capacity (cfg p)"
proof -
  obtain k where k: "capacity (cfg p) = 2 ^ k" using assms by (auto simp: pool_ok_def is_power_of_two_iff)
  have "(word_of_nat (2 ^ k - 1) :: 64 word) = mask k" by (simp add: mask_eq_exp_minus_1 of_nat_diff)
  then have "slot_index p h = unat (take_bit k h)"
    using assms k by (simp add: slot_index_def pool_ok_def take_bit_eq_mask)
  also have "\<dots> = unat h mod 2 ^ k" by (subst unsigned_take_bit_eq) (simp add: take_bit_eq_mod)
  finally show ?thesis using k by simp
qed

lemma slot_index_less:
  assumes "pool_ok p"
  shows "slot_index p h < length (table p)"
proof -
  have "0 < capacity (cfg p)" using assms by (auto simp: pool_ok_def is_power_of_two_iff)
  then show ?thesis using assms by (simp add: slot_index_eq) (simp add: pool_ok_def)
qed

lemma ngram_new_ok:
  assumes "ngram_new c = Inr p" and "capacity c \<le> 2 ^ 63" and "n_match c \<le> 2 ^ 32"
  shows "pool_ok p"
  using assms by (auto simp: ngram_new_def pool_ok_def split: if_splits)

section \<open>Indexing a context\<close>

text \<open>The reference: every position is stored under the hash of the whole window before it.\<close>

definition window_at :: "nat \<Rightarrow> token list \<Rightarrow> nat \<Rightarrow> token list" where
  "window_at n ctx j = take n (drop (j - n) ctx)"

definition index_one :: "token list \<Rightarrow> ngram_pool \<Rightarrow> nat \<Rightarrow> ngram_pool" where
  "index_one ctx p j =
     (let i = unat (hash_window (window_at (n_match (cfg p)) ctx j)) mod capacity (cfg p)
      in p\<lparr>table := (table p)[i := ctx ! j],
           occupied := length (filter (\<lambda>t. t \<noteq> EMPTY) ((table p)[i := ctx ! j]))\<rparr>)"

lemma filter_update:
  assumes "i < length xs" and "P v"
  shows "length (filter P (xs[i := v])) = (if P (xs ! i) then 0 else 1) + length (filter P xs)"
proof -
  have "xs = take i xs @ xs ! i # drop (Suc i) xs" using assms(1) by (rule id_take_nth_drop)
  then have "length (filter P xs) = length (filter P (take i xs)) + length (filter P (xs ! i # drop (Suc i) xs))"
    by (metis filter_append length_append)
  moreover have "xs[i := v] = take i xs @ v # drop (Suc i) xs" using assms(1) by (simp add: upd_conv_take_nth_drop)
  ultimately show ?thesis using assms(2) by simp
qed

lemma ngram_store_eq:
  assumes ok: "pool_ok p" and tok: "tok \<noteq> EMPTY" and h: "h = hash_window (window_at (n_match (cfg p)) ctx j)"
    and j: "tok = ctx ! j"
  shows "ngram_store p h tok = Some (index_one ctx p j)"
proof -
  let ?i = "slot_index p h"
  have i: "?i < length (table p)" by (rule slot_index_less [OF ok])
  have occ: "length (filter (\<lambda>t. t \<noteq> EMPTY) ((table p)[?i := tok]))
             = (if table p ! ?i \<noteq> EMPTY then 0 else 1) + occupied p"
    using filter_update [OF i, of "\<lambda>t. t \<noteq> EMPTY" tok] tok ok by (simp add: pool_ok_def)
  have "index_one ctx p j = p\<lparr>table := (table p)[?i := tok],
          occupied := (if table p ! ?i \<noteq> EMPTY then 0 else 1) + occupied p\<rparr>"
    unfolding index_one_def Let_def h [symmetric] slot_index_eq [OF ok, symmetric] j [symmetric] occ by simp
  then show ?thesis using i by (simp add: ngram_store_def Let_def)
qed

lemma index_one_ok:
  "pool_ok p \<Longrightarrow> pool_ok (index_one ctx p j)"
  by (simp add: pool_ok_def index_one_def Let_def)

lemma index_one_cfg [simp]: "cfg (index_one ctx p j) = cfg p" "mul_pow (index_one ctx p j) = mul_pow p"
  by (simp_all add: index_one_def Let_def)

lemma window_slide:
  assumes "0 < n" and "n \<le> j" and "j < length ctx"
  shows "roll_hash (hash_window (window_at n ctx j)) (ctx ! (j - n)) (ctx ! j) (HASH_MUL ^ (n - 1))
         = hash_window (window_at n ctx (Suc j))"
proof -
  let ?ts = "take (n - 1) (drop (Suc (j - n)) ctx)"
  have len: "length ?ts = n - 1" using assms by simp
  have "drop (j - n) ctx = ctx ! (j - n) # drop (Suc (j - n)) ctx"
    using assms by (intro Cons_nth_drop_Suc [symmetric]) simp
  then have old: "window_at n ctx j = ctx ! (j - n) # ?ts"
    using assms(1) by (cases n) (simp_all add: window_at_def)
  have "take n (drop (Suc (j - n)) ctx) = ?ts @ [drop (Suc (j - n)) ctx ! (n - 1)]"
    using assms take_Suc_conv_app_nth [of "n - 1" "drop (Suc (j - n)) ctx"] by simp
  moreover have "drop (Suc (j - n)) ctx ! (n - 1) = ctx ! j" using assms by simp
  ultimately have "window_at n ctx (Suc j) = ?ts @ [ctx ! j]"
    using assms by (simp add: window_at_def Suc_diff_le)
  then show ?thesis using roll_hash_window [of "ctx ! (j - n)" ?ts "ctx ! j"] old len by simp
qed

lemma insert_loop_eq:
  assumes "pool_ok p" and "n_match (cfg p) \<le> j" and "j < length ctx" and "EMPTY \<notin> set ctx"
  shows "insert_loop ctx p (hash_window (window_at (n_match (cfg p)) ctx j)) j
         = Some (fold (\<lambda>i q. index_one ctx q i) [j..<length ctx] p)"
  using assms
proof (induction "length ctx - j" arbitrary: p j)
  case 0
  then show ?case by simp
next
  case (Suc d)
  note ok = Suc.prems(1)
  let ?h = "hash_window (window_at (n_match (cfg p)) ctx j)" and ?p = "index_one ctx p j"
  have st: "ngram_store p ?h (ctx ! j) = Some ?p"
    using Suc.prems by (intro ngram_store_eq) (auto dest: nth_mem)
  have upt: "[j..<length ctx] = j # [Suc j..<length ctx]"
    using Suc.prems(3) by (rule upt_conv_Cons)
  show ?case
  proof (cases "length ctx \<le> j + 1")
    case True
    then have "[Suc j..<length ctx] = []" by simp
    then show ?thesis using True Suc.prems(3) st upt by (subst insert_loop.simps) simp
  next
    case False
    have roll: "roll_hash ?h (ctx ! (j - n_match (cfg p))) (ctx ! j) (mul_pow p)
                = hash_window (window_at (n_match (cfg ?p)) ctx (Suc j))"
      using window_slide [of "n_match (cfg p)" j ctx] ok Suc.prems by (simp add: pool_ok_def)
    have "insert_loop ctx ?p (hash_window (window_at (n_match (cfg ?p)) ctx (Suc j))) (Suc j)
          = Some (fold (\<lambda>i q. index_one ctx q i) [Suc j..<length ctx] ?p)"
      using Suc.hyps(2) Suc.prems False index_one_ok [OF ok] by (intro Suc.hyps(1)) auto
    then show ?thesis using False Suc.prems st upt roll by (subst insert_loop.simps) simp
  qed
qed

lemma fold_index_ok: "pool_ok p \<Longrightarrow> pool_ok (fold (\<lambda>i q. index_one ctx q i) js p)"
  by (induction js arbitrary: p) (auto intro: index_one_ok)

lemma fold_index_cfg [simp]: "cfg (fold (\<lambda>i q. index_one ctx q i) js p) = cfg p"
  by (induction js arbitrary: p) auto

lemma ngram_clear_ok: "pool_ok p \<Longrightarrow> pool_ok (ngram_clear p)"
  by (simp add: pool_ok_def ngram_clear_def)

definition reset_when_full :: "ngram_pool \<Rightarrow> ngram_pool" where
  "reset_when_full p = (if capacity (cfg p) div 4 < occupied p then ngram_clear p else p)"

lemma insert_range_eq:
  assumes "pool_ok p" and "occupied p \<le> capacity (cfg p) div 4" and "EMPTY \<notin> set ctx"
  shows "insert_range p ctx s =
         Some (reset_when_full (fold (\<lambda>i q. index_one ctx q i) [max s (n_match (cfg p))..<length ctx] p))"
proof (cases "length ctx \<le> max s (n_match (cfg p))")
  case True
  then have "[max s (n_match (cfg p))..<length ctx] = []" by simp
  then show ?thesis using True assms(2) by (simp add: insert_range_def Let_def reset_when_full_def)
next
  case False
  let ?n = "n_match (cfg p)"
  have "slice ctx (max s ?n - ?n) (max s ?n) = Some (window_at ?n ctx (max s ?n))"
    using False by (simp add: window_at_def slice_def max_def)
  moreover have "insert_loop ctx p (hash_window (window_at ?n ctx (max s ?n))) (max s ?n)
                 = Some (fold (\<lambda>i q. index_one ctx q i) [max s ?n..<length ctx] p)"
    using assms False by (intro insert_loop_eq) auto
  ultimately show ?thesis using False by (simp add: insert_range_def Let_def reset_when_full_def)
qed


definition demo_ngram :: ngram_pool where
  "demo_ngram = \<lparr>cfg = \<lparr>capacity = 8, n_match = 2, n_min = 1, n_max = 2\<rparr>,
                 table = [EMPTY, EMPTY, EMPTY, EMPTY, EMPTY, EMPTY, EMPTY, EMPTY], occupied = 0, pmask = 7, mul_pow = HASH_MUL, low_accept_streak = 0\<rparr>"

lemma demo_ngram_new: "ngram_new \<lparr>capacity = 8, n_match = 2, n_min = 1, n_max = 2\<rparr> = Inr demo_ngram"
proof -
  have "replicate 8 EMPTY = [EMPTY, EMPTY, EMPTY, EMPTY, EMPTY, EMPTY, EMPTY, EMPTY]" by (simp add: numeral_eq_Suc)
  then show ?thesis by (simp add: ngram_new_def demo_ngram_def is_power_of_two.simps)
qed

lemma demo_ngram_ok: "pool_ok demo_ngram"
  by (rule ngram_new_ok [OF demo_ngram_new]) simp_all


section \<open>Drafting\<close>

definition lookup :: "ngram_pool \<Rightarrow> token list \<Rightarrow> token" where
  "lookup p w = table p ! (unat (hash_window w) mod capacity (cfg p))"

fun chain :: "ngram_pool \<Rightarrow> token list \<Rightarrow> nat \<Rightarrow> token list" where
  "chain p w 0 = []"
| "chain p w (Suc k) = (if lookup p w = EMPTY then [] else lookup p w # chain p (tl w @ [lookup p w]) k)"

lemma length_chain: "length (chain p w k) \<le> k"
  by (induction k arbitrary: w) auto

lemma draft_loop_eq:
  assumes "pool_ok p" and "n_match (cfg p) \<le> length ctx" and "base = length ctx - n_match (cfg p)"
  shows "draft_loop p ctx base k (hash_window (drop (base + length out) (ctx @ out))) out
         = Some (out @ chain p (drop (base + length out) (ctx @ out)) k)"
proof (induction k arbitrary: out)
  case 0
  then show ?case by simp
next
  case (Suc k)
  let ?n = "n_match (cfg p)" and ?w = "drop (base + length out) (ctx @ out)"
  let ?tok = "lookup p ?w" and ?old = "(ctx @ out) ! (base + length out)"
  have n: "0 < ?n" using assms(1) by (simp add: pool_ok_def)
  have get: "list_get (table p) (slot_index p (hash_window ?w)) = Some ?tok"
    using slot_index_less [OF assms(1)] by (simp add: lookup_def slot_index_eq [OF assms(1)])
  have in_range: "base + length out < length (ctx @ out)" using assms n by simp
  then have w: "?w = ?old # drop (base + Suc (length out)) (ctx @ out)"
    by (simp add: Cons_nth_drop_Suc [symmetric] del: drop_append)
  have old: "(if length out < ?n then list_get ctx (base + length out) else list_get (out @ [?tok]) (length out - ?n)) = Some ?old"
    using assms n by (auto simp: nth_append)
  have next_w: "drop (base + Suc (length out)) (ctx @ out) @ [?tok]
                = drop (base + length (out @ [?tok])) (ctx @ out @ [?tok])"
    using in_range by simp
  have len: "length (drop (base + Suc (length out)) (ctx @ out)) = ?n - 1" using assms n by simp
  have roll: "roll_hash (hash_window ?w) ?old ?tok (mul_pow p)
              = hash_window (drop (base + length (out @ [?tok])) (ctx @ out @ [?tok]))"
    using roll_hash_window [of ?old "drop (base + Suc (length out)) (ctx @ out)" ?tok] assms(1) len w next_w
    by (simp add: pool_ok_def del: drop_append)
  have ch: "chain p ?w (Suc k) =
      (if ?tok = EMPTY then [] else ?tok # chain p (drop (base + length (out @ [?tok])) (ctx @ out @ [?tok])) k)"
    using w next_w by (simp del: drop_append)
  show ?case
  proof (cases "?tok = EMPTY")
    case True
    then show ?thesis unfolding ch using get by simp
  next
    case False
    then show ?thesis
      unfolding ch draft_loop.simps get Let_def bind.bind_lunit if_not_P [OF False] old roll using Suc [of "out @ [?tok]"]
      by simp
  qed
qed

lemma ngram_draft_eq:
  assumes "pool_ok p"
  shows "ngram_draft p ctx m =
         Some (let n = n_match (cfg p); limit = min (n_max (cfg p)) m; out = chain p (drop (length ctx - n) ctx) limit
               in if limit = 0 \<or> length ctx < n \<or> limit < n_min (cfg p) \<or> length out < n_min (cfg p)
                  then None else Some out)"
  using draft_loop_eq [OF assms _ refl, of ctx "min (n_max (cfg p)) m" "[]"]
  by (auto simp: ngram_draft_def Let_def)

definition ngram_slot :: "ngram_pool \<Rightarrow> token list \<Rightarrow> nat \<Rightarrow> nat" where
  "ngram_slot p ctx j = unat (hash_window (window_at (n_match (cfg p)) ctx j)) mod capacity (cfg p)"

lemma fold_index_lookup:
  assumes "pool_ok p" and "\<forall>i\<in>set js. \<forall>j\<in>set js. ngram_slot p ctx i = ngram_slot p ctx j \<longrightarrow> ctx ! i = ctx ! j"
    and "j \<in> set js"
  shows "lookup (fold (\<lambda>i q. index_one ctx q i) js p) (window_at (n_match (cfg p)) ctx j) = ctx ! j"
  using assms(2,3)
proof (induction js arbitrary: j rule: rev_induct)
  case Nil
  then show ?case by simp
next
  case (snoc k js)
  let ?q = "fold (\<lambda>i q. index_one ctx q i) js p"
  have "pool_ok ?q" by (rule fold_index_ok [OF assms(1)])
  then have len: "length (table ?q) = capacity (cfg p)" and "0 < capacity (cfg p)"
    by (auto simp: pool_ok_def is_power_of_two_iff)
  then have small: "ngram_slot p ctx i < length (table ?q)" for i by (simp add: ngram_slot_def)
  have look: "lookup (index_one ctx ?q k) (window_at (n_match (cfg p)) ctx j) =
              (table ?q)[ngram_slot p ctx k := ctx ! k] ! ngram_slot p ctx j"
    by (simp add: lookup_def index_one_def [of ctx ?q k] Let_def ngram_slot_def)
  show ?case
  proof (cases "ngram_slot p ctx j = ngram_slot p ctx k")
    case True
    have "ctx ! j = ctx ! k" using snoc.prems True by auto
    then show ?thesis using look True small [of k] by simp
  next
    case False
    then have "j \<in> set js" using snoc.prems(2) by auto
    moreover have "\<forall>i\<in>set js. \<forall>l\<in>set js. ngram_slot p ctx i = ngram_slot p ctx l \<longrightarrow> ctx ! i = ctx ! l"
      using snoc.prems(1) unfolding set_append by blast
    ultimately have "lookup ?q (window_at (n_match (cfg p)) ctx j) = ctx ! j" by (intro snoc.IH)
    then show ?thesis using look False by (simp add: lookup_def ngram_slot_def)
  qed
qed

lemma window_step:
  assumes "0 < n" and "n \<le> j" and "j < length ctx"
  shows "tl (window_at n ctx j) @ [ctx ! j] = window_at n ctx (Suc j)"
proof -
  have "window_at n ctx j @ [ctx ! j] = take (Suc n) (drop (j - n) ctx)"
    using assms take_Suc_conv_app_nth [of n "drop (j - n) ctx"] by (simp add: window_at_def)
  moreover have "window_at n ctx j \<noteq> []" using assms by (simp add: window_at_def)
  ultimately have "tl (window_at n ctx j) @ [ctx ! j] = tl (take (Suc n) (drop (j - n) ctx))" by (metis tl_append2)
  also have "\<dots> = take n (drop (Suc (j - n)) ctx)" by (simp add: tl_take tl_drop drop_Suc)
  finally show ?thesis using assms by (simp add: window_at_def Suc_diff_le)
qed

lemma chain_replays:
  assumes "0 < n" and "\<forall>i\<in>{n..<length ctx}. lookup q (window_at n ctx i) = ctx ! i" and "EMPTY \<notin> set ctx"
    and "n \<le> j" and "j + k \<le> length ctx"
  shows "chain q (window_at n ctx j) k = take k (drop j ctx)"
  using assms(4,5)
proof (induction k arbitrary: j)
  case 0
  then show ?case by simp
next
  case (Suc k)
  then have j: "j < length ctx" by simp
  have tok: "lookup q (window_at n ctx j) = ctx ! j" using assms(2) Suc.prems by simp
  have "ctx ! j \<noteq> EMPTY" using j assms(3) nth_mem by metis
  then have "chain q (window_at n ctx j) (Suc k) = ctx ! j # chain q (window_at n ctx (Suc j)) k"
    using tok window_step [OF assms(1) Suc.prems(1) j] by simp
  also have "\<dots> = ctx ! j # take k (drop (Suc j) ctx)" using Suc by simp
  also have "\<dots> = take (Suc k) (drop j ctx)" using j by (simp add: Cons_nth_drop_Suc [symmetric])
  finally show ?case .
qed

text \<open>
  What was indexed is drafted: when the pool was not reset and no two positions of the indexed
  context that share a slot have different next tokens, a draft from any context that ends with the match
  window before position j returns the tokens that follow there, exactly as many as the draft limit, with
  no token of them computed by a full rehash.
\<close>

theorem ngram_replays:
  assumes "pool_ok p" and "occupied p \<le> capacity (cfg p) div 4" and "EMPTY \<notin> set ctx"
    and "insert_range p ctx 0 = Some p'" and "0 < occupied p'"
    and "\<forall>i\<in>{n_match (cfg p)..<length ctx}. \<forall>j\<in>{n_match (cfg p)..<length ctx}.
           ngram_slot p ctx i = ngram_slot p ctx j \<longrightarrow> ctx ! i = ctx ! j"
    and "n_match (cfg p) \<le> j" and "limit = min (n_max (cfg p)) m" and "0 < limit" and "n_min (cfg p) \<le> limit"
    and "j + limit \<le> length ctx"
  shows "ngram_draft p' (front @ window_at (n_match (cfg p)) ctx j) m = Some (Some (take limit (drop j ctx)))"
proof -
  let ?n = "n_match (cfg p)"
  let ?q = "fold (\<lambda>i q. index_one ctx q i) [?n..<length ctx] p"
  have p': "p' = ?q"
    using insert_range_eq [OF assms(1-3), of 0] assms(4,5) by (auto simp: reset_when_full_def ngram_clear_def split: if_splits)
  have ok: "pool_ok p'" unfolding p' by (rule fold_index_ok [OF assms(1)])
  have apart: "\<forall>i\<in>set [?n..<length ctx]. \<forall>j\<in>set [?n..<length ctx].
           ngram_slot p ctx i = ngram_slot p ctx j \<longrightarrow> ctx ! i = ctx ! j"
    unfolding set_upt by (rule assms(6))
  have "\<forall>i\<in>{?n..<length ctx}. lookup p' (window_at ?n ctx i) = ctx ! i"
    unfolding p' by (intro ballI fold_index_lookup [OF assms(1) apart]) simp
  moreover have n: "0 < ?n" using assms(1) by (simp add: pool_ok_def)
  ultimately have ch: "chain p' (window_at ?n ctx j) limit = take limit (drop j ctx)"
    using assms(3,7,11) by (intro chain_replays)
  have "length (window_at ?n ctx j) = ?n" using assms(7,9,11) by (simp add: window_at_def)
  then show ?thesis
    using ngram_draft_eq [OF ok, of "front @ window_at ?n ctx j" m] ch assms(9-11)
    unfolding assms(8) [symmetric] by (simp add: p' Let_def assms(8) [symmetric])
qed

lemma demo_slots:
  "ngram_slot demo_ngram [1, 2, 3, 4] 2 = 7" "ngram_slot demo_ngram [1, 2, 3, 4] 3 = 5"
  by (simp_all add: ngram_slot_def demo_ngram_def window_at_def hash_window_def HASH_MUL_def)

lemma demo_tokens: "3 \<noteq> EMPTY" "4 \<noteq> EMPTY"
  by (simp_all add: EMPTY_def)

lemma demo_insert:
  "\<exists>p'. insert_range demo_ngram [1, 2, 3, 4] 0 = Some p' \<and> occupied p' = 2"
proof -
  have "insert_range demo_ngram [1, 2, 3, 4] 0 =
        Some (reset_when_full (index_one [1, 2, 3, 4] (index_one [1, 2, 3, 4] demo_ngram 2) 3))"
    using insert_range_eq [OF demo_ngram_ok, of "[1, 2, 3, 4]" 0]
    by (simp add: EMPTY_def demo_ngram_def upt_rec)
  then show ?thesis
    by (simp add: reset_when_full_def index_one_def Let_def demo_ngram_def window_at_def hash_window_def HASH_MUL_def
        demo_tokens)
qed

theorem ngram_replays_witness:
  "\<exists>p'. insert_range demo_ngram [1, 2, 3, 4] 0 = Some p' \<and> ngram_draft p' [9, 1, 2] 2 = Some (Some [3, 4])"
proof -
  obtain p' where "insert_range demo_ngram [1, 2, 3, 4] 0 = Some p'" "occupied p' = 2" using demo_insert by auto
  moreover have "n_match (cfg demo_ngram) = 2" "n_max (cfg demo_ngram) = 2" "n_min (cfg demo_ngram) = 1"
    "occupied demo_ngram = 0" by (simp_all add: demo_ngram_def)
  moreover have "{2..<length [1, 2, 3, 4 :: token]} = {2, 3}" "4 \<le> length [1, 2, 3, 4 :: token]" by auto
  ultimately show ?thesis
    using ngram_replays [OF demo_ngram_ok, where ctx = "[1, 2, 3, 4]" and p' = p' and j = 2 and limit = 2 and m = 2
        and front = "[9]"] demo_slots
    by (simp add: window_at_def EMPTY_def del: list.size)
qed

end
