(* ===== verification/Bpe_Merge.thy ===== *)
theory Bpe_Merge
  imports Prelude "HOL-Library.Product_Lexorder"
begin

text \<open>
  The merge loop of the byte-pair encoder, \<^verbatim>\<open>Tokenizer::encode_gpt2_chunk\<close> of
  \<^verbatim>\<open>hipfire-runtime/src/tokenizer.rs\<close>: the symbols are a doubly linked list in arrays, candidate pairs wait in a
  min-heap keyed by rank, left slot and generation, and stale heap entries are dropped when popped. The
  heap is a list popped at its least element. The reference is the plain scan: merge the leftmost pair of
  least rank until no pair has one; the theorem is that both give the same tokens.
\<close>

section \<open>The state of the loop\<close>

type_synonym pair_rank = "token \<times> token \<rightharpoonup> nat"

record bpe =
  syms :: "token list"
  prv :: "int list"
  nxt :: "int list"
  dead :: "bool list"
  gen :: "nat list"
  heap :: "(nat \<times> nat \<times> nat) list"

definition heap_pop :: "(nat \<times> nat \<times> nat) list \<Rightarrow> ((nat \<times> nat \<times> nat) \<times> (nat \<times> nat \<times> nat) list) option" where
  "heap_pop h = (if h = [] then None else let e = Min (set h) in Some (e, remove1 e h))"

definition push_pair :: "pair_rank \<Rightarrow> bpe \<Rightarrow> nat \<Rightarrow> nat \<Rightarrow> bpe option" where
  "push_pair ranks st l r = do {
     a \<leftarrow> list_get (syms st) l;
     b \<leftarrow> list_get (syms st) r;
     case ranks (a, b) of
       None \<Rightarrow> Some st
     | Some k \<Rightarrow> do { g \<leftarrow> list_get (gen st) l; Some (st\<lparr>heap := (k, l, g) # heap st\<rparr>) }
   }"

definition bpe_start :: "token list \<Rightarrow> bpe" where
  "bpe_start ts =
     (let n = length ts; idx = map int [0..<nat (as_i32 n)]
      in \<lparr>syms = ts, prv = map (\<lambda>i. i - 1) idx, nxt = map (\<lambda>i. if i + 1 < as_i32 n then i + 1 else - 1) idx,
          dead = replicate n False, gen = replicate n 0, heap = []\<rparr>)"

fun seed_heap :: "pair_rank \<Rightarrow> nat list \<Rightarrow> bpe \<Rightarrow> bpe option" where
  "seed_heap ranks [] st = Some st"
| "seed_heap ranks (i # is) st = do { st' \<leftarrow> push_pair ranks st i (i + 1); seed_heap ranks is st' }"

section \<open>One pop\<close>

text \<open>Slot \<open>l\<close> absorbs its right neighbour \<open>r\<close>, and the two pairs that are new are pushed.\<close>

definition bpe_merge :: "pair_rank \<Rightarrow> token list \<Rightarrow> bpe \<Rightarrow> nat \<Rightarrow> nat \<Rightarrow> nat \<Rightarrow> bpe option" where
  "bpe_merge ranks merges st k l r = do {
     m \<leftarrow> list_get merges k;
     sy \<leftarrow> list_set (syms st) l m;
     de \<leftarrow> list_set (dead st) r True;
     gl \<leftarrow> list_get (gen st) l;
     ge \<leftarrow> list_set (gen st) l (gl + 1);
     nr \<leftarrow> list_get (nxt st) r;
     nx \<leftarrow> list_set (nxt st) l nr;
     pr \<leftarrow> (if 0 \<le> nr then list_set (prv st) (nat nr) (int l) else Some (prv st));
     pl \<leftarrow> list_get pr l;
     let st1 = st\<lparr>syms := sy, dead := de, gen := ge, nxt := nx, prv := pr\<rparr>;
     st2 \<leftarrow> (if 0 \<le> pl
             then do {
               gp \<leftarrow> list_get (gen st1) (nat pl);
               ge2 \<leftarrow> list_set (gen st1) (nat pl) (gp + 1);
               push_pair ranks (st1\<lparr>gen := ge2\<rparr>) (nat pl) l
             }
             else Some st1);
     nl \<leftarrow> list_get (nxt st2) l;
     if 0 \<le> nl then push_pair ranks st2 l (nat nl) else Some st2
   }"

definition bpe_pop :: "pair_rank \<Rightarrow> token list \<Rightarrow> bpe \<Rightarrow> nat \<times> nat \<times> nat \<Rightarrow> bpe option" where
  "bpe_pop ranks merges st e =
     (case e of (k, l, g) \<Rightarrow> do {
        d \<leftarrow> list_get (dead st) l;
        gl \<leftarrow> list_get (gen st) l;
        if d \<or> gl \<noteq> g then Some st
        else do {
          r \<leftarrow> list_get (nxt st) l;
          if r < 0 then Some st else bpe_merge ranks merges st k l (nat r)
        }
      })"

partial_function (option) bpe_loop :: "pair_rank \<Rightarrow> token list \<Rightarrow> bpe \<Rightarrow> bpe option" where
  "bpe_loop ranks merges st =
     (case heap_pop (heap st) of
        None \<Rightarrow> Some st
      | Some (e, h) \<Rightarrow> do { st' \<leftarrow> bpe_pop ranks merges (st\<lparr>heap := h\<rparr>) e; bpe_loop ranks merges st' })"

partial_function (option) bpe_walk :: "bpe \<Rightarrow> int \<Rightarrow> token list \<Rightarrow> token list option" where
  "bpe_walk st p out =
     (if p < 0 then Some out
      else do {
        t \<leftarrow> list_get (syms st) (nat p);
        q \<leftarrow> list_get (nxt st) (nat p);
        bpe_walk st q (out @ [t])
      })"

section \<open>The chunk encoder\<close>

fun head_scan :: "bpe \<Rightarrow> nat list \<Rightarrow> int option" where
  "head_scan st [] = Some (- 1)"
| "head_scan st (i # is) = do {
     p \<leftarrow> list_get (prv st) i;
     d \<leftarrow> list_get (dead st) i;
     if p = - 1 \<and> \<not> d then Some (int i) else head_scan st is
   }"

definition bpe_chunk :: "pair_rank \<Rightarrow> token list \<Rightarrow> token list \<Rightarrow> token list \<Rightarrow> token list option" where
  "bpe_chunk ranks merges ts out =
     (if ts = [] then Some out
      else if length ts = 1 then Some (out @ ts)
      else do {
        st0 \<leftarrow> seed_heap ranks [0..<length ts - 1] (bpe_start ts);
        st \<leftarrow> bpe_loop ranks merges st0;
        h \<leftarrow> head_scan st [0..<length ts];
        bpe_walk st h out
      })"

section \<open>The reference encoder\<close>

definition pair_ranks :: "pair_rank \<Rightarrow> token list \<Rightarrow> (nat \<times> nat) list" where
  "pair_ranks ranks ts =
     concat (map (\<lambda>j. case ranks (ts ! j, ts ! Suc j) of None \<Rightarrow> [] | Some k \<Rightarrow> [(k, j)]) [0..<length ts - 1])"

definition best_pair :: "pair_rank \<Rightarrow> token list \<Rightarrow> (nat \<times> nat) option" where
  "best_pair ranks ts = min_by_key fst (pair_ranks ranks ts)"

lemma pair_ranks_iff: "(k, j) \<in> set (pair_ranks ranks ts) \<longleftrightarrow> Suc j < length ts \<and> ranks (ts ! j, ts ! Suc j) = Some k"
  by (auto simp: pair_ranks_def split: option.splits)

lemma best_pair_in: "best_pair ranks ts = Some (k, j) \<Longrightarrow> Suc j < length ts \<and> ranks (ts ! j, ts ! Suc j) = Some k"
  using min_by_key_Some [of fst "pair_ranks ranks ts"] by (simp add: best_pair_def pair_ranks_iff)

text \<open>Replace the pair at \<open>j\<close> by \<open>m\<close>.\<close>

definition fuse :: "nat \<Rightarrow> 'a \<Rightarrow> 'a list \<Rightarrow> 'a list" where
  "fuse j m ts = take j ts @ m # drop (Suc (Suc j)) ts"

lemma length_fuse: "Suc j < length ts \<Longrightarrow> length (fuse j m ts) = length ts - 1"
  by (simp add: fuse_def)

function naive_bpe :: "pair_rank \<Rightarrow> token list \<Rightarrow> token list \<Rightarrow> token list" where
  "naive_bpe ranks merges ts =
     (case best_pair ranks ts of None \<Rightarrow> ts | Some (k, j) \<Rightarrow> naive_bpe ranks merges (fuse j (merges ! k) ts))"
  by pat_completeness auto
termination
  by (relation "measure (\<lambda>(ranks, merges, ts). length ts)") (auto dest!: best_pair_in simp: length_fuse)

declare naive_bpe.simps [simp del]

section \<open>The linked list and the heap\<close>

text \<open>The arrays hold the increasing list of live slots \<open>L\<close>, doubly linked.\<close>

definition linked :: "bpe \<Rightarrow> nat list \<Rightarrow> bool" where
  "linked st L \<longleftrightarrow>
     length (prv st) = length (syms st) \<and> length (nxt st) = length (syms st) \<and>
     length (dead st) = length (syms st) \<and> length (gen st) = length (syms st) \<and>
     sorted_wrt (<) L \<and> set L = {i. i < length (syms st) \<and> \<not> dead st ! i} \<and>
     (\<forall>k<length L. prv st ! (L ! k) = (if k = 0 then - 1 else int (L ! (k - 1))) \<and>
                   nxt st ! (L ! k) = (if Suc k < length L then int (L ! Suc k) else - 1))"

definition live_syms :: "bpe \<Rightarrow> nat list \<Rightarrow> token list" where
  "live_syms st L = map (\<lambda>i. syms st ! i) L"

text \<open>
  The generation tags: an entry that passes the test of the pop names a live pair with its present rank,
  and every pair with a rank has such an entry.
\<close>

definition heap_sound :: "pair_rank \<Rightarrow> bpe \<Rightarrow> nat list \<Rightarrow> bool" where
  "heap_sound ranks st L \<longleftrightarrow>
     (\<forall>(k, l, g) \<in> set (heap st). l < length (syms st) \<and> g \<le> gen st ! l \<and>
        (\<not> dead st ! l \<and> gen st ! l = g \<longrightarrow>
           (\<exists>j. Suc j < length L \<and> L ! j = l \<and> ranks (syms st ! (L ! j), syms st ! (L ! Suc j)) = Some k)))"

definition heap_complete :: "pair_rank \<Rightarrow> bpe \<Rightarrow> nat list \<Rightarrow> bool" where
  "heap_complete ranks st L \<longleftrightarrow>
     (\<forall>j k. Suc j < length L \<longrightarrow> ranks (syms st ! (L ! j), syms st ! (L ! Suc j)) = Some k \<longrightarrow>
        (k, L ! j, gen st ! (L ! j)) \<in> set (heap st))"

definition bpe_inv :: "pair_rank \<Rightarrow> bpe \<Rightarrow> nat list \<Rightarrow> bool" where
  "bpe_inv ranks st L \<longleftrightarrow> linked st L \<and> heap_sound ranks st L \<and> heap_complete ranks st L"

definition cand :: "pair_rank \<Rightarrow> bpe \<Rightarrow> nat \<Rightarrow> nat \<Rightarrow> (nat \<times> nat \<times> nat) list" where
  "cand ranks st l r = (case ranks (syms st ! l, syms st ! r) of None \<Rightarrow> [] | Some k \<Rightarrow> [(k, l, gen st ! l)])"

lemma length_cand: "length (cand ranks st l r) \<le> 1"
  by (simp add: cand_def split: option.split)

lemma cand_iff: "(k, i, g) \<in> set (cand ranks st l r) \<longleftrightarrow> i = l \<and> g = gen st ! l \<and> ranks (syms st ! l, syms st ! r) = Some k"
  by (auto simp: cand_def split: option.splits)

lemma push_pair_eq:
  "l < length (syms st) \<Longrightarrow> r < length (syms st) \<Longrightarrow> length (gen st) = length (syms st) \<Longrightarrow>
   push_pair ranks st l r = Some (st\<lparr>heap := cand ranks st l r @ heap st\<rparr>)"
  by (simp add: push_pair_def cand_def split: option.split)

lemma linked_slot: "linked st L \<Longrightarrow> k < length L \<Longrightarrow> L ! k < length (syms st) \<and> \<not> dead st ! (L ! k)"
  using nth_mem [of k L] by (auto simp: linked_def)

lemma linked_less: "linked st L \<Longrightarrow> a < b \<Longrightarrow> b < length L \<Longrightarrow> L ! a < L ! b"
  using sorted_wrt_nth_less [of "(<)" L a b] by (simp add: linked_def)

lemma linked_eq: "linked st L \<Longrightarrow> a < length L \<Longrightarrow> b < length L \<Longrightarrow> L ! a = L ! b \<longleftrightarrow> a = b"
  by (metis linked_less nat_neq_iff)

text \<open>The live slots after slot \<open>j\<close> absorbed the next one.\<close>

definition absorb :: "nat \<Rightarrow> nat list \<Rightarrow> nat list" where
  "absorb j L = take (Suc j) L @ drop (Suc (Suc j)) L"

lemma length_absorb: "Suc j < length L \<Longrightarrow> length (absorb j L) = length L - 1"
  by (simp add: absorb_def)

lemma nth_absorb: "Suc j < length L \<Longrightarrow> a < length L - 1 \<Longrightarrow> absorb j L ! a = (if a \<le> j then L ! a else L ! Suc a)"
  by (auto simp: absorb_def nth_append min_def)

definition absorbed :: "token list \<Rightarrow> bpe \<Rightarrow> nat list \<Rightarrow> nat \<Rightarrow> nat \<Rightarrow> bpe" where
  "absorbed merges st L k j =
     st\<lparr>syms := (syms st)[L ! j := merges ! k], dead := (dead st)[L ! Suc j := True],
        gen := (let g = (gen st)[L ! j := Suc (gen st ! (L ! j))]
                in if j = 0 then g else g[L ! (j - 1) := Suc (gen st ! (L ! (j - 1)))]),
        nxt := (nxt st)[L ! j := (if Suc (Suc j) < length L then int (L ! Suc (Suc j)) else - 1)],
        prv := (if Suc (Suc j) < length L then (prv st)[L ! Suc (Suc j) := int (L ! j)] else prv st)\<rparr>"

definition fresh_pairs :: "pair_rank \<Rightarrow> bpe \<Rightarrow> nat list \<Rightarrow> nat \<Rightarrow> (nat \<times> nat \<times> nat) list" where
  "fresh_pairs ranks st L j =
     (if Suc (Suc j) < length L then cand ranks st (L ! j) (L ! Suc (Suc j)) else []) @
     (if j = 0 then [] else cand ranks st (L ! (j - 1)) (L ! j))"

lemma bpe_merge_eq:
  assumes lk: "linked st L" and j: "Suc j < length L" and k: "k < length merges"
  shows "bpe_merge ranks merges st k (L ! j) (L ! Suc j) =
         (let st' = absorbed merges st L k j in Some (st'\<lparr>heap := fresh_pairs ranks st' L j @ heap st\<rparr>))"
proof -
  have slot: "L ! a < length (syms st)" if "a < length L" for a using linked_slot [OF lk that] by simp
  have s0: "L ! j < length (syms st)" and s1: "L ! Suc j < length (syms st)" and s3: "L ! (j - 1) < length (syms st)"
    and s2: "Suc (Suc j) < length L \<Longrightarrow> L ! Suc (Suc j) < length (syms st)" using slot j by auto
  have len: "length (prv st) = length (syms st)" "length (nxt st) = length (syms st)" "length (dead st) = length (syms st)"
    "length (gen st) = length (syms st)" using lk by (simp_all add: linked_def)
  have links: "prv st ! (L ! j) = (if j = 0 then - 1 else int (L ! (j - 1)))"
    "nxt st ! (L ! Suc j) = (if Suc (Suc j) < length L then int (L ! Suc (Suc j)) else - 1)"
    using lk j by (auto simp: linked_def)
  have other: "L ! Suc (Suc j) \<noteq> L ! j" if "Suc (Suc j) < length L" using linked_eq [OF lk that, of j] j by simp
  have other2: "L ! (j - 1) \<noteq> L ! j" if "j \<noteq> 0" using linked_eq [OF lk, of "j - 1" j] j that by simp
  show ?thesis
    using k s0 s1 s2 s3 len links j other other2
    by (cases "j = 0"; cases "Suc (Suc j) < length L")
       (simp_all add: bpe_merge_def absorbed_def fresh_pairs_def push_pair_eq Let_def cand_def split: option.split)
qed

section \<open>A merge keeps the invariant\<close>

lemma linked_heap [simp]: "linked (st\<lparr>heap := h\<rparr>) L = linked st L"
  by (simp add: linked_def)

lemma absorb_split: "Suc j < length L \<Longrightarrow> L = take (Suc j) L @ L ! Suc j # drop (Suc (Suc j)) L"
  by (rule id_take_nth_drop)

lemma sorted_absorb:
  assumes "sorted_wrt (<) L" and "Suc j < length L"
  shows "sorted_wrt (<) (absorb j L)"
proof -
  have "sorted_wrt (<) (take (Suc j) L @ L ! Suc j # drop (Suc (Suc j)) L)"
    using assms absorb_split [of j L] by simp
  then show ?thesis by (simp only: absorb_def sorted_wrt_append sorted_wrt.simps list.set insert_iff) blast
qed

lemma set_absorb:
  assumes "distinct L" and "Suc j < length L"
  shows "set (absorb j L) = set L - {L ! Suc j}"
proof -
  have "distinct (take (Suc j) L @ L ! Suc j # drop (Suc (Suc j)) L)"
    and "set L = set (take (Suc j) L @ L ! Suc j # drop (Suc (Suc j)) L)"
    using assms absorb_split [of j L] by simp_all
  then show ?thesis by (auto simp: absorb_def)
qed

lemma linked_absorbed:
  assumes lk: "linked st L" and j: "Suc j < length L"
  shows "linked (absorbed merges st L k j) (absorb j L)"
proof -
  have dist: "distinct L" using lk strict_sorted_iff by (auto simp: linked_def)
  have eq: "L ! a = L ! b \<longleftrightarrow> a = b" if "a < length L" "b < length L" for a b using linked_eq [OF lk that] .
  have slot: "L ! a < length (syms st)" if "a < length L" for a using linked_slot [OF lk that] by simp
  have old: "prv st ! (L ! b) = (if b = 0 then - 1 else int (L ! (b - 1)))"
    "nxt st ! (L ! b) = (if Suc b < length L then int (L ! Suc b) else - 1)" if "b < length L" for b
    using lk that by (auto simp: linked_def)
  have set: "set (absorb j L) = {i. i < length (syms st) \<and> \<not> (dead st)[L ! Suc j := True] ! i}"
    using lk slot [OF j] by (auto simp: set_absorb [OF dist j] linked_def nth_list_update)
  have links: "prv (absorbed merges st L k j) ! (absorb j L ! a) = (if a = 0 then - 1 else int (absorb j L ! (a - 1))) \<and>
    nxt (absorbed merges st L k j) ! (absorb j L ! a) = (if Suc a < length (absorb j L) then int (absorb j L ! Suc a) else - 1)"
    if "a < length (absorb j L)" for a
  proof -
    have a: "a < length L - 1" using that j by (simp add: length_absorb)
    have lens: "length (prv st) = length (syms st)" "length (nxt st) = length (syms st)" using lk by (simp_all add: linked_def)
    note here = nth_absorb [OF j] length_absorb [OF j] lens
    consider "a < j" | "a = j" | "a = Suc j" | "Suc j < a" by linarith
    then show ?thesis
    proof cases
      case 1
      then have "L ! a \<noteq> L ! j" "Suc (Suc j) < length L \<Longrightarrow> L ! Suc (Suc j) \<noteq> L ! a" using j a eq by auto
      moreover have "a - 1 \<le> j" "Suc a < length L - 1" "a - 1 < length L - 1" "Suc a \<le> j" "L \<noteq> []" using 1 a j by auto
      ultimately show ?thesis using 1 a j old [of a] by (cases "a = 0") (simp_all add: absorbed_def here)
    next
      case 2
      have "Suc (Suc j) < length L \<Longrightarrow> L ! Suc (Suc j) \<noteq> L ! j" using j eq by auto
      then show ?thesis using 2 a j old [of j] slot [of j] by (simp add: absorbed_def here less_diff_conv)
    next
      case 3
      then have "L ! Suc (Suc j) \<noteq> L ! j" using j a eq by auto
      then show ?thesis using 3 a j old [of "Suc (Suc j)"] slot [of "Suc (Suc j)"] by (simp add: absorbed_def here less_diff_conv)
    next
      case 4
      then have "L ! Suc a \<noteq> L ! j" "L ! Suc (Suc j) \<noteq> L ! Suc a" using j a eq by auto
      moreover have "\<not> a - Suc 0 \<le> j" using 4 by simp
      ultimately show ?thesis using 4 a j old [of "Suc a"] by (simp add: absorbed_def here less_diff_conv)
    qed
  qed
  show ?thesis
    unfolding linked_def using set links sorted_absorb [of L j] j lk by (simp add: linked_def absorbed_def Let_def)
qed

lemma live_syms_absorbed:
  assumes lk: "linked st L" and j: "Suc j < length L"
  shows "live_syms (absorbed merges st L k j) (absorb j L) = fuse j (merges ! k) (live_syms st L)"
proof (rule nth_equalityI)
  show "length (live_syms (absorbed merges st L k j) (absorb j L)) = length (fuse j (merges ! k) (live_syms st L))"
    using j by (simp add: live_syms_def length_absorb length_fuse)
  fix a
  assume "a < length (live_syms (absorbed merges st L k j) (absorb j L))"
  then have a: "a < length L - 1" using j by (simp add: live_syms_def length_absorb)
  have eq: "L ! x = L ! y \<longleftrightarrow> x = y" if "x < length L" "y < length L" for x y using linked_eq [OF lk that] .
  have "L ! j < length (syms st)" using linked_slot [OF lk, of j] j by simp
  moreover have "a < j \<Longrightarrow> L ! a \<noteq> L ! j" "j < a \<Longrightarrow> L ! Suc a \<noteq> L ! j" using a j eq by auto
  ultimately show "live_syms (absorbed merges st L k j) (absorb j L) ! a = fuse j (merges ! k) (live_syms st L) ! a"
    using a j by (cases a j rule: linorder_cases)
      (simp_all add: live_syms_def length_absorb nth_absorb absorbed_def fuse_def nth_append nth_Cons' min_def)
qed

lemma gen_absorbed:
  assumes lk: "linked st L" and j: "Suc j < length L" and i: "i < length (syms st)"
  shows "gen (absorbed merges st L k j) ! i = gen st ! i + (if i = L ! j \<or> j \<noteq> 0 \<and> i = L ! (j - 1) then 1 else 0)"
proof -
  have "L ! (j - 1) \<noteq> L ! j" if "j \<noteq> 0" using linked_eq [OF lk, of "j - 1" j] j that by simp
  moreover have "length (gen st) = length (syms st)" using lk by (simp add: linked_def)
  ultimately show ?thesis using i by (auto simp: absorbed_def nth_list_update Let_def)
qed

lemma syms_absorbed:
  assumes lk: "linked st L" and "Suc j < length L" and "b < length L" and "b \<noteq> j"
  shows "syms (absorbed merges st L k j) ! (L ! b) = syms st ! (L ! b)"
  using linked_eq [OF lk, of b j] assms by (simp add: absorbed_def)

text \<open>The pairs away from slot \<open>j\<close> keep their symbols.\<close>

lemma far_pair:
  assumes lk: "linked st L" and j: "Suc j < length L" and a: "Suc a < length L - 1" and "Suc a \<noteq> j" "a \<noteq> j"
  defines "b \<equiv> (if a < j then a else Suc a)"
  shows "absorb j L ! a = L ! b" and "absorb j L ! Suc a = L ! Suc b" and "Suc b < length L" and "b \<noteq> j" and "Suc b \<noteq> j"
    and "syms (absorbed merges st L k j) ! (L ! b) = syms st ! (L ! b)"
    and "syms (absorbed merges st L k j) ! (L ! Suc b) = syms st ! (L ! Suc b)"
  using assms by (auto simp: nth_absorb syms_absorbed)

lemma heap_complete_absorbed:
  fixes merges :: "token list" and k :: nat
  assumes lk: "linked st L" and j: "Suc j < length L" and hc: "heap_complete ranks st L"
    and h: "\<forall>(k', i, g)\<in>set (heap st). i \<noteq> L ! j \<longrightarrow> (k', i, g) \<in> set h"
  defines "st' \<equiv> absorbed merges st L k j"
  shows "heap_complete ranks (st'\<lparr>heap := fresh_pairs ranks st' L j @ h\<rparr>) (absorb j L)"
proof -
  have "(q, absorb j L ! a, gen st' ! (absorb j L ! a)) \<in> set (fresh_pairs ranks st' L j @ h)"
    if len: "Suc a < length (absorb j L)"
      and rk: "ranks (syms st' ! (absorb j L ! a), syms st' ! (absorb j L ! Suc a)) = Some q" for a q
  proof -
    from len have a: "Suc a < length L - 1" using j by (simp add: length_absorb)
    consider "a = j" | "Suc a = j" | "a \<noteq> j" "Suc a \<noteq> j" by blast
    then show ?thesis
    proof cases
      case 1
      then have "absorb j L ! a = L ! j" "absorb j L ! Suc a = L ! Suc (Suc j)" using a j by (simp_all add: nth_absorb)
      then show ?thesis using rk a 1 by (auto simp: fresh_pairs_def cand_iff)
    next
      case 2
      then have "absorb j L ! a = L ! (j - 1)" "absorb j L ! Suc a = L ! j" using a j by (auto simp: nth_absorb)
      then show ?thesis using rk 2 by (auto simp: fresh_pairs_def cand_iff)
    next
      case 3
      note far = far_pair [OF lk j a 3(2,1)]
      let ?b = "if a < j then a else Suc a"
      have "(q, L ! ?b, gen st ! (L ! ?b)) \<in> set (heap st)"
        using hc far(3) rk far(1,2) far(6,7) [of merges k] unfolding heap_complete_def st'_def by metis
      moreover have "L ! ?b \<noteq> L ! j" "j \<noteq> 0 \<Longrightarrow> L ! ?b \<noteq> L ! (j - 1)"
        using far(3-5) j linked_eq [OF lk, of ?b j] linked_eq [OF lk, of ?b "j - 1"] by auto
      moreover have "L ! ?b < length (syms st)" using linked_slot [OF lk, of ?b] far(3) by simp
      ultimately show ?thesis using h far(1) gen_absorbed [OF lk j, of "L ! ?b" merges k] by (auto simp: st'_def)
    qed
  qed
  then show ?thesis by (simp add: heap_complete_def)
qed

lemma heap_sound_absorbed:
  fixes merges :: "token list" and k :: nat
  assumes lk: "linked st L" and j: "Suc j < length L" and hs: "heap_sound ranks st L" and h: "set h \<subseteq> set (heap st)"
  defines "st' \<equiv> absorbed merges st L k j"
  shows "heap_sound ranks (st'\<lparr>heap := fresh_pairs ranks st' L j @ h\<rparr>) (absorb j L)"
proof -
  have slot: "L ! a < length (syms st)" if "a < length L" for a using linked_slot [OF lk that] by simp
  have len: "length (syms st') = length (syms st)" "length (absorb j L) = length L - 1"
    using j by (simp_all add: st'_def absorbed_def length_absorb)
  have old: "i < length (syms st) \<and> g \<le> gen st' ! i \<and> (\<not> dead st' ! i \<and> gen st' ! i = g \<longrightarrow>
      (\<exists>a. Suc a < length L - 1 \<and> absorb j L ! a = i \<and> ranks (syms st' ! (absorb j L ! a), syms st' ! (absorb j L ! Suc a)) = Some q))"
    if e: "(q, i, g) \<in> set h" for q i g
  proof -
    have i: "i < length (syms st)" "g \<le> gen st ! i" using e h hs by (auto simp: heap_sound_def)
    note g = gen_absorbed [OF lk j i(1), of merges k]
    have "\<exists>a. Suc a < length L - 1 \<and> absorb j L ! a = i \<and> ranks (syms st' ! (absorb j L ! a), syms st' ! (absorb j L ! Suc a)) = Some q"
      if live: "\<not> dead st' ! i" "gen st' ! i = g"
    proof -
      have ne: "i \<noteq> L ! j" "j \<noteq> 0 \<Longrightarrow> i \<noteq> L ! (j - 1)" "gen st ! i = g"
        using g live(2) i(2) by (auto simp: st'_def split: if_splits)
      have nr: "\<not> dead st ! i" "i \<noteq> L ! Suc j"
        using live(1) i(1) lk slot [OF j] by (auto simp: st'_def absorbed_def linked_def nth_list_update split: if_splits)
      then obtain b where b: "Suc b < length L" "L ! b = i" "ranks (syms st ! (L ! b), syms st ! (L ! Suc b)) = Some q"
        using hs e h ne(3) by (fastforce simp: heap_sound_def)
      then have bj: "b \<noteq> j" "b \<noteq> Suc j" "Suc b \<noteq> j" using ne nr by auto
      define a where "a = (if b < j then b else b - 1)"
      have a: "Suc a < length L - 1" "a \<noteq> j" "Suc a \<noteq> j" "(if a < j then a else Suc a) = b"
        using b(1) bj j by (auto simp: a_def)
      note far = far_pair [OF lk j a(1) a(3) a(2), unfolded a(4)]
      show ?thesis using far(1,2) far(6,7) [of merges k] b a(1) by (auto simp: st'_def)
    qed
    then show ?thesis using i g by (auto simp: st'_def)
  qed
  have new: "i < length (syms st) \<and> g = gen st' ! i \<and>
      (\<exists>a. Suc a < length L - 1 \<and> absorb j L ! a = i \<and> ranks (syms st' ! (absorb j L ! a), syms st' ! (absorb j L ! Suc a)) = Some q)"
    if "(q, i, g) \<in> set (fresh_pairs ranks st' L j)" for q i g
  proof -
    from that consider "Suc (Suc j) < length L" "(q, i, g) \<in> set (cand ranks st' (L ! j) (L ! Suc (Suc j)))"
      | "j \<noteq> 0" "(q, i, g) \<in> set (cand ranks st' (L ! (j - 1)) (L ! j))"
      by (auto simp: fresh_pairs_def split: if_splits)
    then show ?thesis
    proof cases
      case 1
      then show ?thesis using slot [of j] j by (intro conjI exI [of _ j]) (auto simp: cand_iff nth_absorb)
    next
      case 2
      then show ?thesis using slot [of "j - 1"] j by (intro conjI exI [of _ "j - 1"]) (auto simp: cand_iff nth_absorb)
    qed
  qed
  show ?thesis
    unfolding heap_sound_def using old new len by auto
qed

section \<open>The pop that fires is the reference's choice\<close>

lemma min_by_key_first:
  assumes "sorted_wrt (\<lambda>x y. snd x < (snd y :: nat)) xs" and "x \<in> set xs"
    and "\<forall>y\<in>set xs. fst x < fst y \<or> fst x = fst y \<and> snd x \<le> snd y"
  shows "min_by_key fst xs = Some x"
  using assms
proof (induction xs)
  case (Cons a xs)
  show ?case
  proof (cases "x = a")
    case True
    then show ?thesis using Cons.prems min_by_key_Some [of fst xs] by (fastforce split: option.split)
  next
    case False
    then have "min_by_key fst xs = Some x" using Cons by auto
    moreover have "\<not> fst a \<le> fst x" using Cons.prems False by auto
    ultimately show ?thesis by simp
  qed
qed simp

lemma sorted_pair_ranks: "sorted_wrt (\<lambda>x y. snd x < snd y) (pair_ranks ranks ts)"
proof -
  let ?f = "\<lambda>j. case ranks (ts ! j, ts ! Suc j) of None \<Rightarrow> [] | Some k \<Rightarrow> [(k, j)]"
  have mem: "(q, j) \<in> set (concat (map ?f [0..<n])) \<Longrightarrow> j < n" for q j n by (auto split: option.splits)
  have "sorted_wrt (\<lambda>x y. snd x < snd y) (concat (map ?f [0..<n]))" for n
  proof (induction n)
    case (Suc n)
    then show ?case using mem [of _ _ n] by (force simp: sorted_wrt_append split: option.splits)
  qed simp
  then show ?thesis by (simp add: pair_ranks_def)
qed

lemma best_pairI:
  assumes "Suc j < length ts" and "ranks (ts ! j, ts ! Suc j) = Some k"
    and "\<And>k' j'. Suc j' < length ts \<Longrightarrow> ranks (ts ! j', ts ! Suc j') = Some k' \<Longrightarrow> k < k' \<or> k = k' \<and> j \<le> j'"
  shows "best_pair ranks ts = Some (k, j)"
  unfolding best_pair_def
proof (rule min_by_key_first [OF sorted_pair_ranks])
  show "(k, j) \<in> set (pair_ranks ranks ts)" using assms(1,2) by (simp add: pair_ranks_iff)
  show "\<forall>y\<in>set (pair_ranks ranks ts). fst (k, j) < fst y \<or> fst (k, j) = fst y \<and> snd (k, j) \<le> snd y"
    using assms(3) by (fastforce simp: pair_ranks_iff)
qed

lemma heap_pop_Some:
  assumes "heap_pop h = Some (e, h')"
  shows "e \<in> set h \<and> (\<forall>x\<in>set h. e \<le> x) \<and> set h' \<subseteq> set h \<and> (\<forall>x\<in>set h. x \<noteq> e \<longrightarrow> x \<in> set h') \<and> length h = Suc (length h')"
proof -
  have h: "h \<noteq> []" "e = Min (set h)" "h' = remove1 e h" using assms by (auto simp: heap_pop_def Let_def split: if_splits)
  then have e: "e \<in> set h" by simp
  show ?thesis using h e set_remove1_subset [of e h] length_pos_if_in_set [OF e]
    by (auto simp: length_remove1 in_set_remove1)
qed

lemma bpe_pop_stale:
  assumes inv: "bpe_inv ranks st L" and pop: "heap_pop (heap st) = Some ((k, l, g), h)" and st: "dead st ! l \<or> gen st ! l \<noteq> g"
  shows "bpe_pop ranks merges (st\<lparr>heap := h\<rparr>) (k, l, g) = Some (st\<lparr>heap := h\<rparr>) \<and> bpe_inv ranks (st\<lparr>heap := h\<rparr>) L"
proof -
  note hp = heap_pop_Some [OF pop]
  have lk: "linked st L" using inv by (simp add: bpe_inv_def)
  have "l < length (syms st)" using inv hp by (auto simp: bpe_inv_def heap_sound_def)
  then have "bpe_pop ranks merges (st\<lparr>heap := h\<rparr>) (k, l, g) = Some (st\<lparr>heap := h\<rparr>)"
    using st lk by (simp add: bpe_pop_def linked_def)
  moreover have "heap_sound ranks (st\<lparr>heap := h\<rparr>) L" using inv hp by (auto simp: bpe_inv_def heap_sound_def)
  moreover have "(q, L ! j, gen st ! (L ! j)) \<in> set h"
    if "Suc j < length L" "ranks (syms st ! (L ! j), syms st ! (L ! Suc j)) = Some q" for j q
  proof -
    have "(q, L ! j, gen st ! (L ! j)) \<in> set (heap st)" using inv that unfolding bpe_inv_def heap_complete_def by metis
    moreover have "\<not> dead st ! (L ! j)" using linked_slot [OF lk, of j] that by simp
    ultimately show ?thesis using hp st by auto
  qed
  then have "heap_complete ranks (st\<lparr>heap := h\<rparr>) L" by (simp add: heap_complete_def)
  ultimately show ?thesis using lk by (simp add: bpe_inv_def)
qed

lemma bpe_pop_live:
  assumes inv: "bpe_inv ranks st L" and pop: "heap_pop (heap st) = Some ((k, l, g), h)" and live: "\<not> dead st ! l" "gen st ! l = g"
    and mer: "\<And>p q. ranks p = Some q \<Longrightarrow> q < length merges"
  shows "\<exists>j st' L'. best_pair ranks (live_syms st L) = Some (k, j) \<and> Suc j < length L \<and>
           bpe_pop ranks merges (st\<lparr>heap := h\<rparr>) (k, l, g) = Some st' \<and> bpe_inv ranks st' L' \<and>
           live_syms st' L' = fuse j (merges ! k) (live_syms st L) \<and>
           Suc (length L') = length L \<and> length (heap st') \<le> Suc (length (heap st)) \<and> length (syms st') = length (syms st)"
proof -
  note hp = heap_pop_Some [OF pop]
  have lk: "linked st L" and hs: "heap_sound ranks st L" and hc: "heap_complete ranks st L" using inv by (simp_all add: bpe_inv_def)
  have l: "l < length (syms st)" using hs hp by (auto simp: heap_sound_def)
  obtain j where j: "Suc j < length L" "L ! j = l" "ranks (syms st ! (L ! j), syms st ! (L ! Suc j)) = Some k"
    using hs hp live by (fastforce simp: heap_sound_def)
  have best: "best_pair ranks (live_syms st L) = Some (k, j)"
  proof (rule best_pairI)
    fix k' j'
    assume "Suc j' < length (live_syms st L)" "ranks (live_syms st L ! j', live_syms st L ! Suc j') = Some k'"
    then have j': "Suc j' < length L" "ranks (syms st ! (L ! j'), syms st ! (L ! Suc j')) = Some k'"
      by (simp_all add: live_syms_def)
    then have "(k', L ! j', gen st ! (L ! j')) \<in> set (heap st)" using hc unfolding heap_complete_def by metis
    then have "(k, l, g) \<le> (k', L ! j', gen st ! (L ! j'))" using hp by blast
    then have "k < k' \<or> k = k' \<and> L ! j \<le> L ! j'" using j(2) by (auto simp: less_eq_prod_def)
    then show "k < k' \<or> k = k' \<and> j \<le> j'" using linked_less [OF lk, of j' j] j(1) j'(1) by (meson Suc_lessD leD not_le)
  qed (use j in \<open>simp_all add: live_syms_def\<close>)
  let ?st = "st\<lparr>heap := h\<rparr>"
  define a where "a = absorbed merges ?st L k j"
  have a: "absorbed merges st L k j = a\<lparr>heap := heap st\<rparr>" by (simp add: a_def absorbed_def Let_def)
  define st' where "st' = a\<lparr>heap := fresh_pairs ranks a L j @ h\<rparr>"
  have same: "fresh_pairs ranks (a\<lparr>heap := heap st\<rparr>) L j = fresh_pairs ranks a L j" by (simp add: fresh_pairs_def cand_def split: option.split)
  have nxt: "nxt st ! l = int (L ! Suc j)" using lk j by (auto simp: linked_def)
  have step: "bpe_pop ranks merges ?st (k, l, g) = Some st'"
    using bpe_merge_eq [of ?st L j k merges ranks] lk j(1) mer [OF j(3)] nxt l live j(2)
    by (simp add: bpe_pop_def linked_def a_def st'_def Let_def)
  have "linked st' (absorb j L)" using linked_absorbed [of ?st L j merges k] lk j(1) by (simp add: a_def st'_def)
  moreover have "heap_sound ranks st' (absorb j L)"
    using heap_sound_absorbed [OF lk j(1) hs, of h merges k] hp by (simp add: a same st'_def)
  moreover have "\<forall>(k', i, g') \<in> set (heap st). i \<noteq> L ! j \<longrightarrow> (k', i, g') \<in> set h" using hp j(2) by auto
  from heap_complete_absorbed [OF lk j(1) hc this, of merges k] have "heap_complete ranks st' (absorb j L)"
    by (simp add: a same st'_def)
  moreover have "live_syms st' (absorb j L) = fuse j (merges ! k) (live_syms st L)"
    using live_syms_absorbed [OF lk j(1), of merges k] by (simp add: a st'_def live_syms_def)
  moreover have "length (fresh_pairs ranks a L j) \<le> 2"
    using length_cand [of ranks a "L ! j" "L ! Suc (Suc j)"] length_cand [of ranks a "L ! (j - 1)" "L ! j"]
    by (cases "j = 0") (simp_all add: fresh_pairs_def)
  moreover have "length (syms st') = length (syms st)" by (simp add: st'_def a_def absorbed_def)
  ultimately show ?thesis using best j(1) step hp length_absorb [OF j(1)]
    by (intro exI [of _ j] exI [of _ st'] exI [of _ "absorb j L"]) (simp add: bpe_inv_def st'_def)
qed

section \<open>The whole loop\<close>

lemma naive_done: "best_pair ranks ts = None \<Longrightarrow> naive_bpe ranks merges ts = ts"
  by (simp add: naive_bpe.simps)

lemma naive_step: "best_pair ranks ts = Some (k, j) \<Longrightarrow> naive_bpe ranks merges ts = naive_bpe ranks merges (fuse j (merges ! k) ts)"
  by (simp add: naive_bpe.simps [of _ _ ts])

lemma bpe_loop_naive:
  assumes "bpe_inv ranks st L" and mer: "\<And>p q. ranks p = Some q \<Longrightarrow> q < length merges"
  shows "\<exists>st' L'. bpe_loop ranks merges st = Some st' \<and> linked st' L' \<and>
           live_syms st' L' = naive_bpe ranks merges (live_syms st L) \<and> length (syms st') = length (syms st)"
  using assms(1)
proof (induction "length (heap st) + 2 * length L" arbitrary: st L rule: less_induct)
  case less
  show ?case
  proof (cases "heap_pop (heap st)")
    case None
    then have "heap st = []" by (auto simp: heap_pop_def Let_def split: if_splits)
    then have "(q, j) \<notin> set (pair_ranks ranks (live_syms st L))" for q j
      using less.prems by (auto simp: pair_ranks_iff bpe_inv_def heap_complete_def live_syms_def)
    then have "pair_ranks ranks (live_syms st L) = []" by (metis last_in_set surj_pair)
    then show ?thesis using None less.prems
      by (intro exI [of _ st] exI [of _ L]) (simp add: bpe_loop.simps bpe_inv_def naive_done best_pair_def)
  next
    case (Some p)
    obtain k l g h where pop: "heap_pop (heap st) = Some ((k, l, g), h)" using Some by (cases p) auto
    show ?thesis
    proof (cases "dead st ! l \<or> gen st ! l \<noteq> g")
      case True
      note s = bpe_pop_stale [OF less.prems pop True, of merges]
      have "length (heap (st\<lparr>heap := h\<rparr>)) + 2 * length L < length (heap st) + 2 * length L"
        using heap_pop_Some [OF pop] by simp
      from less.hyps [OF this] s show ?thesis using pop by (simp add: bpe_loop.simps [of _ _ st] live_syms_def)
    next
      case False
      then obtain j st' L' where
        best: "best_pair ranks (live_syms st L) = Some (k, j)" and j: "Suc j < length L"
        and step: "bpe_pop ranks merges (st\<lparr>heap := h\<rparr>) (k, l, g) = Some st'" and inv: "bpe_inv ranks st' L'"
        and live: "live_syms st' L' = fuse j (merges ! k) (live_syms st L)" and len: "Suc (length L') = length L"
        and hp: "length (heap st') \<le> Suc (length (heap st))" and sy: "length (syms st') = length (syms st)"
        using bpe_pop_live [OF less.prems pop, of merges] mer by auto
      have "length (heap st') + 2 * length L' < length (heap st) + 2 * length L" using len hp by linarith
      from less.hyps [OF this inv] show ?thesis
        using pop step naive_step [OF best, of merges] live sy by (simp add: bpe_loop.simps [of _ _ st])
    qed
  qed
qed

lemma bpe_walk_list:
  assumes "linked st L" and "k \<le> length L"
  shows "bpe_walk st (if k < length L then int (L ! k) else - 1) out = Some (out @ drop k (live_syms st L))"
  using assms(2)
proof (induction "length L - k" arbitrary: k out)
  case 0
  then show ?case by (simp add: bpe_walk.simps live_syms_def)
next
  case (Suc d)
  then have k: "k < length L" by simp
  have "bpe_walk st (if Suc k < length L then int (L ! Suc k) else - 1) (out @ [syms st ! (L ! k)]) =
        Some ((out @ [syms st ! (L ! k)]) @ drop (Suc k) (live_syms st L))"
    using Suc k by (intro Suc.hyps) auto
  moreover have "nxt st ! (L ! k) = (if Suc k < length L then int (L ! Suc k) else - 1)" "length (nxt st) = length (syms st)"
    using assms(1) k by (auto simp: linked_def)
  moreover have "drop k (live_syms st L) = syms st ! (L ! k) # drop (Suc k) (live_syms st L)"
    using k by (simp add: live_syms_def Cons_nth_drop_Suc [symmetric])
  ultimately show ?case using k linked_slot [OF assms(1) k] by (simp add: bpe_walk.simps [of st "int (L ! k)"])
qed

lemma head_scan_list:
  assumes lk: "linked st L" and "L \<noteq> []" and "length (syms st) = n"
  shows "head_scan st [0..<n] = Some (int (L ! 0))"
proof -
  have L0: "L ! 0 < n" using linked_slot [OF lk, of 0] assms by simp
  have gone: "dead st ! i" if "i < L ! 0" for i
  proof (rule ccontr)
    assume "\<not> dead st ! i"
    then have "i \<in> set L" using lk that L0 assms(3) by (simp add: linked_def)
    then obtain a where "a < length L" "L ! a = i" by (auto simp: in_set_conv_nth)
    then show False using that linked_less [OF lk, of 0 a] by (cases "a = 0") auto
  qed
  have "head_scan st [i..<n] = Some (int (L ! 0))" if "i \<le> L ! 0" for i
    using that
  proof (induction "L ! 0 - i" arbitrary: i)
    case 0
    then have "i = L ! 0" by simp
    then show ?case using L0 lk assms linked_slot [OF lk, of 0] by (simp add: upt_conv_Cons linked_def)
  next
    case (Suc d)
    then have "head_scan st [Suc i..<n] = Some (int (L ! 0))" by simp
    then show ?case using Suc.hyps(2) L0 gone [of i] lk assms by (auto simp: upt_conv_Cons linked_def)
  qed
  then show ?thesis by simp
qed

section \<open>The start of the loop\<close>

lemma linked_start:
  assumes "length ts < 2147483648"
  shows "linked (bpe_start ts) [0..<length ts]"
  using assms by (auto simp: linked_def bpe_start_def Let_def)

lemma seed_heap_eq:
  assumes "\<forall>i\<in>set is. Suc i < length (syms st)" and "length (gen st) = length (syms st)"
  shows "seed_heap ranks is st = Some (st\<lparr>heap := concat (map (\<lambda>i. cand ranks st i (Suc i)) (rev is)) @ heap st\<rparr>)"
  using assms
proof (induction "is" arbitrary: st)
  case (Cons i "is")
  let ?st = "st\<lparr>heap := cand ranks st i (Suc i) @ heap st\<rparr>"
  have "seed_heap ranks is ?st = Some (?st\<lparr>heap := concat (map (\<lambda>i. cand ranks ?st i (Suc i)) (rev is)) @ heap ?st\<rparr>)"
    using Cons by simp
  moreover have "cand ranks ?st a b = cand ranks st a b" for a b by (simp add: cand_def split: option.split)
  ultimately show ?case using Cons.prems by (simp add: push_pair_eq)
qed simp

lemma bpe_inv_start:
  assumes "length ts < 2147483648"
  shows "\<exists>st. seed_heap ranks [0..<length ts - 1] (bpe_start ts) = Some st \<and> bpe_inv ranks st [0..<length ts] \<and> syms st = ts"
proof -
  let ?s = "bpe_start ts"
  have s: "syms ?s = ts" "gen ?s = replicate (length ts) 0" "heap ?s = []" by (simp_all add: bpe_start_def Let_def)
  let ?h = "concat (map (\<lambda>i. cand ranks ?s i (Suc i)) (rev [0..<length ts - 1]))"
  have mem: "(k, l, g) \<in> set ?h \<longleftrightarrow> Suc l < length ts \<and> g = 0 \<and> ranks (ts ! l, ts ! Suc l) = Some k" for k l g
    by (auto simp: cand_iff s)
  have "seed_heap ranks [0..<length ts - 1] ?s = Some (?s\<lparr>heap := ?h\<rparr>)"
    by (subst seed_heap_eq) (auto simp: s)
  moreover have "heap_sound ranks (?s\<lparr>heap := ?h\<rparr>) [0..<length ts]"
    using mem by (auto simp: heap_sound_def s simp del: set_concat set_map)
  moreover have "heap_complete ranks (?s\<lparr>heap := ?h\<rparr>) [0..<length ts]"
    using mem by (auto simp: heap_complete_def s simp del: set_concat set_map)
  ultimately show ?thesis using linked_start [OF assms] s by (auto simp: bpe_inv_def)
qed

lemma naive_short: "length ts \<le> 1 \<Longrightarrow> naive_bpe ranks merges ts = ts"
  by (simp add: naive_done best_pair_def pair_ranks_def)

lemma naive_nonempty: "ts \<noteq> [] \<Longrightarrow> naive_bpe ranks merges ts \<noteq> []"
proof (induction ranks merges ts rule: naive_bpe.induct)
  case (1 ranks merges ts)
  show ?case
  proof (cases "best_pair ranks ts")
    case None
    then show ?thesis using "1.prems" by (simp add: naive_done)
  next
    case (Some p)
    then show ?thesis using "1.IH" naive_step [of ranks ts "fst p" "snd p" merges] by (cases p) (simp add: fuse_def)
  qed
qed

lemma bpe_chunk_eq:
  assumes "length ts < 2147483648" and mer: "\<And>p q. ranks p = Some q \<Longrightarrow> q < length merges"
  shows "bpe_chunk ranks merges ts out = Some (out @ naive_bpe ranks merges ts)"
proof (cases "length ts \<le> 1")
  case True
  then show ?thesis by (cases ts) (auto simp: bpe_chunk_def naive_short)
next
  case False
  obtain st0 where st0: "seed_heap ranks [0..<length ts - 1] (bpe_start ts) = Some st0"
    "bpe_inv ranks st0 [0..<length ts]" "syms st0 = ts" using bpe_inv_start [OF assms(1)] by blast
  obtain st L where st: "bpe_loop ranks merges st0 = Some st" "linked st L" "length (syms st) = length ts"
    "live_syms st L = naive_bpe ranks merges (live_syms st0 [0..<length ts])"
    using bpe_loop_naive [OF st0(2), of merges] mer st0(3) by auto
  have same: "live_syms st0 [0..<length ts] = ts" using st0(3) by (simp add: live_syms_def map_nth)
  have "ts \<noteq> []" using False by auto
  then have ne: "L \<noteq> []" using st(4) same naive_nonempty [of ts ranks merges] by (auto simp: live_syms_def)
  have "bpe_walk st (int (L ! 0)) out = Some (out @ live_syms st L)" using bpe_walk_list [OF st(2), of 0] ne by simp
  moreover have "ts \<noteq> []" "length ts \<noteq> 1" using False by auto
  ultimately show ?thesis using st0(1) st head_scan_list [OF st(2) ne st(3)] same by (simp add: bpe_chunk_def)
qed

text \<open>
  Property C9. The merge loop with its heap, generation tags and linked list gives, for every chunk, exactly
  the tokens of the plain scan that merges the leftmost pair of least rank until none is left; it always
  ends and no index is out of range, as long as every rank indexes the merge table and the chunk is shorter
  than two gigabytes.
\<close>

theorem bpe_heap_is_naive:
  assumes "length ts < 2147483648" and "\<And>p q. ranks p = Some q \<Longrightarrow> q < length merges"
  shows "bpe_chunk ranks merges ts out = Some (out @ naive_bpe ranks merges ts)"
  by (rule bpe_chunk_eq [OF assms])

definition demo_ranks :: pair_rank where
  "demo_ranks = [(97, 98) \<mapsto> 0, (256, 99) \<mapsto> 1, (98, 99) \<mapsto> 1]"

theorem bpe_heap_is_naive_witness:
  "bpe_chunk demo_ranks [256, 257] [97, 98, 99, 97, 98] [5] = Some ([5] @ naive_bpe demo_ranks [256, 257] [97, 98, 99, 97, 98]) \<and>
   bpe_chunk demo_ranks [256, 257] [97, 98, 99, 97, 98] [5] = Some [5, 257, 256]"
proof -
  have naive: "naive_bpe demo_ranks [256, 257] [97, 98, 99, 97, 98] = [257, 256]"
    by code_simp
  have "bpe_chunk demo_ranks [256, 257] [97, 98, 99, 97, 98] [5] = Some ([5] @ naive_bpe demo_ranks [256, 257] [97, 98, 99, 97, 98])"
    by (rule bpe_heap_is_naive) (auto simp: demo_ranks_def split: if_splits)
  then show ?thesis by (simp add: naive)
qed

end
