(* ===== verification/Tokenizer.thy ===== *)
theory Tokenizer
  imports Bpe_Merge "HOL-Library.AList"
begin

text \<open>
  The tokenizer, \<^verbatim>\<open>hipfire-runtime/src/tokenizer.rs\<close>: loading from GGUF metadata with its consistency checks,
  the byte alphabet of GPT-2, encoding with special tokens, byte-pair merges and SentencePiece, and
  decoding to bytes. A string is the list of its code points; a hash map is an association list. The
  pre-tokenising regular expression is the parameter \<open>pretok\<close>, which gives the matches in order. A loop that
  never ends, or a panic, is the value \<open>None\<close>.
\<close>

section \<open>Strings\<close>

type_synonym ustring = "nat list"

definition lit :: "string \<Rightarrow> ustring" where
  "lit s = map of_char s"

definition utf8_char :: "nat \<Rightarrow> byte list" where
  "utf8_char c =
     (if c < 128 then [word_of_nat c]
      else if c < 2048 then [word_of_nat (192 + c div 64), word_of_nat (128 + c mod 64)]
      else if c < 65536 then [word_of_nat (224 + c div 4096), word_of_nat (128 + c div 64 mod 64), word_of_nat (128 + c mod 64)]
      else [word_of_nat (240 + c div 262144), word_of_nat (128 + c div 4096 mod 64),
            word_of_nat (128 + c div 64 mod 64), word_of_nat (128 + c mod 64)])"

definition utf8 :: "ustring \<Rightarrow> byte list" where
  "utf8 s = concat (map utf8_char s)"

definition starts_with :: "ustring \<Rightarrow> ustring \<Rightarrow> bool" where
  "starts_with s p \<longleftrightarrow> take (length p) s = p"

definition ends_with :: "ustring \<Rightarrow> ustring \<Rightarrow> bool" where
  "ends_with s p \<longleftrightarrow> length p \<le> length s \<and> drop (length s - length p) s = p"

definition find_str :: "ustring \<Rightarrow> ustring \<Rightarrow> nat option" where
  "find_str s p = position (\<lambda>i. starts_with (drop i s) p) [0..<Suc (length s)]"

definition splitn2 :: "ustring \<Rightarrow> (ustring \<times> ustring) option" where
  "splitn2 s = (case dropWhile (\<lambda>c. c \<noteq> 32) s of [] \<Rightarrow> None | _ # rest \<Rightarrow> Some (takeWhile (\<lambda>c. c \<noteq> 32) s, rest))"

section \<open>The byte alphabet\<close>

definition printable :: "nat \<Rightarrow> bool" where
  "printable b \<longleftrightarrow> (33 \<le> b \<and> b \<le> 126) \<or> (161 \<le> b \<and> b \<le> 172) \<or> (174 \<le> b \<and> b \<le> 255)"

text \<open>The two tables, filled by counting through the bytes that are not printable.\<close>

definition GPT2_BYTE_TO_OFFSET :: "nat list" where
  "GPT2_BYTE_TO_OFFSET =
     map (\<lambda>b. if printable b then 255 else length (filter (\<lambda>x. \<not> printable x) [0..<b])) [0..<256]"

definition GPT2_OFFSET_TO_BYTE :: "nat list" where
  "GPT2_OFFSET_TO_BYTE = filter (\<lambda>b. \<not> printable b) [0..<256]"

definition byte_to_gpt2_char :: "nat \<Rightarrow> nat" where
  "byte_to_gpt2_char b = (if printable b then b else 256 + GPT2_BYTE_TO_OFFSET ! b)"

definition gpt2_char_to_byte :: "nat \<Rightarrow> nat option" where
  "gpt2_char_to_byte c =
     (if printable c then Some c
      else if 256 \<le> c \<and> c < 256 + 68 then list_get GPT2_OFFSET_TO_BYTE (c - 256)
      else None)"

section \<open>Loading\<close>

datatype side = LeftSide | RightSide

datatype tokenizer_error =
    MetadataMissing string
  | MissingByteSymbol nat nat
  | MissingMergeOperand nat ustring ustring side
  | MissingMergeResult nat ustring

record tokenizer =
  vocab :: "ustring list"
  token_to_id :: "(ustring \<times> token) list"
  merges :: "token list"
  merge_pair_rank :: pair_rank
  byte_to_id :: "token list option"
  special_tokens :: "(ustring \<times> token) list"
  bos_id :: token
  add_bos :: bool
  eos_id :: token
  eot_id :: "token option"
  is_gpt2_bpe :: bool
  sp_dummy_prefix :: bool

fun resolve_loop ::
  "nat \<Rightarrow> (ustring \<times> ustring) list \<Rightarrow> (ustring \<times> token) list \<Rightarrow> token list \<Rightarrow> pair_rank \<Rightarrow>
   tokenizer_error + (token list \<times> pair_rank)" where
  "resolve_loop rank [] ids ms ranks = Inr (ms, ranks)"
| "resolve_loop rank ((l, r) # ps) ids ms ranks =
     (case map_of ids l of
        None \<Rightarrow> Inl (MissingMergeOperand rank l r LeftSide)
      | Some a \<Rightarrow> (case map_of ids r of
            None \<Rightarrow> Inl (MissingMergeOperand rank l r RightSide)
          | Some b \<Rightarrow> (case map_of ids (l @ r) of
                None \<Rightarrow> Inl (MissingMergeResult rank (l @ r))
              | Some m \<Rightarrow>
                  resolve_loop (Suc rank) ps ids (ms @ [m])
                    (if ranks (a, b) = None then ranks((a, b) \<mapsto> rank mod 4294967296) else ranks))))"

definition resolve_merges ::
  "(ustring \<times> ustring) list \<Rightarrow> (ustring \<times> token) list \<Rightarrow> tokenizer_error + (token list \<times> pair_rank)" where
  "resolve_merges ps ids = resolve_loop 0 ps ids [] Map.empty"

fun byte_ids :: "nat list \<Rightarrow> (ustring \<times> token) list \<Rightarrow> token list \<Rightarrow> tokenizer_error + token list" where
  "byte_ids [] ids out = Inr out"
| "byte_ids (b # bs) ids out =
     (case map_of ids [byte_to_gpt2_char b] of
        None \<Rightarrow> Inl (MissingByteSymbol b (byte_to_gpt2_char b))
      | Some t \<Rightarrow> byte_ids bs ids (out @ [t]))"

definition build_byte_to_id :: "(ustring \<times> token) list \<Rightarrow> tokenizer_error + token list" where
  "build_byte_to_id ids = byte_ids [0..<256] ids []"

text \<open>GGUF metadata. Floats have the type \<open>'f\<close>.\<close>

datatype 'f meta_value =
    MU8 nat | MI8 int | MU16 nat | MI16 int | MU32 token | MI32 int | MF32 'f | MBool bool
  | MString ustring | MU64 nat | MI64 int | MF64 'f | MArray "'f meta_value list"

fun as_u32 :: "'f meta_value \<Rightarrow> token option" where
  "as_u32 (MU32 v) = Some v"
| "as_u32 (MI32 v) = Some (word_of_int v)"
| "as_u32 (MU64 v) = Some (word_of_nat v)"
| "as_u32 _ = None"

fun as_str :: "'f meta_value \<Rightarrow> ustring option" where
  "as_str (MString s) = Some s"
| "as_str _ = None"

definition enter_vocab :: "ustring list \<Rightarrow> (ustring \<times> token) list" where
  "enter_vocab voc = fold (\<lambda>(i, tok) m. AList.update tok (word_of_nat i) m) (enumerate 0 voc) []"

definition special_form :: "ustring \<Rightarrow> bool" where
  "special_form tok \<longleftrightarrow>
     starts_with tok (lit ''<|'') \<and> ends_with tok (lit ''|>'') \<or>
     starts_with tok (lit ''<'') \<and> ends_with tok (lit ''>'') \<and> 3 < length (utf8 tok) \<and> 32 \<notin> set tok"

definition collect_special :: "ustring list \<Rightarrow> (ustring \<times> token) list" where
  "collect_special voc =
     sort_key (\<lambda>(s, _). - int (length (utf8 s)))
       (map (\<lambda>(i, tok). (tok, word_of_nat i)) (filter (\<lambda>(i, tok). special_form tok) (enumerate 0 voc)))"

definition gguf_vocab :: "'f meta_value list \<Rightarrow> ustring list" where
  "gguf_vocab arr = map (\<lambda>v. case v of MString s \<Rightarrow> s | _ \<Rightarrow> []) arr"

definition gguf_model :: "(string \<rightharpoonup> 'f meta_value) \<Rightarrow> ustring" where
  "gguf_model gguf = (case Option.bind (gguf ''tokenizer.ggml.model'') as_str of None \<Rightarrow> lit ''llama'' | Some s \<Rightarrow> s)"

definition gguf_merges :: "'f meta_value option \<Rightarrow> (ustring \<times> ustring) list" where
  "gguf_merges m = (case m of Some (MArray arr) \<Rightarrow> List.map_filter (\<lambda>v. Option.bind (as_str v) splitn2) arr | _ \<Rightarrow> [])"

text \<open>The end of a load: the checks of the merge rules and of the byte alphabet.\<close>

definition assemble ::
  "ustring list \<Rightarrow> (ustring \<times> token) list \<Rightarrow> (ustring \<times> ustring) list \<Rightarrow> token \<Rightarrow> token \<Rightarrow> token option \<Rightarrow> bool \<Rightarrow> bool \<Rightarrow>
   tokenizer_error + tokenizer" where
  "assemble voc ids ps bos eos eot gpt2 dummy =
     (case resolve_merges ps ids of
        Inl e \<Rightarrow> Inl e
      | Inr (ms, ranks) \<Rightarrow>
          (case (if gpt2 then map_sum id Some (build_byte_to_id ids) else Inr None) of
             Inl e \<Rightarrow> Inl e
           | Inr bids \<Rightarrow>
               Inr \<lparr>vocab = voc, token_to_id = ids, merges = ms, merge_pair_rank = ranks, byte_to_id = bids,
                    special_tokens = collect_special voc, bos_id = bos, add_bos = False, eos_id = eos, eot_id = eot,
                    is_gpt2_bpe = gpt2, sp_dummy_prefix = dummy\<rparr>))"

definition from_gguf :: "(string \<rightharpoonup> 'f meta_value) \<Rightarrow> tokenizer_error + tokenizer" where
  "from_gguf gguf =
     (case gguf ''tokenizer.ggml.tokens'' of
        Some (MArray arr) \<Rightarrow>
          let voc = gguf_vocab arr;
              ids = enter_vocab voc;
              ps = gguf_merges (gguf ''tokenizer.ggml.merges'');
              bos = (case Option.bind (gguf ''tokenizer.ggml.bos_token_id'') as_u32 of None \<Rightarrow> 1 | Some v \<Rightarrow> v);
              eos = (case Option.bind (gguf ''tokenizer.ggml.eos_token_id'') as_u32 of None \<Rightarrow> 2 | Some v \<Rightarrow> v);
              eot = (case (map_of ids (lit ''<|endoftext|>''), map_of ids (lit ''<|im_end|>'')) of
                       (Some et, Some ie) \<Rightarrow> if et \<noteq> eos \<and> ie = eos then Some et else if et \<noteq> eos then Some et else None
                     | (Some et, None) \<Rightarrow> if et \<noteq> eos then Some et else None
                     | (None, _) \<Rightarrow> None);
              gpt2 = (gguf_model gguf = lit ''gpt2'');
              dummy = (case gguf ''tokenizer.ggml.add_space_prefix'' of Some (MBool b) \<Rightarrow> b | _ \<Rightarrow> True)
          in assemble voc ids ps bos eos eot gpt2 dummy
      | _ \<Rightarrow> Inl (MetadataMissing ''tokenizer.ggml.tokens''))"

definition is_terminator :: "tokenizer \<Rightarrow> token \<Rightarrow> bool" where
  "is_terminator tk t \<longleftrightarrow> t = eos_id tk \<or> eot_id tk = Some t"

definition special_token_id :: "tokenizer \<Rightarrow> ustring \<Rightarrow> token option" where
  "special_token_id tk content = map_of (special_tokens tk) content"

section \<open>Decoding\<close>

definition hexdigit :: "nat \<Rightarrow> bool" where
  "hexdigit c \<longleftrightarrow> (48 \<le> c \<and> c \<le> 57) \<or> (65 \<le> c \<and> c \<le> 70) \<or> (97 \<le> c \<and> c \<le> 102)"

definition hexval :: "nat \<Rightarrow> nat" where
  "hexval c = (if c \<le> 57 then c - 48 else if c \<le> 70 then c - 55 else c - 87)"

definition hex_u8 :: "ustring \<Rightarrow> nat option" where
  "hex_u8 h = (let v = foldl (\<lambda>n c. 16 * n + hexval c) 0 h in if v \<le> 255 then Some v else None)"

text \<open>
  \<^verbatim>\<open>decode_hex_escapes_bytes\<close>: \<open><0xHH>\<close> becomes the byte. What was read of a form that does not match is
  copied; a closing \<open>>\<close> that was consumed before the value turned out too large is not.
\<close>

lemma short_tail: "length (dropWhile P (tl (tl xs))) \<le> length xs" "length (dropWhile P (tl (tl xs))) - Suc 0 \<le> length xs"
  using length_dropWhile_le [of P "tl (tl xs)"] by auto

function hex_escapes :: "ustring \<Rightarrow> byte list" where
  "hex_escapes [] = []"
| "hex_escapes (c # rest) =
     (if c \<noteq> 60 then utf8_char c @ hex_escapes rest
      else if rest = [] \<or> hd rest \<noteq> 48 then utf8 [c] @ hex_escapes rest
      else
        let r1 = tl rest
        in if r1 = [] \<or> (hd r1 \<noteq> 120 \<and> hd r1 \<noteq> 88) then utf8 [c, 48] @ hex_escapes r1
           else
             let x = hd r1; hex = takeWhile hexdigit (tl r1); r3 = dropWhile hexdigit (tl r1)
             in if r3 \<noteq> [] \<and> hd r3 = 62 \<and> hex \<noteq> []
                then (case hex_u8 hex of
                        Some v \<Rightarrow> word_of_nat v # hex_escapes (tl r3)
                      | None \<Rightarrow> utf8 ([c, 48, x] @ hex) @ hex_escapes (tl r3))
                else utf8 ([c, 48, x] @ hex) @ hex_escapes r3)"
  by pat_completeness auto
termination
  by (relation "measure length") (auto simp: less_Suc_eq_le intro: short_tail)

declare hex_escapes.simps(2) [simp del]

definition gpt2_char_bytes :: "nat \<Rightarrow> byte list" where
  "gpt2_char_bytes c =
     (if c = 288 then [32]
      else if c = 266 then [10]
      else if c = 265 then [9]
      else if c < 128 then [word_of_nat c]
      else case gpt2_char_to_byte c of Some b \<Rightarrow> [word_of_nat b] | None \<Rightarrow> utf8_char c)"

definition token_bytes :: "tokenizer \<Rightarrow> token \<Rightarrow> byte list" where
  "token_bytes tk t =
     (case list_get (vocab tk) (unat t) of
        None \<Rightarrow> []
      | Some tok \<Rightarrow>
          if is_gpt2_bpe tk then concat (map gpt2_char_bytes tok)
          else hex_escapes (map (\<lambda>c. if c = 9601 then 32 else c) tok))"

definition decode_bytes :: "tokenizer \<Rightarrow> token list \<Rightarrow> byte list" where
  "decode_bytes tk ts = concat (map (token_bytes tk) ts)"

section \<open>Encoding\<close>

definition encode_gpt2_chunk :: "tokenizer \<Rightarrow> byte list \<Rightarrow> token list \<Rightarrow> token list option" where
  "encode_gpt2_chunk tk chunk out = do {
     ids \<leftarrow> byte_to_id tk;
     ts \<leftarrow> those (map (\<lambda>b. list_get ids (unat b)) chunk);
     bpe_chunk (merge_pair_rank tk) (merges tk) ts out
   }"

fun encode_chunks :: "tokenizer \<Rightarrow> ustring list \<Rightarrow> token list \<Rightarrow> token list option" where
  "encode_chunks tk [] out = Some out"
| "encode_chunks tk (m # ms) out = do { out' \<leftarrow> encode_gpt2_chunk tk (utf8 m) out; encode_chunks tk ms out' }"

definition encode_gpt2_bpe :: "(ustring \<Rightarrow> ustring list) \<Rightarrow> tokenizer \<Rightarrow> ustring \<Rightarrow> token list option" where
  "encode_gpt2_bpe pretok tk text = encode_chunks tk (pretok text) []"

fun longest :: "(ustring \<times> token) list \<Rightarrow> ustring \<Rightarrow> nat \<Rightarrow> (nat \<times> token) option" where
  "longest ids s 0 = None"
| "longest ids s (Suc n) = (case map_of ids (take (Suc n) s) of Some t \<Rightarrow> Some (Suc n, t) | None \<Rightarrow> longest ids s n)"

lemma longest_len: "longest ids s n = Some (k, t) \<Longrightarrow> 0 < k \<and> k \<le> n \<and> map_of ids (take k s) = Some t"
  by (induction n) (auto split: option.splits)

function sp_loop :: "(ustring \<times> token) list \<Rightarrow> nat \<Rightarrow> ustring \<Rightarrow> token list \<Rightarrow> token list" where
  "sp_loop ids mx s out =
     (if s = [] then out
      else case longest ids s (min mx (length s)) of
             Some (k, t) \<Rightarrow> sp_loop ids mx (drop k s) (out @ [t])
           | None \<Rightarrow> sp_loop ids mx (tl s) (case map_of ids [hd s] of Some t \<Rightarrow> out @ [t] | None \<Rightarrow> out))"
  by pat_completeness auto
termination
  by (relation "measure (\<lambda>(ids, mx, s, out). length s)") (auto dest!: longest_len)

declare sp_loop.simps [simp del]

definition max_tok_chars :: "(ustring \<times> token) list \<Rightarrow> nat" where
  "max_tok_chars ids = (case max_by_key id (map (length \<circ> fst) ids) of None \<Rightarrow> 1 | Some n \<Rightarrow> n)"

definition encode_sentencepiece :: "tokenizer \<Rightarrow> ustring \<Rightarrow> token list" where
  "encode_sentencepiece tk text =
     (let sp_text = (if sp_dummy_prefix tk then [9601] else []) @ map (\<lambda>c. if c = 32 then 9601 else c) text
      in sp_loop (token_to_id tk) (max_tok_chars (token_to_id tk)) sp_text [])"

definition encode_raw :: "(ustring \<Rightarrow> ustring list) \<Rightarrow> tokenizer \<Rightarrow> ustring \<Rightarrow> token list option" where
  "encode_raw pretok tk text =
     (if \<not> is_gpt2_bpe tk then Some (encode_sentencepiece tk text) else encode_gpt2_bpe pretok tk text)"

definition next_special :: "(ustring \<times> token) list \<Rightarrow> ustring \<Rightarrow> nat" where
  "next_special specials remaining =
     fold (\<lambda>(st, _) best. case find_str remaining st of Some pos \<Rightarrow> if pos < best then pos else best | None \<Rightarrow> best)
       specials (length remaining)"

partial_function (option) encode_loop ::
  "(ustring \<Rightarrow> ustring list) \<Rightarrow> tokenizer \<Rightarrow> ustring \<Rightarrow> token list \<Rightarrow> token list option" where
  "encode_loop pretok tk remaining out =
     (if remaining = [] then Some out
      else case find (\<lambda>(st, _). starts_with remaining st) (special_tokens tk) of
             Some (st, t) \<Rightarrow> encode_loop pretok tk (drop (length st) remaining) (out @ [t])
           | None \<Rightarrow>
               let n = next_special (special_tokens tk) remaining; segment = take n remaining
               in do {
                 more \<leftarrow> (if segment \<noteq> [] then encode_raw pretok tk segment else Some []);
                 encode_loop pretok tk (drop n remaining) (out @ more)
               })"

definition encode :: "(ustring \<Rightarrow> ustring list) \<Rightarrow> tokenizer \<Rightarrow> ustring \<Rightarrow> token list option" where
  "encode pretok tk text =
     (let bos_str = (case list_get (vocab tk) (unat (bos_id tk)) of None \<Rightarrow> [] | Some s \<Rightarrow> s);
          start = (if add_bos tk \<and> (bos_str = [] \<or> \<not> starts_with text bos_str) then [bos_id tk] else [])
      in if special_tokens tk = [] then do { more \<leftarrow> encode_raw pretok tk text; Some (start @ more) }
         else encode_loop pretok tk text start)"

section \<open>The byte alphabet is a bijection\<close>

text \<open>Counting the elements before \<open>b\<close> and indexing the filtered list are inverse.\<close>

lemma filter_upt_rank:
  assumes "P b" and "b < n"
  shows "length (filter P [0..<b]) < length (filter P [0..<n])" and "filter P [0..<n] ! length (filter P [0..<b]) = b"
proof -
  have "[0..<n] = [0..<b] @ b # [Suc b..<n]" using assms(2) by (metis le_add_diff_inverse less_imp_le_nat upt_add_eq_append upt_conv_Cons zero_le)
  then have "filter P [0..<n] = filter P [0..<b] @ b # filter P [Suc b..<n]" using assms(1) by simp
  then show "length (filter P [0..<b]) < length (filter P [0..<n])" "filter P [0..<n] ! length (filter P [0..<b]) = b"
    by (simp_all add: nth_append)
qed

lemma length_offsets: "length GPT2_OFFSET_TO_BYTE = 68"
  by (simp add: GPT2_OFFSET_TO_BYTE_def) code_simp

lemma offset_roundtrip:
  assumes "b < 256" and "\<not> printable b"
  shows "GPT2_BYTE_TO_OFFSET ! b < 68" and "GPT2_OFFSET_TO_BYTE ! (GPT2_BYTE_TO_OFFSET ! b) = b"
proof -
  note r = filter_upt_rank [of "\<lambda>x. \<not> printable x" b 256, OF assms(2,1)]
  have o: "GPT2_BYTE_TO_OFFSET ! b = length (filter (\<lambda>x. \<not> printable x) [0..<b])"
    using assms by (simp add: GPT2_BYTE_TO_OFFSET_def)
  show "GPT2_BYTE_TO_OFFSET ! b < 68" using r(1) length_offsets by (simp add: o GPT2_OFFSET_TO_BYTE_def)
  show "GPT2_OFFSET_TO_BYTE ! (GPT2_BYTE_TO_OFFSET ! b) = b" using r(2) by (simp add: o GPT2_OFFSET_TO_BYTE_def)
qed

lemma named_offsets: "GPT2_OFFSET_TO_BYTE ! 32 = 32" "GPT2_OFFSET_TO_BYTE ! 10 = 10" "GPT2_OFFSET_TO_BYTE ! 9 = 9"
  unfolding GPT2_OFFSET_TO_BYTE_def by code_simp+

lemma gpt2_char_bytes_byte:
  assumes "b < 256"
  shows "gpt2_char_bytes (byte_to_gpt2_char b) = [word_of_nat b]"
proof (cases "printable b")
  case True
  then show ?thesis using assms by (auto simp: gpt2_char_bytes_def byte_to_gpt2_char_def gpt2_char_to_byte_def)
next
  case False
  define i where "i = GPT2_BYTE_TO_OFFSET ! b"
  have i: "i < 68" "GPT2_OFFSET_TO_BYTE ! i = b" using offset_roundtrip [OF assms False] by (simp_all add: i_def)
  have "\<not> printable (256 + i)" by (simp add: printable_def)
  then have "gpt2_char_to_byte (256 + i) = Some b" using i length_offsets by (simp add: gpt2_char_to_byte_def)
  moreover have "i = 32 \<Longrightarrow> b = 32" "i = 10 \<Longrightarrow> b = 10" "i = 9 \<Longrightarrow> b = 9" using i(2) named_offsets by auto
  ultimately show ?thesis using False by (auto simp: gpt2_char_bytes_def byte_to_gpt2_char_def i_def [symmetric])
qed

section \<open>A loaded tokenizer is consistent\<close>

lemma enter_vocab_fold:
  "map_of (fold (\<lambda>(i, tok) m. AList.update tok (word_of_nat i) m) (enumerate n voc) m) s = Some t \<Longrightarrow>
   (\<exists>i<length voc. voc ! i = s \<and> t = word_of_nat (n + i)) \<or> map_of m s = Some t"
proof (induction voc arbitrary: n m)
  case (Cons tok voc)
  then have "(\<exists>i<length voc. voc ! i = s \<and> t = word_of_nat (Suc n + i)) \<or> map_of (AList.update tok (word_of_nat n) m) s = Some t"
    using Cons.IH [of "Suc n" "AList.update tok (word_of_nat n) m"] by (simp only: enumerate_simps fold_simps prod.case)
  then show ?case
  proof
    assume "\<exists>i<length voc. voc ! i = s \<and> t = word_of_nat (Suc n + i)"
    then obtain i where "i < length voc" "voc ! i = s" "t = word_of_nat (Suc n + i)" by blast
    then show ?thesis by (intro disjI1 exI [of _ "Suc i"]) simp
  next
    assume "map_of (AList.update tok (word_of_nat n) m) s = Some t"
    then show ?thesis by (cases "tok = s") (auto simp: update_conv' intro!: exI [of _ 0])
  qed
qed simp

lemma enter_vocab_Some:
  assumes "map_of (enter_vocab voc) s = Some t" and "length voc \<le> 4294967296"
  shows "list_get voc (unat t) = Some s"
proof -
  obtain i where i: "i < length voc" "voc ! i = s" "t = word_of_nat i"
    using enter_vocab_fold [of 0 voc "[]" s t] assms(1) by (auto simp: enter_vocab_def)
  then have "unat t = i" using assms(2) by (simp add: unat_of_nat)
  then show ?thesis using i by simp
qed

text \<open>Every rank indexes the merge table, and the entry spells the two operands.\<close>

definition merges_ok :: "(ustring \<times> token) list \<Rightarrow> token list \<Rightarrow> pair_rank \<Rightarrow> bool" where
  "merges_ok ids ms ranks \<longleftrightarrow>
     (\<forall>a b k. ranks (a, b) = Some k \<longrightarrow> k < length ms \<and>
        (\<exists>l r. map_of ids l = Some a \<and> map_of ids r = Some b \<and> map_of ids (l @ r) = Some (ms ! k)))"

lemma merges_ok_snoc: "merges_ok ids ms ranks \<Longrightarrow> merges_ok ids (ms @ [m]) ranks"
  unfolding merges_ok_def by (metis length_append_singleton less_SucI nth_append)

lemma merges_ok_new:
  assumes "merges_ok ids ms ranks" and "map_of ids l = Some a" "map_of ids r = Some b" "map_of ids (l @ r) = Some m"
  shows "merges_ok ids (ms @ [m]) (ranks((a, b) \<mapsto> length ms))"
  using merges_ok_snoc [OF assms(1), of m] assms(2-) unfolding merges_ok_def by (auto simp: nth_append)

lemma resolve_loop_ok:
  assumes "resolve_loop rank ps ids ms ranks = Inr (ms', ranks')" and "merges_ok ids ms ranks" and "rank = length ms"
    and "length ms + length ps \<le> 4294967296"
  shows "merges_ok ids ms' ranks'"
  using assms
proof (induction rank ps ids ms ranks rule: resolve_loop.induct)
  case (2 rank l r ps ids ms ranks)
  obtain a b m where ids: "map_of ids l = Some a" "map_of ids r = Some b" "map_of ids (l @ r) = Some m"
    using "2.prems"(1) by (auto split: option.splits)
  have ok: "merges_ok ids (ms @ [m]) (if ranks (a, b) = None then ranks((a, b) \<mapsto> rank mod 4294967296) else ranks)"
    using merges_ok_new [OF "2.prems"(2) ids] merges_ok_snoc [OF "2.prems"(2)] "2.prems"(3,4) by simp
  show ?case
    by (rule "2.IH" [OF ids _ ok]) (use "2.prems" ids in auto)
qed simp

lemma resolve_merges_ok: "resolve_merges ps ids = Inr (ms, ranks) \<Longrightarrow> length ps \<le> 4294967296 \<Longrightarrow> merges_ok ids ms ranks"
  unfolding resolve_merges_def by (erule resolve_loop_ok) (simp_all add: merges_ok_def)

lemma byte_ids_ok:
  "byte_ids bs ids out = Inr out' \<Longrightarrow>
   length out' = length out + length bs \<and> take (length out) out' = out \<and>
   (\<forall>i<length bs. map_of ids [byte_to_gpt2_char (bs ! i)] = Some (out' ! (length out + i)))"
proof (induction bs ids out rule: byte_ids.induct)
  case (2 b bs ids out)
  obtain t where t: "map_of ids [byte_to_gpt2_char b] = Some t" "byte_ids bs ids (out @ [t]) = Inr out'"
    using "2.prems" by (auto split: option.splits)
  note IH = "2.IH" [OF t]
  have first: "out' ! length out = t"
    using IH by (metis append_eq_conv_conj length_append_singleton lessI nth_append_length nth_take)
  have "take (length out) out' = out" using arg_cong [of _ _ "take (length out)", OF IH [THEN conjunct2, THEN conjunct1]] by (simp add: min_def)
  moreover have "map_of ids [byte_to_gpt2_char ((b # bs) ! i)] = Some (out' ! (length out + i))" if "i < length (b # bs)" for i
    using that IH t(1) first by (cases i) auto
  ultimately show ?case using IH by simp
qed simp

lemma build_byte_to_id_ok:
  assumes "build_byte_to_id ids = Inr bids"
  shows "length bids = 256" and "b < 256 \<Longrightarrow> map_of ids [byte_to_gpt2_char b] = Some (bids ! b)"
  using byte_ids_ok [of "[0..<256]" ids "[]" bids] assms by (auto simp: build_byte_to_id_def)

definition loaded :: "tokenizer \<Rightarrow> bool" where
  "loaded tk \<longleftrightarrow>
     (\<forall>s t. map_of (token_to_id tk) s = Some t \<longrightarrow> list_get (vocab tk) (unat t) = Some s) \<and>
     merges_ok (token_to_id tk) (merges tk) (merge_pair_rank tk) \<and>
     (is_gpt2_bpe tk \<longrightarrow> (\<exists>bids. byte_to_id tk = Some bids \<and> length bids = 256 \<and>
        (\<forall>b<256. map_of (token_to_id tk) [byte_to_gpt2_char b] = Some (bids ! b)))) \<and>
     (\<forall>(s, t) \<in> set (special_tokens tk). s \<noteq> [] \<and> list_get (vocab tk) (unat t) = Some s) \<and> \<not> add_bos tk"

lemma resolve_loop_length: "resolve_loop rank ps ids ms ranks = Inr (ms', ranks') \<Longrightarrow> length ms' = length ms + length ps"
  by (induction rank ps ids ms ranks rule: resolve_loop.induct) (auto split: option.splits)

lemma collect_special_mem:
  assumes "(s, t) \<in> set (collect_special voc)" and "length voc \<le> 4294967296"
  shows "s \<noteq> [] \<and> list_get voc (unat t) = Some s"
proof -
  obtain i where i: "(i, s) \<in> set (enumerate 0 voc)" "special_form s" "t = word_of_nat i"
    using assms(1) by (auto simp: collect_special_def)
  then have "i < length voc" "voc ! i = s" by (auto simp: in_set_enumerate_eq)
  moreover have "unat t = i" using i(3) calculation assms(2) by (simp add: unat_of_nat)
  moreover have "s \<noteq> []" using i(2) by (auto simp: special_form_def starts_with_def lit_def)
  ultimately show ?thesis by simp
qed

lemma assemble_Inr:
  assumes "assemble voc (enter_vocab voc) ps bos eos eot gpt2 dummy = Inr tk"
  shows "vocab tk = voc" and "token_to_id tk = enter_vocab voc" and "special_tokens tk = collect_special voc" and "\<not> add_bos tk"
    and "resolve_merges ps (enter_vocab voc) = Inr (merges tk, merge_pair_rank tk)"
    and "is_gpt2_bpe tk \<Longrightarrow> \<exists>bids. byte_to_id tk = Some bids \<and> build_byte_to_id (enter_vocab voc) = Inr bids"
  using assms
  by (cases "resolve_merges ps (enter_vocab voc)"; cases "build_byte_to_id (enter_vocab voc)";
      auto simp: assemble_def split: if_splits)+

lemma from_gguf_assembles:
  assumes "from_gguf g = Inr tk"
  shows "\<exists>voc ps bos eos eot gpt2 dummy. assemble voc (enter_vocab voc) ps bos eos eot gpt2 dummy = Inr tk"
proof (cases "g ''tokenizer.ggml.tokens''")
  case None
  then show ?thesis using assms by (simp add: from_gguf_def)
next
  case (Some v)
  then show ?thesis using assms by (cases v) (simp_all add: from_gguf_def Let_def, blast)
qed

lemma from_gguf_loaded:
  assumes "from_gguf g = Inr tk" and "length (vocab tk) \<le> 4294967296" and "length (merges tk) \<le> 4294967296"
  shows "loaded tk"
proof -
  from from_gguf_assembles [OF assms(1)] obtain voc ps bos eos eot gpt2 dummy where
    load: "assemble voc (enter_vocab voc) ps bos eos eot gpt2 dummy = Inr tk" by blast
  note ids = assemble_Inr(2) [OF load, folded assemble_Inr(1) [OF load]]
    and sp = assemble_Inr(3) [OF load, folded assemble_Inr(1) [OF load]] and ab = assemble_Inr(4) [OF load]
    and ms = assemble_Inr(5) [OF load, folded assemble_Inr(1) [OF load]]
    and bb = assemble_Inr(6) [OF load, folded assemble_Inr(1) [OF load]]
  have "length ps \<le> 4294967296" using resolve_loop_length [OF ms [unfolded resolve_merges_def]] assms(3) by simp
  then have "merges_ok (enter_vocab (vocab tk)) (merges tk) (merge_pair_rank tk)" by (rule resolve_merges_ok [OF ms])
  moreover have "\<exists>bids. byte_to_id tk = Some bids \<and> length bids = 256 \<and>
      (\<forall>b<256. map_of (enter_vocab (vocab tk)) [byte_to_gpt2_char b] = Some (bids ! b))" if "is_gpt2_bpe tk"
    using bb [OF that] build_byte_to_id_ok by blast
  moreover have "\<forall>(s, t) \<in> set (special_tokens tk). s \<noteq> [] \<and> list_get (vocab tk) (unat t) = Some s"
    using collect_special_mem [OF _ assms(2)] by (auto simp: sp)
  ultimately show ?thesis using enter_vocab_Some [OF _ assms(2)] ab by (simp add: loaded_def ids)
qed

section \<open>Encoding and decoding are inverse\<close>

lemma decode_bytes_simps [simp]:
  "decode_bytes tk [] = []" "decode_bytes tk (t # ts) = token_bytes tk t @ decode_bytes tk ts"
  "decode_bytes tk (xs @ ys) = decode_bytes tk xs @ decode_bytes tk ys"
  by (simp_all add: decode_bytes_def)

lemma utf8_simps [simp]: "utf8 [] = []" "utf8 (xs @ ys) = utf8 xs @ utf8 ys"
  by (simp_all add: utf8_def)

lemma loaded_bytes:
  "loaded tk \<Longrightarrow> is_gpt2_bpe tk \<Longrightarrow> map_of (token_to_id tk) s = Some t \<Longrightarrow> token_bytes tk t = concat (map gpt2_char_bytes s)"
  by (simp add: loaded_def token_bytes_def)

text \<open>A merge replaces two tokens by one with the same bytes.\<close>

lemma decode_naive_bpe:
  assumes "loaded tk" and "is_gpt2_bpe tk"
  shows "decode_bytes tk (naive_bpe (merge_pair_rank tk) (merges tk) ts) = decode_bytes tk ts"
proof (induction "length ts" arbitrary: ts rule: less_induct)
  case less
  have mo: "merges_ok (token_to_id tk) (merges tk) (merge_pair_rank tk)" using assms(1) by (simp add: loaded_def)
  show ?case
  proof (cases "best_pair (merge_pair_rank tk) ts")
    case None
    then show ?thesis by (simp add: naive_done)
  next
    case (Some p)
    obtain k j where p: "p = (k, j)" by fastforce
    from best_pair_in [OF Some [unfolded p]] have j: "Suc j < length ts"
      and rk: "merge_pair_rank tk (ts ! j, ts ! Suc j) = Some k" by auto
    obtain l r where "map_of (token_to_id tk) l = Some (ts ! j)" "map_of (token_to_id tk) r = Some (ts ! Suc j)"
      "map_of (token_to_id tk) (l @ r) = Some (merges tk ! k)"
      using rk mo unfolding merges_ok_def by blast
    then have m: "token_bytes tk (merges tk ! k) = token_bytes tk (ts ! j) @ token_bytes tk (ts ! Suc j)"
      using loaded_bytes [OF assms] by simp
    have split: "ts = take j ts @ ts ! j # ts ! Suc j # drop (Suc (Suc j)) ts"
      using j by (metis Cons_nth_drop_Suc Suc_lessD append_take_drop_id)
    have "decode_bytes tk (fuse j (merges tk ! k) ts) = decode_bytes tk ts"
      using m arg_cong [OF split, of "decode_bytes tk"] by (simp add: fuse_def)
    moreover have "length (fuse j (merges tk ! k) ts) < length ts" using j by (simp add: length_fuse)
    ultimately show ?thesis using less.hyps naive_step [OF Some [unfolded p], of "merges tk"] by simp
  qed
qed

lemma those_map_Some: "(\<And>x. x \<in> set xs \<Longrightarrow> f x = Some (g x)) \<Longrightarrow> those (map f xs) = Some (map g xs)"
  by (induction xs) simp_all

lemma encode_chunk_decode:
  assumes "loaded tk" and "is_gpt2_bpe tk" and "length chunk < 2147483648"
  shows "\<exists>out'. encode_gpt2_chunk tk chunk out = Some out' \<and> decode_bytes tk out' = decode_bytes tk out @ chunk"
proof -
  obtain bids where b: "byte_to_id tk = Some bids" "length bids = 256"
    "\<forall>b<256. map_of (token_to_id tk) [byte_to_gpt2_char b] = Some (bids ! b)"
    using assms by (auto simp: loaded_def)
  define ts where "ts = map (\<lambda>b. bids ! unat b) chunk"
  have byte: "unat (x :: byte) < 256" for x using unsigned_less [of x] by simp
  then have seed: "those (map (\<lambda>b. list_get bids (unat b)) chunk) = Some ts"
    unfolding ts_def using b(2) by (intro those_map_Some) simp
  have "token_bytes tk (bids ! unat x) = [x]" for x :: byte
    using loaded_bytes [OF assms(1,2), of "[byte_to_gpt2_char (unat x)]"] b(3) byte [of x] gpt2_char_bytes_byte [of "unat x"] by simp
  then have "decode_bytes tk ts = chunk" unfolding ts_def by (induction chunk) simp_all
  moreover have "\<And>p q. merge_pair_rank tk p = Some q \<Longrightarrow> q < length (merges tk)"
    using assms(1) by (auto simp: loaded_def merges_ok_def)
  then have "bpe_chunk (merge_pair_rank tk) (merges tk) ts out = Some (out @ naive_bpe (merge_pair_rank tk) (merges tk) ts)"
    using assms(3) by (intro bpe_chunk_eq) (auto simp: ts_def)
  ultimately show ?thesis using b(1) seed decode_naive_bpe [OF assms(1,2)] by (simp add: encode_gpt2_chunk_def)
qed

lemma encode_chunks_decode:
  assumes "loaded tk" and "is_gpt2_bpe tk" and "length (utf8 (concat ms)) < 2147483648"
  shows "\<exists>out'. encode_chunks tk ms out = Some out' \<and> decode_bytes tk out' = decode_bytes tk out @ utf8 (concat ms)"
  using assms(3)
proof (induction ms arbitrary: out)
  case (Cons m ms)
  then have "length (utf8 m) < 2147483648" "length (utf8 (concat ms)) < 2147483648" by simp_all
  from encode_chunk_decode [OF assms(1,2) this(1), of out] Cons.IH [OF this(2)] show ?case by fastforce
qed simp

lemma find_str_0: "find_str s p = Some 0 \<Longrightarrow> starts_with s p"
  by (auto simp: find_str_def position_Some_iff simp del: upt_Suc)

lemma next_special_bounds:
  assumes "\<forall>(st, t) \<in> set sp. \<not> starts_with rest st" and "rest \<noteq> []"
  shows "0 < next_special sp rest \<and> next_special sp rest \<le> length rest"
proof -
  let ?f = "\<lambda>(st, _) best. case find_str rest st of Some pos \<Rightarrow> if pos < best then pos else best | None \<Rightarrow> best"
  have "0 < best \<Longrightarrow> 0 < fold ?f sp best \<and> fold ?f sp best \<le> best" for best :: nat
    using assms(1)
  proof (induction sp arbitrary: best)
    case (Cons x sp)
    obtain st t where x: "x = (st, t)" by fastforce
    have b: "0 < ?f x best \<and> ?f x best \<le> best"
      using Cons.prems x find_str_0 [of rest st] by (auto split: option.split intro!: gr0I)
    from Cons.IH [of "?f x best"] b Cons.prems show ?case by (simp only: fold_simps) fastforce
  qed simp
  then show ?thesis using assms(2) by (simp add: next_special_def)
qed

text \<open>What special tokens must satisfy: their text decodes to itself, as it does for ASCII.\<close>

definition plain_specials :: "tokenizer \<Rightarrow> bool" where
  "plain_specials tk \<longleftrightarrow> (\<forall>(s, t) \<in> set (special_tokens tk). concat (map gpt2_char_bytes s) = utf8 s)"

lemma encode_loop_decode:
  assumes tk: "loaded tk" "is_gpt2_bpe tk" "plain_specials tk" and cover: "\<And>t. concat (pretok t) = t"
    and "length (utf8 inp) < 2147483648"
  shows "\<exists>out'. encode_loop pretok tk inp out = Some out' \<and> decode_bytes tk out' = decode_bytes tk out @ utf8 inp"
  using assms(5)
proof (induction "length inp" arbitrary: inp out rule: less_induct)
  case less
  show ?case
  proof (cases "inp = []")
    case True
    then show ?thesis by (simp add: encode_loop.simps)
  next
    case ne: False
    show ?thesis
    proof (cases "find (\<lambda>(st, _). starts_with inp st) (special_tokens tk)")
      case (Some p)
      obtain st t where p: "p = (st, t)" by fastforce
      have hit: "(st, t) \<in> set (special_tokens tk)" "starts_with inp st"
        using Some by (auto simp: p find_Some_iff in_set_conv_nth)
      then have "st \<noteq> []" "list_get (vocab tk) (unat t) = Some st" "concat (map gpt2_char_bytes st) = utf8 st"
        using tk(1,3) unfolding loaded_def plain_specials_def by blast+
      then have st: "st \<noteq> []" "token_bytes tk t = utf8 st" using tk(2) by (simp_all add: token_bytes_def)
      have split: "inp = st @ drop (length st) inp" using hit(2) by (metis append_take_drop_id starts_with_def)
      have "length (drop (length st) inp) < length inp" using ne st(1) by (cases st) (auto simp: diff_less)
      moreover have "length (utf8 (drop (length st) inp)) < 2147483648"
        using less.prems arg_cong [OF split, of "\<lambda>x. length (utf8 x)"] by simp
      ultimately obtain out' where "encode_loop pretok tk (drop (length st) inp) (out @ [t]) = Some out'"
        "decode_bytes tk out' = decode_bytes tk (out @ [t]) @ utf8 (drop (length st) inp)" using less.hyps by blast
      then show ?thesis
        using ne Some p st(2) arg_cong [OF split, of utf8] by (simp add: encode_loop.simps [of _ _ inp])
    next
      case None
      let ?n = "next_special (special_tokens tk) inp"
      have n: "0 < ?n" "?n \<le> length inp" using next_special_bounds [OF _ ne] None by (auto simp: find_None_iff)
      have split: "utf8 inp = utf8 (take ?n inp) @ utf8 (drop ?n inp)" by (metis append_take_drop_id utf8_simps(2))
      then have small: "length (utf8 (take ?n inp)) < 2147483648" "length (utf8 (drop ?n inp)) < 2147483648"
        using less.prems by simp_all
      obtain more where more: "encode_chunks tk (pretok (take ?n inp)) [] = Some more"
        "decode_bytes tk more = utf8 (take ?n inp)"
        using encode_chunks_decode [OF tk(1,2), of "pretok (take ?n inp)" "[]"] small(1) cover by auto
      obtain out' where rest: "encode_loop pretok tk (drop ?n inp) (out @ more) = Some out'"
        "decode_bytes tk out' = decode_bytes tk (out @ more) @ utf8 (drop ?n inp)"
        using less.hyps [of "drop ?n inp" "out @ more"] n ne small(2) by auto
      have "take ?n inp \<noteq> []" using n ne by simp
      then show ?thesis
        using ne None more rest split tk(2)
        by (simp add: encode_loop.simps [of _ _ inp] Let_def encode_raw_def encode_gpt2_bpe_def)
    qed
  qed
qed

section \<open>What a load accepts\<close>

lemma enter_vocab_fold_dom:
  "map_of (fold (\<lambda>(i, tok) m. AList.update tok (word_of_nat i) m) (enumerate n voc) m) s = None \<longleftrightarrow>
   s \<notin> set voc \<and> map_of m s = None"
proof (induction voc arbitrary: n m)
  case (Cons tok voc)
  show ?case by (simp only: enumerate_simps fold_simps prod.case Cons.IH) (auto simp: update_conv')
qed simp

lemma enter_vocab_dom: "map_of (enter_vocab voc) s = None \<longleftrightarrow> s \<notin> set voc"
  by (simp add: enter_vocab_def enter_vocab_fold_dom)

lemma resolve_loop_succeeds:
  "\<not> isl (resolve_loop rank ps (enter_vocab voc) ms ranks) \<longleftrightarrow>
   (\<forall>(l, r) \<in> set ps. l \<in> set voc \<and> r \<in> set voc \<and> l @ r \<in> set voc)"
proof (induction ps arbitrary: rank ms ranks)
  case (Cons p ps)
  obtain l r where p: "p = (l, r)" by fastforce
  have dom: "map_of (enter_vocab voc) s = None \<longleftrightarrow> s \<notin> set voc" for s by (rule enter_vocab_dom)
  show ?case
    using dom [of l] dom [of r] dom [of "l @ r"] by (auto simp: p Cons.IH split: option.splits)
qed simp

lemma byte_ids_succeeds:
  "\<not> isl (byte_ids bs (enter_vocab voc) out) \<longleftrightarrow> (\<forall>b \<in> set bs. [byte_to_gpt2_char b] \<in> set voc)"
proof (induction bs arbitrary: out)
  case (Cons b bs)
  show ?case using enter_vocab_dom [of voc "[byte_to_gpt2_char b]"] by (auto simp: Cons.IH split: option.splits)
qed simp

lemma assemble_succeeds:
  "(\<exists>tk. assemble voc (enter_vocab voc) ps bos eos eot gpt2 dummy = Inr tk) \<longleftrightarrow>
   (\<forall>(l, r) \<in> set ps. l \<in> set voc \<and> r \<in> set voc \<and> l @ r \<in> set voc) \<and>
   (gpt2 \<longrightarrow> (\<forall>b<256. [byte_to_gpt2_char b] \<in> set voc))"
proof -
  have "(\<exists>tk. assemble voc (enter_vocab voc) ps bos eos eot gpt2 dummy = Inr tk) \<longleftrightarrow>
        \<not> isl (resolve_merges ps (enter_vocab voc)) \<and> (gpt2 \<longrightarrow> \<not> isl (build_byte_to_id (enter_vocab voc)))"
    by (cases "resolve_merges ps (enter_vocab voc)"; cases "build_byte_to_id (enter_vocab voc)") (auto simp: assemble_def)
  then show ?thesis
    using resolve_loop_succeeds [of 0 ps voc "[]" Map.empty] byte_ids_succeeds [of "[0..<256]" voc "[]"]
    by (auto simp: resolve_merges_def build_byte_to_id_def)
qed

lemma from_gguf_array:
  assumes "g ''tokenizer.ggml.tokens'' = Some (MArray arr)"
  shows "\<exists>bos eos eot dummy. from_gguf g =
           assemble (gguf_vocab arr) (enter_vocab (gguf_vocab arr)) (gguf_merges (g ''tokenizer.ggml.merges'')) bos eos eot
             (gguf_model g = lit ''gpt2'') dummy"
  unfolding from_gguf_def assms by (simp add: Let_def) blast

text \<open>
  Property C36. A vocabulary is accepted exactly when it is complete: loading succeeds if and only if both sides and
  the result of every merge rule are tokens and, for a byte-level model, each of the 256 bytes has its
  symbol. Otherwise it returns an error and no tokenizer.
\<close>

theorem load_exact:
  assumes "g ''tokenizer.ggml.tokens'' = Some (MArray arr)"
  shows "(\<exists>tk. from_gguf g = Inr tk) \<longleftrightarrow>
         (\<forall>(l, r) \<in> set (gguf_merges (g ''tokenizer.ggml.merges'')).
            l \<in> set (gguf_vocab arr) \<and> r \<in> set (gguf_vocab arr) \<and> l @ r \<in> set (gguf_vocab arr)) \<and>
         (gguf_model g = lit ''gpt2'' \<longrightarrow> (\<forall>b<256. [byte_to_gpt2_char b] \<in> set (gguf_vocab arr)))"
proof -
  obtain bos eos eot dummy where "from_gguf g =
      assemble (gguf_vocab arr) (enter_vocab (gguf_vocab arr)) (gguf_merges (g ''tokenizer.ggml.merges'')) bos eos eot
        (gguf_model g = lit ''gpt2'') dummy"
    using from_gguf_array [of g arr] assms by blast
  then show ?thesis by (simp only: assemble_succeeds)
qed

definition demo_gguf :: "string \<Rightarrow> unit meta_value option" where
  "demo_gguf =
     [''tokenizer.ggml.tokens'' \<mapsto>
        MArray (map (\<lambda>b. MString [byte_to_gpt2_char b]) [0..<256] @ [MString (lit ''ab''), MString (lit ''<|e|>'')]),
      ''tokenizer.ggml.merges'' \<mapsto> MArray [MString (lit ''a b'')],
      ''tokenizer.ggml.model'' \<mapsto> MString (lit ''gpt2'')]"

definition demo_vocab :: "ustring list" where
  "demo_vocab = map (\<lambda>b. [byte_to_gpt2_char b]) [0..<256] @ [lit ''ab'', lit ''<|e|>'']"

lemma demo_gguf_fields:
  "\<exists>arr. demo_gguf ''tokenizer.ggml.tokens'' = Some (MArray arr) \<and> gguf_vocab arr = demo_vocab"
  "gguf_merges (demo_gguf ''tokenizer.ggml.merges'') = [(lit ''a'', lit ''b'')]" "gguf_model demo_gguf = lit ''gpt2''"
  by (simp_all add: demo_gguf_def gguf_vocab_def demo_vocab_def gguf_merges_def gguf_model_def splitn2_def lit_def map_filter_def)

lemma demo_vocab_mem: "b < 256 \<Longrightarrow> [byte_to_gpt2_char b] \<in> set demo_vocab" "lit ''ab'' \<in> set demo_vocab"
  by (auto simp: demo_vocab_def)

lemma demo_letters: "lit ''a'' = [byte_to_gpt2_char 97]" "lit ''b'' = [byte_to_gpt2_char 98]"
  by (simp_all add: lit_def byte_to_gpt2_char_def printable_def)

lemma demo_specials: "\<forall>(s, t) \<in> set (collect_special demo_vocab). concat (map gpt2_char_bytes s) = utf8 s"
proof -
  have "special_form s \<Longrightarrow> s \<in> set demo_vocab \<Longrightarrow> s = lit ''<|e|>''" for s
    by (auto simp: demo_vocab_def special_form_def starts_with_def ends_with_def lit_def utf8_def)
  moreover have "concat (map gpt2_char_bytes (lit ''<|e|>'')) = utf8 (lit ''<|e|>'')"
    by (simp add: lit_def gpt2_char_bytes_def utf8_def utf8_char_def)
  ultimately show ?thesis
    by (auto simp: collect_special_def in_set_enumerate_eq)
qed

theorem load_exact_witness: "\<exists>tk. from_gguf demo_gguf = Inr tk"
proof -
  obtain arr where arr: "demo_gguf ''tokenizer.ggml.tokens'' = Some (MArray arr)" "gguf_vocab arr = demo_vocab"
    using demo_gguf_fields(1) by blast
  have "lit ''a'' \<in> set demo_vocab" "lit ''b'' \<in> set demo_vocab" using demo_vocab_mem(1) [of 97] demo_vocab_mem(1) [of 98] demo_letters by simp_all
  moreover have "lit ''a'' @ lit ''b'' = lit ''ab''" by (simp add: lit_def)
  ultimately show ?thesis
    unfolding load_exact [of demo_gguf, OF arr(1)] using demo_gguf_fields(2) demo_vocab_mem arr(2) by simp
qed

section \<open>The round trip\<close>

text \<open>
  Property C8. Encoding loses nothing: for a byte-level tokenizer that loaded without error, with special tokens
  whose text decodes to itself, encoding any text ends, does not panic, and decoding the tokens gives back
  exactly the bytes of the text. Of the pre-tokenising regular expression it is used that its matches, put
  together, are the text.
\<close>

theorem encode_roundtrip:
  assumes "from_gguf g = Inr tk" and "is_gpt2_bpe tk" and "length (vocab tk) \<le> 4294967296" and "length (merges tk) \<le> 4294967296"
    and "plain_specials tk" and "\<And>s. concat (pretok s) = s" and "length (utf8 inp) < 2147483648"
  shows "\<exists>ids. encode pretok tk inp = Some ids \<and> decode_bytes tk ids = utf8 inp"
proof -
  have tk: "loaded tk" by (rule from_gguf_loaded [OF assms(1,3,4)])
  then have "\<not> add_bos tk" by (simp add: loaded_def)
  then show ?thesis
    using encode_loop_decode [OF tk assms(2,5,6,7), of "[]"] encode_chunks_decode [OF tk assms(2), of "pretok inp" "[]"] assms(2,6,7)
    by (auto simp: encode_def Let_def encode_raw_def encode_gpt2_bpe_def)
qed

text \<open>With a loaded vocabulary, a special token and a merge: the regular expression taken as one match.\<close>

theorem encode_roundtrip_witness:
  "\<exists>tk ids. from_gguf demo_gguf = Inr tk \<and> encode (\<lambda>s. [s]) tk (lit ''xab<|e|>y'') = Some ids \<and>
            decode_bytes tk ids = utf8 (lit ''xab<|e|>y'')"
proof -
  obtain arr where arr: "demo_gguf ''tokenizer.ggml.tokens'' = Some (MArray arr)" "gguf_vocab arr = demo_vocab"
    using demo_gguf_fields(1) by blast
  obtain bos eos eot dummy where eq: "from_gguf demo_gguf =
      assemble demo_vocab (enter_vocab demo_vocab) [(lit ''a'', lit ''b'')] bos eos eot True dummy"
    using from_gguf_array [of demo_gguf arr] arr demo_gguf_fields(2,3) by auto
  have letters: "lit ''a'' \<in> set demo_vocab" "lit ''b'' \<in> set demo_vocab"
    using demo_vocab_mem(1) [of 97] demo_vocab_mem(1) [of 98] demo_letters by simp_all
  have "lit ''a'' @ lit ''b'' = lit ''ab''" by (simp add: lit_def)
  then obtain tk where load: "assemble demo_vocab (enter_vocab demo_vocab) [(lit ''a'', lit ''b'')] bos eos eot True dummy = Inr tk"
    using assemble_succeeds [of demo_vocab "[(lit ''a'', lit ''b'')]" bos eos eot True dummy] demo_vocab_mem letters by auto
  note parts = assemble_Inr [OF load]
  have gpt2: "is_gpt2_bpe tk"
    using load by (auto simp: assemble_def split: sum.splits prod.splits)
  have "length (merges tk) = 1" using resolve_loop_length [OF parts(5) [unfolded resolve_merges_def]] by simp
  moreover have "length (vocab tk) = 258" using parts(1) by (simp add: demo_vocab_def)
  moreover have "plain_specials tk" unfolding plain_specials_def parts(3) by (rule demo_specials)
  moreover have "length (utf8 (lit ''xab<|e|>y'')) < 2147483648" by (simp add: utf8_def utf8_char_def lit_def)
  ultimately show ?thesis
    using encode_roundtrip [of demo_gguf tk "\<lambda>s. [s]" "lit ''xab<|e|>y''"] eq load gpt2 by auto
qed

section \<open>Merge ranks\<close>

definition build_merge_rank_table :: "tokenizer \<Rightarrow> token \<rightharpoonup> nat" where
  "build_merge_rank_table tk =
     fold (\<lambda>(i, m) tab. if tab m = None then tab(m \<mapsto> i) else tab) (enumerate 0 (merges tk)) Map.empty"

definition merge_rank :: "tokenizer \<Rightarrow> token \<Rightarrow> nat option" where
  "merge_rank tk t = do {
     s \<leftarrow> list_get (vocab tk) (unat t);
     if length (utf8 s) \<le> 1 then Some 0 else position (\<lambda>m. m = t) (merges tk)
   }"

definition rank_of :: "tokenizer \<Rightarrow> (token \<rightharpoonup> nat) \<Rightarrow> token \<Rightarrow> nat option" where
  "rank_of tk table t =
     (case table t of
        Some r \<Rightarrow> Some r
      | None \<Rightarrow> do { s \<leftarrow> list_get (vocab tk) (unat t); if length (utf8 s) \<le> 1 then Some 0 else None })"

lemma rank_table_fold:
  "fold (\<lambda>(i, m) tab. if tab m = None then tab(m \<mapsto> i) else tab) (enumerate n ms) tab t =
   (case tab t of Some r \<Rightarrow> Some r | None \<Rightarrow> map_option (\<lambda>i. n + i) (position (\<lambda>m. m = t) ms))"
proof (induction ms arbitrary: n tab)
  case (Cons m ms)
  show ?case
    by (simp only: enumerate_simps fold_simps prod.case Cons.IH)
       (cases "position (\<lambda>m. m = t) ms"; auto split: option.splits)
qed (simp split: option.split)

lemma rank_table_exact: "build_merge_rank_table tk t = position (\<lambda>m. m = t) (merges tk)"
  by (cases "position (\<lambda>m. m = t) (merges tk)") (simp_all add: build_merge_rank_table_def rank_table_fold)

section \<open>SentencePiece\<close>

definition token_text :: "tokenizer \<Rightarrow> token \<Rightarrow> ustring" where
  "token_text tk t = (case list_get (vocab tk) (unat t) of None \<Rightarrow> [] | Some s \<Rightarrow> s)"

lemma longest_single:
  assumes "s \<noteq> []" and "map_of ids [hd s] \<noteq> None" and "0 < n"
  shows "longest ids s n \<noteq> None"
  using assms(3)
proof (induction n)
  case (Suc n)
  have "take 1 s = [hd s]" using assms(1) by (cases s) auto
  then show ?case using Suc assms(2) by (cases n) (auto split: option.split)
qed simp

lemma max_tok_chars_bound: "map_of ids s = Some t \<Longrightarrow> length s \<le> max_tok_chars ids"
  using max_by_key_Some [of id "map (length \<circ> fst) ids"] map_of_SomeD [of ids s t]
  by (cases "max_by_key id (map (length \<circ> fst) ids)") (force simp: max_tok_chars_def)+

text \<open>Where every character has a token of its own, the tokens spell the text.\<close>

lemma sp_loop_spells:
  assumes "loaded tk" and "\<forall>c\<in>set s. map_of (token_to_id tk) [c] \<noteq> None"
  shows "concat (map (token_text tk) (sp_loop (token_to_id tk) (max_tok_chars (token_to_id tk)) s out)) =
         concat (map (token_text tk) out) @ s"
  using assms(2)
proof (induction "length s" arbitrary: s out rule: less_induct)
  case less
  let ?ids = "token_to_id tk" and ?mx = "max_tok_chars (token_to_id tk)"
  show ?case
  proof (cases "s = []")
    case True
    then show ?thesis by (simp add: sp_loop.simps)
  next
    case False
    then obtain t0 where t0: "map_of ?ids [hd s] = Some t0" using less.prems by (cases s) auto
    have "0 < ?mx" using max_tok_chars_bound [OF t0] by simp
    then have "longest ?ids s (min ?mx (length s)) \<noteq> None"
      using longest_single [OF False, of ?ids "min ?mx (length s)"] t0 False by simp
    then obtain k t where k: "longest ?ids s (min ?mx (length s)) = Some (k, t)" by auto
    note b = longest_len [OF k]
    have "list_get (vocab tk) (unat t) = Some (take k s)" using assms(1) b by (simp add: loaded_def)
    then have str: "token_text tk t = take k s" by (simp add: token_text_def)
    have "length (drop k s) < length s" "\<forall>c\<in>set (drop k s). map_of ?ids [c] \<noteq> None"
      using b False less.prems by (auto dest: in_set_dropD)
    from less.hyps [OF this, of "out @ [t]"] show ?thesis
      using False k str by (simp add: sp_loop.simps [of _ _ s])
  qed
qed

text \<open>
  SentencePiece encoding keeps the text: for a loaded tokenizer in which every character of the text
  (with blanks as the underline mark, and the mark itself) is a token, the strings of the tokens, put
  together, are the text with its dummy prefix: no character is dropped and none is reordered.
\<close>

theorem sentencepiece_spells:
  assumes "from_gguf g = Inr tk" and "length (vocab tk) \<le> 4294967296" and "length (merges tk) \<le> 4294967296"
    and "\<forall>c\<in>set inp. map_of (token_to_id tk) [if c = 32 then 9601 else c] \<noteq> None"
    and "sp_dummy_prefix tk \<longrightarrow> map_of (token_to_id tk) [9601] \<noteq> None"
  shows "concat (map (token_text tk) (encode_sentencepiece tk inp)) =
         (if sp_dummy_prefix tk then [9601] else []) @ map (\<lambda>c. if c = 32 then 9601 else c) inp"
proof -
  let ?s = "(if sp_dummy_prefix tk then [9601] else []) @ map (\<lambda>c. if c = 32 then 9601 else c) inp"
  have "\<forall>c\<in>set ?s. map_of (token_to_id tk) [c] \<noteq> None" using assms(4,5) by auto
  from sp_loop_spells [OF from_gguf_loaded [OF assms(1-3)] this, of "[]"]
  show ?thesis by (simp add: encode_sentencepiece_def Let_def)
qed

definition demo_sp :: "string \<Rightarrow> unit meta_value option" where
  "demo_sp = [''tokenizer.ggml.tokens'' \<mapsto> MArray [MString [9601], MString [97], MString [98], MString [97, 98]]]"

lemma demo_sp_load:
  "from_gguf demo_sp = Inr \<lparr>vocab = [[9601], [97], [98], [97, 98]], token_to_id = [([9601], 0), ([97], 1), ([98], 2), ([97, 98], 3)],
     merges = [], merge_pair_rank = Map.empty, byte_to_id = None, special_tokens = [], bos_id = 1, add_bos = False, eos_id = 2,
     eot_id = None, is_gpt2_bpe = False, sp_dummy_prefix = True\<rparr>"
  by (simp add: demo_sp_def from_gguf_def gguf_vocab_def enter_vocab_def gguf_merges_def gguf_model_def assemble_def resolve_merges_def
      collect_special_def special_form_def starts_with_def lit_def Let_def)

theorem sentencepiece_spells_witness:
  "\<exists>tk. from_gguf demo_sp = Inr tk \<and> concat (map (token_text tk) (encode_sentencepiece tk [97, 98, 32, 98])) = [9601, 97, 98, 9601, 98]"
  using sentencepiece_spells [OF demo_sp_load, of "[97, 98, 32, 98]"] demo_sp_load by simp

section \<open>Two corner cases\<close>

text \<open>An escape whose value does not fit a byte loses its closing bracket.\<close>

lemma wide_escape_loses_bracket: "hex_escapes (lit ''<0x1FF>'') = utf8 (lit ''<0x1FF'')"
  by (simp add: lit_def hex_escapes.simps hexdigit_def hex_u8_def hexval_def Let_def)

text \<open>A special token with an empty text, which \<^verbatim>\<open>added_tokens\<close> does not exclude, makes encoding run forever.\<close>

lemma empty_special_diverges:
  assumes "special_tokens tk = [([], t)]" and "inp \<noteq> []"
  shows "encode_loop pretok tk inp out = None"
proof -
  have "special_tokens tk = [([], t)] \<longrightarrow> inp = []" if "encode_loop pretok tk inp out = Some y" for y
    by (rule encode_loop.raw_induct [OF _ that, of "\<lambda>pretok tk inp out y. special_tokens tk = [([], t)] \<longrightarrow> inp = []"])
       (auto simp: starts_with_def split: if_splits)
  then show ?thesis using assms by (cases "encode_loop pretok tk inp out") auto
qed

end
