(* ===== verification/Prompt_Norm.thy ===== *)
theory Prompt_Norm
  imports Tokenizer
begin

text \<open>
  Prompt normalisation, \<^verbatim>\<open>normalize_prompt_with\<close> of \<^verbatim>\<open>hipfire-runtime/src/tokenizer.rs\<close>: four rewrites of the
  prompt, each behind a test that scans the UTF-8 bytes and skips the rewrite when nothing would change.
  Shown: the tests never skip a rewrite that would have an effect, and the result is a normal form.
\<close>

section \<open>The rewrites\<close>

fun collapse_runs :: "nat \<Rightarrow> ustring \<Rightarrow> ustring" where
  "collapse_runs run [] = []"
| "collapse_runs run (c # s) =
     (if c = 10 then (if run + 1 \<le> 2 then [10] else []) @ collapse_runs (run + 1) s else c # collapse_runs 0 s)"

definition collapse_newline_runs :: "ustring \<Rightarrow> ustring" where
  "collapse_newline_runs s = collapse_runs 0 s"

fun normalize_line_endings :: "ustring \<Rightarrow> ustring" where
  "normalize_line_endings [] = []"
| "normalize_line_endings (c # s) =
     (if c = 13 then 10 # normalize_line_endings (if s \<noteq> [] \<and> hd s = 10 then tl s else s)
      else c # normalize_line_endings s)"

definition replace_nbsp_with_space :: "ustring \<Rightarrow> ustring" where
  "replace_nbsp_with_space s = map (\<lambda>c. if c = 160 then 32 else c) s"

fun strip_ws :: "ustring \<Rightarrow> ustring \<Rightarrow> ustring" where
  "strip_ws pending [] = pending"
| "strip_ws pending (c # s) =
     (if c = 32 \<or> c = 9 then strip_ws (pending @ [c]) s
      else if c = 10 then 10 # strip_ws [] s
      else pending @ c # strip_ws [] s)"

definition strip_trailing_line_ws :: "ustring \<Rightarrow> ustring" where
  "strip_trailing_line_ws s = strip_ws [] s"

section \<open>The tests\<close>

fun newline_runs :: "nat \<Rightarrow> byte list \<Rightarrow> bool" where
  "newline_runs run [] = False"
| "newline_runs run (b # bs) = (if b = 10 then (if 3 \<le> run + 1 then True else newline_runs (run + 1) bs) else newline_runs 0 bs)"

definition needs_newline_collapse :: "ustring \<Rightarrow> bool" where
  "needs_newline_collapse s = newline_runs 0 (utf8 s)"

definition needs_line_ending_normalize :: "ustring \<Rightarrow> bool" where
  "needs_line_ending_normalize s \<longleftrightarrow> 13 \<in> set (utf8 s)"

definition needs_nbsp_replace :: "ustring \<Rightarrow> bool" where
  "needs_nbsp_replace s = (let b = utf8 s in list_ex (\<lambda>i. b ! i = 194 \<and> b ! (i + 1) = 160) [0..<length b - 1])"

definition needs_trailing_ws_strip :: "ustring \<Rightarrow> bool" where
  "needs_trailing_ws_strip s =
     (let b = utf8 s in list_ex (\<lambda>i. b ! i = 10 \<and> 0 < i \<and> (b ! (i - 1) = 32 \<or> b ! (i - 1) = 9)) [0..<length b])"

definition normalize_prompt_with :: "ustring \<Rightarrow> bool \<Rightarrow> ustring" where
  "normalize_prompt_with s enabled =
     (if \<not> enabled then s
      else
        let c1 = (if needs_line_ending_normalize s then normalize_line_endings s else s);
            c2 = (if needs_nbsp_replace c1 then replace_nbsp_with_space c1 else c1);
            c3 = (if needs_trailing_ws_strip c2 then strip_trailing_line_ws c2 else c2)
        in if needs_newline_collapse c3 then collapse_newline_runs c3 else c3)"

section \<open>A skipped rewrite has no effect\<close>

abbreviation ws :: "nat \<Rightarrow> bool" where
  "ws c \<equiv> c = 32 \<or> c = 9"

definition no_ws_nl :: "ustring \<Rightarrow> bool" where
  "no_ws_nl s = successively (\<lambda>a b. \<not> (ws a \<and> b = 10)) s"

fun runs_ok :: "nat \<Rightarrow> ustring \<Rightarrow> bool" where
  "runs_ok run [] = True"
| "runs_ok run (c # s) = (if c = 10 then run + 1 \<le> 2 \<and> runs_ok (run + 1) s else runs_ok 0 s)"

definition normal_prompt :: "ustring \<Rightarrow> bool" where
  "normal_prompt s \<longleftrightarrow> 13 \<notin> set s \<and> 160 \<notin> set s \<and> no_ws_nl s \<and> runs_ok 0 s"

lemma utf8_Cons [simp]: "utf8 (c # s) = utf8_char c @ utf8 s"
  by (simp add: utf8_def)

lemma line_endings_id: "13 \<notin> set s \<Longrightarrow> normalize_line_endings s = s"
  by (induction s) auto

lemma nbsp_id: "160 \<notin> set s \<Longrightarrow> replace_nbsp_with_space s = s"
  by (induction s) (auto simp: replace_nbsp_with_space_def)

lemma collapse_id: "runs_ok run s \<Longrightarrow> collapse_runs run s = s"
  by (induction s arbitrary: run) auto

lemma strip_id:
  "(\<forall>c\<in>set p. ws c) \<Longrightarrow> successively (\<lambda>a b. \<not> (ws a \<and> b = 10)) (p @ s) \<Longrightarrow> strip_ws p s = p @ s"
proof (induction s arbitrary: p)
  case (Cons c s)
  consider "ws c" | "c = 10" | "\<not> ws c" "c \<noteq> 10" by blast
  then show ?case
  proof cases
    case 1
    then show ?thesis using Cons.IH [of "p @ [c]"] Cons.prems by auto
  next
    case 2
    have "p = []" using Cons.prems 2 by (cases p rule: rev_cases) (auto simp: successively_append_iff)
    then show ?thesis using Cons.IH [of "[]"] Cons.prems 2 by (auto simp: successively_Cons)
  next
    case 3
    then show ?thesis using Cons.IH [of "[]"] Cons.prems by (auto simp: successively_append_iff successively_Cons)
  qed
qed simp

lemma skip_line_endings: "\<not> needs_line_ending_normalize s \<Longrightarrow> normalize_line_endings s = s"
  by (rule line_endings_id) (induction s, auto simp: needs_line_ending_normalize_def utf8_char_def)

lemma skip_nbsp:
  assumes "\<not> needs_nbsp_replace s"
  shows "replace_nbsp_with_space s = s"
proof (rule nbsp_id, rule notI)
  assume "160 \<in> set s"
  then obtain u v where "s = u @ 160 # v" by (auto simp: in_set_conv_decomp)
  then have b: "utf8 s = utf8 u @ 194 # 160 # utf8 v" by (simp add: utf8_char_def)
  have "length (utf8 u) < length (utf8 s) - 1" "utf8 s ! length (utf8 u) = 194" "utf8 s ! (length (utf8 u) + 1) = 160"
    unfolding b by (simp_all add: nth_append)
  then show False using assms by (auto simp: needs_nbsp_replace_def Let_def list_ex_iff)
qed

lemma pair_decomp: "\<not> successively P s \<Longrightarrow> \<exists>u a b v. s = u @ a # b # v \<and> \<not> P a b"
proof (induction s rule: induct_list012)
  case (3 a b s)
  then show ?case
  proof (cases "P a b")
    case True
    then obtain u x y v where "b # s = u @ x # y # v" "\<not> P x y" using 3 by auto
    then show ?thesis by (intro exI [of _ "a # u"]) auto
  next
    case False
    then show ?thesis by (intro exI [of _ "[]"]) auto
  qed
qed auto

lemma skip_strip:
  assumes "\<not> needs_trailing_ws_strip s"
  shows "strip_trailing_line_ws s = s"
proof -
  have "no_ws_nl s"
  proof (rule ccontr)
    assume "\<not> no_ws_nl s"
    then obtain u a v where s: "s = u @ a # 10 # v" "ws a" using pair_decomp [of "\<lambda>a b. \<not> (ws a \<and> b = 10)" s] unfolding no_ws_nl_def by blast
    then have b: "utf8 s = utf8 u @ word_of_nat a # 10 # utf8 v" by (auto simp: utf8_char_def)
    let ?i = "Suc (length (utf8 u))"
    have "?i < length (utf8 s)" "utf8 s ! ?i = 10" "utf8 s ! (?i - 1) = word_of_nat a" unfolding b by (simp_all add: nth_append)
    moreover have "(word_of_nat a :: byte) = 32 \<or> (word_of_nat a :: byte) = 9" using s(2) by auto
    ultimately show False using assms by (auto simp: needs_trailing_ws_strip_def Let_def list_ex_iff)
  qed
  then show ?thesis using strip_id [of "[]" s] by (simp add: strip_trailing_line_ws_def no_ws_nl_def)
qed

lemma newline_runs_mono: "newline_runs r bs \<Longrightarrow> r \<le> r' \<Longrightarrow> newline_runs r' bs"
proof (induction bs arbitrary: r r')
  case (Cons b bs)
  then show ?case using Cons.IH [of "r + 1" "r' + 1"] by (auto split: if_splits)
qed simp

lemma newline_runs_append: "newline_runs 0 bs \<Longrightarrow> newline_runs r (xs @ bs)"
proof (induction xs arbitrary: r)
  case Nil
  then show ?case using newline_runs_mono [of 0 bs r] by simp
qed simp

lemma newline_runs_bytes: "\<not> runs_ok run s \<Longrightarrow> newline_runs run (utf8 s)"
proof (induction s arbitrary: run)
  case (Cons c s)
  show ?case
  proof (cases "c = 10")
    case True
    then show ?thesis using Cons by (auto simp: utf8_char_def)
  next
    case False
    then show ?thesis using Cons newline_runs_append [of "utf8 s" run] by simp
  qed
qed simp

lemma skip_collapse: "\<not> needs_newline_collapse s \<Longrightarrow> collapse_newline_runs s = s"
  unfolding needs_newline_collapse_def collapse_newline_runs_def by (rule collapse_id) (use newline_runs_bytes in blast)

lemma pipeline_eq:
  "normalize_prompt_with s True =
   collapse_newline_runs (strip_trailing_line_ws (replace_nbsp_with_space (normalize_line_endings s)))"
  by (simp add: normalize_prompt_with_def Let_def skip_line_endings skip_nbsp skip_strip skip_collapse)

section \<open>The result is a normal form\<close>

lemma line_endings_cr: "13 \<notin> set (normalize_line_endings s)"
  by (induction s rule: normalize_line_endings.induct) auto

lemma strip_set: "set (strip_ws p s) \<subseteq> set p \<union> set s"
  by (induction p s rule: strip_ws.induct) auto

lemma collapse_set: "set (collapse_runs r s) \<subseteq> set s"
  by (induction r s rule: collapse_runs.induct) auto

lemma strip_no_ws_nl: "(\<forall>c\<in>set p. ws c) \<Longrightarrow> no_ws_nl (strip_ws p s)"
proof (induction p s rule: strip_ws.induct)
  case (1 p)
  have "successively (\<lambda>a b. \<not> (ws a \<and> b = 10)) p" using 1 by (induction p rule: induct_list012) auto
  then show ?case by (simp add: no_ws_nl_def)
next
  case (2 p c s)
  have p: "no_ws_nl p" unfolding no_ws_nl_def using "2.prems" by (induction p rule: induct_list012) auto
  show ?case
  proof (cases "ws c \<or> c = 10")
    case True
    then show ?thesis using 2 by (auto simp: no_ws_nl_def successively_Cons)
  next
    case False
    then have "no_ws_nl (strip_ws [] s)" using 2 by simp
    moreover have "strip_ws p (c # s) = p @ c # strip_ws [] s" using False by simp
    ultimately show ?thesis using False p by (simp add: no_ws_nl_def successively_append_iff successively_Cons)
  qed
qed

lemma collapse_no_ws_nl: "no_ws_nl s \<Longrightarrow> no_ws_nl (collapse_runs r s)"
proof (induction r s rule: collapse_runs.induct)
  case (2 r c s)
  have IH: "no_ws_nl (collapse_runs r' s)" if "r' = (if c = 10 then r + 1 else 0)" for r'
    using 2 that by (auto simp: no_ws_nl_def successively_Cons split: if_splits)
  show ?case
  proof (cases "c = 10")
    case True
    then show ?thesis using IH by (auto simp: no_ws_nl_def successively_Cons)
  next
    case False
    have "s = [] \<or> hd (collapse_runs 0 s) = hd s" by (cases s) auto
    then show ?thesis using False IH "2.prems" by (cases s) (auto simp: no_ws_nl_def successively_Cons)
  qed
qed (simp add: no_ws_nl_def)

lemma collapse_runs_ok: "runs_ok (min r 2) (collapse_runs r s)"
proof (induction r s rule: collapse_runs.induct)
  case (2 r c s)
  consider "r + 1 \<le> 2" | "r = 2" | "2 < r" by linarith
  then show ?case using 2 by cases (auto simp: min_def split: if_splits)
qed simp

lemma normalized: "normal_prompt (normalize_prompt_with s True)"
proof -
  let ?a = "normalize_line_endings s" and ?b = "replace_nbsp_with_space (normalize_line_endings s)"
  have b: "13 \<notin> set ?b" "160 \<notin> set ?b" using line_endings_cr [of s] by (auto simp: replace_nbsp_with_space_def)
  have c: "set (strip_ws [] ?b) \<subseteq> set ?b" "no_ws_nl (strip_ws [] ?b)" using strip_set [of "[]" ?b] strip_no_ws_nl [of "[]" ?b] by auto
  show ?thesis
    unfolding pipeline_eq normal_prompt_def strip_trailing_line_ws_def collapse_newline_runs_def
    using b c collapse_set [of 0 "strip_ws [] ?b"] collapse_no_ws_nl [OF c(2), of 0] collapse_runs_ok [of 0 "strip_ws [] ?b"]
    by auto
qed

lemma normal_unchanged: "normal_prompt s \<Longrightarrow> normalize_prompt_with s True = s"
  unfolding pipeline_eq
  by (simp add: normal_prompt_def line_endings_id nbsp_id strip_trailing_line_ws_def collapse_newline_runs_def no_ws_nl_def
      strip_id [of "[]"] collapse_id)

text \<open>
  Property C37. Prompt normalisation: the byte tests before the four rewrites never skip one that would change the
  prompt, so the result is that of running all four; it contains no carriage return, no no-break space, no
  blank or tab before a newline and no three newlines in a row; and a prompt of that form is left as it is,
  so normalising twice changes nothing.
\<close>

theorem normalize_exact:
  "normalize_prompt_with s True =
     collapse_newline_runs (strip_trailing_line_ws (replace_nbsp_with_space (normalize_line_endings s))) \<and>
   normal_prompt (normalize_prompt_with s True) \<and> (normalize_prompt_with s True = s \<longleftrightarrow> normal_prompt s) \<and>
   normalize_prompt_with (normalize_prompt_with s True) True = normalize_prompt_with s True"
  using pipeline_eq normalized [of s] normal_unchanged by auto

text \<open>The example in the comment of \<^verbatim>\<open>maybe_normalize_prompt\<close> keeps a blank line and the indentation.\<close>

lemma comment_example: "normalize_prompt_with [97, 32, 32, 32, 10, 10, 32, 32, 32, 10, 32, 32, 32, 98] True = [97, 10, 10, 32, 32, 32, 98]"
  by (simp add: pipeline_eq replace_nbsp_with_space_def strip_trailing_line_ws_def collapse_newline_runs_def)

end
