(* ===== verification/Spec_Target.thy ===== *)
theory Spec_Target
  imports Prelude
begin

text \<open>
  The verifier of speculative decoding, trait \<^verbatim>\<open>SpecTarget\<close> of \<^verbatim>\<open>hipfire-runtime/src/spec.rs\<close>, as an
  interface (locale \<open>spec_target\<close>), and two of its implementations: the pure-attention target of
  \<^verbatim>\<open>hipfire-arch-qwen2/src/spec_impl.rs\<close>, which leaves rejected rows in the cache to be overwritten, and the
  recurrent target of \<^verbatim>\<open>hipfire-arch-qwen35/src/spec_impl.rs\<close>, which saves its state before a verify and
  replays the accepted prefix. The network is a parameter: for the cache rows and the recurrent state
  before a block it gives, token by token, the row it writes, the state after it and the argmax. What the
  code relies on is that a block gives what its tokens give one after the other (\<open>causal\<close>).
\<close>

section \<open>The network and the device\<close>

datatype spec_error =
    TargetFailed
  | NoSampledVerify
  | NoBudget
  | StepBeforePrefill
  | NoLastLogits
  | EmptyWindow

type_synonym ('r, 'd) net = "'r list \<Rightarrow> 'd \<Rightarrow> token list \<Rightarrow> ('r \<times> 'd \<times> token) list"

definition after :: "('r, 'd) net \<Rightarrow> 'r list \<Rightarrow> 'd \<Rightarrow> token list \<Rightarrow> 'd" where
  "after net rows d toks = (if toks = [] then d else fst (snd (last (net rows d toks))))"

definition rows_of :: "('r, 'd) net \<Rightarrow> 'r list \<Rightarrow> 'd \<Rightarrow> token list \<Rightarrow> 'r list" where
  "rows_of net rows d toks = map fst (net rows d toks)"

definition picks_of :: "('r, 'd) net \<Rightarrow> 'r list \<Rightarrow> 'd \<Rightarrow> token list \<Rightarrow> token list" where
  "picks_of net rows d toks = map (snd \<circ> snd) (net rows d toks)"

definition causal :: "('r, 'd) net \<Rightarrow> bool" where
  "causal net \<longleftrightarrow>
     (\<forall>rows d toks. length (net rows d toks) = length toks) \<and>
     (\<forall>rows d xs ys. net rows d (xs @ ys) =
        net rows d xs @ net (rows @ rows_of net rows d xs) (after net rows d xs) ys)"

text \<open>
  The device: the rows of the cache, the recurrent state, and what the driver answers to the next
  calls. An answer \<open>Some junk\<close> is a call that fails and leaves \<open>junk\<close> behind; with no answer left every call
  works.
\<close>

record ('r, 'd) device =
  kv :: "'r list"
  dn :: 'd
  answers :: "('r list \<times> 'd) option list"

definition gpu_call :: "('r, 'd, 'z) device_scheme \<Rightarrow> ('r, 'd, 'z) device_scheme \<times> bool" where
  "gpu_call s =
     (case answers s of
        Some junk # rest \<Rightarrow> (s\<lparr>kv := fst junk, dn := snd junk, answers := rest\<rparr>, False)
      | _ \<Rightarrow> (s\<lparr>answers := tl (answers s)\<rparr>, True))"

definition run_net ::
  "('r, 'd) net \<Rightarrow> ('r, 'd, 'z) device_scheme \<Rightarrow> nat \<Rightarrow> token list \<Rightarrow> ('r, 'd, 'z) device_scheme \<times> (spec_error + token list)" where
  "run_net net s pos toks =
     (let (s1, ok) = gpu_call s
      in if \<not> ok \<or> length (kv s1) < pos + length toks then (s1, Inl TargetFailed)
         else
           let rows = take pos (kv s1)
           in (s1\<lparr>kv := rows @ rows_of net rows (dn s1) toks @ drop (pos + length toks) (kv s1),
                  dn := after net rows (dn s1) toks\<rparr>,
               Inr (picks_of net rows (dn s1) toks)))"

section \<open>The pure-attention target\<close>

record 'r qwen2_state = "('r, unit) device" +
  next_pos :: nat
  last_pick :: token

definition qwen2_reset :: "'r qwen2_state \<Rightarrow> 'r qwen2_state" where
  "qwen2_reset s = s\<lparr>next_pos := 0\<rparr>"

definition forward_step :: "('r, unit) net \<Rightarrow> 'r qwen2_state \<Rightarrow> token \<Rightarrow> 'r qwen2_state \<times> (spec_error + unit)" where
  "forward_step net s tok =
     (let pos = next_pos s
      in if length (kv s) \<le> pos then (s, Inl TargetFailed)
         else case run_net net s pos [tok] of
                (s1, Inl e) \<Rightarrow> (s1, Inl e)
              | (s1, Inr picks) \<Rightarrow> (s1\<lparr>next_pos := pos + 1, last_pick := hd picks\<rparr>, Inr ()))"

datatype 'l spec_advance = Ready token "'l option" | Aborted

text \<open>The token loop of \<^verbatim>\<open>spec_advance\<close>; \<open>aborts\<close> holds what the abort test answers from poll to poll.\<close>

fun advance_loop ::
  "('r, unit) net \<Rightarrow> 'r qwen2_state \<Rightarrow> token list \<Rightarrow> bool list \<Rightarrow> 'r qwen2_state \<times> (spec_error + bool)" where
  "advance_loop net s [] aborts = (s, Inr True)"
| "advance_loop net s (tok # toks) aborts =
     (if aborts \<noteq> [] \<and> hd aborts then (qwen2_reset s, Inr False)
      else case forward_step net s tok of
             (s1, Inl e) \<Rightarrow> (s1, Inl e)
           | (s1, Inr _) \<Rightarrow> advance_loop net s1 toks (tl aborts))"

definition qwen2_advance ::
  "('r, unit) net \<Rightarrow> 'r qwen2_state \<Rightarrow> token list \<Rightarrow> nat \<Rightarrow> bool \<Rightarrow> bool list \<Rightarrow> 'r qwen2_state \<times> (spec_error + 'l spec_advance)" where
  "qwen2_advance net s tokens start_pos reset aborts =
     (let s1 = (if reset then qwen2_reset s else s); s2 = s1\<lparr>next_pos := start_pos\<rparr>
      in case advance_loop net s2 tokens aborts of
           (s3, Inl e) \<Rightarrow> (s3, Inl e)
         | (s3, Inr False) \<Rightarrow> (s3, Inr Aborted)
         | (s3, Inr True) \<Rightarrow> (case gpu_call s3 of
                                 (s4, False) \<Rightarrow> (s4, Inl TargetFailed)
                               | (s4, True) \<Rightarrow> (s4, Inr (Ready (last_pick s4) None))))"

fun verify_steps ::
  "('r, unit) net \<Rightarrow> 'r qwen2_state \<Rightarrow> token list \<Rightarrow> token list \<Rightarrow> 'r qwen2_state \<times> (spec_error + token list)" where
  "verify_steps net s [] out = (s, Inr out)"
| "verify_steps net s (tok # toks) out =
     (case forward_step net s tok of
        (s1, Inl e) \<Rightarrow> (s1, Inl e)
      | (s1, Inr _) \<Rightarrow> (case gpu_call s1 of
                            (s2, False) \<Rightarrow> (s2, Inl TargetFailed)
                          | (s2, True) \<Rightarrow> verify_steps net s2 toks (out @ [last_pick s2])))"

definition forward_verify_block_batched ::
  "('r, unit) net \<Rightarrow> 'r qwen2_state \<Rightarrow> token list \<Rightarrow> nat \<Rightarrow> 'r qwen2_state \<times> (spec_error + token list)" where
  "forward_verify_block_batched net s block pos =
     (if length (kv s) < pos + length block then (s, Inl TargetFailed)
      else case run_net net s pos block of
             (s1, Inl e) \<Rightarrow> (s1, Inl e)
           | (s1, Inr picks) \<Rightarrow> (s1\<lparr>next_pos := pos + length block\<rparr>, Inr picks))"

definition qwen2_verify ::
  "('r, unit) net \<Rightarrow> bool \<Rightarrow> 'r qwen2_state \<Rightarrow> unit \<Rightarrow> token list \<Rightarrow> nat \<Rightarrow> ('r qwen2_state \<times> unit \<times> (spec_error + token list)) option" where
  "qwen2_verify net verify_sequential s scratch block pos =
     (let (s', r) = (if \<not> verify_sequential then forward_verify_block_batched net s block pos
                     else verify_steps net (s\<lparr>next_pos := pos\<rparr>) block [])
      in Some (s', scratch, r))"

definition qwen2_commit_prefix ::
  "'r qwen2_state \<Rightarrow> unit \<Rightarrow> token list \<Rightarrow> nat \<Rightarrow> nat \<Rightarrow> 'r qwen2_state \<times> unit \<times> (spec_error + unit)" where
  "qwen2_commit_prefix s scratch block accept_len pos = (s, scratch, Inr ())"

section \<open>The recurrent target\<close>

record ('r, 'd) model_slot = "('r, 'd) device" +
  compact_offset :: nat

record 'd q35_scratch =
  max_n :: nat
  target_snap :: 'd

definition PREFILL_MAX_BATCH :: nat where
  "PREFILL_MAX_BATCH = 256"

text \<open>\<^verbatim>\<open>reset_state\<close>: zero the recurrent state (\<open>d0\<close>) and the eviction offset.\<close>

definition reset_state :: "'d \<Rightarrow> ('r, 'd) model_slot \<Rightarrow> ('r, 'd) model_slot \<times> (spec_error + unit)" where
  "reset_state d0 s =
     (case gpu_call s of
        (s1, False) \<Rightarrow> (s1, Inl TargetFailed)
      | (s1, True) \<Rightarrow> (s1\<lparr>dn := d0, compact_offset := 0\<rparr>, Inr ()))"

definition new_spec_scratch ::
  "('r, 'd) model_slot \<Rightarrow> nat \<Rightarrow> ('r, 'd) model_slot \<times> (spec_error + 'd q35_scratch)" where
  "new_spec_scratch s block_size =
     (case gpu_call s of
        (s1, False) \<Rightarrow> (s1, Inl TargetFailed)
      | (s1, True) \<Rightarrow> (s1, Inr \<lparr>max_n = max block_size 2, target_snap = dn s1\<rparr>))"

function advance_chunks ::
  "('r, 'd) net \<Rightarrow> 'd \<Rightarrow> ('r, 'd) model_slot \<Rightarrow> token list \<Rightarrow> nat \<Rightarrow> nat \<Rightarrow> bool list \<Rightarrow> token \<Rightarrow>
   ('r, 'd) model_slot \<times> (spec_error + token option)" where
  "advance_chunks net d0 s tokens off pos aborts logits =
     (if length tokens \<le> off then (s, Inr (Some logits))
      else if aborts \<noteq> [] \<and> hd aborts then (fst (reset_state d0 s), Inr None)
      else
        let end_pos = min (off + PREFILL_MAX_BATCH) (length tokens)
        in case run_net net s pos (take (end_pos - off) (drop off tokens)) of
             (s1, Inl e) \<Rightarrow> (s1, Inl e)
           | (s1, Inr picks) \<Rightarrow>
               advance_chunks net d0 s1 tokens end_pos (pos + (end_pos - off)) (tl aborts) (last picks))"
  by pat_completeness auto
termination
  by (relation "measure (\<lambda>(net, d0, s, tokens, off, pos, aborts, lg). length tokens - off)")
     (auto simp: PREFILL_MAX_BATCH_def)

declare advance_chunks.simps [simp del]

definition q35_advance ::
  "('r, 'd) net \<Rightarrow> 'd \<Rightarrow> token \<Rightarrow> 'l \<Rightarrow> ('r, 'd) model_slot \<Rightarrow> token list \<Rightarrow> nat \<Rightarrow> bool \<Rightarrow> bool list \<Rightarrow>
   ('r, 'd) model_slot \<times> (spec_error + 'l spec_advance)" where
  "q35_advance net d0 stale row s tokens start_pos reset aborts =
     (case (if reset then reset_state d0 s else (s, Inr ())) of
        (s1, Inl e) \<Rightarrow> (s1, Inl e)
      | (s1, Inr _) \<Rightarrow>
          (case advance_chunks net d0 s1 tokens 0 start_pos aborts stale of
             (s2, Inl e) \<Rightarrow> (s2, Inl e)
           | (s2, Inr None) \<Rightarrow> (s2, Inr Aborted)
           | (s2, Inr (Some lg)) \<Rightarrow>
               (case gpu_call s2 of
                  (s3, False) \<Rightarrow> (s3, Inl TargetFailed)
                | (s3, True) \<Rightarrow> (s3, Inr (Ready lg (Some row))))))"

definition q35_verify ::
  "('r, 'd) net \<Rightarrow> ('r, 'd) model_slot \<Rightarrow> 'd q35_scratch \<Rightarrow> token list \<Rightarrow> nat \<Rightarrow>
   (('r, 'd) model_slot \<times> 'd q35_scratch \<times> (spec_error + token list)) option" where
  "q35_verify net s c block pos =
     (case gpu_call s of
        (s1, False) \<Rightarrow> Some (s1, c\<lparr>target_snap := dn s1\<rparr>, Inl TargetFailed)
      | (s1, True) \<Rightarrow>
          let c1 = c\<lparr>target_snap := dn s1\<rparr>
          in if max_n c1 < length block then None
             else let (s2, r) = run_net net s1 pos block in Some (s2, c1, r))"

definition q35_commit_prefix ::
  "('r, 'd) net \<Rightarrow> ('r, 'd) model_slot \<Rightarrow> 'd q35_scratch \<Rightarrow> token list \<Rightarrow> nat \<Rightarrow> nat \<Rightarrow>
   ('r, 'd) model_slot \<times> 'd q35_scratch \<times> (spec_error + unit)" where
  "q35_commit_prefix net s c block accept_len pos =
     (let draft_len = length block - 1
      in if draft_len \<le> accept_len then (s, c, Inr ())
         else case gpu_call s of
                (s1, False) \<Rightarrow> (s1, c, Inl TargetFailed)
              | (s1, True) \<Rightarrow>
                  (case run_net net (s1\<lparr>dn := target_snap c\<rparr>) pos (take (accept_len + 1) block) of
                     (s2, Inl e) \<Rightarrow> (s2, c, Inl e)
                   | (s2, Inr _) \<Rightarrow> (s2, c, Inr ())))"

section \<open>The contract of a target\<close>

text \<open>
  \<open>holds s hist\<close>: the target's state reflects exactly the tokens \<open>hist\<close>. \<open>pick hist\<close> is the model's greedy
  next token. A verify answers with the greedy token after every prefix of the block; a commit makes the
  state reflect the accepted prefix. While a target is \<open>healthy\<close> and the block fits, the calls succeed.
\<close>

locale spec_target =
  fixes verify :: "'s \<Rightarrow> 'c \<Rightarrow> token list \<Rightarrow> nat \<Rightarrow> ('s \<times> 'c \<times> (spec_error + token list)) option"
    and commit :: "'s \<Rightarrow> 'c \<Rightarrow> token list \<Rightarrow> nat \<Rightarrow> nat \<Rightarrow> 's \<times> 'c \<times> (spec_error + unit)"
    and advance :: "'s \<Rightarrow> token list \<Rightarrow> nat \<Rightarrow> bool \<Rightarrow> bool list \<Rightarrow> 's \<times> (spec_error + 'l spec_advance)"
    and holds :: "'s \<Rightarrow> token list \<Rightarrow> bool"
    and healthy :: "'s \<Rightarrow> nat \<Rightarrow> bool"
    and room :: "'c \<Rightarrow> nat"
    and pick :: "token list \<Rightarrow> token"
  assumes verify_total: "length block \<le> room c \<Longrightarrow> verify s c block pos \<noteq> None"
    and verify_room: "verify s c block pos = Some (s', c', r) \<Longrightarrow> room c' = room c"
    and verify_picks: "holds s hist \<Longrightarrow> verify s c block (length hist) = Some (s', c', Inr picks) \<Longrightarrow>
      length picks = length block \<and> (\<forall>i<length block. picks ! i = pick (hist @ take (Suc i) block))"
    and verify_healthy: "healthy s cap \<Longrightarrow> holds s hist \<Longrightarrow> length hist + length block \<le> cap \<Longrightarrow> length block \<le> room c \<Longrightarrow>
      \<exists>s' c' picks. verify s c block (length hist) = Some (s', c', Inr picks) \<and> healthy s' cap"
    and commit_holds: "holds s hist \<Longrightarrow> verify s c block (length hist) = Some (s', c', Inr picks) \<Longrightarrow> a < length block \<Longrightarrow>
      commit s' c' block a (length hist) = (s'', c'', Inr u) \<Longrightarrow> holds s'' (hist @ take (Suc a) block)"
    and commit_room: "commit s c block a pos = (s', c', q) \<Longrightarrow> room c' = room c"
    and commit_healthy: "healthy s cap \<Longrightarrow> length hist + length block \<le> cap \<Longrightarrow> a < length block \<Longrightarrow>
      \<exists>s' c'. commit s c block a (length hist) = (s', c', Inr ()) \<and> healthy s' cap"
    and advance_holds: "holds s old \<Longrightarrow> (if reset then hist = [] else hist = old) \<Longrightarrow> toks \<noteq> [] \<Longrightarrow>
      advance s toks (length hist) reset aborts = (s', Inr (Ready tok row)) \<Longrightarrow> holds s' (hist @ toks) \<and> tok = pick (hist @ toks)"
    and advance_healthy: "healthy s cap \<Longrightarrow> holds s old \<Longrightarrow> (if reset then hist = [] else hist = old) \<Longrightarrow>
      length hist + length toks \<le> cap \<Longrightarrow>
      \<exists>s' tok row. advance s toks (length hist) reset [] = (s', Inr (Ready tok row)) \<and> healthy s' cap"

section \<open>Causal networks\<close>

definition reflects :: "('r, 'd) net \<Rightarrow> 'd \<Rightarrow> ('r, 'd, 'z) device_scheme \<Rightarrow> token list \<Rightarrow> bool" where
  "reflects net d0 s hist \<longleftrightarrow>
     causal net \<and> length hist \<le> length (kv s) \<and> take (length hist) (kv s) = rows_of net [] d0 hist \<and>
     dn s = after net [] d0 hist"

definition greedy_pick :: "('r, 'd) net \<Rightarrow> 'd \<Rightarrow> token list \<Rightarrow> token" where
  "greedy_pick net d0 hist = last (picks_of net [] d0 hist)"

definition works :: "('r, 'd, 'z) device_scheme \<Rightarrow> nat \<Rightarrow> bool" where
  "works s cap \<longleftrightarrow> answers s = [] \<and> length (kv s) = cap"

lemma causal_length: "causal net \<Longrightarrow> length (net rows d toks) = length toks"
  by (simp add: causal_def)

lemma causal_append:
  "causal net \<Longrightarrow> net rows d (xs @ ys) = net rows d xs @ net (rows @ rows_of net rows d xs) (after net rows d xs) ys"
  by (simp add: causal_def)

lemma length_rows_of [simp]: "causal net \<Longrightarrow> length (rows_of net rows d toks) = length toks"
  by (simp add: rows_of_def causal_length)

lemma length_picks_of [simp]: "causal net \<Longrightarrow> length (picks_of net rows d toks) = length toks"
  by (simp add: picks_of_def causal_length)

lemma rows_of_append:
  "causal net \<Longrightarrow> rows_of net rows d (xs @ ys)
   = rows_of net rows d xs @ rows_of net (rows @ rows_of net rows d xs) (after net rows d xs) ys"
  by (simp add: rows_of_def causal_append)

lemma after_append:
  assumes "causal net"
  shows "after net rows d (xs @ ys) = after net (rows @ rows_of net rows d xs) (after net rows d xs) ys"
proof (cases "ys = []")
  case True
  then show ?thesis by (simp add: after_def)
next
  case False
  then have "net (rows @ rows_of net rows d xs) (after net rows d xs) ys \<noteq> []"
    using causal_length [OF assms] by (metis length_0_conv)
  then show ?thesis using False by (simp add: after_def causal_append [OF assms])
qed

lemma causal_take: "causal net \<Longrightarrow> net rows d (take i toks) = take i (net rows d toks)"
  using causal_append [of net rows d "take i toks" "drop i toks"] causal_length [of net rows d "take i toks"]
  by (cases "i \<le> length toks") (simp_all add: causal_length)

lemma picks_of_nth:
  assumes c: "causal net" and i: "i < length toks"
  shows "picks_of net (rows_of net [] d0 hist) (after net [] d0 hist) toks ! i = greedy_pick net d0 (hist @ take (Suc i) toks)"
proof -
  let ?n = "net (rows_of net [] d0 hist) (after net [] d0 hist)"
  have len: "length (?n toks) = length toks" by (rule causal_length [OF c])
  have "picks_of net [] d0 (hist @ take (Suc i) toks) = picks_of net [] d0 hist @ map (snd \<circ> snd) (take (Suc i) (?n toks))"
    using causal_append [OF c, of "[]" d0 hist "take (Suc i) toks"] causal_take [OF c] by (simp add: picks_of_def)
  moreover have "take (Suc i) (?n toks) = take i (?n toks) @ [?n toks ! i]"
    using i len by (simp add: take_Suc_conv_app_nth)
  ultimately have "greedy_pick net d0 (hist @ take (Suc i) toks) = snd (snd (?n toks ! i))"
    by (simp add: greedy_pick_def)
  then show ?thesis using i len by (simp add: picks_of_def)
qed

lemma reflects_cong: "kv s' = kv s \<Longrightarrow> dn s' = dn s \<Longrightarrow> reflects net d0 s' hist = reflects net d0 s hist"
  by (simp add: reflects_def)

lemma gpu_call_works: "gpu_call s = (s', True) \<Longrightarrow> s' = s\<lparr>answers := tl (answers s)\<rparr>"
  by (auto simp: gpu_call_def split: list.splits option.splits)

lemma gpu_call_quiet: "answers s = [] \<Longrightarrow> gpu_call s = (s, True)"
  by (simp add: gpu_call_def)

lemma gpu_call_reflects:
  "gpu_call s = (s', True) \<Longrightarrow> reflects net d0 s' hist = reflects net d0 s hist"
  by (drule gpu_call_works) (simp add: reflects_def)

lemma run_net_works:
  assumes "works s cap" and "pos + length toks \<le> cap" and "causal net"
  shows "\<exists>s' picks. run_net net s pos toks = (s', Inr picks) \<and> works s' cap"
  using assms by (auto simp: run_net_def works_def gpu_call_quiet Let_def)

lemma run_net_reflects:
  assumes r: "reflects net d0 s hist" and run: "run_net net s (length hist) toks = (s', Inr picks)"
  shows "reflects net d0 s' (hist @ toks) \<and> length picks = length toks \<and>
         (\<forall>i<length toks. picks ! i = greedy_pick net d0 (hist @ take (Suc i) toks)) \<and>
         take (length hist) (kv s') = take (length hist) (kv s) \<and> length (kv s') = length (kv s)"
proof -
  have c: "causal net" and le: "length hist \<le> length (kv s)"
    and rows: "take (length hist) (kv s) = rows_of net [] d0 hist" and d: "dn s = after net [] d0 hist"
    using r by (auto simp: reflects_def)
  obtain s1 ok where call: "gpu_call s = (s1, ok)" by (cases "gpu_call s")
  with run have ok: "ok" and fits: "length hist + length toks \<le> length (kv s1)"
    by (auto simp: run_net_def split: if_splits)
  from call ok have s1: "s1 = s\<lparr>answers := tl (answers s)\<rparr>" by (auto dest: gpu_call_works)
  let ?rs = "rows_of net [] d0 hist" and ?d = "after net [] d0 hist"
  have s': "s' = s1\<lparr>kv := ?rs @ rows_of net ?rs ?d toks @ drop (length hist + length toks) (kv s),
                    dn := after net ?rs ?d toks\<rparr>"
    and picks: "picks = picks_of net ?rs ?d toks"
    using run call ok fits s1 rows d by (auto simp: run_net_def Let_def)
  have "reflects net d0 s' (hist @ toks)"
    using c fits unfolding s' by (simp add: reflects_def rows_of_append [OF c] after_append [OF c] s1)
  moreover have "length (kv s') = length (kv s)" using c fits s1 unfolding s' by simp
  moreover have "take (length hist) (kv s') = take (length hist) (kv s)" using c rows unfolding s' by simp
  ultimately show ?thesis using picks c picks_of_nth [OF c] by simp
qed

section \<open>The pure-attention target keeps the contract\<close>

lemma reflects_prefix:
  assumes "reflects net d0 s (xs @ ys)" and "dn s = after net [] d0 xs"
  shows "reflects net d0 s xs"
proof -
  have c: "causal net" and len: "length (xs @ ys) \<le> length (kv s)"
    and rows: "take (length (xs @ ys)) (kv s) = rows_of net [] d0 (xs @ ys)"
    using assms(1) by (auto simp: reflects_def)
  have "take (length xs) (kv s) = take (length xs) (take (length (xs @ ys)) (kv s))" by simp
  also have "\<dots> = rows_of net [] d0 xs" unfolding rows rows_of_append [OF c] using c by simp
  finally show ?thesis using c len assms(2) by (simp add: reflects_def)
qed

lemma forward_step_reflects:
  assumes "reflects net d0 s hist" and "next_pos s = length hist" and "forward_step net s tok = (s', Inr u)"
  shows "reflects net d0 s' (hist @ [tok]) \<and> next_pos s' = length (hist @ [tok]) \<and>
         last_pick s' = greedy_pick net d0 (hist @ [tok])"
proof -
  obtain s1 picks where run: "run_net net s (length hist) [tok] = (s1, Inr picks)"
    and s': "s' = s1\<lparr>next_pos := length hist + 1, last_pick := hd picks\<rparr>"
    using assms(2,3) by (auto simp: forward_step_def Let_def split: if_splits prod.splits sum.splits)
  note r = run_net_reflects [OF assms(1) run]
  then have "hd picks = greedy_pick net d0 (hist @ [tok])" by (cases picks) auto
  then show ?thesis using r s' reflects_cong [of s' s1] by simp
qed

lemma forward_step_works:
  assumes "works s cap" and "causal net" and "next_pos s < cap"
  shows "\<exists>s'. forward_step net s tok = (s', Inr ()) \<and> works s' cap \<and> next_pos s' = next_pos s + 1"
proof -
  obtain s1 picks where "run_net net s (next_pos s) [tok] = (s1, Inr picks)" "works s1 cap"
    using run_net_works [OF assms(1) _ assms(2), of "next_pos s" "[tok]"] assms(3) by auto
  then show ?thesis using assms(1,3) by (simp add: forward_step_def Let_def works_def)
qed

lemma verify_steps_reflects:
  assumes "reflects net d0 s hist" and "next_pos s = length hist" and "verify_steps net s toks out = (s', Inr picks)"
  shows "reflects net d0 s' (hist @ toks) \<and>
         (\<exists>ps. picks = out @ ps \<and> length ps = length toks \<and>
               (\<forall>i<length toks. ps ! i = greedy_pick net d0 (hist @ take (Suc i) toks)))"
  using assms
proof (induction toks arbitrary: s hist out)
  case Nil
  then show ?case by simp
next
  case (Cons tok toks)
  from Cons.prems(3) obtain s1 s2 u where step: "forward_step net s tok = (s1, Inr u)"
    and call: "gpu_call s1 = (s2, True)" and rest: "verify_steps net s2 toks (out @ [last_pick s2]) = (s', Inr picks)"
    by (auto split: prod.splits sum.splits bool.splits)
  note one = forward_step_reflects [OF Cons.prems(1,2) step]
  note s2 = gpu_call_works [OF call]
  have "reflects net d0 s2 (hist @ [tok])" using one gpu_call_reflects [OF call] by simp
  moreover have "next_pos s2 = length (hist @ [tok])" using one s2 by simp
  ultimately obtain ps where ps: "reflects net d0 s' ((hist @ [tok]) @ toks)" "picks = (out @ [last_pick s2]) @ ps"
    "length ps = length toks" "\<forall>i<length toks. ps ! i = greedy_pick net d0 ((hist @ [tok]) @ take (Suc i) toks)"
    using Cons.IH [OF _ _ rest] by blast
  have "(last_pick s2 # ps) ! i = greedy_pick net d0 (hist @ take (Suc i) (tok # toks))" if "i < length (tok # toks)" for i
    using that ps(4) one s2 by (cases i) auto
  then show ?case using ps by (intro conjI exI [of _ "last_pick s2 # ps"]) auto
qed

lemma verify_steps_works:
  assumes "works s cap" and "causal net" and "next_pos s + length toks \<le> cap"
  shows "\<exists>s' picks. verify_steps net s toks out = (s', Inr picks) \<and> works s' cap"
  using assms
proof (induction toks arbitrary: s out)
  case Nil
  then show ?case by simp
next
  case (Cons tok toks)
  then obtain s1 where s1: "forward_step net s tok = (s1, Inr ())" "works s1 cap" "next_pos s1 = next_pos s + 1"
    using forward_step_works [OF Cons.prems(1,2), of tok] by auto
  then have "gpu_call s1 = (s1, True)" by (simp add: works_def gpu_call_quiet)
  moreover obtain s' picks where "verify_steps net s1 toks (out @ [last_pick s1]) = (s', Inr picks)" "works s' cap"
    using Cons.IH [OF s1(2) Cons.prems(2), of "out @ [last_pick s1]"] Cons.prems(3) s1(3) by auto
  ultimately show ?case using s1 by simp
qed

lemma advance_loop_reflects:
  assumes "reflects net d0 s hist" and "next_pos s = length hist" and "advance_loop net s toks aborts = (s', Inr True)"
    and "toks \<noteq> []"
  shows "reflects net d0 s' (hist @ toks) \<and> last_pick s' = greedy_pick net d0 (hist @ toks)"
  using assms
proof (induction toks arbitrary: s hist aborts)
  case Nil
  then show ?case by simp
next
  case (Cons tok toks)
  from Cons.prems(3) obtain s1 u where step: "forward_step net s tok = (s1, Inr u)"
    and rest: "advance_loop net s1 toks (tl aborts) = (s', Inr True)"
    by (auto split: prod.splits sum.splits if_splits)
  note one = forward_step_reflects [OF Cons.prems(1,2) step]
  show ?case
  proof (cases "toks = []")
    case True
    then show ?thesis using one rest by simp
  next
    case False
    then show ?thesis using Cons.IH [OF _ _ rest False, of "hist @ [tok]"] one by simp
  qed
qed

lemma advance_loop_works:
  assumes "works s cap" and "causal net" and "next_pos s + length toks \<le> cap"
  shows "\<exists>s'. advance_loop net s toks [] = (s', Inr True) \<and> works s' cap"
  using assms
proof (induction toks arbitrary: s)
  case Nil
  then show ?case by simp
next
  case (Cons tok toks)
  then obtain s1 where s1: "forward_step net s tok = (s1, Inr ())" "works s1 cap" "next_pos s1 = next_pos s + 1"
    using forward_step_works [OF Cons.prems(1,2), of tok] by auto
  then show ?case using Cons.IH [OF s1(2) Cons.prems(2)] Cons.prems(3) by simp
qed

lemma reflects_unit: "reflects net () s (xs @ ys) \<Longrightarrow> reflects net () s xs"
  by (rule reflects_prefix) auto

text \<open>Both ways of verifying: one call per token, and one batched call.\<close>

lemma qwen2_verify_reflects:
  assumes "reflects net () s hist" and "qwen2_verify net verify_sequential s c block (length hist) = Some (s', c', Inr picks)"
  shows "reflects net () s' (hist @ block) \<and> length picks = length block \<and>
         (\<forall>i<length block. picks ! i = greedy_pick net () (hist @ take (Suc i) block))"
proof (cases verify_sequential)
  case True
  then have "verify_steps net (s\<lparr>next_pos := length hist\<rparr>) block [] = (s', Inr picks)"
    using assms(2) by (auto simp: qwen2_verify_def split: prod.splits)
  moreover have "reflects net () (s\<lparr>next_pos := length hist\<rparr>) hist" using assms(1) by (simp add: reflects_def)
  ultimately show ?thesis using verify_steps_reflects [of net "()" "s\<lparr>next_pos := length hist\<rparr>" hist block "[]"] by auto
next
  case False
  then obtain s1 where run: "run_net net s (length hist) block = (s1, Inr picks)"
    and s': "s' = s1\<lparr>next_pos := length hist + length block\<rparr>"
    using assms(2)
    by (auto simp: qwen2_verify_def forward_verify_block_batched_def split: prod.splits sum.splits if_splits)
  then show ?thesis using run_net_reflects [OF assms(1) run] reflects_cong [of s' s1] by simp
qed

lemma qwen2_verify_works:
  assumes "works s cap" and "causal net" and "pos + length block \<le> cap"
  shows "\<exists>s' picks. qwen2_verify net verify_sequential s c block pos = Some (s', c, Inr picks) \<and> works s' cap"
proof (cases verify_sequential)
  case True
  have "works (s\<lparr>next_pos := pos\<rparr>) cap" using assms(1) by (simp add: works_def)
  then show ?thesis using True verify_steps_works [of "s\<lparr>next_pos := pos\<rparr>" cap net block "[]"] assms
    by (auto simp: qwen2_verify_def)
next
  case False
  obtain s1 picks where "run_net net s pos block = (s1, Inr picks)" "works s1 cap"
    using run_net_works [OF assms(1,3,2)] by auto
  then show ?thesis using False assms
    by (auto simp: qwen2_verify_def forward_verify_block_batched_def works_def)
qed

lemma qwen2_advance_reflects:
  assumes "reflects net () s old" and "if reset then hist = [] else hist = old" and "toks \<noteq> []"
    and "qwen2_advance net s toks (length hist) reset aborts = (s', Inr (Ready tok row))"
  shows "reflects net () s' (hist @ toks) \<and> tok = greedy_pick net () (hist @ toks)"
proof -
  define s2 where "s2 = (if reset then qwen2_reset s else s)\<lparr>next_pos := length hist\<rparr>"
  have "reflects net () s hist" using assms(1,2) reflects_unit [of net s "[]" old] by (auto split: if_splits)
  then have s2: "reflects net () s2 hist" "next_pos s2 = length hist"
    using reflects_cong [of s2 s] by (auto simp: s2_def qwen2_reset_def)
  from assms(4) obtain s3 where loop: "advance_loop net s2 toks aborts = (s3, Inr True)"
    and call: "gpu_call s3 = (s', True)" and tok: "tok = last_pick s'"
    unfolding qwen2_advance_def Let_def s2_def [symmetric] by (auto split: prod.splits sum.splits bool.splits)
  note l = advance_loop_reflects [OF s2 loop assms(3)]
  then show ?thesis using gpu_call_reflects [OF call] gpu_call_works [OF call] tok by simp
qed

lemma qwen2_advance_works:
  assumes "works s cap" and "causal net" and "pos + length toks \<le> cap"
  shows "\<exists>s' tok row. qwen2_advance net s toks pos reset [] = (s', Inr (Ready tok row)) \<and> works s' cap"
proof -
  define s2 where "s2 = (if reset then qwen2_reset s else s)\<lparr>next_pos := pos\<rparr>"
  have "works s2 cap" "next_pos s2 = pos" using assms(1) by (auto simp: s2_def qwen2_reset_def works_def)
  then obtain s3 where s3: "advance_loop net s2 toks [] = (s3, Inr True)" "works s3 cap"
    using advance_loop_works [of s2 cap net toks] assms by auto
  then have "gpu_call s3 = (s3, True)" by (simp add: works_def gpu_call_quiet)
  then show ?thesis using s3 unfolding qwen2_advance_def Let_def s2_def [symmetric] by simp
qed

lemma reflects_causal: "reflects net d0 s hist \<Longrightarrow> causal net"
  by (simp add: reflects_def)

lemma qwen2_commit_reflects:
  assumes "reflects net () s hist" and "qwen2_verify net seq s c block (length hist) = Some (s', c', Inr picks)"
    and "qwen2_commit_prefix s' c' block a (length hist) = (s'', c'', Inr u)"
  shows "reflects net () s'' (hist @ take (Suc a) block)"
proof -
  have "hist @ block = (hist @ take (Suc a) block) @ drop (Suc a) block" by simp
  moreover have "reflects net () s' (hist @ block)" "s'' = s'"
    using qwen2_verify_reflects [OF assms(1,2)] assms(3) by (auto simp: qwen2_commit_prefix_def)
  ultimately show ?thesis using reflects_unit by metis
qed

lemma qwen2_total: "qwen2_verify net seq s c block pos \<noteq> None"
  by (simp add: qwen2_verify_def split: prod.split)

lemma qwen2_commit_works:
  "works s cap \<Longrightarrow> \<exists>s' c'. qwen2_commit_prefix s c block a pos = (s', c', Inr ()) \<and> works s' cap"
  by (simp add: qwen2_commit_prefix_def)

lemmas qwen2_verify_picks = qwen2_verify_reflects [THEN conjunct2]

lemma qwen2_verify_healthy:
  "works s cap \<Longrightarrow> reflects net () s hist \<Longrightarrow> length hist + length block \<le> cap \<Longrightarrow>
   \<exists>s' c' picks. qwen2_verify net seq s c block (length hist) = Some (s', c', Inr picks) \<and> works s' cap"
  using qwen2_verify_works [of s cap net "length hist" block seq c] by (auto simp: reflects_def)

lemma qwen2_advance_healthy:
  "works s cap \<Longrightarrow> reflects net () s old \<Longrightarrow> length (hist :: token list) + length toks \<le> cap \<Longrightarrow>
   \<exists>s' tok row. qwen2_advance net s toks (length hist) reset [] = (s', Inr (Ready tok row)) \<and> works s' cap"
  using qwen2_advance_works [of s cap net "length hist" toks reset] by (auto simp: reflects_def)

interpretation qwen2: spec_target "qwen2_verify net seq" "qwen2_commit_prefix" "qwen2_advance net"
  "reflects net ()" works "\<lambda>_. bound" "greedy_pick net ()" for net seq bound
  by unfold_locales
     (rule qwen2_total refl | (rule qwen2_verify_picks; assumption) | (rule qwen2_verify_healthy; assumption) |
      (rule qwen2_commit_reflects; assumption) | (rule qwen2_commit_works; assumption) |
      (rule qwen2_advance_reflects; assumption) | (rule qwen2_advance_healthy; assumption))+

section \<open>The recurrent target keeps the contract\<close>

definition slot_reflects :: "('r, 'd) net \<Rightarrow> 'd \<Rightarrow> ('r, 'd) model_slot \<Rightarrow> token list \<Rightarrow> bool" where
  "slot_reflects net d0 s hist \<longleftrightarrow> reflects net d0 s hist \<and> compact_offset s = 0"

lemma run_net_offset: "run_net net s pos toks = (s', r) \<Longrightarrow> compact_offset s' = compact_offset s"
  by (auto simp: run_net_def gpu_call_def Let_def split: if_splits list.splits option.splits)

lemma gpu_call_offset: "gpu_call s = (s', b) \<Longrightarrow> compact_offset s' = compact_offset s"
  by (auto simp: gpu_call_def split: list.splits option.splits)

lemma q35_verify_cases:
  assumes "q35_verify net s c block pos = Some (s', c', Inr picks)"
  obtains s1 where "gpu_call s = (s1, True)" and "run_net net s1 pos block = (s', Inr picks)"
    and "c' = c\<lparr>target_snap := dn s\<rparr>"
  using assms gpu_call_works [of s]
  by (auto simp: q35_verify_def Let_def split: prod.splits bool.splits if_splits)

lemma q35_verify_reflects:
  assumes "slot_reflects net d0 s hist" and "q35_verify net s c block (length hist) = Some (s', c', Inr picks)"
  shows "slot_reflects net d0 s' (hist @ block) \<and> length picks = length block \<and>
         (\<forall>i<length block. picks ! i = greedy_pick net d0 (hist @ take (Suc i) block))"
  using assms(2)
proof (rule q35_verify_cases)
  fix s1
  assume call: "gpu_call s = (s1, True)" and run: "run_net net s1 (length hist) block = (s', Inr picks)"
  have "reflects net d0 s1 hist" using assms(1) gpu_call_reflects [OF call] by (simp add: slot_reflects_def)
  from run_net_reflects [OF this run] show ?thesis
    using assms(1) run_net_offset [OF run] gpu_call_offset [OF call] by (simp add: slot_reflects_def)
qed

lemmas q35_verify_picks = q35_verify_reflects [THEN conjunct2]

text \<open>A verify that is only partly accepted is undone and the accepted prefix replayed.\<close>

lemma q35_commit_reflects:
  assumes "slot_reflects net d0 s hist" and "q35_verify net s c block (length hist) = Some (s', c', Inr picks)"
    and "q35_commit_prefix net s' c' block a (length hist) = (s'', c'', Inr u)"
  shows "slot_reflects net d0 s'' (hist @ take (Suc a) block)"
proof (cases "length block - 1 \<le> a")
  case True
  then show ?thesis using q35_verify_reflects [OF assms(1,2)] assms(3) by (simp add: q35_commit_prefix_def)
next
  case False
  from assms(2) show ?thesis
  proof (rule q35_verify_cases)
    fix s1
    assume call: "gpu_call s = (s1, True)" and run: "run_net net s1 (length hist) block = (s', Inr picks)"
      and c': "c' = c\<lparr>target_snap := dn s\<rparr>"
    have s1: "reflects net d0 s1 hist" using assms(1) gpu_call_reflects [OF call] by (simp add: slot_reflects_def)
    note ver = run_net_reflects [OF s1 run]
    obtain s2 q where call2: "gpu_call s' = (s2, True)"
      and replay: "run_net net (s2\<lparr>dn := dn s\<rparr>) (length hist) (take (Suc a) block) = (s'', Inr q)"
      using False assms(3) c' by (auto simp: q35_commit_prefix_def Let_def split: prod.splits bool.splits sum.splits)
    have "kv s2 = kv s'" using gpu_call_works [OF call2] by simp
    moreover have "kv s1 = kv s" "dn s1 = dn s" using gpu_call_works [OF call] by simp_all
    ultimately have "reflects net d0 (s2\<lparr>dn := dn s\<rparr>) hist" using s1 ver by (simp add: reflects_def)
    from run_net_reflects [OF this replay] show ?thesis
      using assms(1) run_net_offset [OF replay] gpu_call_offset [OF call2] run_net_offset [OF run] gpu_call_offset [OF call]
      by (simp add: slot_reflects_def)
  qed
qed

lemma q35_total: "length block \<le> max_n c \<Longrightarrow> q35_verify net s c block pos \<noteq> None"
  by (simp add: q35_verify_def Let_def split: prod.split bool.split)

lemma q35_verify_room: "q35_verify net s c block pos = Some (s', c', r) \<Longrightarrow> max_n c' = max_n c"
  by (auto simp: q35_verify_def Let_def split: prod.splits bool.splits if_splits)

lemma q35_commit_room: "q35_commit_prefix net s c block a pos = (s', c', q) \<Longrightarrow> max_n c' = max_n c"
  by (auto simp: q35_commit_prefix_def Let_def split: prod.splits bool.splits if_splits sum.splits)

lemma q35_verify_healthy:
  assumes "works s cap" and "slot_reflects net d0 s hist" and "length hist + length block \<le> cap" and "length block \<le> max_n c"
  shows "\<exists>s' c' picks. q35_verify net s c block (length hist) = Some (s', c', Inr picks) \<and> (works s' cap \<and> causal net)"
proof -
  have c: "causal net" using assms(2) by (simp add: slot_reflects_def reflects_def)
  obtain s' picks where "run_net net s (length hist) block = (s', Inr picks)" "works s' cap"
    using run_net_works [OF assms(1,3) c] by auto
  moreover have "gpu_call s = (s, True)" using assms(1) by (simp add: works_def gpu_call_quiet)
  ultimately show ?thesis using assms(4) c by (simp add: q35_verify_def)
qed

lemma q35_commit_healthy:
  assumes "works s cap \<and> causal net" and "length hist + length block \<le> cap" and "a < length block"
  shows "\<exists>s' c'. q35_commit_prefix net s c block a (length (hist :: token list)) = (s', c', Inr ()) \<and> (works s' cap \<and> causal net)"
proof -
  have "works (s\<lparr>dn := target_snap c\<rparr>) cap" using assms(1) by (simp add: works_def)
  then obtain s' picks where
    "run_net net (s\<lparr>dn := target_snap c\<rparr>) (length hist) (take (a + 1) block) = (s', Inr picks)" "works s' cap"
    using run_net_works [of "s\<lparr>dn := target_snap c\<rparr>" cap "length hist" "take (a + 1) block" net] assms by auto
  moreover have "gpu_call s = (s, True)" using assms(1) by (simp add: works_def gpu_call_quiet)
  ultimately show ?thesis using assms(1) by (simp add: q35_commit_prefix_def Let_def)
qed

lemma take_chunk:
  assumes "off \<le> e" and "e \<le> length toks"
  shows "take off toks @ take (e - off) (drop off toks) = take e toks"
  using assms by (metis le_add_diff_inverse take_add)

text \<open>The chunk loop, from a state that reflects the chunks before \<open>off\<close>.\<close>

lemma advance_chunks_reflects:
  assumes "slot_reflects net d0 s (hist @ take off toks)" and "pos = length hist + off" and "off \<le> length toks"
    and "0 < off \<longrightarrow> lg = greedy_pick net d0 (hist @ take off toks)"
    and "advance_chunks net d0 s toks off pos aborts lg = (s', Inr (Some lg'))"
  shows "slot_reflects net d0 s' (hist @ toks) \<and> (toks \<noteq> [] \<longrightarrow> lg' = greedy_pick net d0 (hist @ toks))"
  using assms
proof (induction net d0 s toks off pos aborts lg rule: advance_chunks.induct)
  case (1 net d0 s toks off pos aborts lg)
  show ?case
  proof (cases "length toks \<le> off")
    case True
    then have "s' = s" "lg' = lg" "take off toks = toks" "toks \<noteq> [] \<longrightarrow> 0 < off"
      using "1.prems"(3,5) unfolding advance_chunks.simps [of net d0 s toks off] by auto
    then show ?thesis using "1.prems"(1,4) by simp
  next
    case False
    define e where "e = min (off + PREFILL_MAX_BATCH) (length toks)"
    define chunk where "chunk = take (e - off) (drop off toks)"
    have e: "off < e" "e \<le> length toks" using False by (auto simp: e_def PREFILL_MAX_BATCH_def)
    then have chunk: "chunk \<noteq> []" "length chunk = e - off" by (auto simp: chunk_def)
    have join: "take off toks @ chunk = take e toks" unfolding chunk_def using e by (intro take_chunk) auto
    from "1.prems"(5) False obtain s1 picks where quiet: "\<not> (aborts \<noteq> [] \<and> hd aborts)"
      and run: "run_net net s pos chunk = (s1, Inr picks)"
      and rest: "advance_chunks net d0 s1 toks e (pos + (e - off)) (tl aborts) (last picks) = (s', Inr (Some lg'))"
      unfolding advance_chunks.simps [of net d0 s toks off] Let_def e_def [symmetric] chunk_def [symmetric]
      by (auto split: if_splits prod.splits sum.splits)
    have pos: "pos = length (hist @ take off toks)" using "1.prems"(2,3) by simp
    note r = run_net_reflects [OF _ run [unfolded pos], of d0]
    have now: "reflects net d0 s (hist @ take off toks)" using "1.prems"(1) by (simp add: slot_reflects_def)
    have s1: "slot_reflects net d0 s1 (hist @ take e toks)"
      using r [OF now] "1.prems"(1) run_net_offset [OF run] join by (simp add: slot_reflects_def)
    have "last picks = greedy_pick net d0 (hist @ take e toks)"
      using r [OF now] chunk join last_conv_nth [of picks] by (cases picks) auto
    with s1 e "1.prems"(2) rest show ?thesis
      using "1.IH" [OF False quiet e_def run [symmetric, unfolded chunk_def] refl] by simp
  qed
qed

lemma advance_chunks_healthy:
  assumes "works s cap" and "causal net" and "pos + (length toks - off) \<le> cap"
  shows "\<exists>s' lg'. advance_chunks net d0 s toks off pos [] lg = (s', Inr (Some lg')) \<and> works s' cap"
  using assms
proof (induction "length toks - off" arbitrary: s off pos lg rule: less_induct)
  case less
  show ?case
  proof (cases "length toks \<le> off")
    case True
    then show ?thesis using less.prems(1) unfolding advance_chunks.simps [of net d0 s toks off] by simp
  next
    case False
    define e where "e = min (off + PREFILL_MAX_BATCH) (length toks)"
    have e: "off < e" "e \<le> length toks" using False by (auto simp: e_def PREFILL_MAX_BATCH_def)
    have "pos + length (take (e - off) (drop off toks)) \<le> cap" using less.prems(3) e by simp
    from run_net_works [OF less.prems(1) this less.prems(2)]
    obtain s1 picks where run: "run_net net s pos (take (e - off) (drop off toks)) = (s1, Inr picks)" "works s1 cap"
      by auto
    have "length toks - e < length toks - off" and "pos + (e - off) + (length toks - e) \<le> cap"
      using e less.prems(3) by linarith+
    from less.hyps [OF this(1) run(2) less.prems(2) this(2)] obtain s' lg' where
      "advance_chunks net d0 s1 toks e (pos + (e - off)) [] (last picks) = (s', Inr (Some lg'))" "works s' cap"
      by blast
    then show ?thesis using run False unfolding advance_chunks.simps [of net d0 s toks off] Let_def e_def [symmetric] by simp
  qed
qed

lemma reset_state_reflects:
  assumes "slot_reflects net d0 s old" and "reset_state d0 s = (s', Inr u)"
  shows "slot_reflects net d0 s' []"
proof -
  have "causal net" using assms(1) by (simp add: slot_reflects_def reflects_def)
  moreover have "rows_of net [] d0 [] = []" using length_rows_of [OF \<open>causal net\<close>, of "[]" d0 "[]"] by simp
  ultimately show ?thesis
    using assms(2) by (auto simp: reset_state_def slot_reflects_def reflects_def after_def split: prod.splits bool.splits)
qed

lemma q35_advance_reflects:
  assumes "slot_reflects net d0 s old" and "if reset then hist = [] else hist = old" and "toks \<noteq> []"
    and "q35_advance net d0 stale lrow s toks (length hist) reset aborts = (s', Inr (Ready tok row))"
  shows "slot_reflects net d0 s' (hist @ toks) \<and> tok = greedy_pick net d0 (hist @ toks)"
proof -
  obtain s1 s2 where start: "(if reset then reset_state d0 s else (s, Inr ())) = (s1, Inr ())"
    and loop: "advance_chunks net d0 s1 toks 0 (length hist) aborts stale = (s2, Inr (Some tok))"
    and call: "gpu_call s2 = (s', True)"
    using assms(4) by (auto simp: q35_advance_def split: prod.splits sum.splits option.splits bool.splits)
  have "slot_reflects net d0 s1 (hist @ take 0 toks)"
    using start assms(1,2) by (auto split: if_splits intro: reset_state_reflects)
  from advance_chunks_reflects [OF this _ _ _ loop] assms(3)
  have "slot_reflects net d0 s2 (hist @ toks)" "tok = greedy_pick net d0 (hist @ toks)" by auto
  then show ?thesis using gpu_call_reflects [OF call] gpu_call_offset [OF call] by (simp add: slot_reflects_def)
qed

lemma q35_advance_healthy:
  assumes "works s cap \<and> causal net" and "length (hist :: token list) + length toks \<le> cap"
  shows "\<exists>s' tok row. q35_advance net d0 stale lrow s toks (length hist) reset [] = (s', Inr (Ready tok row)) \<and> (works s' cap \<and> causal net)"
proof -
  obtain s1 where s1: "(if reset then reset_state d0 s else (s, Inr ())) = (s1, Inr ())" "works s1 cap"
    using assms(1) by (cases reset) (simp_all add: reset_state_def works_def gpu_call_quiet)
  obtain s2 lg where s2: "advance_chunks net d0 s1 toks 0 (length hist) [] stale = (s2, Inr (Some lg))" "works s2 cap"
    using advance_chunks_healthy [OF s1(2), of net "length hist" toks 0 d0 stale] assms by auto
  then have "gpu_call s2 = (s2, True)" by (simp add: works_def gpu_call_quiet)
  then show ?thesis using s1 s2 assms(1) by (simp add: q35_advance_def)
qed

interpretation q35: spec_target "q35_verify net" "q35_commit_prefix net" "q35_advance net d0 stale lrow"
  "slot_reflects net d0" "\<lambda>s cap. works s cap \<and> causal net" max_n "greedy_pick net d0" for net d0 stale lrow
  by unfold_locales
     ((rule q35_total; assumption) | (rule q35_verify_room; assumption) | (rule q35_verify_picks; assumption) |
      (rule q35_verify_healthy; (elim conjE)?; assumption) | (rule q35_commit_reflects; assumption) |
      (rule q35_commit_room; assumption) | (rule q35_commit_healthy; assumption) |
      (rule q35_advance_reflects; assumption) | (rule q35_advance_healthy; assumption))+

end
