(* ===== verification/Spec_Draft.thy ===== *)
theory Spec_Draft
  imports Prelude
begin

text \<open>
  The model-free draft source of speculative decoding: the bigram cache and the prompt-lookup matcher of
  \<^verbatim>\<open>hipfire-runtime/src/spec.rs\<close> (\<^verbatim>\<open>NgramCache\<close>, \<^verbatim>\<open>PldMatcher\<close>) and the drafter built from them in
  \<^verbatim>\<open>hipfire-runtime/src/spec_ngram.rs\<close> (\<^verbatim>\<open>NgramDrafter\<close>). The trait \<^verbatim>\<open>BlockDrafter\<close> is the locale
  \<open>block_drafter\<close>. The order in which a histogram's hash map is iterated is the parameter \<open>order\<close>.
\<close>

section \<open>The bigram cache\<close>

type_synonym histogram = "(token \<times> nat) list"
type_synonym hist_order = "histogram \<Rightarrow> histogram"

record ngram_cache =
  bigram :: "token \<times> token \<rightharpoonup> histogram"
  min_count :: nat

definition cache_new :: "nat \<Rightarrow> ngram_cache" where
  "cache_new mc = \<lparr>bigram = Map.empty, min_count = mc\<rparr>"

fun bump :: "token \<Rightarrow> histogram \<Rightarrow> histogram" where
  "bump c [] = [(c, 1)]"
| "bump c ((t, n) # h) = (if t = c then (t, (n + 1) mod 4294967296) # h else (t, n) # bump c h)"

definition cache_observe :: "ngram_cache \<Rightarrow> token \<Rightarrow> token \<Rightarrow> token \<Rightarrow> ngram_cache" where
  "cache_observe m a b c =
     m\<lparr>bigram := (bigram m)((a, b) \<mapsto> bump c (case bigram m (a, b) of None \<Rightarrow> [] | Some h \<Rightarrow> h))\<rparr>"

definition cache_predict :: "hist_order \<Rightarrow> ngram_cache \<Rightarrow> token \<Rightarrow> token \<Rightarrow> (token \<times> nat) option" where
  "cache_predict order m a b = do {
     h \<leftarrow> bigram m (a, b);
     (tok, cnt) \<leftarrow> max_by_key snd (order h);
     if min_count m \<le> cnt then Some (tok, cnt) else None
   }"

fun observe_many :: "ngram_cache \<Rightarrow> token list \<Rightarrow> ngram_cache" where
  "observe_many m (a # b # c # rest) = observe_many (cache_observe m a b c) (b # c # rest)"
| "observe_many m _ = m"

section \<open>Prompt lookup\<close>

record pld_matcher =
  ngram_lens :: "nat list"
  max_extract :: nat
  min_extract :: nat

definition pld_default :: pld_matcher where
  "pld_default = \<lparr>ngram_lens = [5, 4, 3], max_extract = 8, min_extract = 3\<rparr>"

record pld_match =
  pld_tokens :: "token list"
  pld_n :: nat
  consensus :: nat

text \<open>The search for the last occurrence, from index \<open>i - 1\<close> down to 0.\<close>

fun last_match :: "token list \<Rightarrow> token list \<Rightarrow> nat \<Rightarrow> nat option" where
  "last_match haystack suffix 0 = None"
| "last_match haystack suffix (Suc i) =
     (if take (length suffix) (drop i haystack) = suffix then Some i else last_match haystack suffix i)"

definition pld_try :: "pld_matcher \<Rightarrow> token list \<Rightarrow> nat \<Rightarrow> token list option" where
  "pld_try m ctx n =
     (if length ctx \<le> n then None
      else
        let suffix_start = length ctx - n;
            suffix = drop suffix_start ctx;
            haystack = take suffix_start ctx
        in if length haystack < n then None
           else case last_match haystack suffix (Suc (length haystack - n)) of
                  None \<Rightarrow> None
                | Some start \<Rightarrow>
                    let cont_start = start + n; cont_end = min (cont_start + max_extract m) suffix_start
                    in if cont_end \<le> cont_start then None
                       else
                         let spine = take (cont_end - cont_start) (drop cont_start ctx)
                         in if length spine < min_extract m then None else Some spine)"

fun pld_loop ::
  "pld_matcher \<Rightarrow> token list \<Rightarrow> nat list \<Rightarrow> token list \<Rightarrow> (nat \<times> token list) option \<Rightarrow> token list \<times> (nat \<times> token list) option" where
  "pld_loop m ctx [] firsts best = (firsts, best)"
| "pld_loop m ctx (n # ns) firsts best =
     (case pld_try m ctx n of
        None \<Rightarrow> pld_loop m ctx ns firsts best
      | Some spine \<Rightarrow>
          pld_loop m ctx ns (firsts @ [hd spine]) (if best = None then Some (n, spine) else best))"

definition pld_lookup :: "pld_matcher \<Rightarrow> token list \<Rightarrow> pld_match option" where
  "pld_lookup m ctx =
     (if ngram_lens m = [] then None
      else do {
        let (firsts, best) = pld_loop m ctx (ngram_lens m) [] None;
        (n, tokens) \<leftarrow> best;
        Some \<lparr>pld_tokens = tokens, pld_n = n, consensus = length (filter (\<lambda>t. t = hd tokens) firsts)\<rparr>
      })"

section \<open>The drafter\<close>

record ngram_drafter =
  ngram :: ngram_cache
  pld :: pld_matcher
  d_prompt :: "token list"

definition drafter_new :: "nat \<Rightarrow> nat \<Rightarrow> ngram_drafter" where
  "drafter_new mc block_size =
     (let bs = max block_size 2
      in \<lparr>ngram = cache_new mc, pld = \<lparr>ngram_lens = [5, 4, 3], max_extract = bs - 1, min_extract = 1\<rparr>, d_prompt = []\<rparr>)"

definition prefill_seed :: "ngram_drafter \<Rightarrow> token list \<Rightarrow> ngram_drafter" where
  "prefill_seed d prompt_tokens = d\<lparr>d_prompt := prompt_tokens, ngram := observe_many (ngram d) prompt_tokens\<rparr>"

text \<open>The bigram chain; the first argument is the number of tokens that may still be pushed.\<close>

fun bigram_chain :: "nat \<Rightarrow> hist_order \<Rightarrow> ngram_cache \<Rightarrow> token \<Rightarrow> token \<Rightarrow> token list" where
  "bigram_chain 0 order m a b = []"
| "bigram_chain (Suc k) order m a b =
     (case cache_predict order m a b of None \<Rightarrow> [] | Some (c, _) \<Rightarrow> c # bigram_chain k order m b c)"

definition propose :: "hist_order \<Rightarrow> ngram_drafter \<Rightarrow> token list \<Rightarrow> token \<Rightarrow> nat \<Rightarrow> ngram_drafter \<times> token list" where
  "propose order d emitted seed max_draft =
     (let ctx = d_prompt d @ emitted;
          copied = (case pld_lookup (pld d) ctx of None \<Rightarrow> [] | Some m \<Rightarrow> take max_draft (pld_tokens m))
      in if copied \<noteq> [] then (d, copied)
         else if 2 \<le> length ctx
         then (d, bigram_chain max_draft order (ngram d) (ctx ! (length ctx - 2)) (ctx ! (length ctx - 1)))
         else (d, []))"

definition drafter_observe :: "ngram_drafter \<Rightarrow> token list \<Rightarrow> token list \<Rightarrow> ngram_drafter" where
  "drafter_observe d emitted committed =
     (let plen = length (d_prompt d); total = plen + length emitted;
          window = map (\<lambda>i. if i < plen then d_prompt d ! i else emitted ! (i - plen)) [total - 2..<total] @ committed
      in d\<lparr>ngram := observe_many (ngram d) window\<rparr>)"

definition drafter_reset :: "ngram_drafter \<Rightarrow> ngram_drafter" where
  "drafter_reset d = d\<lparr>ngram := cache_new (min_count (ngram d)), d_prompt := []\<rparr>"

section \<open>The drafter's contract\<close>

locale block_drafter =
  fixes propose_block :: "'d \<Rightarrow> token list \<Rightarrow> token \<Rightarrow> nat \<Rightarrow> 'd \<times> token list"
  assumes propose_bound: "propose_block d emitted seed k = (d', draft) \<Longrightarrow> length draft \<le> k"

lemma length_bigram_chain: "length (bigram_chain k order m a b) \<le> k"
  by (induction k arbitrary: a b) (auto split: option.split)

lemma propose_length: "propose order d emitted seed k = (d', draft) \<Longrightarrow> length draft \<le> k"
  using length_bigram_chain by (auto simp: propose_def Let_def split: if_splits option.splits)

interpretation ngram_draft: block_drafter "propose order" for order
  by unfold_locales (rule propose_length)

text \<open>The window the drafter learns from: the last two tokens of the context and the committed ones.\<close>

lemma observe_window:
  "drafter_observe d emitted committed =
   d\<lparr>ngram := observe_many (ngram d) (drop (length (d_prompt d @ emitted) - 2) (d_prompt d @ emitted) @ committed)\<rparr>"
proof -
  let ?xs = "d_prompt d @ emitted"
  have "map (\<lambda>i. ?xs ! i) [length ?xs - 2..<length ?xs] = drop (length ?xs - 2) ?xs"
    by (rule nth_equalityI) (simp_all del: drop_append)
  then show ?thesis by (simp add: drafter_observe_def Let_def nth_append)
qed

section \<open>What prompt lookup finds\<close>

lemma last_match_Some:
  "last_match hay suf k = Some i \<Longrightarrow>
   i < k \<and> take (length suf) (drop i hay) = suf \<and> (\<forall>j. i < j \<and> j < k \<longrightarrow> take (length suf) (drop j hay) \<noteq> suf)"
  by (induction k) (auto split: if_splits simp: less_Suc_eq)

definition occurs_last :: "nat \<Rightarrow> nat \<Rightarrow> token list \<Rightarrow> bool" where
  "occurs_last start n ctx \<longleftrightarrow>
     start + n \<le> length ctx - n \<and> take n (drop start ctx) = drop (length ctx - n) ctx \<and>
     (\<forall>j. start < j \<and> j + n \<le> length ctx - n \<longrightarrow> take n (drop j ctx) \<noteq> drop (length ctx - n) ctx)"

lemma pld_try_Some:
  assumes "pld_try m ctx n = Some spine"
  shows "\<exists>start. n < length ctx \<and> occurs_last start n ctx \<and>
           spine = take (min (max_extract m) (length ctx - n - (start + n))) (drop (start + n) ctx) \<and>
           spine \<noteq> [] \<and> min_extract m \<le> length spine \<and> length spine \<le> max_extract m"
proof -
  let ?s = "length ctx - n"
  from assms have n: "n < length ctx" and fits: "n \<le> ?s"
    by (auto simp: pld_try_def Let_def split: if_splits)
  from assms n fits obtain start where found: "last_match (take ?s ctx) (drop ?s ctx) (Suc (?s - n)) = Some start"
    and cont: "\<not> min (start + n + max_extract m) ?s \<le> start + n"
    and spine: "spine = take (min (start + n + max_extract m) ?s - (start + n)) (drop (start + n) ctx)"
    and long: "min_extract m \<le> length spine"
    by (auto simp: pld_try_def Let_def simp del: last_match.simps split: if_splits option.splits)
  have here: "take n (drop j (take ?s ctx)) = take n (drop j ctx)" if "j + n \<le> ?s" for j
    using that by (simp add: drop_take min_def)
  note lm = last_match_Some [OF found]
  have "occurs_last start n ctx"
    using lm n fits here unfolding occurs_last_def by auto
  moreover have "min (start + n + max_extract m) ?s - (start + n) = min (max_extract m) (?s - (start + n))" by simp
  ultimately show ?thesis using n cont spine long by (intro exI [of _ start]) (auto simp: not_le)
qed

lemma pld_loop_best:
  "pld_loop m ctx ns firsts None = (fs, Some (n, spine)) \<Longrightarrow>
   \<exists>before rest. ns = before @ n # rest \<and> pld_try m ctx n = Some spine \<and> (\<forall>k\<in>set before. pld_try m ctx k = None)"
proof (induction ns arbitrary: firsts)
  case Nil
  then show ?case by simp
next
  case (Cons k ns)
  have kept: "snd (pld_loop m ctx ns fs' (Some b)) = Some b" for fs' b
    by (induction ns arbitrary: fs') (auto split: option.split)
  show ?case
  proof (cases "pld_try m ctx k")
    case None
    then have "pld_loop m ctx ns firsts None = (fs, Some (n, spine))" using Cons.prems by simp
    from Cons.IH [OF this] obtain before rest where "ns = before @ n # rest" "pld_try m ctx n = Some spine"
      "\<forall>k\<in>set before. pld_try m ctx k = None" by blast
    then show ?thesis using None by (intro exI [of _ "k # before"] exI [of _ rest]) simp
  next
    case (Some sp)
    then have "pld_loop m ctx ns (firsts @ [hd sp]) (Some (k, sp)) = (fs, Some (n, spine))"
      using Cons.prems by simp
    then have "n = k" "spine = sp" using kept [of "firsts @ [hd sp]" "(k, sp)"] by auto
    then show ?thesis using Some by (intro exI [of _ "[]"] exI [of _ ns]) auto
  qed
qed

text \<open>
  Prompt lookup returns a true copy of the context: the tokens that follow the most recent
  earlier occurrence of the context's last n tokens, where n is the first suffix length of the list that
  gives a usable continuation; the copy stops before that suffix and keeps the configured length limits.
\<close>

theorem pld_lookup_exact:
  assumes "pld_lookup m ctx = Some r"
  shows "\<exists>start before rest.
           ngram_lens m = before @ pld_n r # rest \<and> (\<forall>k\<in>set before. pld_try m ctx k = None) \<and>
           occurs_last start (pld_n r) ctx \<and>
           pld_tokens r = take (min (max_extract m) (length ctx - pld_n r - (start + pld_n r))) (drop (start + pld_n r) ctx) \<and>
           pld_tokens r \<noteq> [] \<and> min_extract m \<le> length (pld_tokens r) \<and> length (pld_tokens r) \<le> max_extract m"
proof -
  obtain fs where loop: "pld_loop m ctx (ngram_lens m) [] None = (fs, Some (pld_n r, pld_tokens r))"
    using assms by (auto simp: pld_lookup_def Let_def split: if_splits prod.splits Option.bind_splits)
  from pld_loop_best [OF loop] obtain before rest where
    ns: "ngram_lens m = before @ pld_n r # rest" "\<forall>k\<in>set before. pld_try m ctx k = None"
    and hit: "pld_try m ctx (pld_n r) = Some (pld_tokens r)" by blast
  from pld_try_Some [OF hit] ns show ?thesis by blast
qed

definition demo_ctx :: "token list" where
  "demo_ctx = [1, 2, 3, 7, 8, 9, 1, 2, 3]"

theorem pld_lookup_exact_witness:
  "\<exists>r. pld_lookup pld_default demo_ctx = Some r \<and> pld_tokens r = [7, 8, 9] \<and> pld_n r = 3 \<and> occurs_last 0 3 demo_ctx"
proof -
  have r: "pld_lookup pld_default demo_ctx = Some \<lparr>pld_tokens = [7, 8, 9], pld_n = 3, consensus = 1\<rparr>"
    by code_simp
  from pld_lookup_exact [OF r] obtain start where at: "occurs_last start 3 demo_ctx"
    and copy: "[7, 8, 9] = take (min 8 (length demo_ctx - 3 - (start + 3))) (drop (start + 3) demo_ctx)"
    by (auto simp: pld_default_def)
  have "start \<le> 3" using at by (simp add: occurs_last_def demo_ctx_def)
  moreover have "3 \<le> length (drop (start + 3) demo_ctx)" "3 \<le> 6 - (start + 3)"
    using arg_cong [OF copy, of length] by (auto simp: demo_ctx_def)
  ultimately have "start = 0" by simp
  then show ?thesis using r at by simp
qed

end
