(* ===== verification/Spec_Decode.thy ===== *)
theory Spec_Decode
  imports Spec_Target Spec_Draft Prefix_Plan "HOL-Library.Sublist"
begin

text \<open>
  The speculative decode window: \<^verbatim>\<open>accept_greedy_prefix\<close>, \<^verbatim>\<open>SpecStep\<close> and the MTP adapter of
  \<^verbatim>\<open>hipfire-runtime/src/spec.rs\<close>, and the chain speculator of \<^verbatim>\<open>hipfire-runtime/src/spec_ngram.rs\<close>. The chain
  speculator is written over the operations of the traits \<^verbatim>\<open>SpecTarget\<close> and \<^verbatim>\<open>BlockDrafter\<close>; its
  correctness is proved once over their contracts (locale \<open>chain_contract\<close>) and holds for the
  implementations by interpretation. Sampling parameters have an opaque type; \<open>hot\<close> is the test of the
  temperature and \<open>nucleus\<close> the host sampler.
\<close>

section \<open>Steps and the accept rule\<close>

record spec_step =
  emit :: "token list"
  next_seed :: token
  proposed :: nat
  step_accepted :: nat

definition spec_step_new :: "token list \<Rightarrow> token \<Rightarrow> nat \<Rightarrow> nat \<Rightarrow> spec_step" where
  "spec_step_new em ns prop acc = \<lparr>emit = em, next_seed = ns, proposed = prop, step_accepted = acc\<rparr>"

definition cap_emit :: "spec_step \<Rightarrow> nat \<Rightarrow> spec_step" where
  "cap_emit st max_emit =
     (if max_emit = 0 then st\<lparr>emit := [], step_accepted := 0\<rparr>
      else if length (emit st) \<le> max_emit then st
      else
        let st1 = st\<lparr>emit := take max_emit (emit st), step_accepted := min (step_accepted st) (max_emit - 1)\<rparr>
        in if emit st1 = [] then st1 else st1\<lparr>next_seed := last (emit st1)\<rparr>)"

record greedy_accept =
  committed :: "token list"
  accepted :: nat
  hit_eos :: bool

text \<open>The loop over the drafts; the loop index and the count of accepted drafts agree. \<open>None\<close> is an index out of range.\<close>

fun accept_loop :: "token list \<Rightarrow> token list \<Rightarrow> token option \<Rightarrow> nat \<Rightarrow> token list \<Rightarrow> (token list \<times> nat \<times> bool) option" where
  "accept_loop [] target_pick eos acc com = Some (com, acc, False)"
| "accept_loop (d # ds) target_pick eos acc com = do {
     p \<leftarrow> list_get target_pick acc;
     if p = d
     then (if eos = Some d then Some (com @ [d], acc + 1, True) else accept_loop ds target_pick eos (acc + 1) (com @ [d]))
     else Some (com, acc, False)
   }"

definition accept_greedy_prefix :: "token list \<Rightarrow> token list \<Rightarrow> token option \<Rightarrow> greedy_accept option" where
  "accept_greedy_prefix drafts target_pick eos = do {
     (com, acc, hit) \<leftarrow> accept_loop drafts target_pick eos 0 [];
     if \<not> hit
     then do {
       bonus \<leftarrow> list_get target_pick acc;
       Some \<lparr>committed = com @ [bonus], accepted = acc, hit_eos = (eos = Some bonus)\<rparr>
     }
     else Some \<lparr>committed = com, accepted = acc, hit_eos = True\<rparr>
   }"

section \<open>The chain speculator\<close>

record ('d, 'c, 'f) chain_spec =
  drafter :: 'd
  block_size :: nat
  ctx_capacity :: nat
  scratch :: "'c option"
  samples :: bool
  sample_temp :: 'f
  sample_top_p :: 'f
  sample_top_k :: nat
  rng_state :: "64 word"

definition chain_new :: "'f \<Rightarrow> 'f \<Rightarrow> 'd \<Rightarrow> nat \<Rightarrow> nat \<Rightarrow> bool \<Rightarrow> ('d, 'c, 'f) chain_spec" where
  "chain_new zero one d bs cap smp =
     \<lparr>drafter = d, block_size = max bs 2, ctx_capacity = cap, scratch = None, samples = smp, sample_temp = zero,
      sample_top_p = one, sample_top_k = 0, rng_state = 0x13579BDF\<rparr>"

definition set_sampling :: "('d, 'c, 'f) chain_spec \<Rightarrow> 'f \<Rightarrow> 'f \<Rightarrow> nat \<Rightarrow> ('d, 'c, 'f) chain_spec" where
  "set_sampling ch temp top_p top_k =
     ch\<lparr>sample_temp := temp, sample_top_p := top_p, sample_top_k := top_k, rng_state := 0x13579BDF\<rparr>"

definition requires_greedy :: "('d, 'c, 'f) chain_spec \<Rightarrow> bool" where
  "requires_greedy ch \<longleftrightarrow> \<not> samples ch"

definition chain_reset :: "('d \<Rightarrow> 'd) \<Rightarrow> ('d, 'c, 'f) chain_spec \<Rightarrow> ('d, 'c, 'f) chain_spec" where
  "chain_reset reset_drafter ch = ch\<lparr>drafter := reset_drafter (drafter ch)\<rparr>"

datatype prefill_outcome = PrefillReady token | PrefillAborted

definition chain_prefill ::
  "('f \<Rightarrow> bool) \<Rightarrow> ('l \<Rightarrow> 'f \<Rightarrow> 'f \<Rightarrow> nat \<Rightarrow> 64 word \<Rightarrow> 64 word \<times> token) \<Rightarrow>
   ('s \<Rightarrow> nat \<Rightarrow> 's \<times> (spec_error + 'c)) \<Rightarrow>
   ('s \<Rightarrow> token list \<Rightarrow> nat \<Rightarrow> bool \<Rightarrow> bool list \<Rightarrow> 's \<times> (spec_error + 'l spec_advance)) \<Rightarrow>
   ('d \<Rightarrow> token list \<Rightarrow> 'd) \<Rightarrow>
   ('d, 'c, 'f) chain_spec \<Rightarrow> 's \<Rightarrow> token list \<Rightarrow> token list \<Rightarrow> nat \<Rightarrow> bool \<Rightarrow> bool list \<Rightarrow>
   ('d, 'c, 'f) chain_spec \<times> 's \<times> (spec_error + prefill_outcome)" where
  "chain_prefill hot nucleus new_scratch advance seed_drafter ch s prompt_tokens prefill_tokens prefill_start hit aborts =
     (case (case scratch ch of
              Some _ \<Rightarrow> (ch, s, Inr ())
            | None \<Rightarrow> (case new_scratch s (block_size ch) of
                        (s0, Inl e) \<Rightarrow> (ch, s0, Inl e)
                      | (s0, Inr c) \<Rightarrow> (ch\<lparr>scratch := Some c\<rparr>, s0, Inr ()))) of
        (ch0, s0, Inl e) \<Rightarrow> (ch0, s0, Inl e)
      | (ch0, s0, Inr _) \<Rightarrow>
          let start = (if hit then prefill_start else 0)
          in (case advance s0 prefill_tokens start (\<not> hit) aborts of
                (s1, Inl e) \<Rightarrow> (ch0, s1, Inl e)
              | (s1, Inr Aborted) \<Rightarrow> (ch0, s1, Inr PrefillAborted)
              | (s1, Inr (Ready last_argmax last_logits)) \<Rightarrow>
                  let r = (if \<not> (samples ch0 \<and> hot (sample_temp ch0)) then Inr (rng_state ch0, last_argmax)
                           else case last_logits of
                                  None \<Rightarrow> Inl NoLastLogits
                                | Some row \<Rightarrow>
                                    Inr (nucleus row (sample_temp ch0) (sample_top_p ch0) (sample_top_k ch0) (rng_state ch0)))
                  in (case r of
                        Inl e \<Rightarrow> (ch0, s1, Inl e)
                      | Inr (rng, first_token) \<Rightarrow>
                          (ch0\<lparr>rng_state := rng, drafter := seed_drafter (drafter ch0) prompt_tokens\<rparr>, s1,
                           Inr (PrefillReady first_token)))))"

definition chain_step ::
  "('f \<Rightarrow> bool) \<Rightarrow>
   ('s \<Rightarrow> 'c \<Rightarrow> token list \<Rightarrow> nat \<Rightarrow> ('s \<times> 'c \<times> (spec_error + token list)) option) \<Rightarrow>
   ('s \<Rightarrow> 'c \<Rightarrow> token list \<Rightarrow> nat \<Rightarrow> 'f \<Rightarrow> 'f \<Rightarrow> nat \<Rightarrow> 64 word \<Rightarrow> ('s \<times> 'c \<times> 64 word \<times> (spec_error + token list)) option) \<Rightarrow>
   ('s \<Rightarrow> 'c \<Rightarrow> token list \<Rightarrow> nat \<Rightarrow> nat \<Rightarrow> 's \<times> 'c \<times> (spec_error + unit)) \<Rightarrow>
   ('d \<Rightarrow> token list \<Rightarrow> token \<Rightarrow> nat \<Rightarrow> 'd \<times> token list) \<Rightarrow> ('d \<Rightarrow> token list \<Rightarrow> token list \<Rightarrow> 'd) \<Rightarrow>
   ('d, 'c, 'f) chain_spec \<Rightarrow> 's \<Rightarrow> nat \<Rightarrow> token \<Rightarrow> token list \<Rightarrow> nat \<Rightarrow>
   (('d, 'c, 'f) chain_spec \<times> 's \<times> (spec_error + spec_step)) option" where
  "chain_step hot verify verify_sampled commit propose_block observe_block ch s pos seed emitted max_emit =
     (if max_emit = 0 then Some (ch, s, Inl NoBudget)
      else
        let draft_n = min (max_emit - 1) (block_size ch - 1);
            (d1, draft) = propose_block (drafter ch) emitted seed draft_n;
            ch1 = ch\<lparr>drafter := d1\<rparr>;
            block = seed # draft;
            sampled = (samples ch1 \<and> hot (sample_temp ch1))
        in (case scratch ch1 of
              None \<Rightarrow> Some (ch1, s, Inl StepBeforePrefill)
            | Some c \<Rightarrow> do {
                (s1, c1, rng1, r) \<leftarrow>
                  (if sampled
                   then verify_sampled s c block pos (sample_temp ch1) (sample_top_p ch1) (sample_top_k ch1) (rng_state ch1)
                   else map_option (\<lambda>(s', c', r). (s', c', rng_state ch1, r)) (verify s c block pos));
                let ch2 = ch1\<lparr>scratch := Some c1\<rparr>;
                case r of
                  Inl e \<Rightarrow> Some (ch2, s1, Inl e)
                | Inr picks \<Rightarrow> do {
                    acc0 \<leftarrow> accept_greedy_prefix draft picks None;
                    let acc = (if max_emit < length (committed acc0)
                               then let keep = max max_emit 1
                                    in acc0\<lparr>accepted := min (keep - 1) (accepted acc0), committed := take keep (committed acc0)\<rparr>
                               else acc0);
                    if committed acc = [] then None
                    else
                      let bonus = last (committed acc);
                          (s2, c2, r2) = commit s1 c1 block (accepted acc) pos;
                          ch3 = ch2\<lparr>scratch := Some c2\<rparr>
                      in (case r2 of
                            Inl e \<Rightarrow> Some (ch3, s2, Inl e)
                          | Inr _ \<Rightarrow>
                              Some (ch3\<lparr>rng_state := rng1, drafter := observe_block d1 emitted (committed acc)\<rparr>, s2,
                                    Inr (cap_emit (spec_step_new (committed acc) bonus (length draft) (accepted acc)) max_emit)))
                  }
              }))"

section \<open>The MTP adapter\<close>

record mtp_window =
  w_committed :: "token list"
  w_accepted :: nat
  drafts_generated :: nat

record ('a, 'f) mtp_speculator =
  arch :: 'a
  m_top_p :: 'f
  m_top_k :: nat
  cactus :: 'f

definition mtp_new :: "'f \<Rightarrow> 'f \<Rightarrow> 'a \<Rightarrow> ('a, 'f) mtp_speculator" where
  "mtp_new zero one a = \<lparr>arch = a, m_top_p = one, m_top_k = 0, cactus = zero\<rparr>"

definition lower_mtp_window :: "mtp_window \<Rightarrow> spec_error + spec_step" where
  "lower_mtp_window w =
     (if w_committed w = [] then Inl EmptyWindow
      else Inr (spec_step_new (w_committed w) (last (w_committed w)) (drafts_generated w) (w_accepted w)))"

definition mtp_draft_k :: "nat \<Rightarrow> nat \<Rightarrow> nat" where
  "mtp_draft_k arch_k max_emit = min (max_emit - 1) arch_k"

definition mtp_prefill ::
  "('a \<Rightarrow> 's \<Rightarrow> token list \<Rightarrow> nat \<Rightarrow> bool \<Rightarrow> 'a \<times> 's \<times> (spec_error + token)) \<Rightarrow>
   ('a, 'f) mtp_speculator \<Rightarrow> 's \<Rightarrow> token list \<Rightarrow> token list \<Rightarrow> nat \<Rightarrow> bool \<Rightarrow>
   ('a, 'f) mtp_speculator \<times> 's \<times> (spec_error + prefill_outcome)" where
  "mtp_prefill arch_prefill sp s prompt_tokens prefill_tokens prefill_start hit =
     (let (fill_tokens, start_pos) = (if hit then (prefill_tokens, prefill_start) else (prompt_tokens, 0));
          (a, s1, r) = arch_prefill (arch sp) s fill_tokens start_pos hit
      in (sp\<lparr>arch := a\<rparr>, s1, (case r of Inl e \<Rightarrow> Inl e | Inr tok \<Rightarrow> Inr (PrefillReady tok))))"

definition mtp_step ::
  "('a \<Rightarrow> nat) \<Rightarrow> ('a \<Rightarrow> 'f \<Rightarrow> 'f \<Rightarrow> nat \<Rightarrow> 'f \<Rightarrow> 'a) \<Rightarrow> ('s \<Rightarrow> token) \<Rightarrow>
   ('a \<Rightarrow> 's \<Rightarrow> nat \<Rightarrow> token \<Rightarrow> nat \<Rightarrow> token \<Rightarrow> 'a \<times> 's \<times> (spec_error + mtp_window)) \<Rightarrow>
   ('a, 'f) mtp_speculator \<Rightarrow> 's \<Rightarrow> nat \<Rightarrow> token \<Rightarrow> 'f \<Rightarrow> nat \<Rightarrow>
   ('a, 'f) mtp_speculator \<times> 's \<times> (spec_error + spec_step)" where
  "mtp_step arch_k arch_sampling eos_token arch_step sp s pos seed temp max_emit =
     (if max_emit = 0 then (sp, s, Inl NoBudget)
      else
        let k = mtp_draft_k (arch_k (arch sp)) max_emit;
            eos = eos_token s;
            a0 = arch_sampling (arch sp) temp (m_top_p sp) (m_top_k sp) (cactus sp);
            (a1, s1, r) = arch_step a0 s pos seed k eos;
            sp1 = sp\<lparr>arch := a1\<rparr>
        in (case r of
              Inl e \<Rightarrow> (sp1, s1, Inl e)
            | Inr w \<Rightarrow> (case lower_mtp_window w of
                           Inl e \<Rightarrow> (sp1, s1, Inl e)
                         | Inr st \<Rightarrow> (sp1, s1, Inr (cap_emit st max_emit)))))"

definition mtp_set_sampling :: "('a, 'f) mtp_speculator \<Rightarrow> 'f \<Rightarrow> nat \<Rightarrow> 'f \<Rightarrow> ('a, 'f) mtp_speculator" where
  "mtp_set_sampling sp top_p top_k cactus_delta = sp\<lparr>m_top_p := top_p, m_top_k := top_k, cactus := cactus_delta\<rparr>"

section \<open>The accept rule\<close>

definition eos_at :: "token option \<Rightarrow> token list \<Rightarrow> nat option" where
  "eos_at eos ts = (case eos of None \<Rightarrow> None | Some e \<Rightarrow> position (\<lambda>t. t = e) ts)"

lemma eos_at_Nil [simp]: "eos_at eos [] = None"
  by (simp add: eos_at_def split: option.split)

lemma eos_at_Cons: "eos_at eos (t # ts) = (if eos = Some t then Some 0 else map_option Suc (eos_at eos ts))"
  by (auto simp: eos_at_def split: option.split)

lemma accept_loop_eq:
  assumes "acc + length ds \<le> length picks"
  shows "accept_loop ds picks eos acc com =
         (let a = lcp ds (drop acc picks)
          in case eos_at eos (take a ds) of
               Some j \<Rightarrow> Some (com @ take (Suc j) ds, acc + Suc j, True)
             | None \<Rightarrow> Some (com @ take a ds, acc + a, False))"
  using assms
proof (induction ds arbitrary: acc com)
  case Nil
  then show ?case by (simp add: Let_def)
next
  case (Cons d ds)
  then have acc: "acc < length picks" by simp
  have drop: "drop acc picks = picks ! acc # drop (Suc acc) picks" using acc by (simp add: Cons_nth_drop_Suc)
  show ?case
  proof (cases "picks ! acc = d")
    case False
    then show ?thesis using acc drop by (simp add: lcp_Cons Let_def)
  next
    case True
    show ?thesis
    proof (cases "eos = Some d")
      case hit: True
      then show ?thesis using True acc drop by (simp add: lcp_Cons Let_def eos_at_Cons)
    next
      case False
      have "accept_loop ds picks eos (Suc acc) (com @ [d]) =
            (let a = lcp ds (drop (Suc acc) picks)
             in case eos_at eos (take a ds) of
                  Some j \<Rightarrow> Some ((com @ [d]) @ take (Suc j) ds, Suc acc + Suc j, True)
                | None \<Rightarrow> Some ((com @ [d]) @ take a ds, Suc acc + a, False))"
        using Cons by simp
      then show ?thesis
        using True False acc drop by (simp add: lcp_Cons Let_def eos_at_Cons split: option.split)
    qed
  qed
qed

lemma accept_greedy_eq:
  assumes "length drafts < length picks"
  shows "accept_greedy_prefix drafts picks eos =
         Some (let a = lcp drafts picks
               in case eos_at eos (take a drafts) of
                    Some j \<Rightarrow> \<lparr>committed = take (Suc j) picks, accepted = Suc j, hit_eos = True\<rparr>
                  | None \<Rightarrow> \<lparr>committed = take (Suc a) picks, accepted = a, hit_eos = (eos = Some (picks ! a))\<rparr>)"
proof -
  let ?a = "lcp drafts picks"
  have a: "?a \<le> length drafts" "take ?a drafts = take ?a picks"
    using lcp_bounds [of drafts picks] lcp_take [of drafts picks] by auto
  have same: "take (Suc j) drafts = take (Suc j) picks" if "eos_at eos (take ?a drafts) = Some j" for j
  proof -
    have "Suc j \<le> ?a" using that a by (auto simp: eos_at_def position_Some_iff split: option.splits)
    then show ?thesis using arg_cong [OF a(2), of "take (Suc j)"] by (simp add: min_def)
  qed
  have "list_get picks ?a = Some (picks ! ?a)" using a assms by simp
  moreover have "take ?a picks @ [picks ! ?a] = take (Suc ?a) picks" using a assms by (simp add: take_Suc_conv_app_nth)
  ultimately show ?thesis
    using accept_loop_eq [of 0 drafts picks eos "[]"] assms a same
    by (auto simp: accept_greedy_prefix_def Let_def split: option.splits)
qed

text \<open>
  The accept rule, with and without an end-of-sequence token: with one more pick than drafts it
  never panics; the committed tokens are always a prefix of the verifier's own picks, as long as the
  longest common prefix with the drafts plus one bonus token, or up to the first accepted end of sequence
  without a bonus.
\<close>

theorem accept_greedy_exact:
  assumes "length drafts < length picks"
  shows "accept_greedy_prefix drafts picks eos =
         Some (let a = lcp drafts picks
               in case eos_at eos (take a drafts) of
                    Some j \<Rightarrow> \<lparr>committed = take (Suc j) picks, accepted = Suc j, hit_eos = True\<rparr>
                  | None \<Rightarrow> \<lparr>committed = take (Suc a) picks, accepted = a, hit_eos = (eos = Some (picks ! a))\<rparr>)"
  by (rule accept_greedy_eq [OF assms])

theorem accept_greedy_exact_witness:
  "accept_greedy_prefix [5, 6, 7] [5, 6, 9, 9] (Some 6) = Some \<lparr>committed = [5, 6], accepted = 2, hit_eos = True\<rparr> \<and>
   accept_greedy_prefix [5, 6, 7] [5, 6, 9, 9] None = Some \<lparr>committed = [5, 6, 9], accepted = 2, hit_eos = False\<rparr>"
  using accept_greedy_exact [of "[5, 6, 7]" "[5, 6, 9, 9]" "Some 6"] accept_greedy_exact [of "[5, 6, 7]" "[5, 6, 9, 9]" None]
  by (simp add: lcp_def eos_at_def)

section \<open>Greedy decoding, the reference\<close>

text \<open>The tokens a model emits one at a time after the context \<open>hist\<close>.\<close>

fun greedy_tokens :: "(token list \<Rightarrow> token) \<Rightarrow> token list \<Rightarrow> nat \<Rightarrow> token list" where
  "greedy_tokens pick hist 0 = []"
| "greedy_tokens pick hist (Suc n) = pick hist # greedy_tokens pick (hist @ [pick hist]) n"

lemma length_greedy_tokens [simp]: "length (greedy_tokens pick hist n) = n"
  by (induction n arbitrary: hist) auto

lemma greedy_tokens_Nil [simp]: "greedy_tokens pick hist n = [] \<longleftrightarrow> n = 0"
  by (cases n) auto

lemma greedy_tokens_add:
  "greedy_tokens pick hist (m + n) = greedy_tokens pick hist m @ greedy_tokens pick (hist @ greedy_tokens pick hist m) n"
  by (induction m arbitrary: hist) auto

lemma greedy_tokens_nth: "i < n \<Longrightarrow> greedy_tokens pick hist n ! i = pick (hist @ greedy_tokens pick hist i)"
proof (induction n arbitrary: hist i)
  case (Suc n)
  then show ?case by (cases i) auto
qed simp

lemma take_greedy_tokens: "m \<le> n \<Longrightarrow> take m (greedy_tokens pick hist n) = greedy_tokens pick hist m"
  using greedy_tokens_add [of pick hist m "n - m"] by simp

text \<open>
  Where the verifier's picks are the model's tokens after each prefix of the block, the picks up to
  the first disagreement with the draft, that one included, are greedy decoding.
\<close>

lemma agreed_picks_greedy:
  assumes "\<forall>i<Suc (length draft). picks ! i = pick (hist @ take i draft)" and "length picks = Suc (length draft)"
    and "n \<le> Suc (lcp draft picks)"
  shows "take n picks = greedy_tokens pick hist n"
proof -
  have a: "lcp draft picks \<le> length draft" "take (lcp draft picks) draft = take (lcp draft picks) picks"
    using lcp_bounds [of draft picks] lcp_take [of draft picks] by auto
  have agree: "take k draft = take k picks" if "k \<le> lcp draft picks" for k
    using arg_cong [OF a(2), of "take k"] that by (simp add: min_def)
  show ?thesis using assms(3)
  proof (induction n)
    case (Suc n)
    then have n: "n \<le> lcp draft picks" "n < length picks" using a(1) assms(2) by auto
    then have "take (Suc n) picks = greedy_tokens pick hist n @ [picks ! n]"
      using Suc by (simp add: take_Suc_conv_app_nth)
    moreover have "picks ! n = pick (hist @ greedy_tokens pick hist n)"
      using assms(1) agree [OF n(1)] Suc.IH n assms(2) by auto
    ultimately show ?case using greedy_tokens_add [of pick hist n 1] by simp
  qed simp
qed

section \<open>A window of the chain speculator\<close>

text \<open>What a window may use of the speculator: a scratch with room for a block, and greedy mode.\<close>

definition greedy_mode :: "('f \<Rightarrow> bool) \<Rightarrow> ('d, 'c, 'f) chain_spec \<Rightarrow> bool" where
  "greedy_mode hot ch \<longleftrightarrow> \<not> (samples ch \<and> hot (sample_temp ch))"

definition scratch_ready :: "('c \<Rightarrow> nat) \<Rightarrow> ('d, 'c, 'f) chain_spec \<Rightarrow> bool" where
  "scratch_ready room ch \<longleftrightarrow> 2 \<le> block_size ch \<and> (case scratch ch of None \<Rightarrow> False | Some c \<Rightarrow> block_size ch \<le> room c)"

definition kept_ready :: "('f \<Rightarrow> bool) \<Rightarrow> ('c \<Rightarrow> nat) \<Rightarrow> ('d, 'c, 'f) chain_spec \<Rightarrow> ('d, 'c, 'f) chain_spec \<Rightarrow> bool" where
  "kept_ready hot room ch ch' \<longleftrightarrow>
     greedy_mode hot ch' \<and> scratch_ready room ch' \<and> block_size ch' = block_size ch \<and> ctx_capacity ch' = ctx_capacity ch"

lemma cap_emit_within: "length (emit st) \<le> m \<Longrightarrow> 0 < m \<Longrightarrow> cap_emit st m = st"
  by (simp add: cap_emit_def)

locale chain_contract = block_drafter propose_block + spec_target verify commit advance holds healthy room pick
  for propose_block :: "'d \<Rightarrow> token list \<Rightarrow> token \<Rightarrow> nat \<Rightarrow> 'd \<times> token list"
    and verify :: "'s \<Rightarrow> 'c \<Rightarrow> token list \<Rightarrow> nat \<Rightarrow> ('s \<times> 'c \<times> (spec_error + token list)) option"
    and commit :: "'s \<Rightarrow> 'c \<Rightarrow> token list \<Rightarrow> nat \<Rightarrow> nat \<Rightarrow> 's \<times> 'c \<times> (spec_error + unit)"
    and advance :: "'s \<Rightarrow> token list \<Rightarrow> nat \<Rightarrow> bool \<Rightarrow> bool list \<Rightarrow> 's \<times> (spec_error + 'l spec_advance)"
    and holds healthy room pick
begin

text \<open>A block of the seed and at most \<open>max_emit - 1\<close> drafts, verified: what is committed and kept.\<close>

lemma verified_block:
  assumes "holds s hist" and "verify s c (seed # draft) (length hist) = Some (s1, c1, Inr picks)"
    and "length draft < max_emit"
  shows "\<exists>a\<le>length draft. accept_greedy_prefix draft picks None
           = Some \<lparr>committed = greedy_tokens pick (hist @ [seed]) (Suc a), accepted = a, hit_eos = False\<rparr> \<and>
         take (Suc a) (seed # draft) = seed # butlast (greedy_tokens pick (hist @ [seed]) (Suc a))"
proof -
  let ?a = "lcp draft picks" and ?h = "hist @ [seed]"
  from verify_picks [OF assms(1,2)] have picks: "length picks = Suc (length draft)"
    "\<forall>i<Suc (length draft). picks ! i = pick (?h @ take i draft)" by auto
  have a: "?a \<le> length draft" "take ?a draft = take ?a picks"
    using lcp_bounds [of draft picks] lcp_take [of draft picks] by auto
  note g = agreed_picks_greedy [OF picks(2,1)]
  have "accept_greedy_prefix draft picks None
        = Some \<lparr>committed = greedy_tokens pick ?h (Suc ?a), accepted = ?a, hit_eos = False\<rparr>"
    using accept_greedy_eq [of draft picks None] picks(1) g [of "Suc ?a"] by (simp add: eos_at_def Let_def)
  moreover have "butlast (greedy_tokens pick ?h (Suc ?a)) = greedy_tokens pick ?h ?a"
    using take_greedy_tokens [of ?a "Suc ?a" pick ?h] by (simp only: butlast_conv_take length_greedy_tokens) simp
  moreover have "take ?a draft = greedy_tokens pick ?h ?a" using a(2) g [of ?a] by simp
  ultimately show ?thesis using a(1) by (intro exI [of _ ?a]) simp
qed

text \<open>A greedy window after a successful verify: the commit decides.\<close>

lemma chain_step_verified:
  assumes "greedy_mode hot ch" and "scratch ch = Some c" and "0 < max_emit" and "holds s hist"
    and "propose_block (drafter ch) emitted seed (min (max_emit - 1) (block_size ch - 1)) = (d1, draft)"
    and "verify s c (seed # draft) (length hist) = Some (s1, c1, Inr picks)"
  shows "\<exists>a\<le>length draft. let out = greedy_tokens pick (hist @ [seed]) (Suc a) in
           take (Suc a) (seed # draft) = seed # butlast out \<and>
           chain_step hot verify verify_sampled commit propose_block observe_block ch s (length hist) seed emitted max_emit =
             (case commit s1 c1 (seed # draft) a (length hist) of
                (s2, c2, Inl e) \<Rightarrow> Some (ch\<lparr>drafter := d1, scratch := Some c2\<rparr>, s2, Inl e)
              | (s2, c2, Inr _) \<Rightarrow>
                  Some (ch\<lparr>drafter := observe_block d1 emitted out, scratch := Some c2\<rparr>, s2,
                        Inr (spec_step_new out (last out) (length draft) a)))"
proof -
  have len: "length draft < max_emit" using propose_bound [OF assms(5)] assms(3) by linarith
  from verified_block [OF assms(4,6) len] obtain a where a: "a \<le> length draft"
    and acc: "accept_greedy_prefix draft picks None
              = Some \<lparr>committed = greedy_tokens pick (hist @ [seed]) (Suc a), accepted = a, hit_eos = False\<rparr>"
    and kept: "take (Suc a) (seed # draft) = seed # butlast (greedy_tokens pick (hist @ [seed]) (Suc a))" by blast
  define out where "out = greedy_tokens pick (hist @ [seed]) (Suc a)"
  have out: "out \<noteq> []" "length out \<le> max_emit" "\<not> max_emit < length out"
    using a len by (auto simp: out_def)
  have mode: "\<not> (samples ch \<and> hot (sample_temp ch))" using assms(1) by (simp add: greedy_mode_def)
  note here = a kept [folded out_def] acc [folded out_def]
  show ?thesis
    unfolding Let_def
    using here(1,2) assms(2,3,5,6) out here(3) mode
    by (intro exI [of _ a])
       (auto simp: out_def [symmetric] chain_step_def Let_def spec_step_new_def cap_emit_within
             simp del: greedy_tokens.simps split: prod.splits sum.splits)
qed

abbreviation window :: "('f \<Rightarrow> bool) \<Rightarrow>
    ('s \<Rightarrow> 'c \<Rightarrow> token list \<Rightarrow> nat \<Rightarrow> 'f \<Rightarrow> 'f \<Rightarrow> nat \<Rightarrow> 64 word \<Rightarrow> ('s \<times> 'c \<times> 64 word \<times> (spec_error + token list)) option) \<Rightarrow>
    ('d \<Rightarrow> token list \<Rightarrow> token list \<Rightarrow> 'd) \<Rightarrow> ('d, 'c, 'f) chain_spec \<Rightarrow> 's \<Rightarrow> nat \<Rightarrow> token \<Rightarrow> token list \<Rightarrow> nat \<Rightarrow>
    (('d, 'c, 'f) chain_spec \<times> 's \<times> (spec_error + spec_step)) option" where
  "window hot verify_sampled observe_block \<equiv> chain_step hot verify verify_sampled commit propose_block observe_block"

lemma window_cases:
  assumes "greedy_mode hot ch" and "scratch_ready room ch" and "0 < max_emit" and "holds s hist"
  obtains c d1 draft s1 c1 r where "scratch ch = Some c" and "block_size ch \<le> room c" and "length draft < block_size ch"
    and "length draft < max_emit"
    and "propose_block (drafter ch) emitted seed (min (max_emit - 1) (block_size ch - 1)) = (d1, draft)"
    and "verify s c (seed # draft) (length hist) = Some (s1, c1, r)"
proof -
  obtain c where c: "scratch ch = Some c" "block_size ch \<le> room c" "2 \<le> block_size ch"
    using assms(2) by (auto simp: scratch_ready_def split: option.splits)
  obtain d1 draft where pr: "propose_block (drafter ch) emitted seed (min (max_emit - 1) (block_size ch - 1)) = (d1, draft)"
    by fastforce
  have len: "length draft < block_size ch" "length draft < max_emit"
    using propose_bound [OF pr] c(3) assms(3) by linarith+
  obtain s1 c1 r where "verify s c (seed # draft) (length hist) = Some (s1, c1, r)"
    using verify_total [of "seed # draft" c s "length hist"] len c by fastforce
  with that c len pr show ?thesis by blast
qed

text \<open>A window never panics; when it succeeds it emits greedy tokens and leaves the target after all but the last.\<close>

lemma window_greedy:
  assumes "greedy_mode hot ch" and "scratch_ready room ch" and "0 < max_emit" and "holds s hist"
  shows "\<exists>ch' s' r. window hot vs obs ch s (length hist) seed emitted max_emit = Some (ch', s', r) \<and> kept_ready hot room ch ch' \<and>
           (\<forall>st. r = Inr st \<longrightarrow>
              emit st \<noteq> [] \<and> length (emit st) \<le> max_emit \<and> length (emit st) \<le> block_size ch \<and>
              emit st = greedy_tokens pick (hist @ [seed]) (length (emit st)) \<and> next_seed st = last (emit st) \<and>
              holds s' (hist @ seed # butlast (emit st)))"
  using assms
proof (rule window_cases [where emitted = emitted and seed = seed])
  fix c d1 draft s1 c1 r
  assume c: "scratch ch = Some c" "block_size ch \<le> room c" and len: "length draft < block_size ch" "length draft < max_emit"
    and pr: "propose_block (drafter ch) emitted seed (min (max_emit - 1) (block_size ch - 1)) = (d1, draft)"
    and ver: "verify s c (seed # draft) (length hist) = Some (s1, c1, r)"
  have room1: "room c1 = room c" by (rule verify_room [OF ver])
  show ?thesis
  proof (cases r)
    case (Inl e)
    then show ?thesis
      using assms c pr ver room1
      by (auto simp: chain_step_def Let_def kept_ready_def greedy_mode_def scratch_ready_def)
  next
    case (Inr picks)
    from chain_step_verified [OF assms(1) c(1) assms(3,4) pr ver [unfolded Inr]]
    obtain a where a: "a \<le> length draft"
      and kept: "take (Suc a) (seed # draft) = seed # butlast (greedy_tokens pick (hist @ [seed]) (Suc a))"
      and step: "window hot vs obs ch s (length hist) seed emitted max_emit =
             (case commit s1 c1 (seed # draft) a (length hist) of
                (s2, c2, Inl e) \<Rightarrow> Some (ch\<lparr>drafter := d1, scratch := Some c2\<rparr>, s2, Inl e)
              | (s2, c2, Inr _) \<Rightarrow>
                  Some (ch\<lparr>drafter := obs d1 emitted (greedy_tokens pick (hist @ [seed]) (Suc a)), scratch := Some c2\<rparr>, s2,
                        Inr (spec_step_new (greedy_tokens pick (hist @ [seed]) (Suc a))
                               (last (greedy_tokens pick (hist @ [seed]) (Suc a))) (length draft) a)))"
      unfolding Let_def by blast
    obtain s2 c2 q where com: "commit s1 c1 (seed # draft) a (length hist) = (s2, c2, q)" by (rule prod_cases3)
    have room2: "room c2 = room c" using commit_room [OF com] room1 by simp
    have "kept_ready hot room ch (ch\<lparr>drafter := d, scratch := Some c2\<rparr>)" for d
      using assms(1,2) c room2 by (simp add: kept_ready_def greedy_mode_def scratch_ready_def)
    moreover have "holds s2 (hist @ take (Suc a) (seed # draft))" if "q = Inr ()"
      using commit_holds [OF assms(4) ver [unfolded Inr] _ com [unfolded that]] a by simp
    ultimately show ?thesis
      using a len step com kept by (cases q) (auto simp: spec_step_new_def simp del: greedy_tokens.simps)
  qed
qed

text \<open>On a healthy target with room in the context, a window succeeds and the target stays healthy.\<close>

lemma window_healthy:
  assumes "greedy_mode hot ch" and "scratch_ready room ch" and "0 < max_emit" and "holds s hist"
    and "healthy s cap" and "length hist + block_size ch \<le> cap"
  shows "\<exists>ch' s' st. window hot vs obs ch s (length hist) seed emitted max_emit = Some (ch', s', Inr st) \<and> healthy s' cap"
  using assms(1-4)
proof (rule window_cases [where emitted = emitted and seed = seed])
  fix c d1 draft s1 c1 r
  assume c: "scratch ch = Some c" "block_size ch \<le> room c" and len: "length draft < block_size ch" "length draft < max_emit"
    and pr: "propose_block (drafter ch) emitted seed (min (max_emit - 1) (block_size ch - 1)) = (d1, draft)"
    and ver: "verify s c (seed # draft) (length hist) = Some (s1, c1, r)"
  have fits: "length hist + length (seed # draft) \<le> cap" "length (seed # draft) \<le> room c"
    using len c assms(6) by auto
  from verify_healthy [OF assms(5,4) fits] ver obtain picks where r: "r = Inr picks" and h1: "healthy s1 cap" by auto
  from chain_step_verified [OF assms(1) c(1) assms(3,4) pr ver [unfolded r]] obtain a where
    a: "a \<le> length draft"
    and step: "window hot vs obs ch s (length hist) seed emitted max_emit =
             (case commit s1 c1 (seed # draft) a (length hist) of
                (s2, c2, Inl e) \<Rightarrow> Some (ch\<lparr>drafter := d1, scratch := Some c2\<rparr>, s2, Inl e)
              | (s2, c2, Inr _) \<Rightarrow>
                  Some (ch\<lparr>drafter := obs d1 emitted (greedy_tokens pick (hist @ [seed]) (Suc a)), scratch := Some c2\<rparr>, s2,
                        Inr (spec_step_new (greedy_tokens pick (hist @ [seed]) (Suc a))
                               (last (greedy_tokens pick (hist @ [seed]) (Suc a))) (length draft) a)))"
    unfolding Let_def by blast
  from commit_healthy [OF h1 fits(1), of a c1] a obtain s2 c2 where
    "commit s1 c1 (seed # draft) a (length hist) = (s2, c2, Inr ())" "healthy s2 cap" by auto
  with step show ?thesis by simp
qed

end

interpretation qwen2_chain: chain_contract "propose order" "qwen2_verify net seq" "qwen2_commit_prefix" "qwen2_advance net"
  "reflects net ()" works "\<lambda>_. bound" "greedy_pick net ()" for order net seq bound
  by unfold_locales

interpretation q35_chain: chain_contract "propose order" "q35_verify net" "q35_commit_prefix net" "q35_advance net d0 stale lrow"
  "slot_reflects net d0" "\<lambda>s cap. works s cap \<and> causal net" max_n "greedy_pick net d0" for order net d0 stale lrow
  by unfold_locales

section \<open>A window over the recurrent target\<close>

text \<open>
  Property C10. One speculative window over a recurrent model (snapshot, verify, restore and replay), with drafts of
  any quality: it never panics; when it succeeds it emits at least one and at most \<open>max_emit\<close> tokens, they are
  the tokens greedy decoding emits next, the pending seed is the last of them, and both the cache and the
  recurrent state reflect exactly the history before it. It succeeds whenever the device works and the
  block fits.
\<close>

theorem recurrent_window_greedy:
  assumes "slot_reflects net d0 s hist" and "\<not> (samples ch \<and> hot (sample_temp ch))" and "0 < max_emit"
    and "scratch ch = Some c" and "2 \<le> block_size ch" and "block_size ch \<le> max_n c"
  shows "\<exists>ch' s' r.
           chain_step hot (q35_verify net) vs (q35_commit_prefix net) (propose order) obs ch s (length hist) seed emitted max_emit
             = Some (ch', s', r) \<and>
           (\<forall>st. r = Inr st \<longrightarrow>
              emit st \<noteq> [] \<and> length (emit st) \<le> max_emit \<and>
              emit st = greedy_tokens (greedy_pick net d0) (hist @ [seed]) (length (emit st)) \<and> next_seed st = last (emit st) \<and>
              slot_reflects net d0 s' (hist @ seed # butlast (emit st))) \<and>
           (works s cap \<and> length hist + block_size ch \<le> cap \<longrightarrow> (\<exists>st. r = Inr st) \<and> works s' cap)"
proof -
  have ready: "greedy_mode hot ch" "scratch_ready max_n ch" using assms(2,4-6) by (simp_all add: greedy_mode_def scratch_ready_def)
  have c: "causal net" using assms(1) by (simp add: slot_reflects_def reflects_def)
  from q35_chain.window_greedy [OF ready assms(3,1), where vs = vs and obs = obs and seed = seed and emitted = emitted and order = order]
  obtain ch' s' r where step: "chain_step hot (q35_verify net) vs (q35_commit_prefix net) (propose order) obs ch s (length hist) seed emitted max_emit
             = Some (ch', s', r)"
    and out: "\<forall>st. r = Inr st \<longrightarrow>
              emit st \<noteq> [] \<and> length (emit st) \<le> max_emit \<and> length (emit st) \<le> block_size ch \<and>
              emit st = greedy_tokens (greedy_pick net d0) (hist @ [seed]) (length (emit st)) \<and> next_seed st = last (emit st) \<and>
              slot_reflects net d0 s' (hist @ seed # butlast (emit st))" by blast
  have "(\<exists>st. r = Inr st) \<and> works s' cap" if "works s cap" "length hist + block_size ch \<le> cap"
    using q35_chain.window_healthy [OF ready assms(3,1) _ that(2), where vs = vs and obs = obs and seed = seed and emitted = emitted and order = order]
      that(1) c step by auto
  then show ?thesis using step out by blast
qed

fun tally_net :: "(unit, nat) net" where
  "tally_net rows d [] = []"
| "tally_net rows d (t # ts) = ((), Suc d, t + word_of_nat d) # tally_net rows (Suc d) ts"

lemma tally_net_causal: "causal tally_net"
proof -
  have len: "length (tally_net rows d toks) = length toks" for rows d toks by (induction toks arbitrary: d) auto
  have rows: "tally_net rows d toks = tally_net rows' d toks" for rows rows' d toks by (induction toks arbitrary: d) auto
  have "after tally_net rows d toks = d + length toks" for rows d toks
  proof (induction toks arbitrary: d)
    case (Cons t ts)
    then show ?case using Cons.IH [of "Suc d"] len [of rows "Suc d" ts] by (cases ts) (auto simp: after_def)
  qed (simp add: after_def)
  then have "tally_net rows d (xs @ ys) = tally_net rows d xs @ tally_net rs (after tally_net rows d xs) ys" for rows rs d xs ys
    using rows [of rows] by (induction xs arbitrary: d) auto
  then show ?thesis unfolding causal_def using len by blast
qed

definition tally_slot :: "(unit, nat) model_slot" where
  "tally_slot = \<lparr>kv = replicate 9 (), dn = 1, answers = [], compact_offset = 0\<rparr>"

definition tally_chain :: "(ngram_drafter, nat q35_scratch, nat) chain_spec" where
  "tally_chain = (chain_new 0 1 (drafter_new 1 3) 3 9 False)\<lparr>scratch := Some \<lparr>max_n = 3, target_snap = 0\<rparr>\<rparr>"

lemma tally_facts:
  "slot_reflects tally_net 0 tally_slot [5]" "works tally_slot 9" "\<not> samples tally_chain" "block_size tally_chain = 3"
  "scratch tally_chain = Some \<lparr>max_n = 3, target_snap = 0\<rparr>"
  using tally_net_causal
  by (simp_all add: slot_reflects_def reflects_def tally_slot_def tally_chain_def chain_new_def works_def after_def rows_of_def)

theorem recurrent_window_greedy_witness:
  "\<exists>ch' s' st.
     chain_step (\<lambda>x. 0 < x) (q35_verify tally_net) (\<lambda>s c _ _ _ _ _ g. Some (s, c, g, Inl NoSampledVerify)) (q35_commit_prefix tally_net)
       (propose (\<lambda>h. h)) drafter_observe tally_chain tally_slot 1 5 [5] 4 = Some (ch', s', Inr st) \<and>
     emit st \<noteq> [] \<and> slot_reflects tally_net 0 s' ([5] @ 5 # butlast (emit st)) \<and> works s' 9"
  using recurrent_window_greedy [OF tally_facts(1), of tally_chain "\<lambda>x. 0 < x" 4 "\<lparr>max_n = 3, target_snap = 0\<rparr>"
      "\<lambda>s c _ _ _ _ _ g. Some (s, c, g, Inl NoSampledVerify)" "\<lambda>h. h" drafter_observe 5 "[5]" 9] tally_facts
  by auto

section \<open>The MTP adapter\<close>

lemma cap_emit_contract:
  assumes "emit st \<noteq> []" and "next_seed st = last (emit st)" and "0 < m"
  shows "emit (cap_emit st m) \<noteq> [] \<and> length (emit (cap_emit st m)) \<le> m \<and> next_seed (cap_emit st m) = last (emit (cap_emit st m)) \<and>
         prefix (emit (cap_emit st m)) (emit st)"
  using assms by (auto simp: cap_emit_def Let_def take_is_prefix)

text \<open>Whatever window the architecture returns, a step keeps the pending-seed contract and the budget; an empty window is an error.\<close>

lemma mtp_step_contract:
  assumes "mtp_step arch_k arch_sampling eos_token arch_step sp s pos seed temp m = (sp', s', Inr st)"
  shows "0 < m \<and> emit st \<noteq> [] \<and> length (emit st) \<le> m \<and> next_seed st = last (emit st)"
proof -
  have m: "0 < m" using assms by (auto simp: mtp_step_def split: if_splits)
  have "\<exists>w :: mtp_window. w_committed w \<noteq> [] \<and> st = cap_emit (spec_step_new (w_committed w) (last (w_committed w)) (drafts_generated w) (w_accepted w)) m"
    using assms by (auto simp: mtp_step_def lower_mtp_window_def Let_def split: if_splits prod.splits sum.splits)
  then obtain w :: mtp_window where w: "w_committed w \<noteq> []"
    and st: "st = cap_emit (spec_step_new (w_committed w) (last (w_committed w)) (drafts_generated w) (w_accepted w)) m" by blast
  show ?thesis
    using m w st cap_emit_contract [of "spec_step_new (w_committed w) (last (w_committed w)) (drafts_generated w) (w_accepted w)" m]
    by (simp add: spec_step_new_def)
qed

lemma mtp_draft_k_bound: "0 < m \<Longrightarrow> mtp_draft_k k m < m \<and> mtp_draft_k k m \<le> k"
  by (auto simp: mtp_draft_k_def)

end
