(* ===== verification/Eos_Filter.thy ===== *)
theory Eos_Filter
  imports Prelude "HOL-Library.Sublist"
begin

text \<open>
  The output-stream filter, \<^verbatim>\<open>hipfire-runtime/src/eos_filter.rs\<close>: it watches the decoded bytes of a
  generation for stop markers and \<^verbatim>\<open><think>\<close> blocks, holds back what may still become a marker or an
  incomplete code point, and emits the rest. \<^verbatim>\<open>std::str::from_utf8(..).valid_up_to()\<close> is written out.
\<close>

section \<open>UTF-8 (the standard library's validation)\<close>

definition between :: "byte \<Rightarrow> byte \<Rightarrow> byte \<Rightarrow> bool" where
  "between lo hi b \<longleftrightarrow> lo \<le> b \<and> b \<le> hi"

abbreviation continuation_byte :: "byte \<Rightarrow> bool" where
  "continuation_byte \<equiv> between 128 191"

text \<open>The length of the code point at the front, if it is complete and well-formed.\<close>

fun first_codepoint :: "byte list \<Rightarrow> nat option" where
  "first_codepoint [] = None"
| "first_codepoint (a # rest) =
     (if a < 128 then Some 1
      else if between 194 223 a then
        (case rest of b # _ \<Rightarrow> if continuation_byte b then Some 2 else None | _ \<Rightarrow> None)
      else if between 224 239 a then
        (case rest of b # c # _ \<Rightarrow>
           if (if a = 224 then between 160 191 b else if a = 237 then between 128 159 b else continuation_byte b) \<and>
              continuation_byte c then Some 3 else None
         | _ \<Rightarrow> None)
      else if between 240 244 a then
        (case rest of b # c # d # _ \<Rightarrow>
           if (if a = 240 then between 144 191 b else if a = 244 then between 128 143 b else continuation_byte b) \<and>
              continuation_byte c \<and> continuation_byte d then Some 4 else None
         | _ \<Rightarrow> None)
      else None)"

lemma first_codepoint_bounds: "first_codepoint bs = Some n \<Longrightarrow> 0 < n \<and> n \<le> length bs"
  by (cases bs) (auto split: if_splits list.splits)

lemma first_codepoint_append: "first_codepoint bs = Some n \<Longrightarrow> first_codepoint (bs @ cs) = Some n"
  by (cases bs) (auto split: if_splits list.splits)

lemma first_codepoint_take: "first_codepoint bs = Some n \<Longrightarrow> n \<le> m \<Longrightarrow> first_codepoint (take m bs) = Some n"
  by (cases bs; cases m) (auto split: if_splits list.splits simp: take_Cons' numeral_eq_Suc)

function utf8_safe_end :: "byte list \<Rightarrow> nat" where
  "utf8_safe_end bs = (case first_codepoint bs of None \<Rightarrow> 0 | Some n \<Rightarrow> n + utf8_safe_end (drop n bs))"
  by pat_completeness auto
termination
  by (relation "measure length") (auto dest: first_codepoint_bounds)

declare utf8_safe_end.simps [simp del]

lemma utf8_empty [simp]: "utf8_safe_end [] = 0"
  by (simp add: utf8_safe_end.simps)

lemma utf8_le: "utf8_safe_end bs \<le> length bs"
proof (induction bs rule: utf8_safe_end.induct)
  case (1 bs)
  then show ?case
    using first_codepoint_bounds [of bs] by (subst utf8_safe_end.simps) (fastforce split: option.split)
qed

text \<open>Validation restarts at every boundary.\<close>

lemma utf8_append: "utf8_safe_end a = length a \<Longrightarrow> utf8_safe_end (a @ b) = length a + utf8_safe_end b"
proof (induction a rule: utf8_safe_end.induct)
  case (1 a)
  show ?case
  proof (cases "first_codepoint a")
    case None
    with "1.prems" have "a = []" by (simp add: utf8_safe_end.simps)
    then show ?thesis by simp
  next
    case (Some n)
    note n = first_codepoint_bounds [OF Some]
    have "utf8_safe_end (drop n a) = length (drop n a)" using "1.prems" Some n by (simp add: utf8_safe_end.simps [of a])
    from "1.IH" [OF Some this] Some n show ?thesis
      by (subst utf8_safe_end.simps) (simp add: first_codepoint_append)
  qed
qed

lemma utf8_prefix: "utf8_safe_end (take (utf8_safe_end bs) bs) = utf8_safe_end bs"
proof (induction bs rule: utf8_safe_end.induct)
  case (1 bs)
  show ?case
  proof (cases "first_codepoint bs")
    case None
    then show ?thesis by (simp add: utf8_safe_end.simps)
  next
    case (Some n)
    let ?m = "utf8_safe_end (drop n bs)"
    have e: "utf8_safe_end bs = n + ?m" using Some by (simp add: utf8_safe_end.simps [of bs])
    have "utf8_safe_end (take (n + ?m) bs) = n + utf8_safe_end (take ?m (drop n bs))"
      using first_codepoint_take [OF Some, of "n + ?m"] by (subst utf8_safe_end.simps) (simp add: take_drop add.commute)
    then show ?thesis using "1.IH" [OF Some] e by simp
  qed
qed

section \<open>Configuration and state\<close>

record eos_config =
  strip_think :: bool
  started_in_think :: bool
  stop_at :: "byte list list"
  holdback_prefixes :: "byte list list"

record eos_state =
  raw :: "byte list"
  cursor :: nat
  visible :: "byte list"
  visible_emitted :: nat
  in_think :: bool
  stopped :: bool

datatype filter_action = Emit "byte list" | Hold | Stop | EmitAndStop "byte list"

datatype event_kind = StopEvent | ThinkOpen | ThinkClose

record filter_event =
  at :: nat
  kind :: event_kind
  len :: nat

text \<open>The markers \<^verbatim>\<open><think>\<close> and \<^verbatim>\<open></think>\<close> as bytes.\<close>

definition OPEN :: "byte list" where "OPEN = [60, 116, 104, 105, 110, 107, 62]"
definition CLOSE :: "byte list" where "CLOSE = [60, 47, 116, 104, 105, 110, 107, 62]"

definition eos_config_new :: "eos_config \<Rightarrow> eos_config" where
  "eos_config_new c = c\<lparr>holdback_prefixes := sort_key (\<lambda>p. - int (length p)) (holdback_prefixes c),
                       stop_at := sort_key (\<lambda>p. - int (length p)) (stop_at c)\<rparr>"

definition eos_reset :: "eos_config \<Rightarrow> eos_state" where
  "eos_reset c = \<lparr>raw = [], cursor = 0, visible = [], visible_emitted = 0,
                  in_think = (strip_think c \<and> started_in_think c), stopped = False\<rparr>"

definition eos_new :: "eos_config \<Rightarrow> eos_config \<times> eos_state" where
  "eos_new c = (let c' = eos_config_new c in (c', eos_reset c'))"

section \<open>Helpers\<close>

definition windows :: "nat \<Rightarrow> 'a list \<Rightarrow> 'a list list" where
  "windows n xs = map (\<lambda>i. take n (drop i xs)) [0..<length xs + 1 - n]"

definition memmem :: "byte list \<Rightarrow> byte list \<Rightarrow> nat option" where
  "memmem haystack needle =
     (if needle = [] then Some 0 else position (\<lambda>w. w = needle) (windows (length needle) haystack))"

text \<open>The loop \<^verbatim>\<open>for k in (1..=max_k).rev()\<close>: the largest \<open>k\<close> that satisfies the test, if any.\<close>

fun largest_k :: "(nat \<Rightarrow> bool) \<Rightarrow> nat \<Rightarrow> nat option" where
  "largest_k P 0 = None"
| "largest_k P (Suc k) = (if P (Suc k) then Some (Suc k) else largest_k P k)"

definition trailing_prefix_start :: "byte list \<Rightarrow> byte list \<Rightarrow> nat" where
  "trailing_prefix_start bytes needle =
     (if needle = [] \<or> bytes = [] then length bytes
      else case largest_k (\<lambda>k. drop (length bytes - k) bytes = take k needle) (min (length needle - 1) (length bytes)) of
             None \<Rightarrow> length bytes
           | Some k \<Rightarrow> length bytes - k)"

definition watch_list :: "eos_config \<Rightarrow> byte list list" where
  "watch_list c = filter (\<lambda>p. p \<noteq> []) (holdback_prefixes c) @ filter (\<lambda>p. p \<noteq> []) (stop_at c) @
     (if strip_think c then [OPEN, CLOSE] else [])"

text \<open>
  The scan of one watched prefix: it leaves the loop at the first match, or as soon as it cannot
  improve on the longest match so far.
\<close>

fun scan_prefix :: "byte list \<Rightarrow> byte list \<Rightarrow> nat \<Rightarrow> nat \<Rightarrow> nat" where
  "scan_prefix rest p max_trim 0 = max_trim"
| "scan_prefix rest p max_trim (Suc k) =
     (if Suc k \<le> max_trim then max_trim
      else if drop (length rest - Suc k) rest = take (Suc k) p then Suc k
      else scan_prefix rest p max_trim k)"

definition max_trim_of :: "byte list list \<Rightarrow> byte list \<Rightarrow> nat" where
  "max_trim_of watch rest =
     foldl (\<lambda>max_trim p. scan_prefix rest p max_trim (min (length p - 1) (length rest))) 0 watch"

definition holdback_trim_len :: "eos_config \<Rightarrow> byte list \<Rightarrow> nat" where
  "holdback_trim_len c rest =
     (if rest = [] then 0
      else let end = length rest - (if watch_list c = [] then 0 else max_trim_of (watch_list c) rest)
           in utf8_safe_end (take end rest))"

definition earlier :: "filter_event option \<Rightarrow> filter_event \<Rightarrow> filter_event option" where
  "earlier best cand =
     (case best of
        None \<Rightarrow> Some cand
      | Some b \<Rightarrow>
          if at cand < at b then Some cand
          else if at cand = at b \<and> len b < len cand then Some cand
          else if at cand = at b \<and> kind cand = StopEvent \<and> kind b \<noteq> StopEvent then Some cand
          else best)"

definition add_event :: "byte list \<Rightarrow> filter_event option \<Rightarrow> event_kind \<times> byte list \<Rightarrow> filter_event option" where
  "add_event rest best = (\<lambda>(k, needle).
     case memmem rest needle of None \<Rightarrow> best | Some i \<Rightarrow> earlier best \<lparr>at = i, kind = k, len = length needle\<rparr>)"

definition markers :: "eos_config \<Rightarrow> (event_kind \<times> byte list) list" where
  "markers c = map (Pair StopEvent) (filter (\<lambda>n. n \<noteq> []) (stop_at c)) @
     (if strip_think c then [(ThinkOpen, OPEN), (ThinkClose, CLOSE)] else [])"

definition earliest_event :: "eos_config \<Rightarrow> byte list \<Rightarrow> filter_event option" where
  "earliest_event c rest = foldl (add_event rest) None (markers c)"

definition safe_visible_end :: "eos_state \<Rightarrow> nat" where
  "safe_visible_end st =
     (if length (visible st) \<le> visible_emitted st then visible_emitted st
      else utf8_safe_end (drop (visible_emitted st) (visible st)) + visible_emitted st)"

definition has_pending :: "eos_state \<Rightarrow> bool" where
  "has_pending st \<longleftrightarrow> \<not> stopped st \<and> visible_emitted st < safe_visible_end st"

definition push_visible :: "eos_state \<Rightarrow> byte list \<Rightarrow> eos_state" where
  "push_visible st bytes = st\<lparr>visible := visible st @ bytes\<rparr>"

text \<open>Commit a stop: forget the input and hand out what is safe.\<close>

definition commit_stop :: "eos_state \<Rightarrow> eos_state \<times> filter_action option" where
  "commit_stop st =
     (let st1 = st\<lparr>stopped := True, raw := [], cursor := 0\<rparr>;
          end = safe_visible_end st1;
          st2 = st1\<lparr>visible_emitted := length (visible st1)\<rparr>
      in if visible_emitted st1 < end
         then (st2, Some (EmitAndStop (take (end - visible_emitted st1) (drop (visible_emitted st1) (visible st1)))))
         else (st2, Some Stop))"

section \<open>Facts on searching\<close>

definition occurs :: "byte list \<Rightarrow> byte list \<Rightarrow> nat \<Rightarrow> bool" where
  "occurs h n i \<longleftrightarrow> take (length n) (drop i h) = n"

lemma occurs_bound: "n \<noteq> [] \<Longrightarrow> occurs h n i \<Longrightarrow> i + length n \<le> length h"
  unfolding occurs_def by (metis add.commute drop_all le_add_diff_inverse2 length_drop length_take
      linorder_not_less min.absorb_iff2 min.strict_order_iff nat_le_linear not_less_iff_gr_or_eq take_Nil less_diff_conv)

lemma memmem_Some:
  assumes "n \<noteq> []"
  shows "memmem h n = Some i \<longleftrightarrow> occurs h n i \<and> (\<forall>j<i. \<not> occurs h n j)"
proof -
  have w: "windows (length n) h ! j = take (length n) (drop j h)" if "j < length h + 1 - length n" for j
    using that by (simp add: windows_def)
  have b: "occurs h n j \<Longrightarrow> j < length h + 1 - length n" for j using occurs_bound [OF assms, of h j] by simp
  have l: "length (windows (length n) h) = length h + 1 - length n" by (simp add: windows_def)
  have e: "windows (length n) h ! j = n \<longleftrightarrow> occurs h n j" if "j < length h + 1 - length n" for j
    using w [OF that] by (simp add: occurs_def)
  show ?thesis
  proof
    assume "memmem h n = Some i"
    then have "i < length h + 1 - length n" "occurs h n i" "\<forall>j<i. \<not> occurs h n j"
      using assms e l by (auto simp: memmem_def position_Some_iff)
    then show "occurs h n i \<and> (\<forall>j<i. \<not> occurs h n j)" by blast
  next
    assume a: "occurs h n i \<and> (\<forall>j<i. \<not> occurs h n j)"
    then have "i < length h + 1 - length n" using b by blast
    then show "memmem h n = Some i" using a assms e l by (auto simp: memmem_def position_Some_iff)
  qed
qed

lemma memmem_None: "n \<noteq> [] \<Longrightarrow> memmem h n = None \<longleftrightarrow> (\<forall>i. \<not> occurs h n i)"
proof -
  assume n: "n \<noteq> []"
  have "(\<exists>i. occurs h n i) \<longleftrightarrow> (\<exists>i. memmem h n = Some i)"
    unfolding memmem_Some [OF n] using exists_least_iff [of "occurs h n"] by blast
  then show ?thesis by (metis option.exhaust option.discI)
qed

lemma markers_nonempty: "(k, n) \<in> set (markers c) \<Longrightarrow> n \<noteq> []"
  by (auto simp: markers_def OPEN_def CLOSE_def split: if_splits)

text \<open>The events of a buffer, and the winner among them.\<close>

definition events_of :: "(event_kind \<times> byte list) list \<Rightarrow> byte list \<Rightarrow> filter_event list" where
  "events_of ms rest = List.map_filter (\<lambda>(k, n). map_option (\<lambda>i. \<lparr>at = i, kind = k, len = length n\<rparr>) (memmem rest n)) ms"

lemma earliest_eq: "earliest_event c rest = foldl earlier None (events_of (markers c) rest)"
proof -
  have "foldl (add_event rest) b ms = foldl earlier b (events_of ms rest)" for b ms
    by (induction ms arbitrary: b) (auto simp: add_event_def events_of_def List.map_filter_simps split: option.splits)
  then show ?thesis by (simp add: earliest_event_def)
qed

lemma events_of_mem:
  "ev \<in> set (events_of ms rest) \<longleftrightarrow> (\<exists>n. (kind ev, n) \<in> set ms \<and> len ev = length n \<and> memmem rest n = Some (at ev))"
  unfolding events_of_def List.map_filter_def by (cases ev) force

lemma earlier_winner: "\<exists>w. earlier b ev = Some w \<and> at w \<le> at ev \<and> (w = ev \<or> b = Some w) \<and> (\<forall>u. b = Some u \<longrightarrow> at w \<le> at u)"
  by (cases b) (auto simp: earlier_def)

lemma foldl_earlier:
  "foldl earlier b es = Some w \<Longrightarrow> (w \<in> set es \<or> b = Some w) \<and> (\<forall>ev\<in>set es. at w \<le> at ev) \<and> (\<forall>u. b = Some u \<longrightarrow> at w \<le> at u)"
proof (induction es arbitrary: b)
  case Nil
  then show ?case by simp
next
  case (Cons ev es)
  obtain v where v: "earlier b ev = Some v" "at v \<le> at ev" "v = ev \<or> b = Some v" "\<forall>u. b = Some u \<longrightarrow> at v \<le> at u"
    using earlier_winner by blast
  from Cons.IH [of "Some v"] Cons.prems v show ?case by fastforce
qed

lemma foldl_earlier_None: "foldl earlier b es = None \<longleftrightarrow> b = None \<and> es = []"
proof (induction es arbitrary: b)
  case (Cons ev es)
  then show ?case using earlier_winner [of b ev] by auto
qed simp

lemma earliest_None: "earliest_event c rest = None \<longleftrightarrow> (\<forall>k n i. (k, n) \<in> set (markers c) \<longrightarrow> \<not> occurs rest n i)"
proof -
  have "events_of (markers c) rest = [] \<longleftrightarrow> (\<forall>k n. (k, n) \<in> set (markers c) \<longrightarrow> memmem rest n = None)"
    by (auto simp: events_of_def List.map_filter_def filter_empty_conv)
  then show ?thesis
    unfolding earliest_eq foldl_earlier_None using memmem_None markers_nonempty by metis
qed

lemma earliest_Some:
  assumes "earliest_event c rest = Some ev"
  shows "\<exists>n. (kind ev, n) \<in> set (markers c) \<and> len ev = length n \<and> occurs rest n (at ev)" "0 < len ev"
    "at ev + len ev \<le> length rest" "(k, m) \<in> set (markers c) \<Longrightarrow> occurs rest m j \<Longrightarrow> at ev \<le> j"
proof -
  from foldl_earlier [OF assms [unfolded earliest_eq]] have w: "ev \<in> set (events_of (markers c) rest)"
    "\<forall>e\<in>set (events_of (markers c) rest). at ev \<le> at e" by auto
  from w(1) obtain n where n: "(kind ev, n) \<in> set (markers c)" "len ev = length n" "memmem rest n = Some (at ev)"
    by (auto simp: events_of_mem)
  note ne = markers_nonempty [OF n(1)]
  have o: "occurs rest n (at ev)" using n(3) memmem_Some [OF ne] by blast
  then show "\<exists>n. (kind ev, n) \<in> set (markers c) \<and> len ev = length n \<and> occurs rest n (at ev)" using n by blast
  show "0 < len ev" "at ev + len ev \<le> length rest" using ne n(2) occurs_bound [OF ne o] by auto
  show "at ev \<le> j" if m: "(k, m) \<in> set (markers c)" "occurs rest m j"
  proof -
    note me = markers_nonempty [OF m(1)]
    obtain i where i: "memmem rest m = Some i" using memmem_None [OF me] m(2) by (metis option.exhaust)
    then have "i \<le> j" using memmem_Some [OF me] m(2) by (meson not_le_imp_less)
    moreover have "\<lparr>at = i, kind = k, len = length m\<rparr> \<in> set (events_of (markers c) rest)" using m(1) i by (auto simp: events_of_mem)
    ultimately show ?thesis using w(2) by fastforce
  qed
qed

section \<open>The transform\<close>

function pump :: "eos_config \<Rightarrow> bool \<Rightarrow> eos_state \<Rightarrow> eos_state \<times> filter_action option" where
  "pump c at_eos st =
     (if length (raw st) \<le> cursor st then (st, None)
      else
        let rest = drop (cursor st) (raw st)
        in if in_think st then
             (case memmem rest CLOSE of
                Some idx \<Rightarrow> pump c at_eos (st\<lparr>cursor := cursor st + idx + length CLOSE, in_think := False\<rparr>)
              | None \<Rightarrow>
                  let keep_from = (if at_eos then length rest else trailing_prefix_start rest CLOSE)
                  in (st\<lparr>cursor := cursor st + keep_from\<rparr>, None))
           else
             (case earliest_event c rest of
                None \<Rightarrow>
                  let n = (if at_eos then length rest else holdback_trim_len c rest)
                  in if 0 < n then ((push_visible st (take n rest))\<lparr>cursor := cursor st + n\<rparr>, None) else (st, None)
              | Some ev \<Rightarrow>
                  let st1 = (if 0 < at ev then push_visible st (take (at ev) rest) else st);
                      st2 = st1\<lparr>cursor := cursor st + at ev + len ev\<rparr>
                  in (case kind ev of
                        StopEvent \<Rightarrow> commit_stop st2
                      | ThinkOpen \<Rightarrow> pump c at_eos (st2\<lparr>in_think := True\<rparr>)
                      | ThinkClose \<Rightarrow> pump c at_eos st2)))"
  by pat_completeness auto
termination
proof (relation "measure (\<lambda>(c, e, st). length (raw st) - cursor st)", goal_cases)
  case 1
  then show ?case by simp
next
  case (2 c at_eos st rest idx)
  then show ?case by (simp add: CLOSE_def)
next
  case (3 c at_eos st rest ev st1 st2)
  then show ?case using earliest_Some(2) [of c rest ev] by (simp add: push_visible_def split: if_splits)
next
  case (4 c at_eos st rest ev st1 st2)
  then show ?case using earliest_Some(2) [of c rest ev] by (simp add: push_visible_def split: if_splits)
qed

declare pump.simps [simp del]

definition flush_pending :: "eos_config \<Rightarrow> eos_state \<Rightarrow> eos_state \<times> byte list" where
  "flush_pending c st =
     (if stopped st then (st, [])
      else let (st1, _) = pump c True st
           in if in_think st1 then (st1, [])
              else if length (visible st1) \<le> visible_emitted st1 then (st1, [])
              else (st1\<lparr>visible_emitted := length (visible st1)\<rparr>, drop (visible_emitted st1) (visible st1)))"

definition observe :: "eos_config \<Rightarrow> eos_state \<Rightarrow> byte list \<Rightarrow> eos_state \<times> filter_action" where
  "observe c st raw_bytes =
     (if stopped st then (st, Hold)
      else if raw_bytes = [] \<and> raw st = [] \<and> length (visible st) \<le> visible_emitted st then (st, Hold)
      else
        (case pump c False (st\<lparr>raw := raw st @ raw_bytes\<rparr>) of
           (st1, Some action) \<Rightarrow> (st1, action)
         | (st1, None) \<Rightarrow>
             let end = safe_visible_end st1
             in if visible_emitted st1 < end
                then (st1\<lparr>visible_emitted := end\<rparr>, Emit (take (end - visible_emitted st1) (drop (visible_emitted st1) (visible st1))))
                else (st1, Hold)))"

section \<open>Extending the buffer\<close>

text \<open>No marker lies inside another one.\<close>

definition markers_apart :: "eos_config \<Rightarrow> bool" where
  "markers_apart c \<longleftrightarrow> (\<forall>(k, n)\<in>set (markers c). \<forall>(k', m)\<in>set (markers c). n \<noteq> m \<longrightarrow> \<not> sublist n m)"

lemma occurs_append: "n \<noteq> [] \<Longrightarrow> occurs h n i \<Longrightarrow> occurs (h @ x) n i"
  using occurs_bound [of n h i] by (simp add: occurs_def)

lemma occurs_within: "i + length n \<le> length h \<Longrightarrow> occurs (h @ x) n i \<Longrightarrow> occurs h n i"
  by (simp add: occurs_def)

lemma occurs_drop: "occurs (drop n r) m i \<longleftrightarrow> occurs r m (n + i)"
  by (simp add: occurs_def add.commute)

lemma memmem_append: "n \<noteq> [] \<Longrightarrow> memmem h n = Some i \<Longrightarrow> memmem (h @ x) n = Some i"
proof -
  assume n: "n \<noteq> []" and m: "memmem h n = Some i"
  then have o: "occurs h n i" "\<forall>j<i. \<not> occurs h n j" using memmem_Some by blast+
  have "\<not> occurs (h @ x) n j" if "j < i" for j
    using that o(2) occurs_bound [OF n o(1)] occurs_within [of j n h x] by auto
  then show ?thesis using memmem_Some [OF n] occurs_append [OF n o(1)] by blast
qed

lemma memmem_shift:
  assumes m: "m \<noteq> []" and far: "\<forall>i. occurs r m i \<longrightarrow> n \<le> i"
  shows "memmem r m = map_option ((+) n) (memmem (drop n r) m)"
proof (cases "memmem (drop n r) m")
  case None
  then have "\<forall>i. \<not> occurs r m (n + i)" using memmem_None [OF m, of "drop n r"] by (simp add: occurs_drop)
  then have "\<forall>i. \<not> occurs r m i" using far by (metis le_Suc_ex)
  then show ?thesis using None memmem_None [OF m, of r] by simp
next
  case (Some i)
  then have o: "occurs r m (n + i)" "\<forall>j<i. \<not> occurs r m (n + j)"
    using memmem_Some [OF m, of "drop n r"] by (simp_all add: occurs_drop)
  have "\<not> occurs r m j" if "j < n + i" for j
    using that far o(2) by (metis le_Suc_ex nat_add_left_cancel_less)
  then show ?thesis using Some o(1) memmem_Some [OF m, of r] by simp
qed

lemma occurs_sublist:
  assumes "i + length n \<le> length rest" and "occurs rest n i" and "j \<le> i" and "length rest \<le> j + length m" and "occurs (rest @ x) m j"
  shows "sublist n m"
proof -
  have "take (length n) (drop (i - j) m) = take (length n) (drop (i - j) (take (length m) (drop j (rest @ x))))"
    using assms(5) by (simp add: occurs_def)
  also have "\<dots> = take (length n) (drop i (rest @ x))" using assms(1,3,4) by (simp add: drop_take)
  also have "\<dots> = n" using assms(1,2) by (simp add: occurs_def)
  finally have "take (length n) (drop (i - j) m) = n" .
  then show ?thesis by (metis sublist_drop sublist_order.order.trans sublist_take)
qed

lemma foldl_earlier_filter:
  assumes "\<forall>ev\<in>set es. m \<le> at ev" and "\<forall>u. b = Some u \<longrightarrow> m \<le> at u"
    and "(\<exists>u. b = Some u \<and> at u = m) \<or> (\<exists>ev\<in>set es. at ev = m)"
  shows "foldl earlier b es = foldl earlier (if \<exists>u. b = Some u \<and> at u = m then b else None) (filter (\<lambda>ev. at ev = m) es)"
  using assms
proof (induction es arbitrary: b)
  case Nil
  then show ?case by auto
next
  case (Cons ev es)
  obtain w where w: "earlier b ev = Some w" "w = ev \<or> b = Some w" "at w \<le> at ev" "\<forall>u. b = Some u \<longrightarrow> at w \<le> at u"
    using earlier_winner by blast
  have mw: "m \<le> at w" using w(2) Cons.prems(1,2) by auto
  have IH: "(at w = m \<or> (\<exists>ev\<in>set es. at ev = m)) \<Longrightarrow>
    foldl earlier (Some w) es = foldl earlier (if at w = m then Some w else None) (filter (\<lambda>ev. at ev = m) es)"
    using Cons.IH [of "Some w"] Cons.prems(1) mw by simp
  consider (hit) "at ev = m" | (old) u where "at ev \<noteq> m" "b = Some u" "at u = m"
    | (miss) "at ev \<noteq> m" "\<forall>u. b = Some u \<longrightarrow> at u \<noteq> m" by blast
  then show ?case
  proof cases
    case hit
    then have aw: "at w = m" using w(3) mw by simp
    have "earlier (if \<exists>u. b = Some u \<and> at u = m then b else None) ev = Some w"
    proof (cases "\<exists>u. b = Some u \<and> at u = m")
      case False
      with w(2) aw have "w = ev" by auto
      with False show ?thesis by (auto simp: earlier_def)
    qed (use w(1) in simp)
    with IH aw hit w(1) show ?thesis by simp
  next
    case old
    then have "w = u" using w(2,4) Cons.prems(1) mw by (metis le_antisym option.inject)
    with IH old w(1) show ?thesis by simp
  next
    case miss
    then have "at w \<noteq> m" "\<exists>ev\<in>set es. at ev = m" using w(2) Cons.prems(3) by auto
    with IH miss w(1) show ?thesis by auto
  qed
qed

lemma events_filter:
  assumes "\<forall>(k, n)\<in>set ms. memmem r n = Some m \<longleftrightarrow> memmem r' n = Some m"
  shows "filter (\<lambda>ev. at ev = m) (events_of ms r) = filter (\<lambda>ev. at ev = m) (events_of ms r')"
  using assms
  by (induction ms) (auto simp: events_of_def List.map_filter_simps split: option.splits)

text \<open>Under that condition the earliest event does not change when more bytes arrive.\<close>

lemma earliest_append:
  assumes apart: "markers_apart c" and e: "earliest_event c rest = Some ev"
  shows "earliest_event c (rest @ x) = Some ev"
proof -
  note s = earliest_Some [OF e]
  from s(1) obtain n0 where n0: "(kind ev, n0) \<in> set (markers c)" "len ev = length n0" "occurs rest n0 (at ev)" by blast
  have b: "at ev + length n0 \<le> length rest" using s(3) n0(2) by simp
  have late: "at ev \<le> j \<and> (j = at ev \<longrightarrow> occurs rest m j)" if m: "(k, m) \<in> set (markers c)" "occurs (rest @ x) m j" for k m j
  proof (cases "j + length m \<le> length rest")
    case True
    with m s(4) occurs_within show ?thesis by blast
  next
    case False
    show ?thesis
    proof (rule ccontr)
      assume "\<not> ?thesis"
      then have j: "j \<le> at ev" "n0 = m \<longrightarrow> j < at ev" using n0(3) by auto
      from occurs_sublist [OF b n0(3) j(1) _ m(2)] False have sub: "sublist n0 m" by simp
      with apart n0(1) m(1) have "n0 = m" by (fastforce simp: markers_apart_def)
      with j b False show False by simp
    qed
  qed
  let ?m = "at ev"
  have iff: "memmem rest n = Some ?m \<longleftrightarrow> memmem (rest @ x) n = Some ?m" if n: "(k, n) \<in> set (markers c)" for k n
  proof
    note ne = markers_nonempty [OF n]
    show "memmem rest n = Some ?m \<Longrightarrow> memmem (rest @ x) n = Some ?m" using memmem_append [OF ne] .
    assume "memmem (rest @ x) n = Some ?m"
    then have "occurs (rest @ x) n ?m" using memmem_Some [OF ne] by blast
    then have "occurs rest n ?m" using late [OF n] by blast
    moreover have "\<not> occurs rest n j" if "j < ?m" for j using s(4) [OF n, of j] that by auto
    ultimately show "memmem rest n = Some ?m" using memmem_Some [OF ne] by blast
  qed
  have ge: "\<forall>e\<in>set (events_of (markers c) r). ?m \<le> at e"
    if "\<And>k n j. (k, n) \<in> set (markers c) \<Longrightarrow> occurs r n j \<Longrightarrow> ?m \<le> j" for r
  proof
    fix e assume "e \<in> set (events_of (markers c) r)"
    then obtain n where n: "(kind e, n) \<in> set (markers c)" "memmem r n = Some (at e)" by (auto simp: events_of_mem)
    with memmem_Some [OF markers_nonempty [OF n(1)]] show "?m \<le> at e" using that by blast
  qed
  have ex: "\<exists>e\<in>set (events_of (markers c) rest). at e = ?m"
    using foldl_earlier [OF e [unfolded earliest_eq]] by auto
  have f: "filter (\<lambda>e. at e = ?m) (events_of (markers c) rest) = filter (\<lambda>e. at e = ?m) (events_of (markers c) (rest @ x))"
    using iff by (intro events_filter) auto
  then have ex': "\<exists>e\<in>set (events_of (markers c) (rest @ x)). at e = ?m"
  proof -
    from ex obtain e where "e \<in> set (filter (\<lambda>e. at e = ?m) (events_of (markers c) rest))" by auto
    then have "e \<in> set (filter (\<lambda>e. at e = ?m) (events_of (markers c) (rest @ x)))" unfolding f .
    then show ?thesis by auto
  qed
  have "foldl earlier None (events_of (markers c) r) = foldl earlier None (filter (\<lambda>e. at e = ?m) (events_of (markers c) r))"
    if "\<forall>e\<in>set (events_of (markers c) r). ?m \<le> at e" "\<exists>e\<in>set (events_of (markers c) r). at e = ?m" for r
    using foldl_earlier_filter [of "events_of (markers c) r" ?m None] that by simp
  note pick = this
  have g: "\<forall>e\<in>set (events_of (markers c) rest). ?m \<le> at e" "\<forall>e\<in>set (events_of (markers c) (rest @ x)). ?m \<le> at e"
    by (rule ge, erule (1) s(4)) (rule ge, use late in blast)
  show ?thesis using e unfolding earliest_eq pick [OF g(1) ex] pick [OF g(2) ex'] f .
qed

text \<open>Trailing partial markers: what is held back, and that holding it back is enough.\<close>

definition tail_prefix :: "byte list \<Rightarrow> byte list \<Rightarrow> nat \<Rightarrow> bool" where
  "tail_prefix r p k \<longleftrightarrow> 1 \<le> k \<and> k \<le> length p - 1 \<and> k \<le> length r \<and> drop (length r - k) r = take k p"

definition max_tail :: "byte list set \<Rightarrow> byte list \<Rightarrow> nat \<Rightarrow> bool" where
  "max_tail ps r t \<longleftrightarrow> (t = 0 \<or> (\<exists>p\<in>ps. tail_prefix r p t)) \<and> (\<forall>p\<in>ps. \<forall>k. tail_prefix r p k \<longrightarrow> k \<le> t)"

lemma max_tail_unique: "max_tail ps r t \<Longrightarrow> max_tail ps r u \<Longrightarrow> t = u"
  unfolding max_tail_def by (metis le_antisym le0)

lemma max_tail_le: "max_tail ps r t \<Longrightarrow> t \<le> length r"
  by (auto simp: max_tail_def tail_prefix_def)

lemma scan_prefix_max:
  assumes "b \<le> length p - 1" "b \<le> length r"
  shows "scan_prefix r p m b = (let t = scan_prefix r p m b in t) \<and> m \<le> scan_prefix r p m b \<and>
    (scan_prefix r p m b = m \<or> tail_prefix r p (scan_prefix r p m b)) \<and>
    (\<forall>k\<le>b. tail_prefix r p k \<longrightarrow> k \<le> scan_prefix r p m b)"
  using assms by (induction b) (auto simp: tail_prefix_def le_Suc_eq)

lemma max_trim_max: "max_tail (set ps) r (max_trim_of ps r)"
proof -
  have "\<exists>t. foldl (\<lambda>max_trim p. scan_prefix r p max_trim (min (length p - 1) (length r))) m ps = t \<and> m \<le> t \<and>
      (t = m \<or> (\<exists>p\<in>set ps. tail_prefix r p t)) \<and> (\<forall>p\<in>set ps. \<forall>k. tail_prefix r p k \<longrightarrow> k \<le> t)" for m
  proof (induction ps arbitrary: m)
    case (Cons p ps)
    let ?t = "scan_prefix r p m (min (length p - 1) (length r))"
    have s: "m \<le> ?t" "?t = m \<or> tail_prefix r p ?t" "\<forall>k. tail_prefix r p k \<longrightarrow> k \<le> ?t"
      using scan_prefix_max [of "min (length p - 1) (length r)" p r m] by (auto simp: tail_prefix_def)
    from Cons.IH [of ?t] s show ?case by (auto intro: le_trans)
  qed simp
  from this [of 0] show ?thesis by (auto simp: max_tail_def max_trim_of_def)
qed

lemma largest_k_spec:
  "case largest_k P b of None \<Rightarrow> \<forall>k. 1 \<le> k \<and> k \<le> b \<longrightarrow> \<not> P k | Some k \<Rightarrow> 1 \<le> k \<and> k \<le> b \<and> P k \<and> (\<forall>j. k < j \<and> j \<le> b \<longrightarrow> \<not> P j)"
  by (induction b) (auto simp: le_Suc_eq split: option.splits)

lemma trailing_prefix_max: "p \<noteq> [] \<Longrightarrow> \<exists>t. trailing_prefix_start r p = length r - t \<and> max_tail {p} r t"
proof -
  assume p: "p \<noteq> []"
  let ?P = "\<lambda>k. drop (length r - k) r = take k p" and ?b = "min (length p - 1) (length r)"
  show ?thesis
  proof (cases "r = []")
    case True
    then show ?thesis by (auto simp: trailing_prefix_start_def max_tail_def tail_prefix_def)
  next
    case False
    show ?thesis
    proof (cases "largest_k ?P ?b")
      case None
      then have "max_tail {p} r 0" using largest_k_spec [where P = ?P and b = ?b] by (auto simp: max_tail_def tail_prefix_def)
      then show ?thesis using None False p by (intro exI [of _ 0]) (simp add: trailing_prefix_start_def)
    next
      case (Some k)
      then have "max_tail {p} r k"
        using largest_k_spec [where P = ?P and b = ?b] by (auto simp: max_tail_def tail_prefix_def) (meson not_le_imp_less)
      then show ?thesis using Some False p by (intro exI [of _ k]) (simp add: trailing_prefix_start_def)
    qed
  qed
qed

lemma held_occurrence:
  assumes t: "max_tail ps rest t" and p: "p \<in> ps" "p \<noteq> []" and o: "occurs (rest @ x) p i" and no: "\<not> occurs rest p i"
  shows "length rest - t \<le> i"
proof (cases "length rest \<le> i")
  case False
  have far: "length rest < i + length p" using occurs_within [of i p rest x] o no by (meson not_le_imp_less)
  let ?k = "length rest - i"
  have "take ?k (take (length p) (drop i (rest @ x))) = take ?k p" using o by (simp add: occurs_def)
  then have "drop i rest = take ?k p" using False far by (simp add: min_def)
  moreover have "1 \<le> ?k" "?k \<le> length p - 1" using False far by linarith+
  ultimately have "tail_prefix rest p ?k" using False by (simp add: tail_prefix_def)
  then have "?k \<le> t" using t p(1) by (auto simp: max_tail_def)
  then show ?thesis by simp
qed simp

lemma tail_prefix_drop:
  assumes "n + k \<le> length r"
  shows "tail_prefix (drop n r) p k \<longleftrightarrow> tail_prefix r p k"
proof -
  have "drop (length r - n - k) (drop n r) = drop (length r - k) r" using assms by simp
  then show ?thesis using assms by (auto simp: tail_prefix_def)
qed

lemma max_tail_drop:
  assumes t: "max_tail ps rest t" and n: "n \<le> length rest - t" and u: "max_tail ps (rest @ x) u"
  shows "max_tail ps (drop n (rest @ x)) u" "n + u \<le> length (rest @ x)"
proof -
  let ?r = "rest @ x"
  have fit: "n + k \<le> length ?r" if k: "tail_prefix ?r p k" and p: "p \<in> ps" for p k
  proof (rule ccontr)
    assume "\<not> ?thesis"
    then have q: "length ?r - k < n" and kr: "k \<le> length ?r" using k by (auto simp: tail_prefix_def)
    let ?q = "length ?r - k" and ?k = "length rest - (length ?r - k)"
    have qr: "?q < length rest" using q n by simp
    have "drop ?q ?r = take k p" using k by (simp add: tail_prefix_def)
    then have "take ?k (drop ?q ?r) = take ?k (take k p)" by simp
    then have "drop ?q rest = take ?k p" using qr kr by simp
    then have "tail_prefix rest p ?k" using qr k by (auto simp: tail_prefix_def)
    then have "?k \<le> t" using t p by (auto simp: max_tail_def)
    then show False using q n qr by linarith
  qed
  have fu: "n + u \<le> length ?r" using u fit n by (auto simp: max_tail_def)
  then show "n + u \<le> length (rest @ x)" .
  have "tail_prefix (drop n ?r) p k \<longleftrightarrow> tail_prefix ?r p k" if "p \<in> ps" for p k
  proof
    assume a: "tail_prefix (drop n ?r) p k"
    then have "k \<le> length ?r - n" unfolding tail_prefix_def length_drop by blast
    moreover have "n \<le> length ?r" using fu by simp
    ultimately have "n + k \<le> length ?r" by linarith
    from tail_prefix_drop [OF this] a show "tail_prefix ?r p k" by blast
  next
    assume a: "tail_prefix ?r p k"
    with tail_prefix_drop [OF fit [OF a that]] show "tail_prefix (drop n ?r) p k" by blast
  qed
  then show "max_tail ps (drop n ?r) u" using u by (auto simp: max_tail_def)
qed

lemma holdback_trim_eq: "holdback_trim_len c rest = utf8_safe_end (take (length rest - max_trim_of (watch_list c) rest) rest)"
  by (auto simp: holdback_trim_len_def max_trim_of_def Let_def)

lemma holdback_trim_le: "holdback_trim_len c rest \<le> length rest - max_trim_of (watch_list c) rest"
  unfolding holdback_trim_eq using utf8_le [of "take (length rest - max_trim_of (watch_list c) rest) rest"] by simp

lemma holdback_trim_add:
  "holdback_trim_len c (rest @ x) = holdback_trim_len c rest + holdback_trim_len c (drop (holdback_trim_len c rest) (rest @ x))"
proof -
  let ?w = "watch_list c" and ?n = "holdback_trim_len c rest"
  let ?e = "length rest - max_trim_of ?w rest"
  define r where "r = rest @ x"
  let ?T = "max_trim_of ?w r"
  note d = max_tail_drop [OF max_trim_max [of ?w rest] holdback_trim_le max_trim_max [of ?w "rest @ x"], folded r_def]
  have nr: "?n \<le> length rest" "?n \<le> length r" using holdback_trim_le [of c rest] by (simp_all add: r_def)
  have T: "max_trim_of ?w (drop ?n r) = ?T" using max_tail_unique [OF max_trim_max d(1)] .
  have "utf8_safe_end (take ?n (take ?e rest)) = ?n" unfolding holdback_trim_eq by (rule utf8_prefix)
  moreover have "take ?n (take ?e rest) = take ?n r"
    using nr holdback_trim_le [of c rest] by (simp add: min_absorb1 r_def)
  ultimately have v: "utf8_safe_end (take ?n r) = length (take ?n r)" using nr by simp
  have "?n + (length r - ?n - ?T) = length r - ?T" using d(2) by linarith
  then have "take (length r - ?T) r = take ?n r @ take (length r - ?n - ?T) (drop ?n r)"
    using take_add [of ?n "length r - ?n - ?T" r] by simp
  then have "holdback_trim_len c r = ?n + utf8_safe_end (take (length r - ?n - ?T) (drop ?n r))"
    unfolding holdback_trim_eq [of c r] using utf8_append [OF v] nr by simp
  then show ?thesis unfolding r_def [symmetric] holdback_trim_eq [of c "drop ?n r"] T by simp
qed

lemma trailing_prefix_add:
  assumes p: "p \<noteq> []"
  shows "trailing_prefix_start (rest @ x) p =
    trailing_prefix_start rest p + trailing_prefix_start (drop (trailing_prefix_start rest p) (rest @ x)) p"
proof -
  define r where "r = rest @ x"
  define n where "n = trailing_prefix_start rest p"
  from trailing_prefix_max [OF p] obtain t u v where
    t: "n = length rest - t" "max_tail {p} rest t" and u: "trailing_prefix_start r p = length r - u" "max_tail {p} r u"
    and v: "trailing_prefix_start (drop n r) p = length (drop n r) - v" "max_tail {p} (drop n r) v" unfolding n_def by metis
  have "n \<le> length rest - t" using t(1) by simp
  note d = max_tail_drop [OF t(2) this u(2) [unfolded r_def], folded r_def]
  have "v = u" using max_tail_unique [OF v(2) d(1)] .
  then show ?thesis using u(1) v(1) d(2) unfolding r_def [symmetric] n_def [symmetric] by simp
qed

lemma trailing_prefix_le: "trailing_prefix_start r p \<le> length r"
  by (auto simp: trailing_prefix_start_def split: option.splits)

lemma no_close_before:
  assumes "memmem rest CLOSE = None" and "occurs (rest @ x) CLOSE i"
  shows "trailing_prefix_start rest CLOSE \<le> i"
proof -
  have ne: "CLOSE \<noteq> []" by (simp add: CLOSE_def)
  from trailing_prefix_max [OF ne] obtain t where t: "trailing_prefix_start rest CLOSE = length rest - t" "max_tail {CLOSE} rest t" by blast
  from held_occurrence [OF t(2) _ ne assms(2)] memmem_None [OF ne] assms(1) t(1) show ?thesis by simp
qed

text \<open>Cutting off a part of the buffer in which no event starts only moves the events.\<close>

definition shift_event :: "nat \<Rightarrow> filter_event \<Rightarrow> filter_event" where
  "shift_event n ev = ev\<lparr>at := at ev + n\<rparr>"

lemma earlier_shift: "earlier (map_option (shift_event n) b) (shift_event n ev) = map_option (shift_event n) (earlier b ev)"
  by (cases b) (simp_all add: earlier_def shift_event_def)

lemma earliest_shift:
  assumes "\<And>k m i. (k, m) \<in> set (markers c) \<Longrightarrow> occurs r m i \<Longrightarrow> n \<le> i"
  shows "earliest_event c r = map_option (shift_event n) (earliest_event c (drop n r))"
proof -
  have e: "events_of ms r = map (shift_event n) (events_of ms (drop n r))" if "set ms \<subseteq> set (markers c)" for ms
    using that
  proof (induction ms)
    case (Cons a ms)
    obtain k m where a: "a = (k, m)" by (cases a)
    with Cons.prems have m: "(k, m) \<in> set (markers c)" by simp
    have "memmem r m = map_option ((+) n) (memmem (drop n r) m)"
      using memmem_shift [OF markers_nonempty [OF m]] assms [OF m] by blast
    with Cons a show ?case
      by (cases "memmem (drop n r) m") (simp_all add: events_of_def List.map_filter_simps shift_event_def add.commute)
  qed (simp add: events_of_def List.map_filter_simps)
  have "foldl earlier (map_option (shift_event n) b) (map (shift_event n) es) = map_option (shift_event n) (foldl earlier b es)" for b es
    by (induction es arbitrary: b) (simp_all add: earlier_shift)
  from this [of None] e [of "markers c"] show ?thesis by (simp add: earliest_eq)
qed

lemma markers_watched: "(k, m) \<in> set (markers c) \<Longrightarrow> m \<in> set (watch_list c)"
  by (auto simp: markers_def watch_list_def OPEN_def CLOSE_def split: if_splits)

lemma no_event_before:
  assumes "earliest_event c rest = None" and "(k, m) \<in> set (markers c)" and "occurs (rest @ x) m i"
  shows "holdback_trim_len c rest \<le> i"
proof -
  have "\<not> occurs rest m i" using assms(1,2) earliest_None by blast
  from held_occurrence [OF max_trim_max markers_watched [OF assms(2)] markers_nonempty [OF assms(2)] assms(3) this]
  show ?thesis using holdback_trim_le [of c rest] by linarith
qed

abbreviation feed :: "eos_state \<Rightarrow> byte list \<Rightarrow> eos_state" where
  "feed st x \<equiv> st\<lparr>raw := raw st @ x\<rparr>"

text \<open>The transform on the bytes before and after the cursor, written without the special case for an empty prefix.\<close>

lemma pump_unfold:
  assumes "cursor st < length (raw st)"
  shows "pump c e st =
     (let rest = drop (cursor st) (raw st)
      in if in_think st then
           (case memmem rest CLOSE of
              Some idx \<Rightarrow> pump c e (st\<lparr>cursor := cursor st + idx + length CLOSE, in_think := False\<rparr>)
            | None \<Rightarrow> (st\<lparr>cursor := cursor st + (if e then length rest else trailing_prefix_start rest CLOSE)\<rparr>, None))
         else
           (case earliest_event c rest of
              None \<Rightarrow> let n = (if e then length rest else holdback_trim_len c rest)
                in (st\<lparr>visible := visible st @ take n rest, cursor := cursor st + n\<rparr>, None)
            | Some ev \<Rightarrow>
                let st2 = st\<lparr>visible := visible st @ take (at ev) rest, cursor := cursor st + at ev + len ev\<rparr>
                in (case kind ev of
                      StopEvent \<Rightarrow> commit_stop st2
                    | ThinkOpen \<Rightarrow> pump c e (st2\<lparr>in_think := True\<rparr>)
                    | ThinkClose \<Rightarrow> pump c e st2)))"
proof -
  have z: "(if 0 < n then push_visible st (take n r) else st) = st\<lparr>visible := visible st @ take n r\<rparr>" for n r
    by (simp add: push_visible_def)
  have z': "(if 0 < n then ((push_visible st (take n r))\<lparr>cursor := cursor st + n\<rparr>, None) else (st, None)) =
      (st\<lparr>visible := visible st @ take n r, cursor := cursor st + n\<rparr>, None)" for n r
    by (simp add: push_visible_def)
  show ?thesis using assms by (subst pump.simps) (simp add: z z' Let_def not_le cong: option.case_cong event_kind.case_cong)
qed

lemma commit_stop_raw [simp]: "commit_stop (st\<lparr>raw := r\<rparr>) = commit_stop st"
  by (simp add: commit_stop_def safe_visible_end_def Let_def)

lemma commit_stop_action: "\<exists>a. snd (commit_stop st) = Some a"
  by (simp add: commit_stop_def Let_def)

lemma think_extend:
  assumes t: "in_think st" and cur: "cursor st < length (raw st)" and none: "memmem (drop (cursor st) (raw st)) CLOSE = None"
  shows "pump c False (feed st x) =
    pump c False (feed (st\<lparr>cursor := cursor st + trailing_prefix_start (drop (cursor st) (raw st)) CLOSE\<rparr>) x)"
proof -
  define rest where "rest = drop (cursor st) (raw st)"
  define n where "n = trailing_prefix_start rest CLOSE"
  let ?st1 = "st\<lparr>cursor := cursor st + n\<rparr>"
  have ne: "CLOSE \<noteq> []" by (simp add: CLOSE_def)
  have cur': "cursor (feed st x) < length (raw (feed st x))" using cur by simp
  have r: "drop (cursor st) (raw st @ x) = rest @ x" using cur by (simp add: rest_def)
  then have rf: "drop (cursor (feed st x)) (raw (feed st x)) = rest @ x" by simp
  have nl: "n \<le> length rest" unfolding n_def by (rule trailing_prefix_le)
  have r1: "drop (cursor st + n) (raw st @ x) = drop n (rest @ x)" by (metis add.commute drop_drop r)
  have far: "\<forall>i. occurs (rest @ x) CLOSE i \<longrightarrow> n \<le> i" using no_close_before none unfolding n_def rest_def by blast
  have m: "memmem (rest @ x) CLOSE = map_option ((+) n) (memmem (drop n (rest @ x)) CLOSE)" using memmem_shift [OF ne far] .
  have add: "trailing_prefix_start (rest @ x) CLOSE = n + trailing_prefix_start (drop n (rest @ x)) CLOSE"
    unfolding n_def by (rule trailing_prefix_add [OF ne])
  have L: "pump c False (feed st x) = (case memmem (rest @ x) CLOSE of
      Some idx \<Rightarrow> pump c False ((feed st x)\<lparr>cursor := cursor st + idx + length CLOSE, in_think := False\<rparr>)
    | None \<Rightarrow> ((feed st x)\<lparr>cursor := cursor st + trailing_prefix_start (rest @ x) CLOSE\<rparr>, None))"
    unfolding pump_unfold [OF cur', of c False] rf Let_def using t by (simp del: take_append cong: option.case_cong event_kind.case_cong)
  have "pump c False (feed ?st1 x) = (case memmem (drop n (rest @ x)) CLOSE of
      Some idx \<Rightarrow> pump c False ((feed st x)\<lparr>cursor := cursor st + n + idx + length CLOSE, in_think := False\<rparr>)
    | None \<Rightarrow> ((feed st x)\<lparr>cursor := cursor st + n + trailing_prefix_start (drop n (rest @ x)) CLOSE\<rparr>, None))"
  proof (cases "cursor st + n < length (raw st @ x)")
    case True
    then have c1: "cursor (feed ?st1 x) < length (raw (feed ?st1 x))" by simp
    have rf1: "drop (cursor (feed ?st1 x)) (raw (feed ?st1 x)) = drop n (rest @ x)" using r1 by simp
    show ?thesis unfolding pump_unfold [OF c1, of c False] rf1 Let_def using t by (simp del: drop_append cong: option.case_cong event_kind.case_cong)
  next
    case False
    then have "drop n (rest @ x) = []" unfolding r1 [symmetric] by simp
    moreover have "memmem [] CLOSE = None" by (simp add: CLOSE_def memmem_def windows_def)
    moreover have "trailing_prefix_start [] CLOSE = 0" by (simp add: trailing_prefix_start_def)
    ultimately show ?thesis using False by (subst pump.simps) simp
  qed
  then show ?thesis unfolding L m add n_def [symmetric] rest_def [symmetric] by (simp add: add.assoc split: option.split)
qed

lemma prose_extend:
  assumes t: "\<not> in_think st" and cur: "cursor st < length (raw st)" and none: "earliest_event c (drop (cursor st) (raw st)) = None"
  shows "pump c False (feed st x) =
    pump c False (feed (st\<lparr>visible := visible st @ take (holdback_trim_len c (drop (cursor st) (raw st))) (drop (cursor st) (raw st)),
       cursor := cursor st + holdback_trim_len c (drop (cursor st) (raw st))\<rparr>) x)"
proof -
  define rest where "rest = drop (cursor st) (raw st)"
  define n where "n = holdback_trim_len c rest"
  let ?st1 = "st\<lparr>visible := visible st @ take n rest, cursor := cursor st + n\<rparr>"
  have cur': "cursor (feed st x) < length (raw (feed st x))" using cur by simp
  have r: "drop (cursor st) (raw st @ x) = rest @ x" using cur by (simp add: rest_def)
  then have rf: "drop (cursor (feed st x)) (raw (feed st x)) = rest @ x" by simp
  have nl: "n \<le> length rest" unfolding n_def using holdback_trim_le [of c rest] by simp
  have r1: "drop (cursor st + n) (raw st @ x) = drop n (rest @ x)" by (metis add.commute drop_drop r)
  have tk: "take n rest @ take k (drop n (rest @ x)) = take (n + k) (rest @ x)" for k
    unfolding take_add [of n k] using nl by simp
  have m: "earliest_event c (rest @ x) = map_option (shift_event n) (earliest_event c (drop n (rest @ x)))"
    using no_event_before none unfolding n_def rest_def by (intro earliest_shift) blast
  have add: "holdback_trim_len c (rest @ x) = n + holdback_trim_len c (drop n (rest @ x))"
    unfolding n_def by (rule holdback_trim_add)
  have L: "pump c False (feed st x) = (case earliest_event c (rest @ x) of
      None \<Rightarrow> ((feed st x)\<lparr>visible := visible st @ take (holdback_trim_len c (rest @ x)) (rest @ x),
                cursor := cursor st + holdback_trim_len c (rest @ x)\<rparr>, None)
    | Some ev \<Rightarrow> let st2 = (feed st x)\<lparr>visible := visible st @ take (at ev) (rest @ x), cursor := cursor st + at ev + len ev\<rparr>
        in (case kind ev of StopEvent \<Rightarrow> commit_stop st2 | ThinkOpen \<Rightarrow> pump c False (st2\<lparr>in_think := True\<rparr>)
            | ThinkClose \<Rightarrow> pump c False st2))"
    unfolding pump_unfold [OF cur', of c False] rf Let_def using t by (simp del: take_append cong: option.case_cong event_kind.case_cong)
  have "pump c False (feed ?st1 x) = (case earliest_event c (drop n (rest @ x)) of
      None \<Rightarrow> ((feed st x)\<lparr>visible := visible st @ take (n + holdback_trim_len c (drop n (rest @ x))) (rest @ x),
                cursor := cursor st + n + holdback_trim_len c (drop n (rest @ x))\<rparr>, None)
    | Some ev \<Rightarrow> let st2 = (feed st x)\<lparr>visible := visible st @ take (n + at ev) (rest @ x), cursor := cursor st + n + at ev + len ev\<rparr>
        in (case kind ev of StopEvent \<Rightarrow> commit_stop st2 | ThinkOpen \<Rightarrow> pump c False (st2\<lparr>in_think := True\<rparr>)
            | ThinkClose \<Rightarrow> pump c False st2))"
  proof (cases "cursor st + n < length (raw st @ x)")
    case True
    then have c1: "cursor (feed ?st1 x) < length (raw (feed ?st1 x))" by simp
    have rf1: "drop (cursor (feed ?st1 x)) (raw (feed ?st1 x)) = drop n (rest @ x)" using r1 by simp
    show ?thesis unfolding pump_unfold [OF c1, of c False] rf1 Let_def
      using t by (simp add: tk del: take_append drop_append cong: option.case_cong event_kind.case_cong)
  next
    case False
    then have d: "drop n (rest @ x) = []" unfolding r1 [symmetric] by simp
    have "earliest_event c [] = None"
      using occurs_bound markers_nonempty by (force simp: earliest_None)
    moreover have "holdback_trim_len c [] = 0" by (simp add: holdback_trim_len_def)
    moreover have "take n rest = take n (rest @ x)" using nl by simp
    ultimately show ?thesis using False unfolding d by (subst pump.simps) simp
  qed
  then show ?thesis unfolding L m add n_def [symmetric] rest_def [symmetric]
    by (cases "earliest_event c (drop n (rest @ x))") (simp_all add: shift_event_def ac_simps Let_def del: take_append drop_append)
qed

lemma pump_extend:
  assumes apart: "markers_apart c"
  shows "case pump c False st of (st1, None) \<Rightarrow> pump c False (feed st x) = pump c False (feed st1 x)
    | (st1, Some a) \<Rightarrow> pump c False (feed st x) = (st1, Some a)"
proof (induction "length (raw st) - cursor st" arbitrary: st rule: less_induct)
  case less
  define rest where "rest = drop (cursor st) (raw st)"
  show ?case
  proof (cases "length (raw st) \<le> cursor st")
    case True
    then show ?thesis by (simp add: pump.simps [of c False st])
  next
    case False
    then have cur: "cursor st < length (raw st)" and cur': "cursor (feed st x) < length (raw (feed st x))" by simp_all
    have cur': "cursor (feed st x) < length (raw (feed st x))" using cur by simp
  have r: "drop (cursor st) (raw st @ x) = rest @ x" using cur by (simp add: rest_def)
  then have rf: "drop (cursor (feed st x)) (raw (feed st x)) = rest @ x" by simp
    have rf: "drop (cursor (feed st x)) (raw (feed st x)) = rest @ x" using r by simp
    note U = pump_unfold [OF cur, of c False, folded rest_def, unfolded Let_def]
      and U' = pump_unfold [OF cur', of c False, unfolded rf Let_def]
    have ne: "CLOSE \<noteq> []" by (simp add: CLOSE_def)
    show ?thesis
    proof (cases "in_think st")
      case t: True
      show ?thesis
      proof (cases "memmem rest CLOSE")
        case None
        with t U think_extend [OF t cur, folded rest_def] show ?thesis by simp
      next
        case (Some idx)
        let ?s = "st\<lparr>cursor := cursor st + idx + length CLOSE, in_think := False\<rparr>"
        have eq: "feed ?s x = (feed st x)\<lparr>cursor := cursor st + idx + length CLOSE, in_think := False\<rparr>" by simp
        have "length (raw ?s) - cursor ?s < length (raw st) - cursor st" using cur by (simp add: CLOSE_def)
        from less [OF this] have IH: "case pump c False ?s of (st1, None) \<Rightarrow> pump c False (feed ?s x) = pump c False (feed st1 x)
          | (st1, Some a) \<Rightarrow> pump c False (feed ?s x) = (st1, Some a)" .
        have a: "pump c False st = pump c False ?s" using U t Some by simp
        have b: "pump c False (feed st x) = pump c False (feed ?s x)"
          using U' t memmem_append [OF ne Some, of x] unfolding eq by simp
        show ?thesis unfolding a b using IH .
      qed
    next
      case t: False
      show ?thesis
      proof (cases "earliest_event c rest")
        case None
        with t U prose_extend [OF t cur, folded rest_def] show ?thesis by (simp add: Let_def)
      next
        case (Some ev)
        note ev = earliest_Some(2,3) [OF Some]
        let ?s = "st\<lparr>visible := visible st @ take (at ev) rest, cursor := cursor st + at ev + len ev\<rparr>"
        have tk: "take (at ev) (rest @ x) = take (at ev) rest" using ev(2) by simp
        have eq: "feed ?s x = (feed st x)\<lparr>visible := visible st @ take (at ev) rest, cursor := cursor st + at ev + len ev\<rparr>"
          "feed (?s\<lparr>in_think := True\<rparr>) x =
            (feed st x)\<lparr>visible := visible st @ take (at ev) rest, cursor := cursor st + at ev + len ev, in_think := True\<rparr>" by simp_all
        have e': "earliest_event c (rest @ x) = Some ev" using earliest_append [OF apart Some] .
        have IH: "case pump c False s of (st1, None) \<Rightarrow> pump c False (feed s x) = pump c False (feed st1 x)
          | (st1, Some a) \<Rightarrow> pump c False (feed s x) = (st1, Some a)" if "s = ?s \<or> s = ?s\<lparr>in_think := True\<rparr>" for s
          by (rule less) (use that ev(1) cur in auto)
        show ?thesis
        proof (cases "kind ev")
          case StopEvent
          obtain a where a: "snd (commit_stop ?s) = Some a" using commit_stop_action by blast
          have "pump c False st = commit_stop ?s" using U t Some StopEvent by simp
          moreover have "commit_stop (feed ?s x) = commit_stop ?s" by (rule commit_stop_raw)
          then have "pump c False (feed st x) = commit_stop ?s" using U' t e' StopEvent unfolding eq by (simp add: tk del: take_append)
          ultimately show ?thesis using a by (auto split: prod.splits option.splits)
        next
          case ThinkOpen
          have a: "pump c False st = pump c False (?s\<lparr>in_think := True\<rparr>)" using U t Some ThinkOpen by simp
          have b: "pump c False (feed st x) = pump c False (feed (?s\<lparr>in_think := True\<rparr>) x)"
            using U' t e' ThinkOpen unfolding eq by (simp add: tk del: take_append)
          show ?thesis unfolding a b by (rule IH) simp
        next
          case ThinkClose
          have a: "pump c False st = pump c False ?s" using U t Some ThinkClose by simp
          have b: "pump c False (feed st x) = pump c False (feed ?s x)"
            using U' t e' ThinkClose unfolding eq by (simp add: tk del: take_append)
          show ?thesis unfolding a b by (rule IH) simp
        qed
      qed
    qed
  qed
qed

section \<open>Observing chunk by chunk\<close>

lemma commit_stop_state:
  "fst (commit_stop st) = st\<lparr>stopped := True, raw := [], cursor := 0, visible_emitted := length (visible st)\<rparr>"
  by (simp add: commit_stop_def Let_def)

text \<open>The transform only appends to the visible bytes and never looks at how many were emitted.\<close>

lemma pump_kept:
  "case pump c e st of
     (st1, None) \<Rightarrow> prefix (visible st) (visible st1) \<and> visible_emitted st1 = visible_emitted st \<and> stopped st1 = stopped st
   | (st1, Some a) \<Rightarrow> (\<exists>s. visible_emitted s = visible_emitted st \<and> prefix (visible st) (visible s) \<and> commit_stop s = (st1, Some a))"
proof (induction "length (raw st) - cursor st" arbitrary: st rule: less_induct)
  case less
  show ?case
  proof (cases "length (raw st) \<le> cursor st")
    case True
    then show ?thesis by (simp add: pump.simps [of c e st])
  next
    case False
    then have cur: "cursor st < length (raw st)" by simp
    note U = pump_unfold [OF cur, of c e, unfolded Let_def]
    let ?Q = "\<lambda>st r. case r of
     (st1, None) \<Rightarrow> prefix (visible st) (visible st1) \<and> visible_emitted st1 = visible_emitted st \<and> stopped st1 = stopped st
   | (st1, Some a) \<Rightarrow> (\<exists>s. visible_emitted s = visible_emitted st \<and> prefix (visible st) (visible s) \<and> commit_stop s = (st1, Some a))"
    have step: "?Q st (pump c e s)" if "visible_emitted s = visible_emitted st" "stopped s = stopped st" "prefix (visible st) (visible s)"
      "length (raw s) - cursor s < length (raw st) - cursor st" for s
      using less [OF that(4)] that(1-3) prefix_order.trans [OF that(3)] by (auto split: prod.splits option.splits)
    show ?thesis
    proof (cases "in_think st")
      case t: True
      show ?thesis
      proof (cases "memmem (drop (cursor st) (raw st)) CLOSE")
        case None
        then show ?thesis using U t by simp
      next
        case (Some idx)
        let ?s = "st\<lparr>cursor := cursor st + idx + length CLOSE, in_think := False\<rparr>"
        have "pump c e st = pump c e ?s" using U t Some by simp
        then show ?thesis using step [of ?s] cur by (simp add: CLOSE_def)
      qed
    next
      case t: False
      show ?thesis
      proof (cases "earliest_event c (drop (cursor st) (raw st))")
        case None
        then show ?thesis using U t by simp
      next
        case (Some ev)
        note ev = earliest_Some(2) [OF Some]
        let ?s = "st\<lparr>visible := visible st @ take (at ev) (drop (cursor st) (raw st)), cursor := cursor st + at ev + len ev\<rparr>"
        show ?thesis
        proof (cases "kind ev")
          case StopEvent
          then have p: "pump c e st = commit_stop ?s" using U t Some by simp
          obtain s1 a where "commit_stop ?s = (s1, Some a)" using commit_stop_action [of ?s] by (metis prod.collapse)
          then show ?thesis unfolding p by (auto intro!: exI [of _ ?s])
        next
          case ThinkOpen
          then have "pump c e st = pump c e (?s\<lparr>in_think := True\<rparr>)" using U t Some by simp
          then show ?thesis using step [of "?s\<lparr>in_think := True\<rparr>"] cur ev by simp
        next
          case ThinkClose
          then have "pump c e st = pump c e ?s" using U t Some by simp
          then show ?thesis using step [of ?s] cur ev by simp
        qed
      qed
    qed
  qed
qed

lemma pump_emitted:
  "case pump c e st of (st1, None) \<Rightarrow> pump c e (st\<lparr>visible_emitted := n\<rparr>) = (st1\<lparr>visible_emitted := n\<rparr>, None)
   | (st1, Some a) \<Rightarrow> \<exists>a'. pump c e (st\<lparr>visible_emitted := n\<rparr>) = (st1, Some a')"
proof (induction "length (raw st) - cursor st" arbitrary: st rule: less_induct)
  case less
  let ?st = "st\<lparr>visible_emitted := n\<rparr>"
  show ?case
  proof (cases "length (raw st) \<le> cursor st")
    case True
    then show ?thesis by (simp add: pump.simps [of c e st] pump.simps [of c e ?st])
  next
    case False
    then have cur: "cursor st < length (raw st)" "cursor ?st < length (raw ?st)" by simp_all
    note U = pump_unfold [OF cur(1), of c e, unfolded Let_def] and U' = pump_unfold [OF cur(2), of c e, unfolded Let_def]
    let ?Q = "\<lambda>r r'. case r of (st1, None) \<Rightarrow> r' = (st1\<lparr>visible_emitted := n\<rparr>, None) | (st1, Some a) \<Rightarrow> \<exists>a'. r' = (st1, Some a')"
    have step: "?Q (pump c e s) (pump c e s')" if "s' = s\<lparr>visible_emitted := n\<rparr>" "length (raw s) - cursor s < length (raw st) - cursor st" for s s'
      unfolding that(1) using less [OF that(2)] .
    show ?thesis
    proof (cases "in_think st")
      case t: True
      show ?thesis
      proof (cases "memmem (drop (cursor st) (raw st)) CLOSE")
        case None
        then show ?thesis using U U' t by simp
      next
        case (Some idx)
        let ?s = "st\<lparr>cursor := cursor st + idx + length CLOSE, in_think := False\<rparr>"
        let ?s' = "?st\<lparr>cursor := cursor st + idx + length CLOSE, in_think := False\<rparr>"
        have p: "pump c e st = pump c e ?s" "pump c e ?st = pump c e ?s'" using U U' t Some by simp_all
        show ?thesis unfolding p by (rule step) (use cur in \<open>simp_all add: CLOSE_def\<close>)
      qed
    next
      case t: False
      show ?thesis
      proof (cases "earliest_event c (drop (cursor st) (raw st))")
        case None
        then show ?thesis using U U' t by simp
      next
        case (Some ev)
        note ev = earliest_Some(2) [OF Some]
        let ?v = "visible st @ take (at ev) (drop (cursor st) (raw st))" and ?k = "cursor st + at ev + len ev"
        show ?thesis
        proof (cases "kind ev")
          case StopEvent
          then have p: "pump c e st = commit_stop (st\<lparr>visible := ?v, cursor := ?k\<rparr>)"
            "pump c e ?st = commit_stop (?st\<lparr>visible := ?v, cursor := ?k\<rparr>)" using U U' t Some by simp_all
          have "fst (commit_stop (?st\<lparr>visible := ?v, cursor := ?k\<rparr>)) = fst (commit_stop (st\<lparr>visible := ?v, cursor := ?k\<rparr>))"
            by (simp add: commit_stop_state)
          with commit_stop_action [of "st\<lparr>visible := ?v, cursor := ?k\<rparr>"] commit_stop_action [of "?st\<lparr>visible := ?v, cursor := ?k\<rparr>"]
          show ?thesis unfolding p by (auto simp: split_beta prod_eq_iff)
        next
          case ThinkOpen
          then have p: "pump c e st = pump c e (st\<lparr>visible := ?v, cursor := ?k, in_think := True\<rparr>)"
            "pump c e ?st = pump c e (?st\<lparr>visible := ?v, cursor := ?k, in_think := True\<rparr>)" using U U' t Some by simp_all
          show ?thesis unfolding p by (rule step) (use cur ev in simp_all)
        next
          case ThinkClose
          then have p: "pump c e st = pump c e (st\<lparr>visible := ?v, cursor := ?k\<rparr>)"
            "pump c e ?st = pump c e (?st\<lparr>visible := ?v, cursor := ?k\<rparr>)" using U U' t Some by simp_all
          show ?thesis unfolding p by (rule step) (use cur ev in simp_all)
        qed
      qed
    qed
  qed
qed

fun out_bytes :: "filter_action \<Rightarrow> byte list" where
  "out_bytes (Emit b) = b"
| "out_bytes (EmitAndStop b) = b"
| "out_bytes _ = []"

text \<open>A generation: observe the chunks one after the other, collecting what is emitted.\<close>

fun run_chunks :: "eos_config \<Rightarrow> eos_state \<Rightarrow> byte list list \<Rightarrow> eos_state \<times> byte list" where
  "run_chunks c st [] = (st, [])"
| "run_chunks c st (b # bs) =
     (let (st1, a) = observe c st b; (st2, out) = run_chunks c st1 bs in (st2, out_bytes a @ out))"

definition emit_ok :: "eos_state \<Rightarrow> bool" where
  "emit_ok st \<longleftrightarrow> \<not> stopped st \<and> visible_emitted st = utf8_safe_end (visible st)"

abbreviation safe_part :: "eos_state \<Rightarrow> byte list" where
  "safe_part st \<equiv> take (utf8_safe_end (visible st)) (visible st)"

lemma utf8_resume: "prefix v w \<Longrightarrow> utf8_safe_end w = utf8_safe_end v + utf8_safe_end (drop (utf8_safe_end v) w)"
proof -
  assume p: "prefix v w"
  let ?n = "utf8_safe_end v"
  have t: "take ?n w = take ?n v" using p utf8_le [of v] by (auto simp: prefix_def)
  have "utf8_safe_end (take ?n w) = length (take ?n w)" unfolding t using utf8_prefix [of v] utf8_le [of v] by simp
  from utf8_append [OF this, of "drop ?n w"] show ?thesis
    using p utf8_le [of v] prefix_length_le [OF p] by simp
qed

lemma safe_end_resume:
  assumes "visible_emitted st = utf8_safe_end v" and "prefix v (visible st)"
  shows "safe_visible_end st = utf8_safe_end (visible st)"
proof (cases "length (visible st) \<le> utf8_safe_end v")
  case True
  then have "length (visible st) \<le> length v" using utf8_le [of v] by simp
  then have "v = visible st" using assms(2) by (auto simp: prefix_def)
  then show ?thesis using assms(1) True by (simp add: safe_visible_end_def)
next
  case False
  then show ?thesis using utf8_resume [OF assms(2)] assms(1) by (simp add: safe_visible_end_def)
qed

lemma commit_stop_out:
  assumes "visible_emitted s = utf8_safe_end v" and "prefix v (visible s)" and "commit_stop s = (st1, Some a)"
  shows "out_bytes a = drop (utf8_safe_end v) (safe_part s)" "visible st1 = visible s" "stopped st1"
proof -
  have "safe_visible_end (s\<lparr>stopped := True, raw := [], cursor := 0\<rparr>) = utf8_safe_end (visible s)"
    using safe_end_resume [of "s\<lparr>stopped := True, raw := [], cursor := 0\<rparr>" v] assms(1,2) by simp
  then show "out_bytes a = drop (utf8_safe_end v) (safe_part s)" "visible st1 = visible s" "stopped st1"
    using assms(1,3) by (auto simp: commit_stop_def Let_def drop_take split: if_splits)
qed

lemma observe_eq:
  assumes ok: "emit_ok st"
  shows "fst (observe c st b) = (case pump c False (feed st b) of (st1, None) \<Rightarrow> st1\<lparr>visible_emitted := utf8_safe_end (visible st1)\<rparr>
      | (st1, Some a) \<Rightarrow> st1)" (is ?A)
    and "out_bytes (snd (observe c st b)) = drop (visible_emitted st) (safe_part (fst (observe c st b)))" (is ?B)
    and "emit_ok (fst (observe c st b)) \<or> stopped (fst (observe c st b))" (is ?C)
    and "utf8_safe_end (visible st) \<le> utf8_safe_end (visible (fst (observe c st b))) \<and> prefix (visible st) (visible (fst (observe c st b)))" (is ?D)
proof -
  have e: "\<not> stopped st" "visible_emitted st = utf8_safe_end (visible st)" using ok by (simp_all add: emit_ok_def)
  have "?A \<and> ?B \<and> ?C \<and> ?D"
  proof (cases "b = [] \<and> raw st = [] \<and> length (visible st) \<le> visible_emitted st")
    case True
    then have "pump c False (feed st b) = (st, None)" by (subst pump.simps) simp
    moreover have "observe c st b = (st, Hold)" using True e(1) by (simp add: observe_def)
    ultimately show ?thesis using e ok utf8_le [of "visible st"] by (simp add: emit_ok_def)
  next
    case False
    obtain st1 r where p: "pump c False (feed st b) = (st1, r)" by (metis surj_pair)
    note k = pump_kept [where c = c and e = False and st = "feed st b", unfolded p]
    show ?thesis
    proof (cases r)
      case None
      then have k': "prefix (visible st) (visible st1)" "visible_emitted st1 = utf8_safe_end (visible st)" "\<not> stopped st1"
        using k e by simp_all
      have s: "safe_visible_end st1 = utf8_safe_end (visible st1)" using safe_end_resume [OF k'(2,1)] .
      have "utf8_safe_end (visible st) \<le> utf8_safe_end (visible st1)" using utf8_resume [OF k'(1)] by simp
      then show ?thesis using False e None p s k' by (auto simp: observe_def Let_def emit_ok_def drop_take)
    next
      case (Some a)
      then obtain s where s: "visible_emitted s = utf8_safe_end (visible st)" "prefix (visible st) (visible s)" "commit_stop s = (st1, Some a)"
        using k e by auto
      note co = commit_stop_out [OF s]
      have "utf8_safe_end (visible st) \<le> utf8_safe_end (visible st1)" using utf8_resume [OF s(2)] co(2) by simp
      then show ?thesis using False e Some p co s(2) by (auto simp: observe_def)
    qed
  qed
  then show ?A ?B ?C ?D by blast+
qed

lemma observe_stopped: "stopped st \<Longrightarrow> observe c st b = (st, Hold)"
  by (simp add: observe_def)

text \<open>Two observations in a row leave the filter in the state that one observation of both chunks does.\<close>

lemma observe_append:
  assumes apart: "markers_apart c" and ok: "emit_ok st"
  shows "fst (observe c (fst (observe c st x)) y) = fst (observe c st (x @ y))"
proof -
  obtain st1 r where p: "pump c False (feed st x) = (st1, r)" by (metis surj_pair)
  note ext = pump_extend [OF apart, where st = "feed st x" and x = y, unfolded p]
  have f: "feed st (x @ y) = feed (feed st x) y" by simp
  show ?thesis
  proof (cases r)
    case (Some a)
    then have "pump c False (feed st (x @ y)) = (st1, Some a)" using ext unfolding f by simp
    then have "fst (observe c st (x @ y)) = st1" "fst (observe c st x) = st1" using observe_eq(1) [OF ok] p Some by simp_all
    moreover have "stopped st1" using pump_kept [where c = c and e = False and st = "feed st x", unfolded p] Some commit_stop_state by (auto simp: prod_eq_iff)
    ultimately show ?thesis by (simp add: observe_stopped)
  next
    case None
    let ?st1 = "st1\<lparr>visible_emitted := utf8_safe_end (visible st1)\<rparr>"
    have o1: "fst (observe c st x) = ?st1" using observe_eq(1) [OF ok, of c x] p None by simp
    have "\<not> stopped st1" using pump_kept [where c = c and e = False and st = "feed st x", unfolded p] None ok by (simp add: emit_ok_def)
    then have ok1: "emit_ok ?st1" by (simp add: emit_ok_def)
    have q: "pump c False (feed st (x @ y)) = pump c False (feed st1 y)" using ext None unfolding f by simp
    obtain st2 r2 where p2: "pump c False (feed st1 y) = (st2, r2)" by (metis surj_pair)
    have f1: "feed ?st1 y = (feed st1 y)\<lparr>visible_emitted := utf8_safe_end (visible st1)\<rparr>" by simp
    note em = pump_emitted [where c = c and e = False and st = "feed st1 y" and n = "utf8_safe_end (visible st1)", unfolded p2, folded f1]
    show ?thesis
      unfolding o1 using observe_eq(1) [OF ok1, of c y] observe_eq(1) [OF ok, of c "x @ y"] q p2 em
      by (cases r2) auto
  qed
qed

text \<open>A state in which nothing is waiting to be classified: a fresh one, or one left by an observation.\<close>

definition settled :: "eos_config \<Rightarrow> eos_state \<Rightarrow> bool" where
  "settled c st \<longleftrightarrow> stopped st \<or> emit_ok st \<and> fst (observe c st []) = st"

lemma settled_reset: "settled c (eos_reset c)"
  by (simp add: settled_def emit_ok_def eos_reset_def observe_def)

lemma settled_observe: "markers_apart c \<Longrightarrow> emit_ok st \<Longrightarrow> settled c (fst (observe c st b))"
  using observe_append [of c st b "[]"] observe_eq(3) [of st c b] by (auto simp: settled_def)

lemma run_stopped: "stopped st \<Longrightarrow> run_chunks c st bs = (st, [])"
  by (induction bs) (simp_all add: observe_stopped)

lemma run_chunks_eq:
  assumes apart: "markers_apart c" and ok: "settled c st" and go: "emit_ok st"
  shows "fst (run_chunks c st bs) = fst (observe c st (concat bs)) \<and>
    snd (run_chunks c st bs) = drop (visible_emitted st) (safe_part (fst (run_chunks c st bs)))"
  using ok go
proof (induction bs arbitrary: st)
  case Nil
  then have "visible_emitted st = utf8_safe_end (visible st)" "fst (observe c st []) = st"
    by (auto simp: settled_def emit_ok_def)
  then show ?case by simp
next
  case (Cons b bs)
  obtain st1 a where o: "observe c st b = (st1, a)" by (metis surj_pair)
  have a: "out_bytes a = drop (visible_emitted st) (safe_part st1)" using observe_eq(2) [OF Cons.prems(2), of c b] o by simp
  have app: "fst (observe c st1 (concat bs)) = fst (observe c st (b @ concat bs))"
    using observe_append [OF apart Cons.prems(2), of b "concat bs"] o by simp
  consider (stop) "stopped st1" | (go) "emit_ok st1" using observe_eq(3) [OF Cons.prems(2), of c b] o by auto
  then show ?case
  proof cases
    case stop
    then show ?thesis using o a app run_stopped [OF stop, of c bs] by (simp add: observe_stopped)
  next
    case go
    have "settled c st1" using settled_observe [OF apart Cons.prems(2), of b] o by simp
    from Cons.IH [OF this go] obtain st2 out where r: "run_chunks c st1 bs = (st2, out)" "st2 = fst (observe c st1 (concat bs))"
      "out = drop (visible_emitted st1) (safe_part st2)" by (metis fst_conv snd_conv surj_pair)
    have e: "visible_emitted st1 = utf8_safe_end (visible st1)" "visible_emitted st = utf8_safe_end (visible st)"
      using go Cons.prems(2) by (simp_all add: emit_ok_def)
    have mono: "utf8_safe_end (visible st) \<le> utf8_safe_end (visible st1)" "utf8_safe_end (visible st1) \<le> utf8_safe_end (visible st2)"
      "prefix (visible st1) (visible st2)"
      using observe_eq(4) [OF Cons.prems(2), of c b] observe_eq(4) [OF go, of c "concat bs"] o r(2) by auto
    have "safe_part st1 = take (utf8_safe_end (visible st1)) (safe_part st2)"
      using mono(2,3) utf8_le [of "visible st1"] by (auto simp: prefix_def min_def)
    then have "safe_part st2 = safe_part st1 @ drop (utf8_safe_end (visible st1)) (safe_part st2)"
      by (metis append_take_drop_id)
    moreover have "length (safe_part st1) = utf8_safe_end (visible st1)" using utf8_le [of "visible st1"] by simp
    ultimately have "drop (visible_emitted st) (safe_part st2) =
        drop (visible_emitted st) (safe_part st1) @ drop (utf8_safe_end (visible st1)) (safe_part st2)"
      using mono(1) e(2) by (metis append_Nil diff_is_0_eq drop0 drop_append)
    then show ?thesis using o a app r e(1) by simp
  qed
qed

text \<open>
  Property C24. The filter is invariant under chunking, stop markers included: as long as no marker
  lies inside another, the bytes emitted for a generation and the state the filter ends in depend
  only on the decoded byte stream, not on how it was cut into tokens. Without the condition this
  fails, since a shorter marker can be seen complete before the longer one around it.
\<close>

theorem eos_chunk_invariant:
  assumes "markers_apart c"
  shows "run_chunks c (eos_reset c) chunks = run_chunks c (eos_reset c) [concat chunks]"
proof -
  have e: "emit_ok (eos_reset c)" by (simp add: emit_ok_def eos_reset_def)
  note r = run_chunks_eq [OF assms settled_reset e]
  show ?thesis using r [of chunks] r [of "[concat chunks]"] by (simp add: prod_eq_iff)
qed

definition demo_filter :: eos_config where
  "demo_filter = \<lparr>strip_think = True, started_in_think = False, stop_at = [[60, 124, 101, 124, 62]], holdback_prefixes = []\<rparr>"

lemma demo_filter_apart: "markers_apart demo_filter"
  by (simp add: markers_apart_def markers_def demo_filter_def OPEN_def CLOSE_def sublist_code)

theorem eos_chunk_invariant_witness:
  "run_chunks demo_filter (eos_reset demo_filter) [[104, 60, 124], [101, 124], [62, 105]] =
   run_chunks demo_filter (eos_reset demo_filter) [[104, 60, 124, 101, 124, 62, 105]]"
  using eos_chunk_invariant [OF demo_filter_apart, of "[[104, 60, 124], [101, 124], [62, 105]]"] by simp

text \<open>Where a generation must stop when no think block is stripped.\<close>

definition stop_here :: "eos_config \<Rightarrow> byte list \<Rightarrow> nat \<Rightarrow> bool" where
  "stop_here c s i \<longleftrightarrow> (\<exists>n\<in>set (stop_at c). n \<noteq> [] \<and> occurs s n i)"

lemma markers_plain: "\<not> strip_think c \<Longrightarrow> (k, n) \<in> set (markers c) \<longleftrightarrow> k = StopEvent \<and> n \<in> set (stop_at c) \<and> n \<noteq> []"
  by (auto simp: markers_def)

lemma plain_observe:
  assumes ns: "\<not> strip_think c"
  shows "earliest_event c s = None \<Longrightarrow> fst (observe c (eos_reset c) s) =
      \<lparr>raw = s, cursor = holdback_trim_len c s, visible = take (holdback_trim_len c s) s, visible_emitted = holdback_trim_len c s,
       in_think = False, stopped = False\<rparr>"
    and "earliest_event c s = Some ev \<Longrightarrow> stopped (fst (observe c (eos_reset c) s)) \<and> visible (fst (observe c (eos_reset c) s)) = take (at ev) s"
proof -
  let ?st = "feed (eos_reset c) s"
  have e: "emit_ok (eos_reset c)" by (simp add: emit_ok_def eos_reset_def)
  have st: "raw ?st = s" "cursor ?st = 0" "visible ?st = []" "\<not> in_think ?st" "visible_emitted ?st = 0"
    using ns by (simp_all add: eos_reset_def)
  show "stopped (fst (observe c (eos_reset c) s)) \<and> visible (fst (observe c (eos_reset c) s)) = take (at ev) s" if ev: "earliest_event c s = Some ev"
  proof -
    have k: "kind ev = StopEvent" using earliest_Some(1) [OF ev] markers_plain [OF ns] by blast
    have "s \<noteq> []" using earliest_Some(2,3) [OF ev] by auto
    then have p: "pump c False ?st = commit_stop (?st\<lparr>visible := take (at ev) s, cursor := at ev + len ev\<rparr>)"
      using pump_unfold [of ?st c False] st ev k by (simp add: Let_def)
    have f: "fst (observe c (eos_reset c) s) = fst (commit_stop (?st\<lparr>visible := take (at ev) s, cursor := at ev + len ev\<rparr>))"
      using observe_eq(1) [OF e, of c s] p commit_stop_action [of "?st\<lparr>visible := take (at ev) s, cursor := at ev + len ev\<rparr>"]
      by (auto split: prod.splits option.splits)
    show ?thesis unfolding f commit_stop_state by simp
  qed
  assume none: "earliest_event c s = None"
  have p: "pump c False ?st = (?st\<lparr>visible := take (holdback_trim_len c s) s, cursor := holdback_trim_len c s\<rparr>, None)"
  proof (cases "s = []")
    case True
    then show ?thesis using st by (subst pump.simps) (simp add: holdback_trim_len_def)
  next
    case False
    then show ?thesis using pump_unfold [of ?st c False] st none by (simp add: Let_def)
  qed
  let ?n = "holdback_trim_len c s"
  let ?e = "length s - max_trim_of (watch_list c) s"
  have "utf8_safe_end (take ?n (take ?e s)) = ?n" unfolding holdback_trim_eq by (rule utf8_prefix)
  then have u: "utf8_safe_end (take ?n s) = ?n" using holdback_trim_le [of c s] by (simp add: min_absorb1)
  have "fst (observe c (eos_reset c) s) = (?st\<lparr>visible := take ?n s, cursor := ?n\<rparr>)\<lparr>visible_emitted := utf8_safe_end (take ?n s)\<rparr>"
    unfolding observe_eq(1) [OF e, of c s] p by simp
  then show "fst (observe c (eos_reset c) s) =
      \<lparr>raw = s, cursor = ?n, visible = take ?n s, visible_emitted = ?n, in_think = False, stopped = False\<rparr>"
    using ns u by (simp add: eos_reset_def)
qed


definition plain_filter :: eos_config where
  "plain_filter = \<lparr>strip_think = False, started_in_think = False, stop_at = [[60, 124]], holdback_prefixes = []\<rparr>"


text \<open>The condition on the markers is needed: with the markers \<^verbatim>\<open>abc\<close> and \<^verbatim>\<open>b\<close> the cut decides.\<close>

definition nested_filter :: eos_config where
  "nested_filter = \<lparr>strip_think = False, started_in_think = False, stop_at = [[97, 98, 99], [98]], holdback_prefixes = []\<rparr>"

lemma nested_markers_depend_on_chunks:
  "snd (run_chunks nested_filter (eos_reset nested_filter) [[97, 98, 99]]) \<noteq>
   snd (run_chunks nested_filter (eos_reset nested_filter) [[97, 98], [99]])"
  by code_simp

end
