(* ===== verification/Decode_Loop.thy ===== *)
theory Decode_Loop
  imports Spec_Decode Tokenizer Eos_Filter
begin

text \<open>
  The two decode loops of the daemon for the document model (\<^verbatim>\<open>hipfire-runtime/examples/daemon.rs\<close>): the greedy loop at the
  end of \<^verbatim>\<open>generate_vl_dots_ocr\<close> and the speculative loop \<^verbatim>\<open>run_dots_ocr_ngram_loop\<close>, over the targets of
  \<^verbatim>\<open>hipfire-arch-dots-ocr/src/spec_impl.rs\<close>. Both stream the same way; the source claims that their output is
  the same byte for byte, and that is the theorem. The network that has seen the image is the parameter
  \<open>net\<close> (a row may depend on its position, so the spliced image rows are part of it).
\<close>

section \<open>Streaming a token\<close>

datatype client_event = Committed token nat | TokenText "byte list"

record stream =
  streamed :: "token list"
  emitted_bytes :: nat
  generated :: nat
  events :: "client_event list"

definition stream_start :: stream where
  "stream_start = \<lparr>streamed = [], emitted_bytes = 0, generated = 0, events = []\<rparr>"

text \<open>\<open>emit_ids\<close> is the flag of \<^verbatim>\<open>emit_committed_event\<close>. Only complete code points are sent.\<close>

definition stream_token :: "bool \<Rightarrow> tokenizer \<Rightarrow> token \<Rightarrow> stream \<Rightarrow> stream option" where
  "stream_token emit_ids tk tok st =
     (let ev = (if emit_ids then [Committed tok (generated st)] else []);
          toks = streamed st @ [tok];
          all_bytes = decode_bytes tk toks
      in do {
        new_bytes \<leftarrow> slice all_bytes (emitted_bytes st) (length all_bytes);
        let valid_len = utf8_safe_end new_bytes;
        Some \<lparr>streamed = toks, emitted_bytes = emitted_bytes st + valid_len, generated = generated st + 1,
              events = events st @ ev @ (if 0 < valid_len then [TokenText (take valid_len new_bytes)] else [])\<rparr>
      })"

fun stream_all :: "bool \<Rightarrow> tokenizer \<Rightarrow> token list \<Rightarrow> stream \<Rightarrow> stream option" where
  "stream_all emit_ids tk [] st = Some st"
| "stream_all emit_ids tk (t # ts) st = Option.bind (stream_token emit_ids tk t st) (stream_all emit_ids tk ts)"

lemma stream_token_fields:
  "stream_token emit_ids tk tok st = Some st' \<Longrightarrow> generated st' = Suc (generated st) \<and> streamed st' = streamed st @ [tok]"
  by (auto simp: stream_token_def Let_def split: Option.bind_splits)

definition eos_set :: "token list \<Rightarrow> token \<Rightarrow> token list" where
  "eos_set eos_token_ids eos_token_id = (if eos_token_ids = [] then [eos_token_id] else eos_token_ids)"

section \<open>The greedy loop\<close>

datatype loop_end = LoopDone | LoopCancelled | LoopFailed spec_error

definition forward_step_greedy :: "('r, unit) net \<Rightarrow> 'r qwen2_state \<Rightarrow> token \<Rightarrow> 'r qwen2_state \<times> (spec_error + token)" where
  "forward_step_greedy net s tok =
     (case forward_step net s tok of
        (s1, Inl e) \<Rightarrow> (s1, Inl e)
      | (s1, Inr _) \<Rightarrow> (case gpu_call s1 of (s2, False) \<Rightarrow> (s2, Inl TargetFailed) | (s2, True) \<Rightarrow> (s2, Inr (last_pick s2))))"

function ar_loop ::
  "('r, unit) net \<Rightarrow> bool \<Rightarrow> tokenizer \<Rightarrow> token list \<Rightarrow> nat \<Rightarrow> 'r qwen2_state \<Rightarrow> token \<Rightarrow> stream \<Rightarrow>
   ('r qwen2_state \<times> stream \<times> loop_end) option" where
  "ar_loop net emit_ids tk eos max_tokens s next st =
     (if \<not> generated st < max_tokens \<or> next \<in> set eos then Some (s, st, LoopDone)
      else do {
        st1 \<leftarrow> stream_token emit_ids tk next st;
        (case forward_step_greedy net s next of
           (s1, Inl e) \<Rightarrow> Some (s1, st1, LoopFailed e)
         | (s1, Inr t) \<Rightarrow> ar_loop net emit_ids tk eos max_tokens s1 t st1)
      })"
  by pat_completeness auto
termination
  by (relation "measure (\<lambda>(net, emit_ids, tk, eos, max_tokens, s, next, st). max_tokens - generated st)")
     (auto dest!: stream_token_fields)

declare ar_loop.simps [simp del]

definition ar_decode ::
  "('r, unit) net \<Rightarrow> bool \<Rightarrow> tokenizer \<Rightarrow> token list \<Rightarrow> nat \<Rightarrow> 'r qwen2_state \<Rightarrow> ('r qwen2_state \<times> stream \<times> loop_end) option" where
  "ar_decode net emit_ids tk eos max_tokens s =
     (case gpu_call s of
        (s1, False) \<Rightarrow> Some (s1, stream_start, LoopFailed TargetFailed)
      | (s1, True) \<Rightarrow> ar_loop net emit_ids tk eos max_tokens s1 (last_pick s1) stream_start)"

section \<open>The speculative loop\<close>

text \<open>The tokens of one window; the flag is the break out of both loops.\<close>

fun stream_window :: "bool \<Rightarrow> tokenizer \<Rightarrow> token list \<Rightarrow> nat \<Rightarrow> token list \<Rightarrow> stream \<Rightarrow> (stream \<times> bool) option" where
  "stream_window emit_ids tk eos max_tokens [] st = Some (st, False)"
| "stream_window emit_ids tk eos max_tokens (tok # toks) st =
     (if max_tokens \<le> generated st then Some (st, True)
      else if tok \<in> set eos then Some (st, True)
      else Option.bind (stream_token emit_ids tk tok st) (stream_window emit_ids tk eos max_tokens toks))"

text \<open>
  \<open>step\<close> is \<^verbatim>\<open>Speculator::step\<close>, \<open>bs\<close> and \<open>cap\<close> the block size and context capacity read once before the loop,
  \<open>aborts\<close> what the cancel test answers from window to window. The tokens given to the drafter are those
  streamed so far.
\<close>

partial_function (option) ngram_loop ::
  "('ch \<Rightarrow> 's \<Rightarrow> nat \<Rightarrow> token \<Rightarrow> token list \<Rightarrow> nat \<Rightarrow> ('ch \<times> 's \<times> (spec_error + spec_step)) option) \<Rightarrow>
   bool \<Rightarrow> tokenizer \<Rightarrow> token list \<Rightarrow> nat \<Rightarrow> nat \<Rightarrow> nat \<Rightarrow> bool list \<Rightarrow>
   'ch \<Rightarrow> 's \<Rightarrow> nat \<Rightarrow> token \<Rightarrow> token list \<Rightarrow> stream \<Rightarrow> ('ch \<times> 's \<times> stream \<times> loop_end) option" where
  "ngram_loop step emit_ids tk eos max_tokens bs cap aborts ch s pos seed window st =
     (case stream_window emit_ids tk eos max_tokens window st of
        None \<Rightarrow> None
      | Some (st1, brk) \<Rightarrow>
          if brk then Some (ch, s, st1, LoopDone)
          else if max_tokens \<le> generated st1 then Some (ch, s, st1, LoopDone)
          else if aborts \<noteq> [] \<and> hd aborts then Some (ch, s, st1, LoopDone)
          else if cap \<le> saturating_add64 pos bs then Some (ch, s, st1, LoopDone)
          else
            (case step ch s pos seed (streamed st1) (max_tokens - generated st1) of
               None \<Rightarrow> None
             | Some (ch1, s1, Inl e) \<Rightarrow> Some (ch1, s1, st1, LoopFailed e)
             | Some (ch1, s1, Inr sp) \<Rightarrow>
                 ngram_loop step emit_ids tk eos max_tokens bs cap (tl aborts) ch1 s1
                   (pos + length (emit sp)) (next_seed sp) (emit sp) st1))"

definition dots_new_scratch :: "'r qwen2_state \<Rightarrow> nat \<Rightarrow> 'r qwen2_state \<times> (spec_error + unit)" where
  "dots_new_scratch s bs = (s, Inr ())"

definition no_sampled_verify ::
  "'s \<Rightarrow> 'c \<Rightarrow> token list \<Rightarrow> nat \<Rightarrow> 'f \<Rightarrow> 'f \<Rightarrow> nat \<Rightarrow> 64 word \<Rightarrow> ('s \<times> 'c \<times> 64 word \<times> (spec_error + token list)) option" where
  "no_sampled_verify s c block pos temp top_p top_k rng = Some (s, c, rng, Inl NoSampledVerify)"

definition dots_step ::
  "('f \<Rightarrow> bool) \<Rightarrow> hist_order \<Rightarrow> ('r, unit) net \<Rightarrow> (ngram_drafter, unit, 'f) chain_spec \<Rightarrow> 'r qwen2_state \<Rightarrow> nat \<Rightarrow> token \<Rightarrow>
   token list \<Rightarrow> nat \<Rightarrow> ((ngram_drafter, unit, 'f) chain_spec \<times> 'r qwen2_state \<times> (spec_error + spec_step)) option" where
  "dots_step hot order net =
     chain_step hot (qwen2_verify net False) no_sampled_verify qwen2_commit_prefix (propose order) drafter_observe"

definition run_dots_ocr_ngram_loop ::
  "('f \<Rightarrow> bool) \<Rightarrow> ('l \<Rightarrow> 'f \<Rightarrow> 'f \<Rightarrow> nat \<Rightarrow> 64 word \<Rightarrow> 64 word \<times> token) \<Rightarrow> hist_order \<Rightarrow> ('r, unit) net \<Rightarrow> bool \<Rightarrow> tokenizer \<Rightarrow>
   token list \<Rightarrow> nat \<Rightarrow> bool list \<Rightarrow> bool list \<Rightarrow> (ngram_drafter, unit, 'f) chain_spec \<Rightarrow> 'r qwen2_state \<Rightarrow> token list \<Rightarrow>
   ((ngram_drafter, unit, 'f) chain_spec \<times> 'r qwen2_state \<times> stream \<times> loop_end) option" where
  "run_dots_ocr_ngram_loop hot nucleus order net emit_ids tk eos max_tokens aborts0 aborts ch s prompt_ids =
     (case chain_prefill hot nucleus dots_new_scratch (qwen2_advance net) prefill_seed ch s prompt_ids [] (length prompt_ids) True aborts0 of
        (ch1, s1, Inl e) \<Rightarrow> Some (ch1, s1, stream_start, LoopFailed e)
      | (ch1, s1, Inr PrefillAborted) \<Rightarrow> Some (ch1, s1, stream_start, LoopCancelled)
      | (ch1, s1, Inr (PrefillReady first_token)) \<Rightarrow>
          ngram_loop (dots_step hot order net) emit_ids tk eos max_tokens (block_size ch) (ctx_capacity ch) aborts ch1 s1
            (length prompt_ids) first_token [first_token] stream_start)"

section \<open>What a stream holds\<close>

fun event_text :: "client_event \<Rightarrow> byte list" where
  "event_text (TokenText bs) = bs"
| "event_text (Committed t i) = []"

definition stream_ok :: "tokenizer \<Rightarrow> stream \<Rightarrow> bool" where
  "stream_ok tk st \<longleftrightarrow>
     generated st = length (streamed st) \<and> emitted_bytes st \<le> length (decode_bytes tk (streamed st)) \<and>
     concat (map event_text (events st)) = take (emitted_bytes st) (decode_bytes tk (streamed st))"

lemma stream_token_ok:
  assumes "stream_ok tk st"
  shows "\<exists>st'. stream_token emit_ids tk tok st = Some st' \<and> stream_ok tk st' \<and> streamed st' = streamed st @ [tok] \<and>
           generated st' = Suc (generated st)"
proof -
  let ?all = "decode_bytes tk (streamed st @ [tok])" and ?n = "emitted_bytes st"
  let ?new = "drop ?n ?all"
  have le: "?n \<le> length ?all" and old: "take ?n ?all = take ?n (decode_bytes tk (streamed st))"
    using assms by (auto simp: stream_ok_def)
  have "slice ?all ?n (length ?all) = Some ?new" using le by simp
  moreover have "?n + utf8_safe_end ?new \<le> length ?all" using utf8_le [of ?new] le by simp
  moreover have "take (?n + utf8_safe_end ?new) ?all = take ?n ?all @ take (utf8_safe_end ?new) ?new" by (rule take_add)
  ultimately show ?thesis
    using assms old by (auto simp: stream_token_def Let_def stream_ok_def simp del: decode_bytes_simps)
qed

lemma stream_all_ok:
  "stream_ok tk st \<Longrightarrow> \<exists>st'. stream_all emit_ids tk ts st = Some st' \<and> stream_ok tk st' \<and> streamed st' = streamed st @ ts"
proof (induction ts arbitrary: st)
  case (Cons t ts)
  from stream_token_ok [OF Cons.prems, of emit_ids t] Cons.IH show ?case by fastforce
qed simp

lemma stream_all_append: "stream_all emit_ids tk (xs @ ys) st = Option.bind (stream_all emit_ids tk xs st) (stream_all emit_ids tk ys)"
proof (induction xs arbitrary: st)
  case (Cons x xs)
  then show ?case by (cases "stream_token emit_ids tk x st") auto
qed simp

text \<open>The tokens a client may see of \<open>ts\<close>: those before the first end of sequence.\<close>

abbreviation visible_tokens :: "token list \<Rightarrow> token list \<Rightarrow> token list" where
  "visible_tokens eos ts \<equiv> takeWhile (\<lambda>t. t \<notin> set eos) ts"

lemma stream_window_eq:
  assumes "stream_ok tk st"
  shows "stream_window emit_ids tk eos m w st =
         map_option (\<lambda>st'. (st', length (visible_tokens eos (take (m - generated st) w)) < length w))
           (stream_all emit_ids tk (visible_tokens eos (take (m - generated st) w)) st)"
  using assms
proof (induction w arbitrary: st)
  case (Cons tok toks)
  show ?case
  proof (cases "m \<le> generated st \<or> tok \<in> set eos")
    case True
    then show ?thesis by (cases "m - generated st") auto
  next
    case False
    obtain st1 where st1: "stream_token emit_ids tk tok st = Some st1" "stream_ok tk st1" "generated st1 = Suc (generated st)"
      using stream_token_ok [OF Cons.prems, of emit_ids tok] by auto
    have "m - generated st = Suc (m - generated st1)" using False st1(3) by (simp add: Suc_diff_Suc)
    then show ?thesis using False st1 Cons.IH [OF st1(2)] by (simp add: option.map_comp o_def)
  qed
qed simp

section \<open>The greedy loop streams the greedy tokens\<close>

lemma forward_step_greedy_works:
  assumes "works s cap" and "reflects net () s hist" and "next_pos s = length hist" and "length hist < cap"
  shows "\<exists>s'. forward_step_greedy net s tok = (s', Inr (greedy_pick net () (hist @ [tok]))) \<and> works s' cap \<and>
           reflects net () s' (hist @ [tok]) \<and> next_pos s' = length (hist @ [tok])"
proof -
  have c: "causal net" using assms(2) by (rule reflects_causal)
  obtain s1 where s1: "forward_step net s tok = (s1, Inr ())" "works s1 cap"
    using forward_step_works [OF assms(1) c, of tok] assms(3,4) by auto
  note r = forward_step_reflects [OF assms(2,3) s1(1)]
  have "gpu_call s1 = (s1, True)" using s1(2) by (simp add: works_def gpu_call_quiet)
  then show ?thesis using s1 r by (simp add: forward_step_greedy_def)
qed

lemma ar_loop_greedy:
  assumes "works s cap" and "reflects net () s hist" and "next_pos s = length hist" and "stream_ok tk st"
    and "length hist + (m - generated st) \<le> cap"
  shows "\<exists>s' st'. ar_loop net emit_ids tk eos m s (greedy_pick net () hist) st = Some (s', st', LoopDone) \<and>
           stream_all emit_ids tk (visible_tokens eos (greedy_tokens (greedy_pick net ()) hist (m - generated st))) st = Some st'"
  using assms
proof (induction "m - generated st" arbitrary: s hist st)
  case 0
  then show ?case by (simp add: ar_loop.simps)
next
  case (Suc n)
  let ?t = "greedy_pick net () hist"
  have m: "generated st < m" "m - generated st = Suc n" using Suc.hyps(2) by auto
  show ?case
  proof (cases "?t \<in> set eos")
    case True
    then show ?thesis using m by (simp add: ar_loop.simps)
  next
    case False
    obtain st1 where st1: "stream_token emit_ids tk ?t st = Some st1" "stream_ok tk st1" "generated st1 = Suc (generated st)"
      using stream_token_ok [OF Suc.prems(4), of emit_ids ?t] by auto
    obtain s1 where s1: "forward_step_greedy net s ?t = (s1, Inr (greedy_pick net () (hist @ [?t])))" "works s1 cap"
      "reflects net () s1 (hist @ [?t])" "next_pos s1 = length (hist @ [?t])"
      using forward_step_greedy_works [OF Suc.prems(1-3), of ?t] Suc.prems(5) m by auto
    have n: "m - Suc (generated st) = n" using m by simp
    have "n = m - generated st1" "length (hist @ [?t]) + (m - generated st1) \<le> cap" using m st1(3) Suc.prems(5) by auto
    from Suc.hyps(1) [OF this(1) s1(2-4) st1(2) this(2)] obtain s' st' where
      "ar_loop net emit_ids tk eos m s1 (greedy_pick net () (hist @ [?t])) st1 = Some (s', st', LoopDone)"
      "stream_all emit_ids tk (visible_tokens eos (greedy_tokens (greedy_pick net ()) (hist @ [?t]) (m - generated st1))) st1 = Some st'"
      by blast
    then show ?thesis
      using False m s1(1) st1 n by (simp add: ar_loop.simps [of _ _ _ _ _ s])
  qed
qed

section \<open>The speculative loop streams the greedy tokens\<close>

lemma takeWhile_stop: "length (takeWhile P xs) < length xs \<Longrightarrow> takeWhile P (xs @ ys) = takeWhile P xs"
  by (induction xs) auto

text \<open>Tokens of a window that is broken off: greedy decoding shows the client no more.\<close>

lemma visible_break:
  assumes "w = greedy_tokens pick hist (length w)"
    and "length (visible_tokens eos (take m w)) < length w"
  shows "visible_tokens eos (greedy_tokens pick hist m) = visible_tokens eos (take m w)"
proof (cases "m \<le> length w")
  case True
  then show ?thesis using assms(1) [symmetric] take_greedy_tokens [OF True, of pick hist] by simp
next
  case False
  then have "greedy_tokens pick hist m = w @ greedy_tokens pick (hist @ w) (m - length w)"
    using greedy_tokens_add [of pick hist "length w" "m - length w"] assms(1) [symmetric] by simp
  then show ?thesis using False assms(2) by (simp add: takeWhile_stop)
qed

lemma visible_whole:
  assumes "w = greedy_tokens pick hist (length w)" and "length w \<le> m" and "visible_tokens eos w = w"
  shows "visible_tokens eos (greedy_tokens pick hist m) = w @ visible_tokens eos (greedy_tokens pick (hist @ w) (m - length w))"
proof -
  have "greedy_tokens pick hist m = w @ greedy_tokens pick (hist @ w) (m - length w)"
    using greedy_tokens_add [of pick hist "length w" "m - length w"] assms(1) [symmetric] assms(2) by simp
  moreover have "\<forall>t\<in>set w. t \<notin> set eos" using assms(3) by (simp only: takeWhile_eq_all_conv)
  ultimately show ?thesis by simp
qed

lemma ngram_stop:
  assumes "stream_window emit_ids tk eos m w st = Some (st1, brk)"
    and "brk \<or> m \<le> generated st1 \<or> aborts \<noteq> [] \<and> hd aborts \<or> cap \<le> saturating_add64 pos bs"
  shows "ngram_loop step emit_ids tk eos m bs cap aborts ch s pos seed w st = Some (ch, s, st1, LoopDone)"
  using assms by (subst ngram_loop.simps) auto

lemma ngram_go:
  assumes "stream_window emit_ids tk eos m w st = Some (st1, False)"
    and "\<not> (m \<le> generated st1 \<or> aborts \<noteq> [] \<and> hd aborts \<or> cap \<le> saturating_add64 pos bs)"
    and "step ch s pos seed (streamed st1) (m - generated st1) = Some (ch1, s1, r)"
  shows "ngram_loop step emit_ids tk eos m bs cap aborts ch s pos seed w st =
         (case r of
            Inl e \<Rightarrow> Some (ch1, s1, st1, LoopFailed e)
          | Inr sp \<Rightarrow> ngram_loop step emit_ids tk eos m bs cap (tl aborts) ch1 s1
                        (pos + length (emit sp)) (next_seed sp) (emit sp) st1)"
  using assms by (subst ngram_loop.simps) (auto split: sum.splits)

context chain_contract
begin

text \<open>
  The loop from a window \<open>w\<close> that is still to be streamed: the target is behind by its last token, the
  pending seed. The stream is always a prefix of what greedy decoding shows; it is all of it when no call
  fails, no cancel comes in and the context is large enough.
\<close>

definition pending_ok :: "('f \<Rightarrow> bool) \<Rightarrow> ('d, 'c, 'f) chain_spec \<Rightarrow> 's \<Rightarrow> nat \<Rightarrow> token \<Rightarrow> token list \<Rightarrow> token list \<Rightarrow> bool" where
  "pending_ok hot ch s pos seed hist w \<longleftrightarrow>
     greedy_mode hot ch \<and> scratch_ready room ch \<and> w \<noteq> [] \<and> w = greedy_tokens pick hist (length w) \<and> seed = last w \<and>
     holds s (hist @ butlast w) \<and> pos = length (hist @ butlast w)"

lemma pending_step:
  assumes "pending_ok hot ch s pos seed hist w" and "0 < m"
  shows "\<exists>ch' s' r. window hot vs obs ch s pos seed emitted m = Some (ch', s', r) \<and> kept_ready hot room ch ch' \<and>
           (\<forall>sp. r = Inr sp \<longrightarrow> pending_ok hot ch' s' (pos + length (emit sp)) (next_seed sp) (hist @ w) (emit sp) \<and> length (emit sp) \<le> m)"
proof -
  have p: "greedy_mode hot ch" "scratch_ready room ch" "holds s (hist @ butlast w)" "pos = length (hist @ butlast w)" "seed = last w" "w \<noteq> []"
    using assms(1) by (auto simp: pending_ok_def)
  have hw: "(hist @ butlast w) @ [seed] = hist @ w" using p(5,6) by simp
  from window_greedy [OF p(1,2) assms(2) p(3), of vs obs seed emitted] obtain ch' s' r where
    step: "window hot vs obs ch s pos seed emitted m = Some (ch', s', r)" and kept: "kept_ready hot room ch ch'"
    and out: "\<And>sp. r = Inr sp \<Longrightarrow> emit sp \<noteq> [] \<and> length (emit sp) \<le> m \<and>
        emit sp = greedy_tokens pick ((hist @ butlast w) @ [seed]) (length (emit sp)) \<and> next_seed sp = last (emit sp) \<and>
        holds s' ((hist @ butlast w) @ seed # butlast (emit sp))" unfolding p(4) by blast
  have "pending_ok hot ch' s' (pos + length (emit sp)) (next_seed sp) (hist @ w) (emit sp)" if "r = Inr sp" for sp
  proof -
    have "(hist @ butlast w) @ seed # butlast (emit sp) = (hist @ w) @ butlast (emit sp)" using hw by simp
    moreover have "pos + length (emit sp) = length ((hist @ w) @ butlast (emit sp))"
      using out [OF that] p(4,6) by (cases w rule: rev_cases; cases "emit sp" rule: rev_cases) auto
    ultimately show ?thesis using out [OF that] kept hw unfolding pending_ok_def kept_ready_def by metis
  qed
  then show ?thesis using step kept out by blast
qed

definition undisturbed :: "nat \<Rightarrow> nat \<Rightarrow> 's \<Rightarrow> bool list \<Rightarrow> token list \<Rightarrow> nat \<Rightarrow> bool" where
  "undisturbed bs cap s aborts hist budget \<longleftrightarrow>
     healthy s cap \<and> aborts = [] \<and> length hist + budget + bs < cap \<and> cap \<le> u64_max"

lemma ngram_loop_greedy:
  assumes "pending_ok hot ch s pos seed hist w" and "stream_ok tk st"
  shows "\<exists>ch' s' st' e ts. ngram_loop (window hot vs obs) emit_ids tk eos m bs cap aborts ch s pos seed w st = Some (ch', s', st', e) \<and>
           stream_all emit_ids tk ts st = Some st' \<and>
           prefix ts (visible_tokens eos (greedy_tokens pick hist (m - generated st))) \<and>
           (undisturbed bs cap s aborts hist (m - generated st) \<and> bs = block_size ch \<longrightarrow>
              ts = visible_tokens eos (greedy_tokens pick hist (m - generated st)) \<and> e = LoopDone)"
  using assms
proof (induction "m - generated st" arbitrary: ch s pos seed hist w st aborts rule: less_induct)
  case less
  let ?b = "m - generated st"
  let ?V = "visible_tokens eos (greedy_tokens pick hist ?b)" and ?ts = "visible_tokens eos (take ?b w)"
  let ?loop = "ngram_loop (window hot vs obs) emit_ids tk eos m bs cap aborts ch s pos seed w st"
  have w: "w = greedy_tokens pick hist (length w)" "w \<noteq> []" using less.prems(1) by (auto simp: pending_ok_def)
  obtain st1 where st1: "stream_all emit_ids tk ?ts st = Some st1" "stream_ok tk st1" "streamed st1 = streamed st @ ?ts"
    using stream_all_ok [OF less.prems(2)] by blast
  have win: "stream_window emit_ids tk eos m w st = Some (st1, length ?ts < length w)"
    using stream_window_eq [OF less.prems(2)] st1(1) by simp
  show ?case
  proof (cases "length ?ts < length w")
    case True
    then have "?V = ?ts" using visible_break [OF w(1)] by simp
    then show ?thesis using st1(1) ngram_stop [OF win, of aborts cap pos bs] True
      by (intro exI [of _ ch] exI [of _ s] exI [of _ st1] exI [of _ LoopDone] exI [of _ ?ts]) simp
  next
    case False
    have "length ?ts \<le> length (take ?b w)" by (rule length_takeWhile_le)
    then have lw: "length w \<le> ?b" using False by simp
    have ts: "?ts = w" using False lw by (metis append_eq_conv_conj length_takeWhile_le linorder_not_less order_antisym take_all takeWhile_dropWhile_id)
    have V: "?V = w @ visible_tokens eos (greedy_tokens pick (hist @ w) (?b - length w))"
      using visible_whole [OF w(1) lw] ts lw by simp
    have g1: "generated st1 = generated st + length w" using less.prems(2) st1(2,3) ts by (simp add: stream_ok_def)
    have stop: ?thesis if "?loop = Some (ch', s', st1, e)"
      and "undisturbed bs cap s aborts hist ?b \<and> bs = block_size ch \<longrightarrow> ?b = length w \<and> e = LoopDone" for ch' s' e
      using that st1(1) V ts by (intro exI [of _ ch'] exI [of _ s'] exI [of _ st1] exI [of _ e] exI [of _ w]) auto
    show ?thesis
    proof (cases "m \<le> generated st1 \<or> aborts \<noteq> [] \<and> hd aborts \<or> cap \<le> saturating_add64 pos bs")
      case True
      have "?b = length w" if "undisturbed bs cap s aborts hist ?b"
        using that True g1 lw less.prems(1) w(2)
        by (auto simp: undisturbed_def pending_ok_def saturating_add64_def length_butlast split: if_splits)
      then show ?thesis using ngram_stop [OF win, of aborts cap pos bs] True by (intro stop) auto
    next
      case go: False
      have win': "stream_window emit_ids tk eos m w st = Some (st1, False)" using win False by simp
      have m: "0 < m - generated st1" using go by simp
      from pending_step [OF less.prems(1) m, of vs obs "streamed st1"] obtain ch' s' r where
        step: "window hot vs obs ch s pos seed (streamed st1) (m - generated st1) = Some (ch', s', r)"
        and kept: "kept_ready hot room ch ch'"
        and nxt: "\<And>sp. r = Inr sp \<Longrightarrow> pending_ok hot ch' s' (pos + length (emit sp)) (next_seed sp) (hist @ w) (emit sp)" by blast
      have fine: "healthy s' cap \<and> (\<exists>sp. r = Inr sp)" if u: "undisturbed bs cap s aborts hist ?b" "bs = block_size ch"
      proof -
        have "greedy_mode hot ch" "scratch_ready room ch" "holds s (hist @ butlast w)" "pos = length (hist @ butlast w)"
          using less.prems(1) by (auto simp: pending_ok_def)
        moreover have "length (hist @ butlast w) + block_size ch \<le> cap" "healthy s cap"
          using u lw by (auto simp: undisturbed_def)
        ultimately show ?thesis
          using window_healthy [of hot ch "m - generated st1" s "hist @ butlast w" cap vs obs seed "streamed st1"] m step by auto
      qed
      show ?thesis
      proof (cases r)
        case (Inl e)
        then show ?thesis using ngram_go [OF win' go, where step = "window hot vs obs", OF step] fine by (intro stop) auto
      next
        case (Inr sp)
        have eq: "?loop = ngram_loop (window hot vs obs) emit_ids tk eos m bs cap (tl aborts) ch' s'
                   (pos + length (emit sp)) (next_seed sp) (emit sp) st1"
          using ngram_go [OF win' go, where step = "window hot vs obs", OF step] Inr by simp
        have "m - generated st1 < ?b" using g1 w(2) m by (cases w) auto
        from less.hyps [OF this nxt [OF Inr] st1(2), of "tl aborts"] obtain ch2 s2 st2 e ts where
          rest: "ngram_loop (window hot vs obs) emit_ids tk eos m bs cap (tl aborts) ch' s'
                   (pos + length (emit sp)) (next_seed sp) (emit sp) st1 = Some (ch2, s2, st2, e)"
          and out: "stream_all emit_ids tk ts st1 = Some st2"
          and pre: "prefix ts (visible_tokens eos (greedy_tokens pick (hist @ w) (m - generated st1)))"
          and full: "undisturbed bs cap s' (tl aborts) (hist @ w) (m - generated st1) \<and> bs = block_size ch' \<longrightarrow>
                ts = visible_tokens eos (greedy_tokens pick (hist @ w) (m - generated st1)) \<and> e = LoopDone"
          by blast
        have b: "?b - length w = m - generated st1" using g1 by simp
        have "undisturbed bs cap s' (tl aborts) (hist @ w) (m - generated st1) \<and> bs = block_size ch'"
          if "undisturbed bs cap s aborts hist ?b \<and> bs = block_size ch"
          using that fine kept g1 lw by (auto simp: undisturbed_def kept_ready_def)
        then show ?thesis
          using eq rest out pre full V ts st1(1) b
          by (intro exI [of _ ch2] exI [of _ s2] exI [of _ st2] exI [of _ e] exI [of _ "w @ ts"]) (auto simp: stream_all_append)
      qed
    qed
  qed
qed

end

section \<open>The two loops agree\<close>

lemma stream_start_ok: "stream_ok tk stream_start"
  by (simp add: stream_ok_def stream_start_def)

lemma dots_prefill:
  fixes nucleus :: "'l \<Rightarrow> 'f \<Rightarrow> 'f \<Rightarrow> nat \<Rightarrow> 64 word \<Rightarrow> 64 word \<times> token"
  assumes "2 \<le> block_size ch" and "greedy_mode hot ch" and "reflects net () s prompt" and "last_pick s = greedy_pick net () prompt"
  shows "\<exists>ch1 s1 r. chain_prefill hot nucleus dots_new_scratch (qwen2_advance net) prefill_seed ch s prompt [] (length prompt) True ab = (ch1, s1, r) \<and>
           (\<forall>t. r = Inr (PrefillReady t) \<longrightarrow> t = greedy_pick net () prompt \<and> reflects net () s1 prompt \<and> greedy_mode hot ch1 \<and>
              scratch_ready (\<lambda>_. block_size ch) ch1 \<and> block_size ch1 = block_size ch) \<and>
           (works s cap \<longrightarrow> r = Inr (PrefillReady (greedy_pick net () prompt)) \<and> works s1 cap)"
proof -
  let ?s = "s\<lparr>next_pos := length prompt\<rparr>"
  have refl: "reflects net () ?s prompt" using assms(3) reflects_cong [of ?s s] by simp
  obtain s1 ok where call: "gpu_call ?s = (s1, ok)" by (cases "gpu_call ?s")
  have adv: "qwen2_advance net s [] (length prompt) False ab = (s1, if ok then Inr (Ready (last_pick s1) (None :: 'l option)) else Inl TargetFailed)"
    using call by (cases ok) (simp_all add: qwen2_advance_def Let_def)
  have good: "reflects net () s1 prompt" "last_pick s1 = greedy_pick net () prompt" if ok
    using gpu_call_reflects [of ?s s1] gpu_call_works [of ?s s1] call that refl assms(4) by auto
  have live: "ok \<and> works s1 cap" if "works s cap" using call gpu_call_quiet [of ?s] that by (auto simp: works_def)
  define ch0 where "ch0 = ch\<lparr>scratch := Some ()\<rparr>"
  have ch0: "ch0 = (case scratch ch of None \<Rightarrow> ch\<lparr>scratch := Some ()\<rparr> | Some _ \<Rightarrow> ch)"
    by (cases ch) (simp add: ch0_def split: option.split)
  have mode: "\<not> (samples ch0 \<and> hot (sample_temp ch0))" using assms(2) by (simp add: ch0_def greedy_mode_def)
  have "chain_prefill hot nucleus dots_new_scratch (qwen2_advance net) prefill_seed ch s prompt [] (length prompt) True ab =
        (if ok then (ch0\<lparr>drafter := prefill_seed (drafter ch0) prompt\<rparr>, s1, Inr (PrefillReady (last_pick s1))) else (ch0, s1, Inl TargetFailed))"
    using adv mode unfolding chain_prefill_def dots_new_scratch_def ch0 by (auto split: option.splits)
  moreover have "greedy_mode hot (ch0\<lparr>drafter := d\<rparr>)" "scratch_ready (\<lambda>_. block_size ch) (ch0\<lparr>drafter := d\<rparr>)" "block_size (ch0\<lparr>drafter := d\<rparr>) = block_size ch" for d
    using assms(1,2) by (simp_all add: ch0_def greedy_mode_def scratch_ready_def)
  ultimately show ?thesis using good live by (cases ok) auto
qed

lemma dots_ngram_greedy:
  assumes "2 \<le> block_size ch" and "greedy_mode hot ch" and "reflects net () s prompt" and "last_pick s = greedy_pick net () prompt"
  shows "\<exists>ch' s' st e. run_dots_ocr_ngram_loop hot nucleus order net emit_ids tk eos m ab aborts ch s prompt = Some (ch', s', st, e) \<and>
           stream_ok tk st \<and> prefix (streamed st) (visible_tokens eos (greedy_tokens (greedy_pick net ()) prompt m)) \<and>
           (works s (ctx_capacity ch) \<and> aborts = [] \<and> length prompt + m + block_size ch < ctx_capacity ch \<and> ctx_capacity ch \<le> u64_max \<longrightarrow>
              stream_all emit_ids tk (visible_tokens eos (greedy_tokens (greedy_pick net ()) prompt m)) stream_start = Some st \<and> e = LoopDone)"
proof -
  let ?pick = "greedy_pick net ()" and ?cap = "ctx_capacity ch"
  obtain ch1 s1 r where pre: "chain_prefill hot nucleus dots_new_scratch (qwen2_advance net) prefill_seed ch s prompt [] (length prompt) True ab = (ch1, s1, r)"
    and ready: "\<And>t. r = Inr (PrefillReady t) \<Longrightarrow> t = ?pick prompt \<and> reflects net () s1 prompt \<and> greedy_mode hot ch1 \<and>
              scratch_ready (\<lambda>_. block_size ch) ch1 \<and> block_size ch1 = block_size ch"
    and live: "works s ?cap \<Longrightarrow> r = Inr (PrefillReady (?pick prompt)) \<and> works s1 ?cap"
    using dots_prefill [OF assms, where cap = ?cap] by blast
  show ?thesis
  proof (cases "\<exists>t. r = Inr (PrefillReady t)")
    case False
    then show ?thesis
      using pre live stream_start_ok [of tk]
      by (cases r; cases "projr r") (auto simp: run_dots_ocr_ngram_loop_def stream_start_def)
  next
    case True
    then obtain t where r: "r = Inr (PrefillReady t)" by blast
    note rd = ready [OF r]
    have pend: "qwen2_chain.pending_ok net (block_size ch) hot ch1 s1 (length prompt) t prompt [t]"
      unfolding qwen2_chain.pending_ok_def using rd by simp
    obtain ch' s' st e ts where
      loop: "ngram_loop (dots_step hot order net) emit_ids tk eos m (block_size ch) ?cap aborts ch1 s1 (length prompt) t [t] stream_start
               = Some (ch', s', st, e)"
      and out: "stream_all emit_ids tk ts stream_start = Some st"
      and pref: "prefix ts (visible_tokens eos (greedy_tokens ?pick prompt (m - generated stream_start)))"
      and full: "qwen2_chain.undisturbed (block_size ch) ?cap s1 aborts prompt (m - generated stream_start) \<and> block_size ch = block_size ch1 \<longrightarrow>
              ts = visible_tokens eos (greedy_tokens ?pick prompt (m - generated stream_start)) \<and> e = LoopDone"
      using qwen2_chain.ngram_loop_greedy [OF pend stream_start_ok, where vs = no_sampled_verify and obs = drafter_observe and seq = False]
      unfolding dots_step_def by blast
    have st: "stream_ok tk st" "streamed st = ts"
      using stream_all_ok [OF stream_start_ok, of emit_ids tk ts] out by (auto simp: stream_start_def)
    show ?thesis
      using pre r loop out pref full st live rd
      by (auto simp: run_dots_ocr_ngram_loop_def stream_start_def qwen2_chain.undisturbed_def)
  qed
qed

text \<open>
  Property C7. Speculation does not change the output. From the state after prefill, on a device whose calls
  succeed and with room in the context for the whole answer, the speculative loop and the plain greedy loop
  both end and send the client exactly the same events: the model's greedy tokens up to the first end of
  sequence or the token limit, and the bytes they decode to, cut at complete code points. The network is
  assumed causal (part of \<open>reflects\<close>); the drafts, the block size and the hash order are arbitrary.
\<close>

theorem speculation_is_greedy:
  assumes "reflects net () s prompt" and "next_pos s = length prompt" and "last_pick s = greedy_pick net () prompt"
    and "works s (ctx_capacity ch)" and "length prompt + m + block_size ch < ctx_capacity ch" and "ctx_capacity ch \<le> u64_max"
    and "2 \<le> block_size ch" and "\<not> (samples ch \<and> hot (sample_temp ch))"
  shows "\<exists>ch' s1 s2 st.
           run_dots_ocr_ngram_loop hot nucleus order net emit_ids tk eos m [] [] ch s prompt = Some (ch', s1, st, LoopDone) \<and>
           ar_decode net emit_ids tk eos m s = Some (s2, st, LoopDone) \<and>
           streamed st = takeWhile (\<lambda>t. t \<notin> set eos) (greedy_tokens (greedy_pick net ()) prompt m) \<and>
           concat (map event_text (events st)) = take (emitted_bytes st) (decode_bytes tk (streamed st))"
proof -
  let ?V = "visible_tokens eos (greedy_tokens (greedy_pick net ()) prompt m)"
  have mode: "greedy_mode hot ch" using assms(8) by (simp add: greedy_mode_def)
  obtain ch' s1 st where ngram: "run_dots_ocr_ngram_loop hot nucleus order net emit_ids tk eos m [] [] ch s prompt = Some (ch', s1, st, LoopDone)"
    and ok: "stream_ok tk st" and st: "stream_all emit_ids tk ?V stream_start = Some st"
    using dots_ngram_greedy [OF assms(7) mode assms(1,3), where nucleus = nucleus and m = m and aborts = "[]" and ab = "[]"] assms(4-6) by blast
  have quiet: "gpu_call s = (s, True)" using assms(4) by (simp add: works_def gpu_call_quiet)
  obtain s2 st2 where ar: "ar_loop net emit_ids tk eos m s (greedy_pick net () prompt) stream_start = Some (s2, st2, LoopDone)"
    and st2: "stream_all emit_ids tk ?V stream_start = Some st2"
    using ar_loop_greedy [OF assms(4,1,2) stream_start_ok, of m emit_ids tk eos] assms(5) by (auto simp: stream_start_def)
  have "streamed st = ?V" using stream_all_ok [OF stream_start_ok, of emit_ids tk ?V] st by (auto simp: stream_start_def)
  moreover have "ar_decode net emit_ids tk eos m s = Some (s2, st, LoopDone)"
    using ar st st2 quiet assms(3) by (simp add: ar_decode_def)
  ultimately show ?thesis using ngram ok by (auto simp: stream_ok_def)
qed

text \<open>
  Property C35. Whatever fails, nothing wrong is sent: with any sequence of device failures, cancels and any context
  size, the speculative loop ends without a panic, and what it streamed is a prefix of the greedy tokens
  before the end of sequence; the text sent is a prefix of what the streamed tokens decode to.
\<close>

theorem speculation_safe:
  assumes "reflects net () s prompt" and "last_pick s = greedy_pick net () prompt"
    and "2 \<le> block_size ch" and "\<not> (samples ch \<and> hot (sample_temp ch))"
  shows "\<exists>ch' s' st e.
           run_dots_ocr_ngram_loop hot nucleus order net emit_ids tk eos m aborts0 aborts ch s prompt = Some (ch', s', st, e) \<and>
           prefix (streamed st) (takeWhile (\<lambda>t. t \<notin> set eos) (greedy_tokens (greedy_pick net ()) prompt m)) \<and>
           length (streamed st) \<le> m \<and>
           concat (map event_text (events st)) = take (emitted_bytes st) (decode_bytes tk (streamed st))"
proof -
  let ?V = "visible_tokens eos (greedy_tokens (greedy_pick net ()) prompt m)"
  have "greedy_mode hot ch" using assms(4) by (simp add: greedy_mode_def)
  from dots_ngram_greedy [OF assms(3) this assms(1,2), where nucleus = nucleus and m = m and aborts = aborts and ab = aborts0]
  obtain ch' s' st e where r: "run_dots_ocr_ngram_loop hot nucleus order net emit_ids tk eos m aborts0 aborts ch s prompt = Some (ch', s', st, e)"
    "stream_ok tk st" "prefix (streamed st) ?V" by blast
  have "length (streamed st) \<le> length ?V" using r(3) by (rule prefix_length_le)
  also have "\<dots> \<le> m" using length_takeWhile_le [of "\<lambda>t. t \<notin> set eos" "greedy_tokens (greedy_pick net ()) prompt m"] by simp
  finally show ?thesis using r by (auto simp: stream_ok_def)
qed

definition count_net :: "(unit, unit) net" where
  "count_net rows d toks = map (\<lambda>t. ((), (), t + 1)) toks"

definition count_state :: "unit qwen2_state" where
  "count_state = \<lparr>kv = replicate 40 (), dn = (), answers = [], next_pos = 1, last_pick = 6\<rparr>"

definition count_chain :: "(ngram_drafter, unit, nat) chain_spec" where
  "count_chain = chain_new 0 1 (drafter_new 1 4) 4 40 False"

lemma count_net_reflects: "reflects count_net () count_state [5]" "greedy_pick count_net () [5] = 6"
  by (simp_all add: reflects_def causal_def count_net_def count_state_def rows_of_def after_def greedy_pick_def picks_of_def)

lemma count_greedy: "takeWhile (\<lambda>t. t \<notin> set [9]) (greedy_tokens (greedy_pick count_net ()) [5] 6) = [6, 7, 8]"
  by code_simp

definition count_tk :: tokenizer where
  "count_tk = \<lparr>vocab = map (\<lambda>i. [97 + i]) [0..<20], token_to_id = [], merges = [], merge_pair_rank = Map.empty, byte_to_id = None,
     special_tokens = [], bos_id = 1, add_bos = False, eos_id = 9, eot_id = None, is_gpt2_bpe = False, sp_dummy_prefix = False\<rparr>"

lemma count_facts:
  "next_pos count_state = length [5 :: token]" "last_pick count_state = 6" "works count_state 40"
  "block_size count_chain = 4" "ctx_capacity count_chain = 40" "\<not> samples count_chain"
  by (simp_all add: count_state_def count_chain_def chain_new_def works_def)

theorem speculation_is_greedy_witness:
  "\<exists>ch' s1 s2 st.
     run_dots_ocr_ngram_loop (\<lambda>x. 0 < x) (\<lambda>(_ :: unit) _ _ _ g. (g, 0)) (\<lambda>h. h) count_net True count_tk [9] 6 [] [] count_chain count_state [5]
       = Some (ch', s1, st, LoopDone) \<and>
     ar_decode count_net True count_tk [9] 6 count_state = Some (s2, st, LoopDone) \<and> streamed st = [6, 7, 8]"
  using speculation_is_greedy [OF count_net_reflects(1), of count_chain 6 "\<lambda>x. 0 < x" "\<lambda>(_ :: unit) _ _ _ g. (g, 0)" "\<lambda>h. h" True count_tk "[9]"]
    count_greedy count_net_reflects(2)
  by (auto simp: count_facts)

theorem speculation_safe_witness:
  "\<exists>ch' s' st e.
     run_dots_ocr_ngram_loop (\<lambda>x. 0 < x) (\<lambda>(_ :: unit) _ _ _ g. (g, 0)) (\<lambda>h. h) count_net True count_tk [9] 6 [] [False, True] count_chain count_state [5]
       = Some (ch', s', st, e) \<and> prefix (streamed st) [6, 7, 8]"
  using speculation_safe [OF count_net_reflects(1), of count_chain "\<lambda>x. 0 < x" "\<lambda>(_ :: unit) _ _ _ g. (g, 0)" "\<lambda>h. h" True count_tk "[9]" 6 "[]" "[False, True]"]
    count_greedy count_net_reflects(2)
  by (auto simp: count_facts)

end
