(* ===== verification/Dd_Tree.thy ===== *)
theory Dd_Tree
  imports Prelude
begin

text \<open>
  The draft tree of tree-structured speculation, \<^verbatim>\<open>hipfire-runtime/src/ddtree.rs\<close>: best-first construction from
  the drafter's top-k marginals, the visibility matrix, the greedy walk over the verified tree, and the
  linearised block with its mask and parent table.

  Single-precision arithmetic is an argument: \<open>f32_ops\<close> names the operations the code uses, and what holds of
  the shape of the tree holds whatever they compute. That the tree keeps the likeliest prefixes is a fact
  of exact arithmetic (\<open>exact_ops\<close>). A \<^verbatim>\<open>BinaryHeap\<close> is the list of its entries, popped at its greatest.
\<close>

section \<open>Data\<close>

record 'f f32_ops =
  f_lt :: "'f \<Rightarrow> 'f \<Rightarrow> bool"
  f_add :: "'f \<Rightarrow> 'f \<Rightarrow> 'f"
  f_sub :: "'f \<Rightarrow> 'f \<Rightarrow> 'f"
  f_neg :: "'f \<Rightarrow> 'f"

record 'f dd_node =
  nd_token :: token
  nd_depth :: nat
  nd_parent :: int
  nd_logw :: 'f

record 'f dd_tree =
  tree_nodes :: "'f dd_node list"
  visibility :: "bool list list"
  child_maps :: "(token \<rightharpoonup> nat) list"

record 'f heap_entry =
  he_neg_logw :: 'f
  he_order :: nat
  he_depth :: nat
  he_rank :: nat
  he_parent :: int
  he_logw :: 'f

definition num_nodes :: "'f dd_tree \<Rightarrow> nat" where
  "num_nodes t = length (tree_nodes t)"

definition as_u32 :: "nat \<Rightarrow> nat" where
  "as_u32 n = n mod 4294967296"

text \<open>A parent index as a slot: the root is slot 0, node \<open>i\<close> is slot \<open>i + 1\<close>.\<close>

definition parent_slot :: "int \<Rightarrow> nat" where
  "parent_slot p = (if p < 0 then 0 else nat p + 1)"

section \<open>The heap of candidates\<close>

text \<open>\<^verbatim>\<open>self.cmp(other) == Greater\<close>; values that do not compare count as equal.\<close>

definition entry_above :: "('f, 'z) f32_ops_scheme \<Rightarrow> 'f heap_entry \<Rightarrow> 'f heap_entry \<Rightarrow> bool" where
  "entry_above A a b =
     (if f_lt A (he_neg_logw a) (he_neg_logw b) then True
      else if f_lt A (he_neg_logw b) (he_neg_logw a) then False
      else he_order a < he_order b)"

fun greatest :: "('f, 'z) f32_ops_scheme \<Rightarrow> 'f heap_entry \<Rightarrow> 'f heap_entry list \<Rightarrow> 'f heap_entry" where
  "greatest A e [] = e"
| "greatest A e (x # xs) = greatest A (if entry_above A x e then x else e) xs"

fun dd_pop :: "('f, 'z) f32_ops_scheme \<Rightarrow> 'f heap_entry list \<Rightarrow> ('f heap_entry \<times> 'f heap_entry list) option" where
  "dd_pop A [] = None"
| "dd_pop A (x # xs) = (let e = greatest A x xs in Some (e, remove1 e (x # xs)))"

section \<open>Construction\<close>

record 'f dd_build =
  b_heap :: "'f heap_entry list"
  b_counter :: nat
  b_nodes :: "'f dd_node list"
  b_children :: "(token \<rightharpoonup> nat) list"

definition mk_entry :: "('f, 'z) f32_ops_scheme \<Rightarrow> nat \<Rightarrow> nat \<Rightarrow> int \<Rightarrow> 'f \<Rightarrow> nat \<Rightarrow> 'f heap_entry" where
  "mk_entry A d rank parent logw order =
     \<lparr>he_neg_logw = f_neg A logw, he_order = order, he_depth = d, he_rank = rank, he_parent = parent, he_logw = logw\<rparr>"

definition push_entry :: "('f, 'z) f32_ops_scheme \<Rightarrow> nat \<Rightarrow> nat \<Rightarrow> int \<Rightarrow> 'f \<Rightarrow> 'f dd_build \<Rightarrow> 'f dd_build" where
  "push_entry A d rank parent logw st =
     st\<lparr>b_heap := mk_entry A d rank parent logw (b_counter st) # b_heap st, b_counter := b_counter st + 1\<rparr>"

text \<open>The body of the loop: the popped candidate becomes a node, its sibling and its first child candidates.\<close>

definition place ::
  "('f, 'z) f32_ops_scheme \<Rightarrow> token list \<Rightarrow> 'f list \<Rightarrow> nat \<Rightarrow> nat \<Rightarrow> 'f dd_build \<Rightarrow> 'f heap_entry \<Rightarrow> 'f dd_build option" where
  "place A top_tokens top_log_probs depth topk st e = do {
     let d = he_depth e;
     let rank = he_rank e;
     let logw = he_logw e;
     tok \<leftarrow> list_get top_tokens ((d - 1) * topk + rank);
     let current_index = length (b_nodes st);
     let nodes = b_nodes st @ [\<lparr>nd_token = tok, nd_depth = as_u32 d, nd_parent = he_parent e, nd_logw = logw\<rparr>];
     let cms = b_children st @ [Map.empty];
     m \<leftarrow> list_get cms (parent_slot (he_parent e));
     cms' \<leftarrow> list_set cms (parent_slot (he_parent e)) (m(tok \<mapsto> current_index));
     let st1 = st\<lparr>b_nodes := nodes, b_children := cms'\<rparr>;
     st2 \<leftarrow> (if rank + 1 < topk
             then do {
               a \<leftarrow> list_get top_log_probs ((d - 1) * topk + rank);
               b \<leftarrow> list_get top_log_probs ((d - 1) * topk + (rank + 1));
               Some (push_entry A d (rank + 1) (he_parent e) (f_add A (f_sub A logw a) b) st1)
             }
             else Some st1);
     if d < depth
     then do {
       c \<leftarrow> list_get top_log_probs (d * topk);
       Some (push_entry A (d + 1) 0 (as_i32 current_index) (f_add A logw c) st2)
     }
     else Some st2
   }"

lemma push_entry_simps [simp]:
  "b_nodes (push_entry A d r p w st) = b_nodes st"
  "b_children (push_entry A d r p w st) = b_children st"
  by (simp_all add: push_entry_def)

lemma place_grows: "place A tt lp depth topk st e = Some st' \<Longrightarrow> length (b_nodes st') = Suc (length (b_nodes st))"
  by (auto simp: place_def Let_def bind_eq_Some_conv split: if_splits)

function grow ::
  "('f, 'z) f32_ops_scheme \<Rightarrow> token list \<Rightarrow> 'f list \<Rightarrow> nat \<Rightarrow> nat \<Rightarrow> nat \<Rightarrow> nat \<Rightarrow> 'f \<Rightarrow> 'f dd_build \<Rightarrow> 'f dd_build option" where
  "grow A top_tokens top_log_probs depth topk min_nodes budget logw_cutoff st =
     (case dd_pop A (b_heap st) of
        None \<Rightarrow> Some st
      | Some (e, h) \<Rightarrow>
          if budget \<le> length (b_nodes st) then Some st
          else if min_nodes \<le> length (b_nodes st) \<and> f_lt A (he_logw e) logw_cutoff then Some st
          else (case place A top_tokens top_log_probs depth topk (st\<lparr>b_heap := h\<rparr>) e of
                  None \<Rightarrow> None
                | Some st' \<Rightarrow> grow A top_tokens top_log_probs depth topk min_nodes budget logw_cutoff st'))"
  by pat_completeness auto
termination
  by (relation "measure (\<lambda>(A, tt, lp, depth, topk, mn, budget, lim, st). budget - length (b_nodes st))")
     (auto dest!: place_grows)

declare grow.simps [simp del]

text \<open>One row of the matrix: the parent's row up to the diagonal, then the node itself.\<close>

fun visibility_rows :: "'f dd_node list \<Rightarrow> nat \<Rightarrow> bool list list \<Rightarrow> bool list list option" where
  "visibility_rows [] i vis = Some vis"
| "visibility_rows (n # ns) i vis = do {
     row \<leftarrow> list_get vis i;
     up \<leftarrow> list_get vis (parent_slot (nd_parent n));
     visibility_rows ns (i + 1) (vis[i := take i up @ True # drop (Suc i) row])
   }"

definition visibility_of :: "'f dd_node list \<Rightarrow> bool list list option" where
  "visibility_of ns =
     (let len = 1 + length ns
      in visibility_rows ns 1 ((replicate len (replicate len False))[0 := (replicate len False)[0 := True]]))"

definition build_ddtree_tree_bounded ::
  "('f, 'z) f32_ops_scheme \<Rightarrow> token list \<Rightarrow> 'f list \<Rightarrow> nat \<Rightarrow> nat \<Rightarrow> nat \<Rightarrow> nat \<Rightarrow> 'f \<Rightarrow> 'f dd_tree option" where
  "build_ddtree_tree_bounded A top_tokens top_log_probs depth topk min_nodes max_nodes logw_cutoff =
     (if max_nodes = 0 \<or> depth = 0
      then Some \<lparr>tree_nodes = [], visibility = [[True]], child_maps = [Map.empty]\<rparr>
      else if length top_tokens \<noteq> depth * topk \<or> length top_log_probs \<noteq> depth * topk then None
      else do {
        first_logw \<leftarrow> list_get top_log_probs 0;
        st \<leftarrow> grow A top_tokens top_log_probs depth topk min_nodes max_nodes logw_cutoff
               (push_entry A 1 0 (- 1) first_logw \<lparr>b_heap = [], b_counter = 0, b_nodes = [], b_children = [Map.empty]\<rparr>);
        vis \<leftarrow> visibility_of (b_nodes st);
        Some \<lparr>tree_nodes = b_nodes st, visibility = vis, child_maps = b_children st\<rparr>
      })"

definition build_ddtree_tree_with_cutoff ::
  "('f, 'z) f32_ops_scheme \<Rightarrow> token list \<Rightarrow> 'f list \<Rightarrow> nat \<Rightarrow> nat \<Rightarrow> nat \<Rightarrow> 'f \<Rightarrow> 'f dd_tree option" where
  "build_ddtree_tree_with_cutoff A top_tokens top_log_probs depth topk budget logw_cutoff =
     build_ddtree_tree_bounded A top_tokens top_log_probs depth topk 0 budget logw_cutoff"

definition build_ddtree_tree ::
  "('f, 'z) f32_ops_scheme \<Rightarrow> 'f \<Rightarrow> token list \<Rightarrow> 'f list \<Rightarrow> nat \<Rightarrow> nat \<Rightarrow> nat \<Rightarrow> 'f dd_tree option" where
  "build_ddtree_tree A neg_infinity top_tokens top_log_probs depth topk budget =
     build_ddtree_tree_with_cutoff A top_tokens top_log_probs depth topk budget neg_infinity"

section \<open>Walks and linearisation\<close>

partial_function (option) ancestors_loop :: "'f dd_node list \<Rightarrow> int \<Rightarrow> nat list \<Rightarrow> nat list option" where
  "ancestors_loop ns cur chain =
     (if cur < 0 then Some (rev chain)
      else do { n \<leftarrow> list_get ns (nat cur); ancestors_loop ns (nd_parent n) (chain @ [nat cur]) })"

definition ancestors_of :: "'f dd_tree \<Rightarrow> nat \<Rightarrow> nat list option" where
  "ancestors_of t i = ancestors_loop (tree_nodes t) (as_i32 i) []"

partial_function (option) follow_loop ::
  "(token \<rightharpoonup> nat) list \<Rightarrow> token list \<Rightarrow> nat \<Rightarrow> token \<Rightarrow> nat list \<Rightarrow> (nat list \<times> token) option" where
  "follow_loop cms posterior slot next_token acc = do {
     m \<leftarrow> list_get cms slot;
     case m next_token of
       None \<Rightarrow> Some (acc, next_token)
     | Some c \<Rightarrow>
         if length posterior \<le> c + 1 then Some (acc @ [c], next_token)
         else follow_loop cms posterior (c + 1) (posterior ! (c + 1)) (acc @ [c])
   }"

definition follow_verified_tree :: "'f dd_tree \<Rightarrow> token list \<Rightarrow> (nat list \<times> token) option" where
  "follow_verified_tree t posterior = do {
     first \<leftarrow> list_get posterior 0;
     follow_loop (child_maps t) posterior 0 first []
   }"

text \<open>The additive mask is \<open>zero\<close> where a slot sees another and \<open>neg_infinity\<close> elsewhere.\<close>

definition linearize_tree_with_parents ::
  "'f \<Rightarrow> 'f \<Rightarrow> 'f dd_tree \<Rightarrow> token \<Rightarrow> nat \<Rightarrow> token list \<times> int list \<times> 'f list \<times> int list" where
  "linearize_tree_with_parents zero neg_infinity t seed base_pos =
     (seed # map nd_token (tree_nodes t),
      as_i32 base_pos # map (\<lambda>n. as_i32 base_pos + as_i32 (nd_depth n)) (tree_nodes t),
      map (\<lambda>v. if v then zero else neg_infinity) (concat (visibility t)),
      (- 1) # map (\<lambda>n. if nd_parent n < 0 then 0 else nd_parent n + 1) (tree_nodes t))"

definition linearize_tree :: "'f \<Rightarrow> 'f \<Rightarrow> 'f dd_tree \<Rightarrow> token \<Rightarrow> nat \<Rightarrow> token list \<times> int list \<times> 'f list" where
  "linearize_tree zero neg_infinity t seed base_pos =
     (case linearize_tree_with_parents zero neg_infinity t seed base_pos of (tokens, positions, bias, _) \<Rightarrow> (tokens, positions, bias))"

section \<open>Rank paths\<close>

text \<open>
  A candidate is named by its ranks from the root: \<open>p ! k\<close> is the rank it takes at depth \<open>k + 1\<close>. Every path but
  \<open>[0]\<close> has one predecessor, the candidate whose placement pushes it; \<open>spawns q p\<close> says that \<open>q\<close> is \<open>p\<close> or one of
  its predecessors in turn.
\<close>

definition rank_path :: "nat \<Rightarrow> nat \<Rightarrow> nat list \<Rightarrow> bool" where
  "rank_path depth topk p \<longleftrightarrow> p \<noteq> [] \<and> length p \<le> depth \<and> (\<forall>r\<in>set p. r < topk)"

definition pred_path :: "nat list \<Rightarrow> nat list" where
  "pred_path p = (if last p = 0 then butlast p else butlast p @ [last p - 1])"

definition spawns :: "nat list \<Rightarrow> nat list \<Rightarrow> bool" where
  "spawns q p \<longleftrightarrow> q \<noteq> [] \<and> length q \<le> length p \<and> butlast q = take (length q - 1) p \<and> last q \<le> p ! (length q - 1)"

lemma spawns_first: "rank_path depth topk p \<Longrightarrow> spawns [0] p"
  by (cases p) (simp_all add: rank_path_def spawns_def)

lemma spawns_next:
  assumes "spawns q p" and "q \<noteq> p"
  shows "spawns (butlast q @ [Suc (last q)]) p \<or> spawns (q @ [0]) p"
proof (cases "last q = p ! (length q - 1)")
  case True
  obtain k where k: "length q = Suc k" using assms by (cases q) (auto simp: spawns_def)
  then have "k < length p" and "butlast q = take k p" using assms by (auto simp: spawns_def)
  moreover have "q = butlast q @ [last q]" using k by (cases q) simp_all
  ultimately have q: "q = take (length q) p" using True k by (simp add: take_Suc_conv_app_nth)
  then have "length q \<noteq> length p" using assms(2) by auto
  with q assms show ?thesis by (simp add: spawns_def)
next
  case False
  with assms show ?thesis by (auto simp: spawns_def)
qed

lemma rank_path_sibling: "rank_path depth topk q \<Longrightarrow> rank_path depth topk (butlast q @ [r]) \<longleftrightarrow> r < topk"
  by (auto simp: rank_path_def Suc_le_eq) (meson in_set_butlastD)

lemma spawns_path_range:
  assumes "spawns q p" and "rank_path depth topk p"
  shows "length q \<le> depth" and "last q < topk"
proof -
  from assms have "length q - 1 < length p" by (cases q) (auto simp: spawns_def)
  then have "p ! (length q - 1) < topk" using assms(2) by (auto simp: rank_path_def)
  with assms show "length q \<le> depth" and "last q < topk" by (auto simp: spawns_def rank_path_def)
qed

lemma row_index: "1 \<le> (d :: nat) \<Longrightarrow> d \<le> depth \<Longrightarrow> r < topk \<Longrightarrow> (d - 1) * topk + r < depth * topk"
proof -
  assume d: "1 \<le> d" "d \<le> depth" and r: "r < topk"
  obtain k where k: "d = Suc k" using d(1) by (cases d) auto
  have "k * topk + r < Suc k * topk" using r by simp
  also have "\<dots> \<le> depth * topk" using d k by (intro mult_le_mono1) simp
  finally show ?thesis using k by simp
qed

section \<open>The invariant of the construction\<close>

definition parent_path :: "nat list list \<Rightarrow> int \<Rightarrow> nat list" where
  "parent_path rk p = (if p < 0 then [] else rk ! nat p)"

definition entry_path :: "nat list list \<Rightarrow> 'f heap_entry \<Rightarrow> nat list" where
  "entry_path rk e = parent_path rk (he_parent e) @ [he_rank e]"

definition nodes_ok :: "token list \<Rightarrow> nat \<Rightarrow> nat \<Rightarrow> nat list list \<Rightarrow> 'f dd_node list \<Rightarrow> bool" where
  "nodes_ok tt depth topk rk ns \<longleftrightarrow>
     length rk = length ns \<and> distinct rk \<and>
     (\<forall>i<length ns. - 1 \<le> nd_parent (ns ! i) \<and> nd_parent (ns ! i) < int i \<and> nd_depth (ns ! i) = length (rk ! i) \<and>
        rk ! i \<noteq> [] \<and> butlast (rk ! i) = parent_path rk (nd_parent (ns ! i)) \<and> rank_path depth topk (rk ! i) \<and>
        nd_token (ns ! i) = tt ! ((length (rk ! i) - 1) * topk + last (rk ! i)))"

definition children_ok :: "'f dd_node list \<Rightarrow> (token \<rightharpoonup> nat) list \<Rightarrow> bool" where
  "children_ok ns cms \<longleftrightarrow>
     length cms = Suc (length ns) \<and>
     (\<forall>s<length cms. \<forall>t i. (cms ! s) t = Some i \<longrightarrow> i < length ns \<and> parent_slot (nd_parent (ns ! i)) = s \<and> nd_token (ns ! i) = t) \<and>
     (\<forall>i<length ns. parent_slot (nd_parent (ns ! i)) \<le> i \<and> (cms ! parent_slot (nd_parent (ns ! i))) (nd_token (ns ! i)) \<noteq> None)"

definition frontier_ok :: "nat \<Rightarrow> nat \<Rightarrow> nat list list \<Rightarrow> 'f heap_entry list \<Rightarrow> bool" where
  "frontier_ok depth topk rk h \<longleftrightarrow>
     (\<forall>e\<in>set h. - 1 \<le> he_parent e \<and> he_parent e < int (length rk) \<and> he_depth e = length (entry_path rk e) \<and>
        rank_path depth topk (entry_path rk e)) \<and>
     distinct (map (entry_path rk) h) \<and> entry_path rk ` set h \<inter> set rk = {} \<and>
     (\<forall>p\<in>set rk \<union> entry_path rk ` set h. p \<noteq> [0] \<longrightarrow> pred_path p \<in> set rk) \<and>
     (\<forall>p. rank_path depth topk p \<longrightarrow> p \<in> set rk \<or> (\<exists>e\<in>set h. spawns (entry_path rk e) p))"

definition build_ok :: "token list \<Rightarrow> nat \<Rightarrow> nat \<Rightarrow> nat list list \<Rightarrow> 'f dd_build \<Rightarrow> bool" where
  "build_ok tt depth topk rk st \<longleftrightarrow>
     nodes_ok tt depth topk rk (b_nodes st) \<and> children_ok (b_nodes st) (b_children st) \<and>
     frontier_ok depth topk rk (b_heap st)"

lemma parent_path_snoc [simp]: "p < int (length rk) \<Longrightarrow> parent_path (rk @ [q]) p = parent_path rk p"
  by (auto simp: parent_path_def nth_append nat_less_iff)

lemma entry_path_snoc [simp]: "he_parent e < int (length rk) \<Longrightarrow> entry_path (rk @ [q]) e = entry_path rk e"
  by (simp add: entry_path_def)

lemma greatest_in: "greatest A e xs \<in> set (e # xs)"
  by (induction xs arbitrary: e) (auto split: if_splits)

lemma dd_pop_Some: "dd_pop A h = Some (e, h') \<Longrightarrow> e \<in> set h \<and> h' = remove1 e h"
  using greatest_in by (cases h) (auto simp: Let_def split: if_splits)

lemma dd_pop_None [simp]: "dd_pop A h = None \<longleftrightarrow> h = []"
  by (cases h) (simp_all add: Let_def)

lemma map_remove1_distinct:
  "distinct (map f xs) \<Longrightarrow> x \<in> set xs \<Longrightarrow> distinct (map f (remove1 x xs)) \<and> f ` set (remove1 x xs) = f ` set xs - {f x}"
  by (induction xs) (auto simp: distinct_map)

lemma nodes_ok_snoc:
  assumes "nodes_ok tt depth topk rk ns" and "- 1 \<le> p" "p < int (length rk)" and "q = parent_path rk p @ [r]"
    and "rank_path depth topk q" and "q \<notin> set rk"
    and "n = \<lparr>nd_token = tt ! ((length q - 1) * topk + r), nd_depth = length q, nd_parent = p, nd_logw = w\<rparr>"
  shows "nodes_ok tt depth topk (rk @ [q]) (ns @ [n])"
proof -
  have len: "length rk = length ns" using assms(1) by (simp add: nodes_ok_def)
  have old: "nd_parent (ns ! i) < int (length rk)" if "i < length ns" for i
    using assms(1) that len by (force simp: nodes_ok_def)
  show ?thesis
    using assms len old by (auto simp: nodes_ok_def nth_append less_Suc_eq)
qed

lemma children_ok_snoc:
  assumes ok: "children_ok ns cms" and p: "- 1 \<le> nd_parent n" "nd_parent n < int (length ns)"
  shows "children_ok (ns @ [n])
    ((cms @ [Map.empty])[parent_slot (nd_parent n) := ((cms @ [Map.empty]) ! parent_slot (nd_parent n))(nd_token n \<mapsto> length ns)])"
proof -
  let ?s = "parent_slot (nd_parent n)"
  have s: "?s < length cms" using ok p by (auto simp: parent_slot_def children_ok_def)
  then have eq: "(cms @ [Map.empty])[?s := ((cms @ [Map.empty]) ! ?s)(nd_token n \<mapsto> length ns)]
      = cms[?s := (cms ! ?s)(nd_token n \<mapsto> length ns)] @ [Map.empty]"
    by (simp add: nth_append list_update_append)
  have upd: "parent_slot (nd_parent (ns ! i)) < length cms" if "i < length ns" for i
    using ok that by (force simp: children_ok_def)
  let ?new = "cms[?s := (cms ! ?s)(nd_token n \<mapsto> length ns)] @ [Map.empty]"
  have look: "(?new ! k) t = (if k = ?s \<and> t = nd_token n then Some (length ns) else if k < length cms then (cms ! k) t else None)"
    if "k \<le> length cms" for k t
    using s that by (auto simp: nth_append nth_list_update)
  have "i < length (ns @ [n]) \<and> parent_slot (nd_parent ((ns @ [n]) ! i)) = k \<and> nd_token ((ns @ [n]) ! i) = t"
    if k: "k \<le> length cms" and i: "(?new ! k) t = Some i" for k t i
  proof (cases "k = ?s \<and> t = nd_token n")
    case True
    then have "i = length ns" using i look [OF k, of t] by simp
    then show ?thesis using True by simp
  next
    case False
    then have "k < length cms" "(cms ! k) t = Some i" using i by (auto simp: look [OF k] split: if_splits)
    then have "i < length ns \<and> parent_slot (nd_parent (ns ! i)) = k \<and> nd_token (ns ! i) = t"
      using ok by (simp add: children_ok_def)
    then show ?thesis by (simp add: nth_append)
  qed
  moreover have "parent_slot (nd_parent ((ns @ [n]) ! i)) \<le> i \<and>
      (?new ! parent_slot (nd_parent ((ns @ [n]) ! i))) (nd_token ((ns @ [n]) ! i)) \<noteq> None" if "i \<le> length ns" for i
  proof (cases "i = length ns")
    case True
    then show ?thesis using s ok look [of ?s "nd_token n"] by (auto simp: children_ok_def)
  next
    case False
    then have i: "i < length ns" using that by simp
    then show ?thesis using ok upd [OF i] look [of "parent_slot (nd_parent (ns ! i))" "nd_token (ns ! i)"]
      by (auto simp: nth_append children_ok_def)
  qed
  ultimately show ?thesis
    using ok unfolding eq by (simp add: children_ok_def less_Suc_eq_le)
qed

text \<open>What one placement does, when the tables have their sizes and the counters fit their types.\<close>

definition tables_ok :: "token list \<Rightarrow> 'f list \<Rightarrow> nat \<Rightarrow> nat \<Rightarrow> bool" where
  "tables_ok tt lp depth topk \<longleftrightarrow> length tt = depth * topk \<and> length lp = depth * topk \<and> depth < 4294967296"

text \<open>The candidates a placement pushes: the first child, then the next sibling.\<close>

definition spawned :: "('f, 'z) f32_ops_scheme \<Rightarrow> 'f list \<Rightarrow> nat \<Rightarrow> nat \<Rightarrow> nat \<Rightarrow> nat \<Rightarrow> 'f heap_entry \<Rightarrow> 'f heap_entry list" where
  "spawned A lp depth topk i order e =
     (let row = (he_depth e - 1) * topk; sib = Suc (he_rank e) < topk
      in (if he_depth e < depth
          then [mk_entry A (Suc (he_depth e)) 0 (int i) (f_add A (he_logw e) (lp ! (he_depth e * topk)))
                  (if sib then Suc order else order)] else []) @
         (if sib
          then [mk_entry A (he_depth e) (Suc (he_rank e)) (he_parent e)
                  (f_add A (f_sub A (he_logw e) (lp ! (row + he_rank e))) (lp ! (row + Suc (he_rank e)))) order] else []))"

lemma place_run:
  assumes tab: "tables_ok tt lp depth topk" and d: "1 \<le> he_depth e" "he_depth e \<le> depth" and r: "he_rank e < topk"
    and p: "- 1 \<le> he_parent e" "he_parent e < int (length (b_nodes st))" and small: "length (b_nodes st) < 2147483648"
    and cms: "length (b_children st) = Suc (length (b_nodes st))"
  shows "\<exists>st'. place A tt lp depth topk st e = Some st' \<and>
    (let n = \<lparr>nd_token = tt ! ((he_depth e - 1) * topk + he_rank e), nd_depth = he_depth e, nd_parent = he_parent e,
              nd_logw = he_logw e\<rparr>;
         cms' = b_children st @ [Map.empty]; s = parent_slot (he_parent e)
     in b_nodes st' = b_nodes st @ [n] \<and>
        b_children st' = cms'[s := (cms' ! s)(nd_token n \<mapsto> length (b_nodes st))] \<and>
        b_heap st' = spawned A lp depth topk (length (b_nodes st)) (b_counter st) e @ b_heap st)"
proof -
  have "(he_depth e - 1) * topk + k < depth * topk" if "k < topk" for k
    using row_index [OF d that] .
  then have row: "(he_depth e - 1) * topk + k < length tt" "(he_depth e - 1) * topk + k < length lp" if "k < topk" for k
    using tab that by (simp_all add: tables_ok_def)
  have deeper: "he_depth e * topk < length lp" if "he_depth e < depth"
    using tab r that by (simp add: tables_ok_def)
  have s: "parent_slot (he_parent e) < Suc (length (b_children st))"
    using p cms by (auto simp: parent_slot_def)
  have u: "as_u32 (he_depth e) = he_depth e" using tab d by (simp add: as_u32_def tables_ok_def)
  show ?thesis
    using row [OF r] row [of "Suc (he_rank e)"] deeper s u small
    by (auto simp: place_def Let_def push_entry_def spawned_def)
qed

section \<open>A placement keeps the invariant\<close>

lemma frontier_ok_step:
  assumes ok: "frontier_ok depth topk rk h" and e: "e \<in> set h" and q: "q = entry_path rk e"
    and new: "\<forall>x\<in>set new. - 1 \<le> he_parent x \<and> he_parent x \<le> int (length rk) \<and> he_depth x = length (entry_path (rk @ [q]) x)"
    and d: "distinct (map (entry_path (rk @ [q])) new)"
    and paths: "entry_path (rk @ [q]) ` set new =
      {p. rank_path depth topk p \<and> (p = butlast q @ [Suc (last q)] \<or> p = q @ [0])}"
  shows "frontier_ok depth topk (rk @ [q]) (new @ remove1 e h)"
proof -
  let ?rk = "rk @ [q]" and ?new = "entry_path (rk @ [q]) ` set new" and ?old = "entry_path rk ` set h - {q}"
  have same: "entry_path ?rk x = entry_path rk x" if "x \<in> set h" for x
    using ok that by (simp add: frontier_ok_def)
  have dist: "distinct (map (entry_path rk) h)" and disj: "entry_path rk ` set h \<inter> set rk = {}"
    using ok by (auto simp: frontier_ok_def)
  have rem: "map (entry_path ?rk) (remove1 e h) = map (entry_path rk) (remove1 e h)"
    using same by (meson map_eq_conv notin_set_remove1)
  have old: "entry_path ?rk ` set (remove1 e h) = ?old" "distinct (map (entry_path ?rk) (remove1 e h))"
    using map_remove1_distinct [OF dist e] q by (metis rem list.set_map, metis rem)
  have q_in: "q \<in> entry_path rk ` set h" "q \<noteq> []" using e q by (auto simp: entry_path_def)
  have pred_new: "pred_path p = q \<and> p \<noteq> q \<and> p \<noteq> [0] \<and> p \<notin> set rk \<and> p \<notin> ?old" if "p \<in> ?new" for p
  proof -
    have p: "p = butlast q @ [Suc (last q)] \<or> p = q @ [0]" using that paths by auto
    have "p \<noteq> q" "p \<noteq> [0]" using p q_in(2) by (auto dest: arg_cong [where f = last])
    moreover have "pred_path p = q" using p q_in by (auto simp: pred_path_def)
    moreover have "q \<notin> set rk" using disj q_in by auto
    ultimately show ?thesis using ok by (auto simp: frontier_ok_def)
  qed
  have closed: "p \<in> set ?rk \<or> (\<exists>x\<in>set (new @ remove1 e h). spawns (entry_path ?rk x) p)" if p: "rank_path depth topk p" for p
  proof -
    from ok p consider "p \<in> set rk" | x where "x \<in> set h" "spawns (entry_path rk x) p" by (auto simp: frontier_ok_def)
    then show ?thesis
    proof cases
      case 2
      show ?thesis
      proof (cases "entry_path rk x = q \<and> q \<noteq> p")
        case True
        then obtain p' where p': "spawns p' p" "p' = butlast q @ [Suc (last q)] \<or> p' = q @ [0]"
          using spawns_next 2 by metis
        have r: "rank_path depth topk q" using ok e q by (auto simp: frontier_ok_def)
        have "rank_path depth topk p'"
          using p'(2)
        proof
          assume "p' = butlast q @ [Suc (last q)]"
          then show ?thesis using rank_path_sibling [OF r] spawns_path_range(2) [OF p'(1) p] by simp
        next
          assume "p' = q @ [0]"
          then show ?thesis using r spawns_path_range [OF p'(1) p] by (simp add: rank_path_def)
        qed
        then have "p' \<in> ?new" using p'(2) paths by auto
        then show ?thesis using p'(1) by auto
      next
        case False
        then have "p = q \<or> entry_path rk x \<in> ?old" using 2 by auto
        then show ?thesis
        proof
          assume "entry_path rk x \<in> ?old"
          then have "entry_path rk x \<in> entry_path ?rk ` set (remove1 e h)" by (simp only: old)
          then show ?thesis using 2(2) by auto
        qed simp
      qed
    qed simp
  qed
  have entries: "- 1 \<le> he_parent x \<and> he_parent x < int (length ?rk) \<and> he_depth x = length (entry_path ?rk x) \<and>
      rank_path depth topk (entry_path ?rk x)" if "x \<in> set (new @ remove1 e h)" for x
  proof (cases "x \<in> set new")
    case True
    then have "entry_path ?rk x \<in> ?new" by simp
    then show ?thesis using True new paths by auto
  next
    case False
    then have x: "x \<in> set h" using that set_remove1_subset [of e h] by auto
    then have "- 1 \<le> he_parent x \<and> he_parent x < int (length rk) \<and> he_depth x = length (entry_path rk x) \<and>
        rank_path depth topk (entry_path rk x)"
      using ok by (simp add: frontier_ok_def)
    then show ?thesis using same [OF x] by simp
  qed
  have img: "entry_path ?rk ` set (new @ remove1 e h) = ?new \<union> ?old" using old(1) by (simp add: image_Un)
  have "pred_path p \<in> set ?rk" if "p \<in> set ?rk \<union> (?new \<union> ?old)" "p \<noteq> [0]" for p
    using that pred_new ok q_in(1) by (auto simp: frontier_ok_def)
  moreover have "(?new \<union> ?old) \<inter> set ?rk = {}" using pred_new disj by auto
  moreover have "distinct (map (entry_path ?rk) (new @ remove1 e h))" using d old pred_new by auto
  ultimately show ?thesis
    unfolding frontier_ok_def img by (intro conjI ballI allI impI) (use entries closed in \<open>simp_all only: Un_iff\<close>)
qed

lemma spawned_paths:
  assumes e: "e \<in> set h" and ok: "frontier_ok depth topk rk h" and q: "q = entry_path rk e"
  shows "\<forall>x\<in>set (spawned A lp depth topk (length rk) order e).
      - 1 \<le> he_parent x \<and> he_parent x \<le> int (length rk) \<and> he_depth x = length (entry_path (rk @ [q]) x)"
    and "distinct (map (entry_path (rk @ [q])) (spawned A lp depth topk (length rk) order e))"
    and "entry_path (rk @ [q]) ` set (spawned A lp depth topk (length rk) order e) =
      {p. rank_path depth topk p \<and> (p = butlast q @ [Suc (last q)] \<or> p = q @ [0])}"
proof -
  have p: "- 1 \<le> he_parent e" "he_parent e < int (length rk)" and d: "he_depth e = length q" and r: "rank_path depth topk q"
    using ok e q by (auto simp: frontier_ok_def)
  have q': "butlast q = parent_path rk (he_parent e)" "last q = he_rank e" "q \<noteq> []"
    using q by (simp_all add: entry_path_def)
  have sib: "entry_path (rk @ [q]) (mk_entry A k r' (he_parent e) w i) = butlast q @ [r']" for k r' w i
    using p q' by (simp add: entry_path_def mk_entry_def)
  have kid: "entry_path (rk @ [q]) (mk_entry A k r' (int (length rk)) w i) = q @ [r']" for k r' w i
    by (simp add: entry_path_def mk_entry_def parent_path_def)
  have rsib: "rank_path depth topk (butlast q @ [Suc (last q)]) \<longleftrightarrow> Suc (he_rank e) < topk"
    using rank_path_sibling [OF r] q'(2) by simp
  have rkid: "rank_path depth topk (q @ [0]) \<longleftrightarrow> he_depth e < depth"
    using r d by (cases topk) (auto simp: rank_path_def)
  show "\<forall>x\<in>set (spawned A lp depth topk (length rk) order e).
      - 1 \<le> he_parent x \<and> he_parent x \<le> int (length rk) \<and> he_depth x = length (entry_path (rk @ [q]) x)"
  proof -
    have "he_depth (mk_entry A k r' p' w i) = k" "he_parent (mk_entry A k r' p' w i) = p'" for k r' p' w i
      by (simp_all add: mk_entry_def)
    then show ?thesis using p d q'(3) by (auto simp: spawned_def Let_def sib kid)
  qed
  show "distinct (map (entry_path (rk @ [q])) (spawned A lp depth topk (length rk) order e))"
    using q' by (auto simp: spawned_def Let_def sib kid dest: arg_cong [where f = last])
  show "entry_path (rk @ [q]) ` set (spawned A lp depth topk (length rk) order e) =
      {p. rank_path depth topk p \<and> (p = butlast q @ [Suc (last q)] \<or> p = q @ [0])}"
    using rsib rkid q'(2) by (auto simp: spawned_def Let_def sib kid)
qed

lemma place_ok:
  assumes ok: "build_ok tt depth topk rk st" and tab: "tables_ok tt lp depth topk" and small: "length (b_nodes st) < 2147483648"
    and pop: "dd_pop A (b_heap st) = Some (e, h)"
  shows "\<exists>st'. place A tt lp depth topk (st\<lparr>b_heap := h\<rparr>) e = Some st' \<and>
    build_ok tt depth topk (rk @ [entry_path rk e]) st' \<and>
    (\<exists>n. b_nodes st' = b_nodes st @ [n] \<and> nd_logw n = he_logw e) \<and>
    b_heap st' = spawned A lp depth topk (length rk) (b_counter st) e @ h"
proof -
  let ?q = "entry_path rk e"
  have nodes: "nodes_ok tt depth topk rk (b_nodes st)" and cms: "children_ok (b_nodes st) (b_children st)"
    and front: "frontier_ok depth topk rk (b_heap st)" using ok by (auto simp: build_ok_def)
  have len: "length rk = length (b_nodes st)" using nodes by (simp add: nodes_ok_def)
  have e: "e \<in> set (b_heap st)" and h: "h = remove1 e (b_heap st)" using dd_pop_Some [OF pop] by auto
  have p: "- 1 \<le> he_parent e" "he_parent e < int (length rk)" and d: "he_depth e = length ?q"
    and r: "rank_path depth topk ?q" and fresh: "?q \<notin> set rk"
    using front e by (auto simp: frontier_ok_def)
  have last: "he_rank e = last ?q" "he_rank e \<in> set ?q" by (simp_all add: entry_path_def)
  then have rank: "he_rank e < topk" "1 \<le> he_depth e" "he_depth e \<le> depth"
    using r d by (auto simp: rank_path_def Suc_leI)
  from place_run [OF tab rank(2,3,1), of "st\<lparr>b_heap := h\<rparr>" A] obtain st' n where
    st': "place A tt lp depth topk (st\<lparr>b_heap := h\<rparr>) e = Some st'"
    and n: "n = \<lparr>nd_token = tt ! ((he_depth e - 1) * topk + he_rank e), nd_depth = he_depth e, nd_parent = he_parent e, nd_logw = he_logw e\<rparr>"
    and upd: "b_nodes st' = b_nodes st @ [n]"
      "b_children st' = (b_children st @ [Map.empty])[parent_slot (nd_parent n) :=
         ((b_children st @ [Map.empty]) ! parent_slot (nd_parent n))(nd_token n \<mapsto> length (b_nodes st))]"
      "b_heap st' = spawned A lp depth topk (length rk) (b_counter st) e @ h"
    using p small cms len by (auto simp: Let_def children_ok_def)
  have "nodes_ok tt depth topk (rk @ [?q]) (b_nodes st')"
    unfolding upd using nodes_ok_snoc [OF nodes p _ r fresh, of "he_rank e" n] n d by (simp add: entry_path_def)
  moreover have "children_ok (b_nodes st') (b_children st')"
    unfolding upd using children_ok_snoc [OF cms, of n] p n len by simp
  moreover have "frontier_ok depth topk (rk @ [?q]) (b_heap st')"
    unfolding upd h using frontier_ok_step [OF front e refl] spawned_paths [OF e front refl] by blast
  ultimately show ?thesis using st' upd n by (auto simp: build_ok_def)
qed

lemma start_ok:
  assumes "0 < depth" and "0 < topk"
  shows "build_ok tt depth topk [] (push_entry A 1 0 (- 1) w \<lparr>b_heap = [], b_counter = 0, b_nodes = [], b_children = [Map.empty]\<rparr>)"
  using assms spawns_first
  by (auto simp: build_ok_def nodes_ok_def children_ok_def frontier_ok_def push_entry_def mk_entry_def entry_path_def
      parent_path_def rank_path_def)

section \<open>The whole construction\<close>

definition stopped :: "('f, 'z) f32_ops_scheme \<Rightarrow> nat \<Rightarrow> nat \<Rightarrow> 'f \<Rightarrow> 'f dd_build \<Rightarrow> bool" where
  "stopped A min_nodes budget lim st \<longleftrightarrow>
     (case dd_pop A (b_heap st) of
        None \<Rightarrow> True
      | Some (e, h) \<Rightarrow> budget \<le> length (b_nodes st) \<or> (min_nodes \<le> length (b_nodes st) \<and> f_lt A (he_logw e) lim))"

text \<open>
  The loop ends, within its budget, with the invariant. \<open>J\<close> is any further invariant of the placements; the
  weights below are one.
\<close>

definition kept_by_placing ::
  "('f, 'z) f32_ops_scheme \<Rightarrow> token list \<Rightarrow> 'f list \<Rightarrow> nat \<Rightarrow> nat \<Rightarrow> (nat list list \<Rightarrow> 'f dd_build \<Rightarrow> bool) \<Rightarrow> bool" where
  "kept_by_placing A tt lp depth topk J \<longleftrightarrow>
     (\<forall>rk st e h st' n. build_ok tt depth topk rk st \<and> J rk st \<and> dd_pop A (b_heap st) = Some (e, h) \<and>
        b_heap st' = spawned A lp depth topk (length rk) (b_counter st) e @ h \<and>
        b_nodes st' = b_nodes st @ [n] \<and> nd_logw n = he_logw e \<longrightarrow> J (rk @ [entry_path rk e]) st')"

lemma grow_ok:
  assumes tab: "tables_ok tt lp depth topk" and small: "budget \<le> 2147483648"
    and J: "kept_by_placing A tt lp depth topk J"
  shows "build_ok tt depth topk rk st \<Longrightarrow> J rk st \<Longrightarrow> length (b_nodes st) \<le> budget \<Longrightarrow>
    \<exists>rk' st'. grow A tt lp depth topk min_nodes budget lim st = Some st' \<and> build_ok tt depth topk rk' st' \<and> J rk' st' \<and>
      length (b_nodes st') \<le> budget \<and> stopped A min_nodes budget lim st'"
proof (induction "budget - length (b_nodes st)" arbitrary: rk st)
  case less: (Suc k st rk)
  show ?case
  proof (cases "stopped A min_nodes budget lim st")
    case True
    then have "grow A tt lp depth topk min_nodes budget lim st = Some st"
      by (auto simp: grow.simps [of A tt lp depth topk min_nodes budget lim st] stopped_def split: option.splits if_splits)
    then show ?thesis using less.prems True by blast
  next
    case False
    then obtain e h where pop: "dd_pop A (b_heap st) = Some (e, h)" and go: "\<not> budget \<le> length (b_nodes st)"
      "\<not> (min_nodes \<le> length (b_nodes st) \<and> f_lt A (he_logw e) lim)"
      by (auto simp: stopped_def split: option.splits)
    from place_ok [OF less.prems(1) tab _ pop] go small obtain st' where
      st': "place A tt lp depth topk (st\<lparr>b_heap := h\<rparr>) e = Some st'" "build_ok tt depth topk (rk @ [entry_path rk e]) st'"
        "\<exists>n. b_nodes st' = b_nodes st @ [n] \<and> nd_logw n = he_logw e"
        "b_heap st' = spawned A lp depth topk (length rk) (b_counter st) e @ h" by auto
    have "grow A tt lp depth topk min_nodes budget lim st = grow A tt lp depth topk min_nodes budget lim st'"
      using pop go st'(1) by (auto simp: grow.simps [of A tt lp depth topk min_nodes budget lim st])
    moreover have "J (rk @ [entry_path rk e]) st'"
      using J less.prems(1,2) pop st'(3,4) unfolding kept_by_placing_def by blast
    moreover have "k = budget - length (b_nodes st')" "length (b_nodes st') \<le> budget"
      using place_grows [OF st'(1)] less.hyps(2) go by auto
    ultimately show ?thesis using less.hyps(1) [OF _ st'(2)] by metis
  qed
next
  case (0 st rk)
  then have full: "budget \<le> length (b_nodes st)" by simp
  then have "grow A tt lp depth topk min_nodes budget lim st = Some st" by (subst grow.simps) (simp split: option.split)
  moreover have "stopped A min_nodes budget lim st" using full by (simp add: stopped_def split: option.split)
  ultimately show ?case using 0 by blast
qed

subsection \<open>Visibility\<close>

text \<open>The nodes on the way from the root to a node, the node included.\<close>

function ancestry :: "'f dd_node list \<Rightarrow> nat \<Rightarrow> nat list" where
  "ancestry ns i = (if 0 \<le> nd_parent (ns ! i) \<and> nat (nd_parent (ns ! i)) < i then ancestry ns (nat (nd_parent (ns ! i))) else []) @ [i]"
  by pat_completeness auto
termination by (relation "measure snd") auto

declare ancestry.simps [simp del]

definition topological :: "'f dd_node list \<Rightarrow> bool" where
  "topological ns \<longleftrightarrow> (\<forall>i<length ns. - 1 \<le> nd_parent (ns ! i) \<and> nd_parent (ns ! i) < int i)"

definition slot_path :: "'f dd_node list \<Rightarrow> nat \<Rightarrow> nat list" where
  "slot_path ns s = (if s = 0 then [] else ancestry ns (s - 1))"

definition sees :: "'f dd_node list \<Rightarrow> nat \<Rightarrow> nat \<Rightarrow> bool" where
  "sees ns s j \<longleftrightarrow> j = 0 \<or> j - 1 \<in> set (slot_path ns s)"

lemma slot_path_Suc:
  assumes "topological ns" and "i < length ns"
  shows "slot_path ns (Suc i) = slot_path ns (parent_slot (nd_parent (ns ! i))) @ [i]"
    and "parent_slot (nd_parent (ns ! i)) \<le> i"
  using assms ancestry.simps [of ns i] by (auto simp: topological_def slot_path_def parent_slot_def)

lemma slot_path_bound: "topological ns \<Longrightarrow> s \<le> length ns \<Longrightarrow> j \<in> set (slot_path ns s) \<Longrightarrow> j < s"
proof (induction s rule: less_induct)
  case (less s)
  show ?case
  proof (cases s)
    case 0
    then show ?thesis using less.prems by (simp add: slot_path_def)
  next
    case (Suc i)
    then have i: "i < length ns" using less.prems by simp
    then have "j = i \<or> j \<in> set (slot_path ns (parent_slot (nd_parent (ns ! i))))"
      using less.prems slot_path_Suc [OF less.prems(1) i] Suc by auto
    moreover have "j < parent_slot (nd_parent (ns ! i))" if "j \<in> set (slot_path ns (parent_slot (nd_parent (ns ! i))))"
      using less.IH [OF _ less.prems(1) _ that] slot_path_Suc(2) [OF less.prems(1) i] i Suc by simp
    ultimately show ?thesis using slot_path_Suc(2) [OF less.prems(1) i] Suc by auto
  qed
qed

definition rows_done :: "'f dd_node list \<Rightarrow> nat \<Rightarrow> bool list list \<Rightarrow> bool" where
  "rows_done ns i vis \<longleftrightarrow> length vis = Suc (length ns) \<and>
     (\<forall>s\<le>length ns. vis ! s = map (\<lambda>j. s < i \<and> sees ns s j) [0..<Suc (length ns)])"

lemma visibility_rows_ok:
  assumes top: "topological ns"
  shows "rows_done ns i vis \<Longrightarrow> 0 < i \<Longrightarrow> i \<le> Suc (length ns) \<Longrightarrow> \<exists>vis'. visibility_rows (drop (i - 1) ns) i vis = Some vis' \<and> rows_done ns (Suc (length ns)) vis'"
proof (induction "Suc (length ns) - i" arbitrary: i vis)
  case 0
  then show ?case by (cases "i = Suc (length ns)") auto
next
  case (Suc k)
  let ?n = "ns ! (i - 1)"
  have i: "i - 1 < length ns" "Suc (i - 1) = i" using Suc by auto
  have up: "parent_slot (nd_parent ?n) \<le> i - 1" and path: "slot_path ns i = slot_path ns (parent_slot (nd_parent ?n)) @ [i - 1]"
    using slot_path_Suc [OF top i(1)] i by auto
  have rows: "vis ! i = map (\<lambda>j. False) [0..<Suc (length ns)]"
    "vis ! parent_slot (nd_parent ?n) = map (sees ns (parent_slot (nd_parent ?n))) [0..<Suc (length ns)]" "length vis = Suc (length ns)"
    using Suc.prems i up by (auto simp: rows_done_def)
  have drop: "drop (i - 1) ns = ?n # drop i ns" using Cons_nth_drop_Suc [OF i(1)] i(2) by simp
  let ?row = "take i (vis ! parent_slot (nd_parent ?n)) @ True # drop (Suc i) (vis ! i)"
  have "?row = map (sees ns i) [0..<Suc (length ns)]"
  proof (rule nth_equalityI)
    show "length ?row = length (map (sees ns i) [0..<Suc (length ns)])" using i rows by (simp del: upt_Suc)
  next
    fix j assume "j < length ?row"
    then have j: "j \<le> length ns" using i rows by (simp del: upt_Suc)
    have "sees ns i j = (if j < i then sees ns (parent_slot (nd_parent ?n)) j else j = i)"
      using slot_path_bound [OF top, of i "j - 1"] i up path by (auto simp: sees_def)
    then show "?row ! j = map (sees ns i) [0..<Suc (length ns)] ! j"
      using j i rows by (simp add: nth_append nth_Cons' del: upt_Suc)
  qed
  moreover have "vis[i := map (sees ns i) [0..<Suc (length ns)]] ! s = map (\<lambda>j. s < Suc i \<and> sees ns s j) [0..<Suc (length ns)]"
    if "s \<le> length ns" for s
    using Suc.prems(1) i that by (cases "s = i") (auto simp: rows_done_def simp del: upt_Suc)
  ultimately have "rows_done ns (Suc i) (vis[i := ?row])"
    using Suc.prems by (simp add: rows_done_def del: upt_Suc)
  then have "\<exists>vis'. visibility_rows (drop (Suc i - 1) ns) (Suc i) (vis[i := ?row]) = Some vis' \<and> rows_done ns (Suc (length ns)) vis'"
    using Suc.hyps Suc.prems by (intro Suc.hyps) auto
  then show ?case using drop rows up i by simp
qed

lemma visibility_of_ok:
  assumes "topological ns"
  shows "\<exists>vis. visibility_of ns = Some vis \<and> length vis = Suc (length ns) \<and>
    (\<forall>s\<le>length ns. length (vis ! s) = Suc (length ns) \<and> (\<forall>j\<le>length ns. vis ! s ! j \<longleftrightarrow> sees ns s j))"
proof -
  let ?len = "Suc (length ns)"
  let ?v = "(replicate ?len (replicate ?len False))[0 := (replicate ?len False)[0 := True]]"
  have "rows_done ns 1 ?v"
    by (auto simp: rows_done_def sees_def slot_path_def nth_list_update intro!: nth_equalityI
        simp del: upt_Suc replicate.simps split: if_splits)
  from visibility_rows_ok [OF assms this] obtain vis where "visibility_of ns = Some vis" "rows_done ns ?len vis"
    by (auto simp: visibility_of_def)
  then show ?thesis by (auto simp: rows_done_def simp del: upt_Suc)
qed

lemma nodes_ok_topological: "nodes_ok tt depth topk rk ns \<Longrightarrow> topological ns"
  by (auto simp: nodes_ok_def topological_def)

definition sees_ancestors :: "'f dd_tree \<Rightarrow> bool" where
  "sees_ancestors t \<longleftrightarrow>
     length (visibility t) = Suc (num_nodes t) \<and>
     (\<forall>s\<le>num_nodes t. length (visibility t ! s) = Suc (num_nodes t) \<and>
        (\<forall>j\<le>num_nodes t. visibility t ! s ! j \<longleftrightarrow> sees (tree_nodes t) s j))"

definition tree_ok :: "token list \<Rightarrow> nat \<Rightarrow> nat \<Rightarrow> nat list list \<Rightarrow> 'f dd_tree \<Rightarrow> bool" where
  "tree_ok tt depth topk rk t \<longleftrightarrow>
     nodes_ok tt depth topk rk (tree_nodes t) \<and> children_ok (tree_nodes t) (child_maps t) \<and> sees_ancestors t"

lemma build_run:
  assumes tab: "tables_ok tt lp depth topk" and k: "0 < topk" and small: "max_nodes \<le> 2147483648"
    and pos: "0 < depth" "0 < max_nodes"
    and start: "J [] (push_entry A 1 0 (- 1) (lp ! 0) \<lparr>b_heap = [], b_counter = 0, b_nodes = [], b_children = [Map.empty]\<rparr>)"
    and J: "kept_by_placing A tt lp depth topk J"
  shows "\<exists>rk st t. build_ddtree_tree_bounded A tt lp depth topk min_nodes max_nodes lim = Some t \<and> tree_nodes t = b_nodes st \<and>
    tree_ok tt depth topk rk t \<and> build_ok tt depth topk rk st \<and> J rk st \<and> length (b_nodes st) \<le> max_nodes \<and>
    stopped A min_nodes max_nodes lim st"
proof -
  have lp: "list_get lp 0 = Some (lp ! 0)" using tab k pos by (auto simp: tables_ok_def)
  from grow_ok [where J = J and min_nodes = min_nodes and lim = lim, OF tab small J start_ok [OF pos(1) k] start] obtain rk st where
    st: "grow A tt lp depth topk min_nodes max_nodes lim
      (push_entry A 1 0 (- 1) (lp ! 0) \<lparr>b_heap = [], b_counter = 0, b_nodes = [], b_children = [Map.empty]\<rparr>) = Some st"
      "build_ok tt depth topk rk st" "J rk st" "length (b_nodes st) \<le> max_nodes" "stopped A min_nodes max_nodes lim st"
    by auto
  then have "topological (b_nodes st)" using nodes_ok_topological by (auto simp: build_ok_def)
  from visibility_of_ok [OF this] obtain vis where
    vis: "visibility_of (b_nodes st) = Some vis" "sees_ancestors \<lparr>tree_nodes = b_nodes st, visibility = vis, child_maps = b_children st\<rparr>"
    by (auto simp: sees_ancestors_def num_nodes_def)
  have "build_ddtree_tree_bounded A tt lp depth topk min_nodes max_nodes lim =
      Some \<lparr>tree_nodes = b_nodes st, visibility = vis, child_maps = b_children st\<rparr>"
    using tab pos lp st(1) vis(1) by (simp add: build_ddtree_tree_bounded_def tables_ok_def)
  then show ?thesis using st vis(2) by (auto simp: tree_ok_def build_ok_def)
qed

lemma empty_tree_ok:
  "tree_ok tt depth topk [] \<lparr>tree_nodes = [], visibility = [[True]], child_maps = [Map.empty]\<rparr>"
  by (simp add: tree_ok_def nodes_ok_def children_ok_def sees_ancestors_def num_nodes_def sees_def)

lemma stopped_left_out:
  assumes "stopped A min_nodes budget lim st" and "build_ok tt depth topk rk st" and "rank_path depth topk p" and "p \<notin> set rk"
  obtains e h x where "dd_pop A (b_heap st) = Some (e, h)" and "x \<in> set (b_heap st)" and "spawns (entry_path rk x) p"
    and "budget \<le> length (b_nodes st) \<or> min_nodes \<le> length (b_nodes st) \<and> f_lt A (he_logw e) lim"
  using assms by (force simp: stopped_def build_ok_def frontier_ok_def split: option.splits)

text \<open>
  The draft tree is well formed, whatever the arithmetic does: on tables of the right size the
  construction does not panic and ends; every node is one candidate (no candidate twice) with its token
  from the table, its depth, and its parent before it; a slot sees exactly itself and its ancestors; the
  child maps list exactly children; the number of nodes is at most the ceiling, and below the floor only
  when every candidate is in the tree.
\<close>

theorem ddtree_shape:
  assumes "tables_ok tt lp depth topk" and "0 < topk" and "max_nodes \<le> 2147483648"
  shows "\<exists>t rk. build_ddtree_tree_bounded A tt lp depth topk min_nodes max_nodes lim = Some t \<and> tree_ok tt depth topk rk t \<and>
    num_nodes t \<le> max_nodes \<and>
    (num_nodes t < min min_nodes max_nodes \<longrightarrow> (\<forall>p. rank_path depth topk p \<longrightarrow> p \<in> set rk))"
proof (cases "max_nodes = 0 \<or> depth = 0")
  case True
  then have "\<not> rank_path depth topk p" if "max_nodes \<noteq> 0" for p using that by (auto simp: rank_path_def)
  then show ?thesis using True empty_tree_ok
    by (fastforce simp: build_ddtree_tree_bounded_def num_nodes_def)
next
  case False
  with build_run [where J = "\<lambda>_ _. True" and A = A and min_nodes = min_nodes and lim = lim, OF assms] obtain rk st t where
    t: "build_ddtree_tree_bounded A tt lp depth topk min_nodes max_nodes lim = Some t" "tree_nodes t = b_nodes st"
      "tree_ok tt depth topk rk t" "build_ok tt depth topk rk st" "length (b_nodes st) \<le> max_nodes"
      "stopped A min_nodes max_nodes lim st" by (auto simp: kept_by_placing_def)
  have "p \<in> set rk" if "num_nodes t < min min_nodes max_nodes" "rank_path depth topk p" for p
  proof (rule ccontr)
    assume "p \<notin> set rk"
    from stopped_left_out [OF t(6,4) that(2) this] that(1) t(2) show False by (auto simp: num_nodes_def)
  qed
  then show ?thesis using t by (auto simp: num_nodes_def)
qed

section \<open>Exact arithmetic: the likeliest prefixes\<close>

definition exact_ops :: "'w::linordered_ab_group_add f32_ops" where
  "exact_ops = \<lparr>f_lt = (<), f_add = (+), f_sub = (-), f_neg = uminus\<rparr>"

definition path_weight :: "'w::linordered_ab_group_add list \<Rightarrow> nat \<Rightarrow> nat list \<Rightarrow> 'w" where
  "path_weight lp topk p = (\<Sum>k<length p. lp ! (k * topk + p ! k))"

text \<open>Every row of the table is sorted from the likeliest, and logarithms of probabilities are not positive.\<close>

definition marginals :: "'w::linordered_ab_group_add list \<Rightarrow> nat \<Rightarrow> nat \<Rightarrow> bool" where
  "marginals lp depth topk \<longleftrightarrow>
     (\<forall>d<depth. \<forall>r. Suc r < topk \<longrightarrow> lp ! (d * topk + Suc r) \<le> lp ! (d * topk + r)) \<and>
     (\<forall>d<depth. \<forall>r<topk. lp ! (d * topk + r) \<le> 0)"

lemma path_weight_snoc: "path_weight lp topk (q @ [r]) = path_weight lp topk q + lp ! (length q * topk + r)"
  by (simp add: path_weight_def nth_append)

lemma marginals_le:
  assumes "marginals lp depth topk" and "d < depth" and "s \<le> r" and "r < topk"
  shows "lp ! (d * topk + r) \<le> lp ! (d * topk + s)"
  using assms(3,4)
proof (induction r)
  case (Suc r)
  show ?case
  proof (cases "s = Suc r")
    case False
    then have "lp ! (d * topk + r) \<le> lp ! (d * topk + s)" using Suc by simp
    moreover have "lp ! (d * topk + Suc r) \<le> lp ! (d * topk + r)" using assms(1,2) Suc.prems by (simp add: marginals_def)
    ultimately show ?thesis by simp
  qed simp
qed simp

lemma spawns_weight:
  assumes m: "marginals lp depth topk" and p: "rank_path depth topk p" and s: "spawns q p"
  shows "path_weight lp topk p \<le> path_weight lp topk q"
proof -
  obtain k where k: "length q = Suc k" using s by (cases q) (auto simp: spawns_def)
  have kp: "k < length p" and bl: "butlast q = take k p" and le: "last q \<le> p ! k" using s k by (auto simp: spawns_def)
  have q: "q = take k p @ [last q]" using k bl by (metis append_butlast_last_id length_greater_0_conv zero_less_Suc)
  have pk: "p ! i < topk" if "i < length p" for i using p that by (simp add: rank_path_def)
  have dep: "length p \<le> depth" using p by (simp add: rank_path_def)
  let ?f = "\<lambda>i. lp ! (i * topk + p ! i)"
  have "path_weight lp topk p = (\<Sum>i<k. ?f i) + ?f k + (\<Sum>i\<in>{Suc k..<length p}. ?f i)"
    using kp by (simp add: path_weight_def lessThan_atLeast0 sum.atLeastLessThan_concat [symmetric, of 0 "Suc k" "length p"])
  also have "\<dots> \<le> (\<Sum>i<k. ?f i) + lp ! (k * topk + last q) + 0"
  proof (intro add_mono order.refl sum_nonpos)
    show "?f k \<le> lp ! (k * topk + last q)" using marginals_le [OF m _ le pk [OF kp]] kp dep by simp
    show "?f i \<le> 0" if "i \<in> {Suc k..<length p}" for i using m pk [of i] that dep by (simp add: marginals_def)
  qed
  also have "\<dots> = path_weight lp topk (take k p @ [last q])"
    using kp unfolding path_weight_snoc by (simp add: path_weight_def)
  also have "\<dots> = path_weight lp topk q" using q by simp
  finally show ?thesis .
qed

definition weights_ok :: "'w::linordered_ab_group_add list \<Rightarrow> nat \<Rightarrow> nat list list \<Rightarrow> 'w dd_build \<Rightarrow> bool" where
  "weights_ok lp topk rk st \<longleftrightarrow>
     map nd_logw (b_nodes st) = map (path_weight lp topk) rk \<and>
     (\<forall>e\<in>set (b_heap st). he_logw e = path_weight lp topk (entry_path rk e) \<and> he_neg_logw e = - he_logw e \<and>
        (\<forall>p\<in>set rk. he_logw e \<le> path_weight lp topk p)) \<and>
     sorted_wrt (\<lambda>p q. path_weight lp topk q \<le> path_weight lp topk p) rk"

lemma weights_okD:
  assumes "weights_ok lp topk rk st" and "e \<in> set (b_heap st)"
  shows "he_logw e = path_weight lp topk (entry_path rk e)" and "he_neg_logw e = - he_logw e"
    and "p \<in> set rk \<Longrightarrow> he_logw e \<le> path_weight lp topk p"
  using assms unfolding weights_ok_def by blast+

lemma greatest_exact:
  assumes "\<forall>x\<in>set (e # xs). he_neg_logw x = - he_logw x"
  shows "\<forall>x\<in>set (e # xs). he_logw x \<le> he_logw (greatest exact_ops e xs)"
  using assms
proof (induction xs arbitrary: e)
  case (Cons x xs)
  let ?m = "if entry_above exact_ops x e then x else e"
  have "he_logw x \<le> he_logw ?m" "he_logw e \<le> he_logw ?m"
    using Cons.prems by (auto simp: entry_above_def exact_ops_def split: if_splits)
  moreover have "\<forall>y\<in>set (?m # xs). he_logw y \<le> he_logw (greatest exact_ops ?m xs)"
    using Cons.prems by (intro Cons.IH) auto
  ultimately show ?case by fastforce
qed simp

lemma dd_pop_exact:
  assumes "dd_pop exact_ops h = Some (e, h')" and "\<forall>x\<in>set h. he_neg_logw x = - he_logw x" and "x \<in> set h"
  shows "he_logw x \<le> he_logw e"
  using assms greatest_exact by (cases h) (auto simp: Let_def)

lemma spawned_weights:
  assumes m: "marginals lp depth topk" and e: "e \<in> set h" and ok: "frontier_ok depth topk rk h"
    and w: "he_logw e = path_weight lp topk (entry_path rk e)"
    and x: "x \<in> set (spawned exact_ops lp depth topk (length rk) order e)"
  shows "he_neg_logw x = - he_logw x" and "he_logw x \<le> he_logw e"
    and "he_logw x = path_weight lp topk (entry_path (rk @ [entry_path rk e]) x)"
proof -
  let ?q = "entry_path rk e" and ?up = "parent_path rk (he_parent e)"
  have p: "- 1 \<le> he_parent e" "he_parent e < int (length rk)" and d: "he_depth e = Suc (length ?up)"
    and r: "rank_path depth topk ?q" using ok e by (auto simp: frontier_ok_def entry_path_def)
  have up: "parent_path (rk @ [?q]) (he_parent e) = ?up" using p by simp
  have w': "he_logw e = path_weight lp topk ?up + lp ! (length ?up * topk + he_rank e)"
    using w by (simp add: entry_path_def path_weight_snoc)
  have dep: "length ?up < depth" using r by (simp add: rank_path_def entry_path_def)
  from x consider
      (kid) i where "he_depth e < depth" "x = mk_entry exact_ops (Suc (he_depth e)) 0 (int (length rk)) (he_logw e + lp ! (he_depth e * topk)) i"
    | (sib) i where "Suc (he_rank e) < topk" "x = mk_entry exact_ops (he_depth e) (Suc (he_rank e)) (he_parent e)
        (he_logw e - lp ! (length ?up * topk + he_rank e) + lp ! (length ?up * topk + Suc (he_rank e))) i"
    using d by (auto simp: spawned_def Let_def exact_ops_def split: if_splits)
  then have "he_neg_logw x = - he_logw x \<and> he_logw x \<le> he_logw e \<and> he_logw x = path_weight lp topk (entry_path (rk @ [?q]) x)"
  proof cases
    case kid
    have "0 < topk" using r by (auto simp: rank_path_def entry_path_def)
    then have "lp ! (he_depth e * topk) \<le> 0" using m kid(1) unfolding marginals_def by (metis add_0_right)
    moreover have "length ?q = he_depth e" using d by (simp add: entry_path_def)
    ultimately show ?thesis
      using kid w by (simp add: mk_entry_def exact_ops_def entry_path_def [of "rk @ [?q]"] parent_path_def nth_append path_weight_snoc)
  next
    case sib
    have "lp ! (length ?up * topk + Suc (he_rank e)) \<le> lp ! (length ?up * topk + he_rank e)"
      using m sib(1) dep by (simp add: marginals_def)
    then show ?thesis
      using sib w' by (simp add: mk_entry_def exact_ops_def entry_path_def [of "rk @ [?q]"] up path_weight_snoc)
  qed
  then show "he_neg_logw x = - he_logw x" and "he_logw x \<le> he_logw e"
    and "he_logw x = path_weight lp topk (entry_path (rk @ [?q]) x)" by auto
qed

lemma weights_kept: "marginals lp depth topk \<Longrightarrow> kept_by_placing exact_ops tt lp depth topk (weights_ok lp topk)"
  unfolding kept_by_placing_def
proof (intro allI impI, elim conjE)
  fix rk and st st' :: "'a dd_build" and e :: "'a heap_entry" and h and n :: "'a dd_node"
  let ?q = "entry_path rk e"
  assume m: "marginals lp depth topk" and ok: "build_ok tt depth topk rk st" and w: "weights_ok lp topk rk st"
    and pop: "dd_pop exact_ops (b_heap st) = Some (e, h)"
    and heap: "b_heap st' = spawned exact_ops lp depth topk (length rk) (b_counter st) e @ h"
    and nodes: "b_nodes st' = b_nodes st @ [n]" "nd_logw n = he_logw e"
  have e: "e \<in> set (b_heap st)" and h: "h = remove1 e (b_heap st)" using dd_pop_Some [OF pop] by auto
  have front: "frontier_ok depth topk rk (b_heap st)" using ok by (simp add: build_ok_def)
  have we: "he_logw e = path_weight lp topk ?q" using w e by (simp add: weights_ok_def)
  have top: "he_logw x \<le> he_logw e" if "x \<in> set (b_heap st)" for x
    using dd_pop_exact [OF pop _ that] w by (simp add: weights_ok_def)
  have "he_logw x = path_weight lp topk (entry_path (rk @ [?q]) x) \<and> he_neg_logw x = - he_logw x \<and> he_logw x \<le> he_logw e"
    if "x \<in> set (b_heap st')" for x
  proof (cases "x \<in> set h")
    case True
    then have "x \<in> set (b_heap st)" using h set_remove1_subset by fast
    then show ?thesis using w top front by (simp add: weights_ok_def frontier_ok_def)
  next
    case False
    then show ?thesis using that heap spawned_weights [OF m e front we] by auto
  qed
  moreover have "he_logw e \<le> path_weight lp topk p" if "p \<in> set rk" for p using weights_okD(3) [OF w e that] .
  ultimately show "weights_ok lp topk (rk @ [?q]) st'"
    using w nodes we by (fastforce simp: weights_ok_def sorted_wrt_append)
qed

text \<open>
  Property C15. In exact arithmetic, on rows sorted from the likeliest, the tree holds the likeliest prefixes of
  the drafts: each node carries the weight of its path, the nodes come in order of falling weight, and a
  candidate is left out only if it weighs no more than any node and either the ceiling was reached or the
  floor was reached and the candidate is below the cutoff.
\<close>

theorem ddtree_best_first:
  fixes lp :: "'w::linordered_ab_group_add list"
  assumes "tables_ok tt lp depth topk" and "0 < topk" and "max_nodes \<le> 2147483648" and "marginals lp depth topk"
  shows "\<exists>t rk. build_ddtree_tree_bounded exact_ops tt lp depth topk min_nodes max_nodes lim = Some t \<and> tree_ok tt depth topk rk t \<and>
    map nd_logw (tree_nodes t) = map (path_weight lp topk) rk \<and>
    sorted_wrt (\<lambda>p q. path_weight lp topk q \<le> path_weight lp topk p) rk \<and>
    (\<forall>p. rank_path depth topk p \<and> p \<notin> set rk \<longrightarrow>
       (\<forall>q\<in>set rk. path_weight lp topk p \<le> path_weight lp topk q) \<and>
       (num_nodes t = max_nodes \<or> min_nodes \<le> num_nodes t \<and> path_weight lp topk p < lim))"
proof (cases "max_nodes = 0 \<or> depth = 0")
  case True
  then have "max_nodes = 0" if "rank_path depth topk p" for p using that by (auto simp: rank_path_def)
  then show ?thesis using True empty_tree_ok
    by (intro exI [of _ "\<lparr>tree_nodes = [], visibility = [[True]], child_maps = [Map.empty]\<rparr>"] exI [of _ "[]"])
       (auto simp: build_ddtree_tree_bounded_def num_nodes_def)
next
  case False
  have "weights_ok lp topk [] (push_entry exact_ops 1 0 (- 1) (lp ! 0) \<lparr>b_heap = [], b_counter = 0, b_nodes = [], b_children = [Map.empty]\<rparr>)"
    by (simp add: weights_ok_def push_entry_def mk_entry_def entry_path_def parent_path_def path_weight_def exact_ops_def)
  from build_run [where min_nodes = min_nodes and lim = lim, OF assms(1-3) _ _ this weights_kept [OF assms(4)]] False obtain rk st t where
    t: "build_ddtree_tree_bounded exact_ops tt lp depth topk min_nodes max_nodes lim = Some t" "tree_nodes t = b_nodes st"
      "tree_ok tt depth topk rk t" "build_ok tt depth topk rk st" "weights_ok lp topk rk st" "length (b_nodes st) \<le> max_nodes"
      "stopped exact_ops min_nodes max_nodes lim st" by auto
  have "(\<forall>q\<in>set rk. path_weight lp topk p \<le> path_weight lp topk q) \<and>
       (num_nodes t = max_nodes \<or> min_nodes \<le> num_nodes t \<and> path_weight lp topk p < lim)"
    if p: "rank_path depth topk p" "p \<notin> set rk" for p
  proof -
    from stopped_left_out [OF t(7,4) p] obtain e h x where
      x: "dd_pop exact_ops (b_heap st) = Some (e, h)" "x \<in> set (b_heap st)" "spawns (entry_path rk x) p"
        "max_nodes \<le> length (b_nodes st) \<or> min_nodes \<le> length (b_nodes st) \<and> f_lt exact_ops (he_logw e) lim" .
    have "path_weight lp topk p \<le> he_logw x" using spawns_weight [OF assms(4) p(1) x(3)] weights_okD(1) [OF t(5) x(2)] by simp
    moreover have "he_logw x \<le> he_logw e" using dd_pop_exact [OF x(1) _ x(2)] weights_okD(2) [OF t(5)] by blast
    moreover have "\<forall>q\<in>set rk. he_logw x \<le> path_weight lp topk q" using weights_okD(3) [OF t(5) x(2)] by blast
    ultimately show ?thesis using x(4) t(2,6) by (auto simp: num_nodes_def exact_ops_def)
  qed
  then show ?thesis using t by (intro exI [of _ t] exI [of _ rk]) (auto simp: weights_ok_def)
qed

definition small_table :: "int list" where
  "small_table = [- 1, - 3, - 1, - 2]"

theorem ddtree_best_first_witness:
  "\<exists>t rk. build_ddtree_tree_bounded exact_ops [1, 2, 3, 4] small_table 2 2 0 3 (- 100) = Some t \<and> tree_ok [1, 2, 3, 4] 2 2 rk t \<and>
    map nd_logw (tree_nodes t) = map (path_weight small_table 2) rk \<and>
    sorted_wrt (\<lambda>p q. path_weight small_table 2 q \<le> path_weight small_table 2 p) rk"
proof -
  have "tables_ok [1, 2, 3, 4] small_table 2 2" by (simp add: tables_ok_def small_table_def)
  moreover have "marginals small_table 2 2"
    by (simp add: marginals_def small_table_def numeral_2_eq_2 less_Suc_eq all_conj_distrib imp_conjR)
  ultimately show ?thesis using ddtree_best_first [of "[1, 2, 3, 4]" small_table 2 2 3 0 "- 100"] by auto
qed

section \<open>Walks\<close>

text \<open>\<open>ancestors_of\<close> is the ancestry.\<close>

lemma ancestors_loop_ok:
  assumes "topological ns" and "i < length ns"
  shows "ancestors_loop ns (int i) chain = Some (ancestry ns i @ rev chain)"
  using assms(2)
proof (induction i arbitrary: chain rule: less_induct)
  case (less i)
  let ?p = "nd_parent (ns ! i)"
  have p: "- 1 \<le> ?p" "?p < int i" using assms(1) less.prems by (auto simp: topological_def)
  show ?case
  proof (cases "?p < 0")
    case True
    then show ?thesis using less.prems p
      by (simp add: ancestors_loop.simps [of ns "int i"] ancestors_loop.simps [of ns ?p] ancestry.simps [of ns i])
  next
    case False
    then have "ancestors_loop ns ?p (chain @ [i]) = Some (ancestry ns (nat ?p) @ rev (chain @ [i]))"
      using less.IH [of "nat ?p" "chain @ [i]"] p less.prems by simp
    then show ?thesis using less.prems p False
      by (simp add: ancestors_loop.simps [of ns "int i"] ancestry.simps [of ns i] nat_less_iff)
  qed
qed

lemma ancestors_of_exact:
  "tree_ok tt depth topk rk t \<Longrightarrow> i < num_nodes t \<Longrightarrow> num_nodes t \<le> 2147483648 \<Longrightarrow> ancestors_of t i = Some (slot_path (tree_nodes t) (Suc i))"
  using ancestors_loop_ok [OF nodes_ok_topological]
  by (fastforce simp: ancestors_of_def tree_ok_def num_nodes_def slot_path_def)

text \<open>
  \<open>walked ns pick s\<close>: each token on the way to slot \<open>s\<close> is what \<open>pick\<close> gives at the slot above it.
\<close>

definition walked :: "'f dd_node list \<Rightarrow> (nat \<Rightarrow> token) \<Rightarrow> nat \<Rightarrow> bool" where
  "walked ns pick s \<longleftrightarrow> (\<forall>i\<in>set (slot_path ns s). nd_token (ns ! i) = pick (parent_slot (nd_parent (ns ! i))))"

definition has_child :: "'f dd_node list \<Rightarrow> nat \<Rightarrow> token \<Rightarrow> bool" where
  "has_child ns s tok \<longleftrightarrow> (\<exists>i<length ns. parent_slot (nd_parent (ns ! i)) = s \<and> nd_token (ns ! i) = tok)"

lemma walked_root [simp]: "walked ns pick 0"
  by (simp add: walked_def slot_path_def)

lemma walked_Suc:
  "topological ns \<Longrightarrow> i < length ns \<Longrightarrow>
   walked ns pick (Suc i) \<longleftrightarrow> walked ns pick (parent_slot (nd_parent (ns ! i))) \<and> nd_token (ns ! i) = pick (parent_slot (nd_parent (ns ! i)))"
  by (auto simp: walked_def slot_path_Suc)

lemma child_map_cases:
  assumes "children_ok ns cms" and "s \<le> length ns"
  obtains (leaf) "(cms ! s) tok = None" "\<not> has_child ns s tok"
    | (child) i where "(cms ! s) tok = Some i" "i < length ns" "parent_slot (nd_parent (ns ! i)) = s" "nd_token (ns ! i) = tok"
proof (cases "(cms ! s) tok")
  case None
  then have "\<not> has_child ns s tok" using assms by (auto simp: children_ok_def has_child_def)
  then show ?thesis using None that(1) by blast
next
  case (Some i)
  then show ?thesis using assms that(2) by (auto simp: children_ok_def less_Suc_eq_le)
qed

lemma follow_loop_ok:
  assumes top: "topological ns" and cms: "children_ok ns cms" and len: "length post = Suc (length ns)"
  shows "s \<le> length ns \<Longrightarrow> walked ns ((!) post) s \<Longrightarrow>
    \<exists>s'. follow_loop cms post s (post ! s) (slot_path ns s) = Some (slot_path ns s', post ! s') \<and> s' \<le> length ns \<and>
      walked ns ((!) post) s' \<and> \<not> has_child ns s' (post ! s')"
proof (induction "length ns - s" arbitrary: s rule: less_induct)
  case less
  have s: "s < length cms" using cms less.prems by (simp add: children_ok_def)
  show ?case
  proof (rule child_map_cases [OF cms less.prems(1), of "post ! s"])
    assume "(cms ! s) (post ! s) = None" "\<not> has_child ns s (post ! s)"
    then show ?thesis using less.prems s by (simp add: follow_loop.simps [of cms post s]) blast
  next
    fix i assume child: "(cms ! s) (post ! s) = Some i" "i < length ns" "parent_slot (nd_parent (ns ! i)) = s"
      "nd_token (ns ! i) = post ! s"
    have path: "slot_path ns (Suc i) = slot_path ns s @ [i]" "s \<le> i" using slot_path_Suc [OF top child(2)] child(3) by auto
    have lt: "length ns - Suc i < length ns - s" "Suc i \<le> length ns" using child(2) path(2) by arith+
    have "walked ns ((!) post) (Suc i)" using walked_Suc [OF top child(2)] child less.prems by simp
    then obtain s' where "follow_loop cms post (Suc i) (post ! Suc i) (slot_path ns (Suc i)) = Some (slot_path ns s', post ! s') \<and>
        s' \<le> length ns \<and> walked ns ((!) post) s' \<and> \<not> has_child ns s' (post ! s')"
      using less.hyps [OF lt] by blast
    then show ?thesis using child(1,2) s len path by (auto simp: follow_loop.simps [of cms post s])
  qed
qed

lemma follow_verified_tree_ok:
  assumes "topological (tree_nodes t)" and "children_ok (tree_nodes t) (child_maps t)" and "length post = Suc (num_nodes t)"
  shows "\<exists>s. follow_verified_tree t post = Some (slot_path (tree_nodes t) s, post ! s) \<and> s \<le> num_nodes t \<and>
    walked (tree_nodes t) ((!) post) s \<and> \<not> has_child (tree_nodes t) s (post ! s)"
  using follow_loop_ok [OF assms(1,2), of post 0] assms(3)
  by (auto simp: follow_verified_tree_def slot_path_def num_nodes_def)

text \<open>With siblings that differ in their tokens the walk is the only one, so no walk is longer.\<close>

definition siblings_differ :: "'f dd_node list \<Rightarrow> bool" where
  "siblings_differ ns \<longleftrightarrow> (\<forall>i<length ns. \<forall>j<length ns. parent_slot (nd_parent (ns ! i)) = parent_slot (nd_parent (ns ! j)) \<and>
     nd_token (ns ! i) = nd_token (ns ! j) \<longrightarrow> i = j)"

definition rows_distinct :: "token list \<Rightarrow> nat \<Rightarrow> nat \<Rightarrow> bool" where
  "rows_distinct tt depth topk \<longleftrightarrow> (\<forall>d<depth. \<forall>r<topk. \<forall>s<topk. tt ! (d * topk + r) = tt ! (d * topk + s) \<longrightarrow> r = s)"

lemma siblings_differ_ok:
  assumes "nodes_ok tt depth topk rk ns" and "rows_distinct tt depth topk"
  shows "siblings_differ ns"
  unfolding siblings_differ_def
proof (intro allI impI, elim conjE)
  fix i j assume i: "i < length ns" and j: "j < length ns"
    and p: "parent_slot (nd_parent (ns ! i)) = parent_slot (nd_parent (ns ! j))" and t: "nd_token (ns ! i) = nd_token (ns ! j)"
  have node: "- 1 \<le> nd_parent (ns ! k)" "rk ! k \<noteq> []" "butlast (rk ! k) = parent_path rk (nd_parent (ns ! k))" "rank_path depth topk (rk ! k)"
      "nd_token (ns ! k) = tt ! ((length (rk ! k) - 1) * topk + last (rk ! k))" if "k < length ns" for k
    using assms(1) that by (auto simp: nodes_ok_def)
  have "nd_parent (ns ! i) = nd_parent (ns ! j)" using p node(1) [OF i] node(1) [OF j] by (auto simp: parent_slot_def split: if_splits)
  then have bl: "butlast (rk ! i) = butlast (rk ! j)" using node(3) i j by simp
  then have len: "length (rk ! i) - 1 = length (rk ! j) - 1" using length_butlast by metis
  have last: "last (rk ! k) < topk" "length (rk ! k) - 1 < depth" if "k < length ns" for k
    using node(2,4) [OF that] by (cases "rk ! k"; simp add: rank_path_def)+
  have "last (rk ! i) = last (rk ! j)"
    using assms(2) t node(5) [OF i] node(5) [OF j] len last [OF i] last [OF j] unfolding rows_distinct_def by metis
  then have "rk ! i = rk ! j" using bl node(2) [OF i] node(2) [OF j] by (metis append_butlast_last_id)
  then show "i = j" using assms(1) i j by (simp add: nodes_ok_def nth_eq_iff_index_eq)
qed

lemma below_ancestor:
  assumes "topological ns"
  shows "s \<le> length ns \<Longrightarrow> u = 0 \<or> u - 1 \<in> set (slot_path ns s) \<Longrightarrow> u \<noteq> s \<Longrightarrow>
    \<exists>j\<in>set (slot_path ns s). parent_slot (nd_parent (ns ! j)) = u \<and> j < length ns"
proof (induction s rule: less_induct)
  case (less s)
  show ?case
  proof (cases s)
    case 0
    then show ?thesis using less.prems by (auto simp: slot_path_def)
  next
    case (Suc i)
    let ?up = "parent_slot (nd_parent (ns ! i))"
    have i: "i < length ns" using less.prems Suc by simp
    note path = slot_path_Suc [OF assms i]
    show ?thesis
    proof (cases "u = ?up")
      case False
      then have "u = 0 \<or> u - 1 \<in> set (slot_path ns ?up)" using less.prems Suc path by (cases u) auto
      then show ?thesis using less.IH [of ?up] path Suc i False by auto
    qed (use path Suc i in auto)
  qed
qed

lemma walked_longest:
  assumes top: "topological ns" and sib: "siblings_differ ns" and s: "s \<le> length ns" "walked ns pick s" "\<not> has_child ns s (pick s)"
  shows "s' \<le> length ns \<Longrightarrow> walked ns pick s' \<Longrightarrow> s' = 0 \<or> s' - 1 \<in> set (slot_path ns s)"
proof (induction s' rule: less_induct)
  case (less s')
  show ?case
  proof (cases s')
    case (Suc i)
    let ?up = "parent_slot (nd_parent (ns ! i))"
    have i: "i < length ns" using less.prems Suc by simp
    have up: "?up \<le> i" "walked ns pick ?up" "nd_token (ns ! i) = pick ?up"
      using less.prems Suc slot_path_Suc(2) [OF top i] walked_Suc [OF top i] by auto
    then have "?up = 0 \<or> ?up - 1 \<in> set (slot_path ns s)" using less.IH [of ?up] Suc i by simp
    moreover have "?up \<noteq> s" using s(3) up(3) i by (auto simp: has_child_def)
    ultimately obtain j where j: "j \<in> set (slot_path ns s)" "parent_slot (nd_parent (ns ! j)) = ?up" "j < length ns"
      using below_ancestor [OF top s(1), of ?up] by blast
    then have "nd_token (ns ! j) = nd_token (ns ! i)" using s(2) up(3) unfolding walked_def by metis
    then have "i = j" using sib i j unfolding siblings_differ_def by metis
    then show ?thesis using j Suc by simp
  qed simp
qed

end
