(* ===== verification/Tree_Verify.thy ===== *)
theory Tree_Verify
  imports Dd_Tree Spec_Decode
begin

text \<open>
  The draws and walks of \<^verbatim>\<open>hipfire-runtime/src/ddtree.rs\<close> that accept a verified draft: the top-k table of the
  drafter's logits, the host sampler, the chain walk \<^verbatim>\<open>naive_sample_chain\<close>, and the tree walks
  \<^verbatim>\<open>sample_verified_tree\<close> and \<^verbatim>\<open>sample_verified_tree_swor\<close>. Floating-point operations and constants are fields of
  \<open>f32_math\<close> (single precision) and \<open>f64_math\<close> (the accumulators in double precision). Loops are written over
  the slices they scan; \<open>None\<close> is an index out of range.
\<close>

section \<open>Floating point\<close>

record 'f f32_math = "'f f32_ops" +
  f_mul :: "'f \<Rightarrow> 'f \<Rightarrow> 'f"
  f_div :: "'f \<Rightarrow> 'f \<Rightarrow> 'f"
  f_max :: "'f \<Rightarrow> 'f \<Rightarrow> 'f"
  f_min :: "'f \<Rightarrow> 'f \<Rightarrow> 'f"
  f_exp :: "'f \<Rightarrow> 'f"
  f_le :: "'f \<Rightarrow> 'f \<Rightarrow> bool"
  f_finite :: "'f \<Rightarrow> bool"
  f_zero :: 'f
  f_one :: 'f
  f_neg_inf :: 'f
  f_of_u64 :: "64 word \<Rightarrow> 'f"
  f_2pow_m24 :: 'f
  f_1e_6 :: 'f
  f_1e_4 :: 'f
  f_1e_9 :: 'f
  f_0999 :: 'f
  f_log_z :: "'f list \<Rightarrow> 'f"

record ('f, 'd) f64_math =
  d_of :: "'f \<Rightarrow> 'd"
  d_to :: "'d \<Rightarrow> 'f"
  d_add :: "'d \<Rightarrow> 'd \<Rightarrow> 'd"
  d_mul :: "'d \<Rightarrow> 'd \<Rightarrow> 'd"
  d_inv :: "'d \<Rightarrow> 'd"
  d_le :: "'d \<Rightarrow> 'd \<Rightarrow> bool"
  d_lt :: "'d \<Rightarrow> 'd \<Rightarrow> bool"
  d_zero :: 'd

section \<open>Argmax and top-k\<close>

fun argmax_loop :: "'f f32_math \<Rightarrow> nat \<Rightarrow> 'f \<Rightarrow> nat \<Rightarrow> 'f list \<Rightarrow> nat" where
  "argmax_loop A i bv bi [] = bi"
| "argmax_loop A i bv bi (v # vs) = (if f_lt A bv v then argmax_loop A (i + 1) v i vs else argmax_loop A (i + 1) bv bi vs)"

definition row_argmax :: "'f f32_math \<Rightarrow> 'f list \<Rightarrow> nat" where
  "row_argmax A row = argmax_loop A 0 (f_neg_inf A) 0 row"

text \<open>\<^verbatim>\<open>llama::argmax\<close> skips values that are not finite.\<close>

fun llama_argmax_loop :: "'f f32_math \<Rightarrow> nat \<Rightarrow> 'f \<Rightarrow> nat \<Rightarrow> 'f list \<Rightarrow> nat" where
  "llama_argmax_loop A i bv bi [] = bi"
| "llama_argmax_loop A i bv bi (v # vs) =
     (if f_finite A v \<and> f_lt A bv v then llama_argmax_loop A (i + 1) v i vs else llama_argmax_loop A (i + 1) bv bi vs)"

definition llama_argmax :: "'f f32_math \<Rightarrow> 'f list \<Rightarrow> token" where
  "llama_argmax A row = word_of_nat (llama_argmax_loop A 0 (f_neg_inf A) 0 row)"

definition item_less :: "'f f32_math \<Rightarrow> 'f \<times> nat \<Rightarrow> 'f \<times> nat \<Rightarrow> bool" where
  "item_less A a b \<longleftrightarrow> (if f_lt A (fst a) (fst b) then True else if f_lt A (fst b) (fst a) then False else snd a < snd b)"

fun least_item :: "'f f32_math \<Rightarrow> 'f \<times> nat \<Rightarrow> ('f \<times> nat) list \<Rightarrow> 'f \<times> nat" where
  "least_item A m [] = m"
| "least_item A m (x # xs) = least_item A (if item_less A x m then x else m) xs"

fun keep_top :: "'f f32_math \<Rightarrow> nat \<Rightarrow> nat \<Rightarrow> 'f list \<Rightarrow> ('f \<times> nat) list \<Rightarrow> ('f \<times> nat) list option" where
  "keep_top A k i [] heap = Some heap"
| "keep_top A k i (v # vs) heap =
     (if length heap < k then keep_top A k (i + 1) vs ((v, i) # heap)
      else case heap of
             [] \<Rightarrow> None
           | x # xs \<Rightarrow>
               let m = least_item A x xs
               in keep_top A k (i + 1) vs (if item_less A m (v, i) then (v, i) # remove1 m heap else heap))"

lemma least_item_in: "least_item A m xs \<in> set (m # xs)"
  by (induction xs arbitrary: m) (auto split: if_splits)

function drain :: "'f f32_math \<Rightarrow> ('f \<times> nat) list \<Rightarrow> ('f \<times> nat) list" where
  "drain A [] = []"
| "drain A (x # xs) = (let m = least_item A x xs in m # drain A (remove1 m (x # xs)))"
  by pat_completeness auto
termination
proof (relation "measure (length \<circ> snd)")
  show "wf (measure (length \<circ> snd))" by simp
  fix A :: "'f f32_math" and x :: "'f \<times> nat" and xs m
  assume "m = least_item A x xs"
  then have "m \<in> set (x # xs)" using least_item_in by metis
  then show "((A, remove1 m (x # xs)), (A, x # xs)) \<in> measure (length \<circ> snd)" by (auto simp: length_remove1 intro!: diff_less length_pos_if_in_set)
qed

definition topk_row :: "'f f32_math \<Rightarrow> nat \<Rightarrow> 'f list \<Rightarrow> (token list \<times> 'f list) option" where
  "topk_row A k row =
     (let log_z = f_log_z A row
      in if k = 1
         then let i = row_argmax A row
              in Some ([word_of_nat i], [f_sub A (foldl (\<lambda>b v. if f_lt A b v then v else b) (f_neg_inf A) row) log_z])
         else do {
           heap \<leftarrow> keep_top A k 0 row [];
           let items = rev (drain A heap);
           Some (map (\<lambda>x. word_of_nat (snd x)) items, map (\<lambda>x. f_sub A (fst x) log_z) items)
         })"

fun topk_rows :: "'f f32_math \<Rightarrow> 'f list \<Rightarrow> nat \<Rightarrow> nat \<Rightarrow> nat list \<Rightarrow> (token list \<times> 'f list) option" where
  "topk_rows A logits vocab k [] = Some ([], [])"
| "topk_rows A logits vocab k (r # rs) = do {
     row \<leftarrow> slice logits (r * vocab) ((r + 1) * vocab);
     (ts, ls) \<leftarrow> topk_row A k row;
     (ts', ls') \<leftarrow> topk_rows A logits vocab k rs;
     Some (ts @ ts', ls @ ls')
   }"

definition topk_from_logits :: "'f f32_math \<Rightarrow> 'f list \<Rightarrow> nat \<Rightarrow> nat \<Rightarrow> nat \<Rightarrow> (token list \<times> 'f list) option" where
  "topk_from_logits A logits rows vocab k =
     (if length logits \<noteq> rows * vocab \<or> vocab < k then None else topk_rows A logits vocab k [0..<rows])"

section \<open>Draws\<close>

unbundle bit_operations_syntax

definition xorshift_unit :: "'f f32_math \<Rightarrow> 64 word \<Rightarrow> 64 word \<times> 'f" where
  "xorshift_unit A state =
     (let s1 = state XOR push_bit 13 state; s2 = s1 XOR drop_bit 7 s1; s3 = s2 XOR push_bit 17 s2
      in (s3, f_mul A (f_of_u64 A (drop_bit 40 s3)) (f_2pow_m24 A)))"

definition softmax_temp_into :: "'f f32_math \<Rightarrow> 'f list \<Rightarrow> 'f \<Rightarrow> 'f list" where
  "softmax_temp_into A logits temp =
     (let inv_t = f_div A (f_one A) temp;
          mx = foldl (\<lambda>m v. let s = f_mul A v inv_t in if f_lt A m s then s else m) (f_neg_inf A) logits;
          es = map (\<lambda>v. f_exp A (f_sub A (f_mul A v inv_t) mx)) logits;
          total = foldl (f_add A) (f_zero A) es;
          inv = f_div A (f_one A) total
      in map (\<lambda>e. f_mul A e inv) es)"

fun scan_mass :: "'f f32_math \<Rightarrow> 'f \<Rightarrow> nat \<Rightarrow> 'f \<Rightarrow> 'f list \<Rightarrow> nat option" where
  "scan_mass A target i acc [] = None"
| "scan_mass A target i acc (x # xs) =
     (if f_lt A (f_zero A) x
      then let acc' = f_add A acc x in if f_lt A target acc' then Some i else scan_mass A target (i + 1) acc' xs
      else scan_mass A target (i + 1) acc xs)"

definition sample_unnormalized :: "'f f32_math \<Rightarrow> 'f list \<Rightarrow> 'f \<Rightarrow> nat" where
  "sample_unnormalized A w u =
     (let total = foldl (\<lambda>s x. if f_lt A (f_zero A) x then f_add A s x else s) (f_zero A) w
      in if f_le A total (f_zero A) then row_argmax A w
         else case scan_mass A (f_mul A u total) 0 (f_zero A) w of Some i \<Rightarrow> i | None \<Rightarrow> length w - 1)"

text \<open>The stable descending sort of the indices by probability.\<close>

fun insert_desc :: "'f f32_math \<Rightarrow> 'f list \<Rightarrow> nat \<Rightarrow> nat list \<Rightarrow> nat list" where
  "insert_desc A probs i [] = [i]"
| "insert_desc A probs i (j # js) =
     (if f_lt A (probs ! i) (probs ! j) then j # insert_desc A probs i js else i # j # js)"

definition order_desc :: "'f f32_math \<Rightarrow> 'f list \<Rightarrow> nat list" where
  "order_desc A probs = foldr (insert_desc A probs) [0..<length probs] []"

definition keep_top_k :: "'f f32_math \<Rightarrow> nat \<Rightarrow> 'f list \<Rightarrow> 'f list" where
  "keep_top_k A top_k probs =
     (let order = order_desc A probs;
          kept = foldl (f_add A) (f_zero A) (map ((!) probs) (take top_k order));
          cleared = foldl (\<lambda>ps i. ps[i := f_zero A]) probs (drop top_k order)
      in if f_lt A (f_zero A) kept then map (\<lambda>p. f_mul A p (f_div A (f_one A) kept)) cleared else cleared)"

fun nucleus_cut :: "('f, 'd) f64_math \<Rightarrow> 'd \<Rightarrow> 'f list \<Rightarrow> nat \<Rightarrow> nat \<Rightarrow> nat list \<Rightarrow> 'd \<Rightarrow> nat \<times> 'd" where
  "nucleus_cut D top_p probs none rank [] cum = (none, cum)"
| "nucleus_cut D top_p probs none rank (i # is) cum =
     (let cum' = d_add D cum (d_of D (probs ! i))
      in if d_le D top_p cum' then (rank + 1, cum') else nucleus_cut D top_p probs none (rank + 1) is cum')"

definition keep_nucleus :: "'f f32_math \<Rightarrow> ('f, 'd) f64_math \<Rightarrow> 'f \<Rightarrow> 'f list \<Rightarrow> 'f list" where
  "keep_nucleus A D top_p probs =
     (let order = order_desc A probs;
          (cutoff, kept) = nucleus_cut D (d_of D top_p) probs (length order) 0 order (d_zero D);
          inv = (if d_lt D (d_zero D) kept then d_inv D kept else d_zero D);
          scaled = foldl (\<lambda>ps i. ps[i := d_to D (d_mul D (d_of D (ps ! i)) inv)]) probs (take cutoff order)
      in foldl (\<lambda>ps i. ps[i := f_zero A]) scaled (drop cutoff order))"

definition sample_host_nucleus ::
  "'f f32_math \<Rightarrow> ('f, 'd) f64_math \<Rightarrow> 'f list \<Rightarrow> 'f \<Rightarrow> 'f \<Rightarrow> nat \<Rightarrow> 64 word \<Rightarrow> 64 word \<times> nat" where
  "sample_host_nucleus A D logits temp top_p top_k rng =
     (let p0 = softmax_temp_into A logits temp;
          p1 = (if 0 < top_k \<and> top_k < length p0 then keep_top_k A top_k p0 else p0);
          p2 = (if f_lt A top_p (f_0999 A) then keep_nucleus A D top_p p1 else p1);
          (rng', u) = xorshift_unit A rng
      in (rng', sample_unnormalized A p2 u))"

text \<open>A draw of one row: the argmax when \<open>temp\<close> is not positive.\<close>

definition draw_plain :: "'f f32_math \<Rightarrow> 'f list \<Rightarrow> 'f \<Rightarrow> 64 word \<Rightarrow> 64 word \<times> nat" where
  "draw_plain A row temp rng =
     (if f_lt A (f_zero A) temp
      then let p = softmax_temp_into A row temp; (rng', u) = xorshift_unit A rng in (rng', sample_unnormalized A p u)
      else (rng, row_argmax A row))"

definition draw_row ::
  "'f f32_math \<Rightarrow> ('f, 'd) f64_math \<Rightarrow> 'f list \<Rightarrow> 'f \<Rightarrow> 'f \<Rightarrow> nat \<Rightarrow> 64 word \<Rightarrow> 64 word \<times> nat" where
  "draw_row A D row temp top_p top_k rng =
     (if f_lt A (f_zero A) temp \<and> \<not> (top_k = 0 \<and> f_le A (f_0999 A) top_p)
      then sample_host_nucleus A D row temp top_p top_k rng
      else draw_plain A row temp rng)"

section \<open>Walks\<close>

fun naive_chain ::
  "'f f32_math \<Rightarrow> ('f, 'd) f64_math \<Rightarrow> 'f list \<Rightarrow> nat \<Rightarrow> 'f \<Rightarrow> 'f \<Rightarrow> nat \<Rightarrow> token list \<Rightarrow> nat \<Rightarrow> 64 word \<Rightarrow>
   (64 word \<times> nat \<times> token) option" where
  "naive_chain A D logits vocab temp top_p top_k drafts i rng = do {
     row \<leftarrow> slice logits (i * vocab) ((i + 1) * vocab);
     let (rng', x) = draw_row A D row temp top_p top_k rng;
     case drafts of
       [] \<Rightarrow> Some (rng', i, word_of_nat x)
     | d # ds \<Rightarrow>
         if d \<noteq> word_of_nat x then Some (rng', i, word_of_nat x)
         else naive_chain A D logits vocab temp top_p top_k ds (i + 1) rng'
   }"

declare naive_chain.simps [simp del]

definition naive_sample_chain ::
  "'f f32_math \<Rightarrow> ('f, 'd) f64_math \<Rightarrow> 'f list \<Rightarrow> token list \<Rightarrow> nat \<Rightarrow> 'f \<Rightarrow> 'f \<Rightarrow> nat \<Rightarrow> 64 word \<Rightarrow>
   (64 word \<times> nat \<times> token) option" where
  "naive_sample_chain A D logits drafts vocab temp top_p top_k rng =
     naive_chain A D logits vocab temp top_p top_k drafts 0 rng"

partial_function (option) tree_walk ::
  "'f f32_math \<Rightarrow> (token \<rightharpoonup> nat) list \<Rightarrow> 'f list \<Rightarrow> nat \<Rightarrow> 'f \<Rightarrow> nat \<Rightarrow> nat list \<Rightarrow> 64 word \<Rightarrow>
   (64 word \<times> nat list \<times> token) option" where
  "tree_walk A cms logits vocab temp slot acc rng = do {
     row \<leftarrow> slice logits (slot * vocab) ((slot + 1) * vocab);
     let (rng', x) = draw_plain A row temp rng;
     m \<leftarrow> list_get cms slot;
     case m (word_of_nat x) of
       Some c \<Rightarrow> tree_walk A cms logits vocab temp (c + 1) (acc @ [c]) rng'
     | None \<Rightarrow> Some (rng', acc, word_of_nat x)
   }"

definition sample_verified_tree ::
  "'f f32_math \<Rightarrow> 'f dd_tree \<Rightarrow> 'f list \<Rightarrow> nat \<Rightarrow> 'f \<Rightarrow> 64 word \<Rightarrow> (64 word \<times> nat list \<times> token) option" where
  "sample_verified_tree A t logits vocab temp rng = tree_walk A (child_maps t) logits vocab temp 0 [] rng"

text \<open>One step of sampling without replacement: the candidates in their draw order, then the residual.\<close>

fun swor_loop ::
  "'f f32_math \<Rightarrow> 'f list \<Rightarrow> 'f list \<Rightarrow> token list \<Rightarrow> token list \<Rightarrow> 'f \<Rightarrow> 64 word \<Rightarrow> 64 word \<times> token option \<times> token" where
  "swor_loop A p q [] drawn mass rng =
     (let (rng', u) = xorshift_unit A rng in (rng', None, word_of_nat (sample_unnormalized A p u)))"
| "swor_loop A p q (c # cs) drawn mass rng =
     (let ct = unat c
      in if length p \<le> ct then swor_loop A p q cs drawn mass rng
         else
           let z = f_max A (f_sub A (f_one A) mass) (f_1e_9 A);
               r0 = f_div A (q ! ct) z;
               qjc = (if f_lt A r0 (f_zero A) then f_zero A else if f_lt A (f_one A) r0 then f_one A else r0);
               ratio = (if f_lt A (f_zero A) qjc then f_min A (f_div A (p ! ct) qjc) (f_one A) else f_zero A);
               (rng', u) = xorshift_unit A rng
           in if f_lt A (f_zero A) (p ! ct) \<and> f_lt A u ratio then (rng', Some c, c)
              else
                let p1 = map (\<lambda>t. if \<exists>d\<in>set drawn. unat d = t then p ! t
                                   else f_max A (f_sub A (p ! t) (f_div A (q ! t) z)) (f_zero A)) [0..<length p];
                    s = foldl (f_add A) (f_zero A) p1;
                    p2 = (if f_lt A (f_zero A) s then map (\<lambda>x. f_div A x s) p1 else p1)
                in swor_loop A p2 q cs (drawn @ [c]) (f_add A mass (q ! ct)) rng')"

definition swor_step :: "'f f32_math \<Rightarrow> 'f list \<Rightarrow> 'f list \<Rightarrow> token list \<Rightarrow> 64 word \<Rightarrow> 64 word \<times> token option \<times> token" where
  "swor_step A p q cands rng = swor_loop A p q cands [] (f_zero A) rng"

partial_function (option) swor_walk ::
  "'f f32_math \<Rightarrow> 'f dd_tree \<Rightarrow> 'f list \<Rightarrow> 'f list \<Rightarrow> token list \<Rightarrow> nat \<Rightarrow> nat \<Rightarrow> nat \<Rightarrow> 'f \<Rightarrow> nat \<Rightarrow> nat list \<Rightarrow> 64 word \<Rightarrow>
   (64 word \<times> nat list \<times> token) option" where
  "swor_walk A t logits draft_q pos_cands num_pos k vocab temp slot acc rng = do {
     depth \<leftarrow> (if slot = 0 then Some 0 else map_option nd_depth (list_get (tree_nodes t) (slot - 1)));
     row \<leftarrow> slice logits (slot * vocab) ((slot + 1) * vocab);
     let p = softmax_temp_into A row temp;
     if num_pos \<le> depth
     then let (rng', u) = xorshift_unit A rng in Some (rng', acc, word_of_nat (sample_unnormalized A p u))
     else do {
       q \<leftarrow> slice draft_q (depth * vocab) ((depth + 1) * vocab);
       cands \<leftarrow> slice pos_cands (depth * k) (depth * k + k);
       let (rng', tok, out) = swor_step A p q cands rng;
       case tok of
         None \<Rightarrow> Some (rng', acc, out)
       | Some c \<Rightarrow> do {
           m \<leftarrow> list_get (child_maps t) slot;
           case m c of
             Some ch \<Rightarrow> swor_walk A t logits draft_q pos_cands num_pos k vocab temp (ch + 1) (acc @ [ch]) rng'
           | None \<Rightarrow> Some (rng', acc, c)
         }
     }
   }"

fun argmax_rows :: "'f f32_math \<Rightarrow> 'f list \<Rightarrow> nat \<Rightarrow> nat list \<Rightarrow> token list option" where
  "argmax_rows A logits vocab [] = Some []"
| "argmax_rows A logits vocab (s # ss) = do {
     row \<leftarrow> slice logits (s * vocab) ((s + 1) * vocab);
     rest \<leftarrow> argmax_rows A logits vocab ss;
     Some (word_of_nat (row_argmax A row) # rest)
   }"

definition sample_verified_tree_swor ::
  "'f f32_math \<Rightarrow> 'f dd_tree \<Rightarrow> 'f list \<Rightarrow> 'f list \<Rightarrow> token list \<Rightarrow> nat \<Rightarrow> nat \<Rightarrow> nat \<Rightarrow> 'f \<Rightarrow> 64 word \<Rightarrow>
   (64 word \<times> nat list \<times> token) option" where
  "sample_verified_tree_swor A t logits draft_q pos_cands num_pos k vocab temp rng =
     (if f_le A temp (f_zero A)
      then do {
        picks \<leftarrow> argmax_rows A logits vocab [0..<1 + num_nodes t];
        (acc, bonus) \<leftarrow> follow_verified_tree t picks;
        Some (rng, acc, bonus)
      }
      else swor_walk A t logits draft_q pos_cands num_pos k vocab temp 0 [] rng)"

text \<open>The drafter's candidates: \<open>k\<close> draws without replacement from one row.\<close>

fun swor_pick :: "'f f32_math \<Rightarrow> 'f \<Rightarrow> nat \<Rightarrow> 'f \<Rightarrow> 'f list \<Rightarrow> nat option" where
  "swor_pick A u i acc [] = None"
| "swor_pick A u i acc (v # vs) = (let acc' = f_add A acc v in if f_lt A u acc' then Some i else swor_pick A u (i + 1) acc' vs)"

fun swor_draws :: "'f f32_math \<Rightarrow> nat \<Rightarrow> 'f list \<Rightarrow> 64 word \<Rightarrow> 64 word \<times> token list" where
  "swor_draws A 0 qr rng = (rng, [])"
| "swor_draws A (Suc n) qr rng =
     (let s = foldl (f_add A) (f_zero A) qr
      in if f_le A s (f_zero A) then (let (rng', ts) = swor_draws A n qr rng in (rng', 0 # ts))
         else
           let (rng1, u) = xorshift_unit A rng;
               pick = (case swor_pick A (f_mul A u s) 0 (f_zero A) qr of Some i \<Rightarrow> i | None \<Rightarrow> length qr - 1);
               (rng', ts) = swor_draws A n (qr[pick := f_zero A]) rng1
           in (rng', word_of_nat pick # ts))"

fun swor_rows :: "'f f32_math \<Rightarrow> 'f list \<Rightarrow> nat \<Rightarrow> nat \<Rightarrow> 'f \<Rightarrow> nat list \<Rightarrow> 64 word \<Rightarrow> (64 word \<times> 'f list \<times> token list) option" where
  "swor_rows A logits vocab k temp [] rng = Some (rng, [], [])"
| "swor_rows A logits vocab k temp (r # rs) rng = do {
     row \<leftarrow> slice logits (r * vocab) ((r + 1) * vocab);
     let q = softmax_temp_into A row (f_max A temp (f_1e_4 A));
     let (rng1, ts) = swor_draws A k q rng;
     (rng', qs, ts') \<leftarrow> swor_rows A logits vocab k temp rs rng1;
     Some (rng', q @ qs, ts @ ts')
   }"

definition swor_draft_candidates ::
  "'f f32_math \<Rightarrow> 'f list \<Rightarrow> nat \<Rightarrow> nat \<Rightarrow> nat \<Rightarrow> 'f \<Rightarrow> 64 word \<Rightarrow> (64 word \<times> 'f list \<times> token list) option" where
  "swor_draft_candidates A draft_logits num_pos vocab k temp rng = swor_rows A draft_logits vocab k temp [0..<num_pos] rng"

section \<open>The generator\<close>

lemma xor_push_bit_zero:
  fixes x :: "64 word"
  assumes "x XOR push_bit n x = 0" and "0 < n"
  shows "x = 0"
proof (rule bit_word_eqI)
  have eq: "bit x i \<longleftrightarrow> bit (push_bit n x) i" for i
    using arg_cong [OF assms(1), of "\<lambda>w. bit w i"] by (simp add: bit_xor_iff)
  have "\<not> bit x i" for i
  proof (induction i rule: less_induct)
    case (less i)
    show ?case using eq [of i] less.IH [of "i - n"] assms(2) by (cases "i = 0") (auto simp: bit_push_bit_iff)
  qed
  then show "bit x i = bit 0 i" for i by simp
qed

lemma xor_drop_bit_zero:
  fixes x :: "64 word"
  assumes "x XOR drop_bit n x = 0" and "0 < n"
  shows "x = 0"
proof (rule bit_word_eqI)
  have step: "bit x i \<longleftrightarrow> bit x (n + i)" for i
    using arg_cong [OF assms(1), of "\<lambda>w. bit w i"] by (simp add: bit_xor_iff bit_drop_bit_eq)
  have many: "bit x i \<longleftrightarrow> bit x (k * n + i)" for i k
  proof (induction k)
    case (Suc k)
    then show ?case using step [of "k * n + i"] by (simp add: add.assoc)
  qed simp
  have "\<not> bit x i" for i
  proof -
    have "64 \<le> 64 * n + i" using assms(2) by simp
    then have "\<not> bit x (64 * n + i)" using bit_imp_le_length [of x "64 * n + i"] by auto
    then show ?thesis using many [of i 64] by simp
  qed
  then show "bit x i = bit 0 i" for i by simp
qed

lemma xorshift_nonzero: "rng \<noteq> 0 \<Longrightarrow> fst (xorshift_unit A rng) \<noteq> 0"
proof -
  assume rng: "rng \<noteq> 0"
  define s1 where "s1 = rng XOR push_bit 13 rng"
  define s2 where "s2 = s1 XOR drop_bit 7 s1"
  have "s1 \<noteq> 0" unfolding s1_def using xor_push_bit_zero [of rng 13, OF _ zero_less_numeral] rng by blast
  then have "s2 \<noteq> 0" unfolding s2_def using xor_drop_bit_zero [of s1 7, OF _ zero_less_numeral] by blast
  then have "s2 XOR push_bit 17 s2 \<noteq> 0" using xor_push_bit_zero [of s2 17, OF _ zero_less_numeral] by blast
  then show ?thesis by (simp only: xorshift_unit_def Let_def fst_conv s1_def s2_def not_False_eq_True)
qed

section \<open>At temperature zero\<close>

definition row_at :: "'f list \<Rightarrow> nat \<Rightarrow> nat \<Rightarrow> 'f list" where
  "row_at logits vocab s = take vocab (drop (s * vocab) logits)"

definition argmax_at :: "'f f32_math \<Rightarrow> 'f list \<Rightarrow> nat \<Rightarrow> nat \<Rightarrow> token" where
  "argmax_at A logits vocab s = word_of_nat (row_argmax A (row_at logits vocab s))"

lemma slice_row: "length logits = n * vocab \<Longrightarrow> s < n \<Longrightarrow> slice logits (s * vocab) ((s + 1) * vocab) = Some (row_at logits vocab s)"
  using mult_le_mono1 [of "Suc s" n vocab] by (simp add: slice_def row_at_def)

lemma draw_cold: "\<not> f_lt A (f_zero A) temp \<Longrightarrow> draw_plain A row temp rng = (rng, row_argmax A row)"
  "\<not> f_lt A (f_zero A) temp \<Longrightarrow> draw_row A D row temp top_p top_k rng = (rng, row_argmax A row)"
  by (simp_all add: draw_plain_def draw_row_def)

lemma naive_chain_cold:
  assumes "\<not> f_lt A (f_zero A) temp" and "length logits = n * vocab"
  shows "i + length drafts < n \<Longrightarrow>
    naive_chain A D logits vocab temp top_p top_k drafts i rng =
      (let a = lcp drafts (map (argmax_at A logits vocab) [i..<Suc (i + length drafts)])
       in Some (rng, i + a, argmax_at A logits vocab (i + a)))"
proof (induction drafts arbitrary: i)
  case Nil
  then show ?case
    using slice_row [OF assms(2), of i] by (simp add: naive_chain.simps [of _ _ _ _ _ _ _ "[]"] draw_cold(2) [OF assms(1)] argmax_at_def)
next
  case (Cons d ds)
  have up: "[i..<Suc (i + length (d # ds))] = i # [Suc i..<Suc (Suc i + length ds)]" 
    by (simp add: upt_conv_Cons del: upt_Suc)
  show ?case
    unfolding up using Cons slice_row [OF assms(2), of i]
    by (simp add: naive_chain.simps [of _ _ _ _ _ _ _ "d # ds"] draw_cold(2) [OF assms(1)] argmax_at_def [symmetric] Let_def
        del: upt_Suc)
qed

text \<open>
  At temperature zero the chain walk is the greedy accept rule: on one row more than drafts it
  draws nothing and returns the count and the bonus that \<^verbatim>\<open>accept_greedy_prefix\<close> gives for the rows' argmaxes.
\<close>

theorem naive_chain_is_greedy_accept:
  assumes "\<not> f_lt A (f_zero A) temp" and "length logits = (length drafts + 1) * vocab"
  shows "naive_sample_chain A D logits drafts vocab temp top_p top_k rng =
    map_option (\<lambda>acc. (rng, accepted acc, last (committed acc)))
      (accept_greedy_prefix drafts (map (argmax_at A logits vocab) [0..<length drafts + 1]) None)"
proof -
  let ?picks = "map (argmax_at A logits vocab) [0..<Suc (length drafts)]"
  have a: "lcp drafts ?picks \<le> length drafts" by (rule lcp_bounds)
  then have "last (take (Suc (lcp drafts ?picks)) ?picks) = argmax_at A logits vocab (lcp drafts ?picks)"
    by (simp add: take_Suc_conv_app_nth take_map [symmetric] nth_append del: upt_Suc)
  then show ?thesis
    using naive_chain_cold [OF assms, of 0 drafts] accept_greedy_eq [of drafts ?picks None]
    by (simp add: naive_sample_chain_def eos_at_def Let_def del: upt_Suc)
qed

text \<open>A walk moves to children, which come later: induction over the slots from the last one down.\<close>

lemma walk_induct [consumes 3, case_names slot]:
  assumes "topological ns" and "children_ok ns cms" and "s \<le> length ns"
    and step: "\<And>s. s \<le> length ns \<Longrightarrow> (\<And>c tok. (cms ! s) tok = Some c \<Longrightarrow> c < length ns \<Longrightarrow> parent_slot (nd_parent (ns ! c)) = s \<Longrightarrow>
      nd_token (ns ! c) = tok \<Longrightarrow> slot_path ns (Suc c) = slot_path ns s @ [c] \<Longrightarrow> P (Suc c)) \<Longrightarrow> P s"
  shows "P s"
  using assms(3)
proof (induction "length ns - s" arbitrary: s rule: less_induct)
  case less
  show ?case
  proof (rule step [OF less.prems])
    fix c tok assume c: "(cms ! s) tok = Some c" "c < length ns" "parent_slot (nd_parent (ns ! c)) = s"
    have "s \<le> c" using slot_path_Suc(2) [OF assms(1) c(2)] c(3) by simp
    then have "length ns - Suc c < length ns - s" "Suc c \<le> length ns" using c(2) by arith+
    then show "P (Suc c)" by (rule less.hyps)
  qed
qed

lemma children_child:
  "children_ok ns cms \<Longrightarrow> s \<le> length ns \<Longrightarrow> (cms ! s) tok = Some c \<Longrightarrow>
   c < length ns \<and> parent_slot (nd_parent (ns ! c)) = s \<and> nd_token (ns ! c) = tok"
  by (simp add: children_ok_def less_Suc_eq_le)

lemma children_leaf: "children_ok ns cms \<Longrightarrow> s \<le> length ns \<Longrightarrow> (cms ! s) tok = None \<Longrightarrow> \<not> has_child ns s tok"
  by (auto simp: children_ok_def has_child_def)

lemma tree_walk_cold:
  assumes cold: "\<not> f_lt A (f_zero A) temp" and top: "topological ns" and cms: "children_ok ns cms"
    and len: "length logits = Suc (length ns) * vocab" and s: "s \<le> length ns"
  defines "post \<equiv> map (argmax_at A logits vocab) [0..<Suc (length ns)]"
  shows "tree_walk A cms logits vocab temp s acc rng = map_option (\<lambda>(a, b). (rng, a, b)) (follow_loop cms post s (post ! s) acc)"
  using top cms s
proof (induction s arbitrary: acc rule: walk_induct)
  case (slot s)
  have post: "post ! k = argmax_at A logits vocab k" "k < length post" if "k \<le> length ns" for k
    using that by (simp_all add: post_def del: upt_Suc)
  have cm: "list_get cms s = Some (cms ! s)" using cms slot(1) by (simp add: children_ok_def)
  show ?case
  proof (cases "(cms ! s) (post ! s)")
    case None
    then show ?thesis
      using slice_row [OF len, of s] cm slot(1) post [OF slot(1)]
      by (simp add: tree_walk.simps [of A cms logits vocab temp s] follow_loop.simps [of cms post s] draw_cold(1) [OF cold] argmax_at_def)
  next
    case (Some c)
    then have c: "c < length ns" using children_child [OF cms slot(1)] by blast
    then have "slot_path ns (Suc c) = slot_path ns s @ [c]" "parent_slot (nd_parent (ns ! c)) = s" "nd_token (ns ! c) = post ! s"
      using slot_path_Suc [OF top c] children_child [OF cms slot(1) Some] by auto
    note IH = slot(2) [OF Some c this(2,3,1), of "acc @ [c]"]
    show ?thesis
      using slice_row [OF len, of s] cm slot(1) post [OF slot(1)] post [of "Suc c"] Some c IH
      by (simp add: tree_walk.simps [of A cms logits vocab temp s] follow_loop.simps [of cms post s] draw_cold(1) [OF cold] argmax_at_def)
  qed
qed

lemma tree_walk_valid:
  assumes top: "topological ns" and cms: "children_ok ns cms" and len: "length logits = Suc (length ns) * vocab" and s: "s \<le> length ns"
  shows "\<exists>rng' s' tok. tree_walk A cms logits vocab temp s (slot_path ns s) rng = Some (rng', slot_path ns s', tok) \<and>
    s' \<le> length ns \<and> \<not> has_child ns s' tok"
  using top cms s
proof (induction s arbitrary: rng rule: walk_induct)
  case (slot s)
  have cm: "list_get cms s = Some (cms ! s)" using cms slot(1) by (simp add: children_ok_def)
  obtain rng1 x where x: "draw_plain A (row_at logits vocab s) temp rng = (rng1, x)" by fastforce
  have row: "slice logits (s * vocab) (vocab + s * vocab) = Some (row_at logits vocab s)" using slice_row [OF len, of s] slot(1) by simp
  show ?case
  proof (cases "(cms ! s) (word_of_nat x)")
    case None
    then show ?thesis using row cm x slot(1) children_leaf [OF cms slot(1) None]
      by (auto simp: tree_walk.simps [of A cms logits vocab temp s])
  next
    case (Some c)
    then have c: "c < length ns" using children_child [OF cms slot(1)] by blast
    then have path: "slot_path ns (Suc c) = slot_path ns s @ [c]" "parent_slot (nd_parent (ns ! c)) = s" "nd_token (ns ! c) = word_of_nat x"
      using slot_path_Suc [OF top c] children_child [OF cms slot(1) Some] by auto
    from slot(2) [OF Some c path(2,3,1), of rng1] show ?thesis using row cm x Some path(1)
      by (simp add: tree_walk.simps [of A cms logits vocab temp s])
  qed
qed

lemma argmax_rows_eq:
  assumes "length logits = n * vocab"
  shows "\<forall>s\<in>set ss. s < n \<Longrightarrow> argmax_rows A logits vocab ss = Some (map (argmax_at A logits vocab) ss)"
  using slice_row [OF assms] by (induction ss) (simp_all add: argmax_at_def)

text \<open>
  The three walks over a verified tree agree at temperature zero: \<^verbatim>\<open>sample_verified_tree\<close> and
  \<^verbatim>\<open>sample_verified_tree_swor\<close> leave the generator alone and return what \<^verbatim>\<open>follow_verified_tree\<close> returns for the
  argmax of every row. At any temperature \<^verbatim>\<open>sample_verified_tree\<close> returns, without a panic, the nodes of one
  path from the root and a token that no child of its end carries.
\<close>

theorem tree_walks_agree:
  assumes ok: "tree_ok tt depth topk rk t" and len: "length logits = (1 + num_nodes t) * vocab"
  shows "(\<not> f_lt A (f_zero A) temp \<longrightarrow> sample_verified_tree A t logits vocab temp rng =
            map_option (\<lambda>(a, b). (rng, a, b)) (follow_verified_tree t (map (argmax_at A logits vocab) [0..<1 + num_nodes t]))) \<and>
    (f_le A temp (f_zero A) \<longrightarrow> sample_verified_tree_swor A t logits draft_q pos_cands num_pos k vocab temp rng =
            map_option (\<lambda>(a, b). (rng, a, b)) (follow_verified_tree t (map (argmax_at A logits vocab) [0..<1 + num_nodes t]))) \<and>
    (\<exists>rng' s tok. sample_verified_tree A t logits vocab temp rng = Some (rng', slot_path (tree_nodes t) s, tok) \<and>
            s \<le> num_nodes t \<and> \<not> has_child (tree_nodes t) s tok)"
proof (intro conjI impI)
  have top: "topological (tree_nodes t)" and cms: "children_ok (tree_nodes t) (child_maps t)"
    using ok nodes_ok_topological by (auto simp: tree_ok_def)
  have len': "length logits = Suc (length (tree_nodes t)) * vocab" using len by (simp add: num_nodes_def)
  let ?post = "map (argmax_at A logits vocab) [0..<1 + num_nodes t]"
  show "sample_verified_tree A t logits vocab temp rng = map_option (\<lambda>(a, b). (rng, a, b)) (follow_verified_tree t ?post)"
    if "\<not> f_lt A (f_zero A) temp"
    using tree_walk_cold [OF that top cms len', of 0 "[]" rng]
    by (simp add: sample_verified_tree_def follow_verified_tree_def num_nodes_def del: upt_Suc)
  show "sample_verified_tree_swor A t logits draft_q pos_cands num_pos k vocab temp rng =
      map_option (\<lambda>(a, b). (rng, a, b)) (follow_verified_tree t ?post)" if "f_le A temp (f_zero A)"
    using that argmax_rows_eq [OF len, of "[0..<1 + num_nodes t]" A]
    by (cases "follow_verified_tree t ?post") (auto simp: sample_verified_tree_swor_def simp del: upt_Suc)
  show "\<exists>rng' s tok. sample_verified_tree A t logits vocab temp rng = Some (rng', slot_path (tree_nodes t) s, tok) \<and>
            s \<le> num_nodes t \<and> \<not> has_child (tree_nodes t) s tok"
    using tree_walk_valid [OF top cms len', of 0 A temp rng]
    by (simp add: sample_verified_tree_def num_nodes_def slot_path_def)
qed

section \<open>The top-k table\<close>

definition top_items :: "nat \<Rightarrow> 'f list \<Rightarrow> ('f \<times> nat) list \<Rightarrow> bool" where
  "top_items k row h \<longleftrightarrow> length h = min k (length row) \<and> distinct (map snd h) \<and> (\<forall>x\<in>set h. snd x < length row \<and> fst x = row ! snd x)"

lemma top_items_snoc:
  assumes "top_items k row h" and "length h < k"
  shows "top_items k (row @ [v]) ((v, length row) # h)"
  using assms by (auto simp: top_items_def nth_append min_def)

lemma top_items_swap:
  assumes "top_items k row h" and "\<not> length h < k" and "m \<in> set h"
  shows "top_items k (row @ [v]) ((v, length row) # remove1 m h)" and "top_items k (row @ [v]) h"
proof -
  have d: "distinct (map snd (remove1 m h))"
    using assms map_remove1_distinct [of snd h m] by (auto simp: top_items_def)
  have l: "Suc (length (remove1 m h)) = length h" using assms(3) length_pos_if_in_set [OF assms(3)] by (simp add: length_remove1)
  have old: "snd x < length row \<and> fst x = row ! snd x" if "x \<in> set (remove1 m h)" for x
    using assms(1) that set_remove1_subset [of m h] by (auto simp: top_items_def)
  then have "length row \<notin> snd ` set (remove1 m h)" by fastforce
  then show "top_items k (row @ [v]) ((v, length row) # remove1 m h)"
    using assms d l old by (auto simp: top_items_def nth_append less_SucI)
  show "top_items k (row @ [v]) h"
    using assms by (auto simp: top_items_def nth_append)
qed
lemma keep_top_ok:
  assumes "0 < k"
  shows "top_items k row h \<Longrightarrow> \<exists>h'. keep_top A k (length row) vs h = Some h' \<and> top_items k (row @ vs) h'"
proof (induction vs arbitrary: row h)
  case (Cons v vs)
  show ?case
  proof (cases "length h < k")
    case True
    then show ?thesis using Cons.IH [OF top_items_snoc [OF Cons.prems True, of v]] by simp
  next
    case False
    then obtain x xs where h: "h = x # xs" using assms by (cases h) auto
    let ?m = "least_item A x xs"
    have m: "?m \<in> set h" using least_item_in [of A x xs] h by simp
    note sw = top_items_swap [OF Cons.prems False m, of v]
    show ?thesis
      using Cons.IH [OF sw(1)] Cons.IH [OF sw(2)] False h by (cases "item_less A ?m (v, length row)") (simp_all add: Let_def)
  qed
qed simp

lemma mset_drain [simp]: "mset (drain A h) = mset h"
proof (induction A h rule: drain.induct)
  case (2 A x xs)
  have "least_item A x xs \<in># mset (x # xs)" using least_item_in [of A x xs] by simp
  then have "add_mset (least_item A x xs) (mset (remove1 (least_item A x xs) (x # xs))) = mset (x # xs)"
    unfolding mset_remove1 by (rule insert_DiffM)
  then show ?case using 2 [OF refl] by (simp add: Let_def)
qed simp

lemma set_drain [simp]: "set (drain A h) = set h"
  using mset_drain mset_eq_setD by blast

lemma length_drain [simp]: "length (drain A h) = length h"
  using mset_drain mset_eq_length by blast

lemma top_items_drain: "top_items k row h \<Longrightarrow> top_items k row (rev (drain A h))"
  unfolding top_items_def by (auto simp: rev_map [symmetric]) (metis mset_drain mset_map mset_eq_imp_distinct_iff)

lemma word_of_nat_inj: "inj_on (word_of_nat :: nat \<Rightarrow> token) {..<4294967296}"
  by (auto simp: inj_on_def word_of_nat_eq_iff take_bit_eq_mod)

lemma topk_row_ok:
  assumes "0 < k" and "k \<le> length row" and "length row \<le> 4294967296"
  shows "\<exists>ts ls. topk_row A k row = Some (ts, ls) \<and> length ts = k \<and> length ls = k \<and> distinct ts"
proof (cases "k = 1")
  case False
  have "top_items k [] []" by (simp add: top_items_def)
  from keep_top_ok [OF assms(1) this, of A row] obtain h where h: "keep_top A k 0 row [] = Some h" "top_items k row h" by auto
  let ?it = "rev (drain A h)"
  have it: "top_items k row ?it" using top_items_drain [OF h(2)] .
  have "inj_on (word_of_nat :: nat \<Rightarrow> token) (set (map snd ?it))"
    using it assms(3) by (intro inj_on_subset [OF word_of_nat_inj]) (auto simp: top_items_def)
  moreover have "distinct (map snd ?it)" using it by (simp add: top_items_def)
  ultimately have "distinct (map (word_of_nat :: nat \<Rightarrow> token) (map snd ?it))" by (metis distinct_map)
  then have "distinct (map (\<lambda>x. word_of_nat (snd x) :: token) ?it)" by (simp add: comp_def)
  then show ?thesis using h it False assms by (simp add: topk_row_def top_items_def Let_def)
qed (simp add: topk_row_def Let_def)

lemma nth_concat_blocks: "\<forall>b\<in>set bs. length b = k \<Longrightarrow> d < length bs \<Longrightarrow> r < k \<Longrightarrow> concat bs ! (d * k + r) = bs ! d ! r"
proof (induction bs arbitrary: d)
  case (Cons b bs)
  then show ?case by (cases d) (auto simp: nth_append)
qed simp

lemma length_concat_blocks: "\<forall>b\<in>set bs. length b = k \<Longrightarrow> length (concat bs) = length bs * k"
  by (induction bs) auto

lemma topk_rows_blocks:
  assumes "length logits = n * vocab" and "0 < k" "k \<le> vocab" "vocab \<le> 4294967296"
  shows "\<forall>r\<in>set rs. r < n \<Longrightarrow> \<exists>ts ls. topk_rows A logits vocab k rs = Some (concat ts, concat ls) \<and>
    length ts = length rs \<and> length ls = length rs \<and>
    (\<forall>i<length rs. topk_row A k (row_at logits vocab (rs ! i)) = Some (ts ! i, ls ! i)) \<and>
    (\<forall>t\<in>set ts. length t = k \<and> distinct t) \<and> (\<forall>l\<in>set ls. length l = k)"
proof (induction rs)
  case Nil
  show ?case by (intro exI [of _ "[]"]) simp
next
  case (Cons r rs)
  then obtain ts ls where IH: "topk_rows A logits vocab k rs = Some (concat ts, concat ls)" "length ts = length rs" "length ls = length rs"
    "\<forall>i<length rs. topk_row A k (row_at logits vocab (rs ! i)) = Some (ts ! i, ls ! i)"
    "\<forall>t\<in>set ts. length t = k \<and> distinct t" "\<forall>l\<in>set ls. length l = k" by auto
  have r: "r < n" using Cons.prems by simp
  then have "length (row_at logits vocab r) = vocab"
    using assms(1) mult_le_mono1 [of "Suc r" n vocab] by (simp add: row_at_def)
  then obtain t l where t: "topk_row A k (row_at logits vocab r) = Some (t, l)" "length t = k" "length l = k" "distinct t"
    using topk_row_ok [OF assms(2), of "row_at logits vocab r" A] assms(3,4) by auto
  show ?case
    using IH t slice_row [OF assms(1) r]
    by (intro exI [of _ "t # ts"] exI [of _ "l # ls"]) (auto simp: nth_Cons split: nat.splits)
qed

text \<open>The table the drafter's logits give has its sizes, and no row names a token twice.\<close>

lemma topk_table:
  assumes "length logits = rows * vocab" and "0 < k" "k \<le> vocab" "vocab \<le> 4294967296"
  shows "\<exists>tt lp. topk_from_logits A logits rows vocab k = Some (tt, lp) \<and> length tt = rows * k \<and> length lp = rows * k \<and>
    rows_distinct tt rows k"
proof -
  have "\<forall>r\<in>set [0..<rows]. r < rows" by simp
  from topk_rows_blocks [OF assms this, of A] obtain ts ls where
    ts: "topk_rows A logits vocab k [0..<rows] = Some (concat ts, concat ls)" "length ts = rows" "length ls = rows"
      "\<forall>t\<in>set ts. length t = k \<and> distinct t" "\<forall>l\<in>set ls. length l = k" by auto
  have "rows_distinct (concat ts) rows k"
    using ts nth_concat_blocks [of ts k] by (simp add: rows_distinct_def) (metis nth_eq_iff_index_eq nth_mem)
  then show ?thesis
    using ts assms length_concat_blocks [of ts k] length_concat_blocks [of ls k] by (auto simp: topk_from_logits_def)
qed

subsection \<open>Exact arithmetic\<close>

definition exact_math :: "'w::linordered_ab_group_add f32_math \<Rightarrow> bool" where
  "exact_math A \<longleftrightarrow> f_lt A = (<) \<and> f_sub A = (-) \<and> f_add A = (+) \<and> f_neg A = uminus"

lemma item_less_exact:
  assumes "exact_math A"
  shows "item_less A a b \<longleftrightarrow> fst a < fst b \<or> fst a = fst b \<and> snd a < snd b"
  using assms by (auto simp: item_less_def exact_math_def)

lemma least_item_exact: "exact_math A \<Longrightarrow> \<forall>x\<in>set (m # xs). fst (least_item A m xs) \<le> fst x"
proof (induction xs arbitrary: m)
  case (Cons y ys)
  let ?m = "if item_less A y m then y else m"
  have "fst ?m \<le> fst m" "fst ?m \<le> fst y" using Cons.prems by (auto simp: item_less_exact)
  moreover have "\<forall>z\<in>set (?m # ys). fst (least_item A ?m ys) \<le> fst z" using Cons by blast
  ultimately show ?case by (auto intro: order_trans)
qed simp

lemma drain_sorted:
  assumes "exact_math A"
  shows "sorted (map fst (drain A h))"
  using assms
proof (induction A h rule: drain.induct)
  case (2 A x xs)
  let ?m = "least_item A x xs"
  have "set (remove1 ?m (x # xs)) \<subseteq> set (x # xs)" by (rule set_remove1_subset)
  then have "fst ?m \<le> fst y" if "y \<in> set (remove1 ?m (x # xs))" for y
    using least_item_exact [OF 2(2)] that by blast
  then show ?case using 2(1) [OF refl 2(2)] by (auto simp: Let_def simp del: remove1.simps)
qed simp

lemma best_value_exact:
  assumes "exact_math A"
  shows "foldl (\<lambda>b v. if f_lt A b v then v else b) b row \<in> set (b # row)"
  by (induction row arbitrary: b) auto

lemma topk_row_exact:
  assumes exact: "exact_math A" and norm: "\<forall>v\<in>set (f_neg_inf A # row). v \<le> f_log_z A row"
    and top: "topk_row A k row = Some (ts, ls)" and k: "0 < k"
  shows "sorted_wrt (\<ge>) ls \<and> (\<forall>l\<in>set ls. l \<le> 0)"
proof (cases "k = 1")
  case True
  then show ?thesis using top norm best_value_exact [OF exact, of "f_neg_inf A" row] exact
    by (auto simp: topk_row_def Let_def exact_math_def)
next
  case False
  from keep_top_ok [OF k, of "[]" "[]" A row] obtain h where h: "keep_top A k 0 row [] = Some h" "top_items k row h"
    by (auto simp: top_items_def)
  have ls: "ls = map (\<lambda>x. fst x - f_log_z A row) (rev (drain A h))"
    using top False h(1) exact by (simp add: topk_row_def Let_def exact_math_def)
  have "sorted_wrt (\<ge>) (rev (map fst (drain A h)))" using drain_sorted [OF exact, of h] by (simp add: sorted_wrt_rev)
  then have "sorted_wrt (\<ge>) ls" unfolding ls by (simp add: rev_map sorted_wrt_map)
  moreover have "l \<le> 0" if "l \<in> set ls" for l
  proof -
    from that obtain x where x: "x \<in> set h" "l = fst x - f_log_z A row" by (auto simp: ls)
    then have "fst x \<in> set row" using h(2) by (auto simp: top_items_def)
    then show ?thesis using norm x(2) by simp
  qed
  ultimately show ?thesis by blast
qed

text \<open>In exact arithmetic, where the normaliser is no less than any logit, the table is what the construction expects.\<close>

lemma topk_marginals:
  assumes exact: "exact_math A" and size: "length logits = rows * vocab" "0 < k" "k \<le> vocab" "vocab \<le> 4294967296"
    and norm: "\<And>s. s < rows \<Longrightarrow> \<forall>v\<in>set (f_neg_inf A # row_at logits vocab s). v \<le> f_log_z A (row_at logits vocab s)"
    and top: "topk_from_logits A logits rows vocab k = Some (tt, lp)"
  shows "marginals lp rows k"
proof -
  have "\<forall>r\<in>set [0..<rows]. r < rows" by simp
  from topk_rows_blocks [OF size this, of A] obtain ts ls where
    ts: "topk_rows A logits vocab k [0..<rows] = Some (concat ts, concat ls)" "length ls = rows"
      "\<forall>i<rows. topk_row A k (row_at logits vocab i) = Some (ts ! i, ls ! i)" "\<forall>l\<in>set ls. length l = k" by auto
  have lp: "lp = concat ls" using top ts(1) size by (simp add: topk_from_logits_def)
  have row: "sorted_wrt (\<ge>) (ls ! d)" "\<forall>l\<in>set (ls ! d). l \<le> 0" "length (ls ! d) = k" if "d < rows" for d
    using topk_row_exact [OF exact norm [OF that] _ size(2)] ts that by auto
  show ?thesis
    unfolding marginals_def lp
  proof (intro conjI allI impI)
    fix d r assume d: "d < rows" and r: "Suc r < k"
    then show "concat ls ! (d * k + Suc r) \<le> concat ls ! (d * k + r)"
      using nth_concat_blocks [of ls k d r] nth_concat_blocks [of ls k d "Suc r"] ts(2,4) row [OF d]
      by (simp add: sorted_wrt_iff_nth_less)
  next
    fix d r assume d: "d < rows" and r: "r < k"
    then show "concat ls ! (d * k + r) \<le> 0"
      using nth_concat_blocks [of ls k d] ts(2,4) row [OF d] by simp
  qed
qed

section \<open>A concrete instance\<close>

text \<open>Integer arithmetic, for the witnesses: minus infinity is a number below every logit in them.\<close>

definition int_math :: "int f32_math" where
  "int_math = \<lparr>f_lt = (<), f_add = (+), f_sub = (-), f_neg = uminus, f_mul = (*), f_div = (div), f_max = max, f_min = min,
     f_exp = (\<lambda>_. 1), f_le = (\<le>), f_finite = (\<lambda>_. True), f_zero = 0, f_one = 1, f_neg_inf = - 1000000, f_of_u64 = uint,
     f_2pow_m24 = 1, f_1e_6 = 0, f_1e_4 = 0, f_1e_9 = 0, f_0999 = 1, f_log_z = foldl max (- 1000000)\<rparr>"

definition int_math64 :: "(int, int) f64_math" where
  "int_math64 = \<lparr>d_of = id, d_to = id, d_add = (+), d_mul = (*), d_inv = id, d_le = (\<le>), d_lt = (<), d_zero = 0\<rparr>"

definition sibling_tree :: "int dd_tree" where
  "sibling_tree = \<lparr>tree_nodes = [\<lparr>nd_token = 0, nd_depth = 1, nd_parent = - 1, nd_logw = - 1\<rparr>, \<lparr>nd_token = 1, nd_depth = 1, nd_parent = - 1, nd_logw = - 2\<rparr>],
     visibility = [[True, False, False], [True, True, False], [True, False, True]], child_maps = [[0 \<mapsto> 0, 1 \<mapsto> 1], Map.empty, Map.empty]\<rparr>"

lemma sibling_tree_ok: "tree_ok [0, 1] 1 2 [[0], [1]] sibling_tree"
  by (simp add: tree_ok_def sibling_tree_def nodes_ok_def children_ok_def sees_ancestors_def num_nodes_def sees_def slot_path_def
      ancestry.simps parent_path_def parent_slot_def rank_path_def less_Suc_eq le_Suc_eq all_conj_distrib imp_conjR)

theorem tree_walks_agree_witness:
  "sample_verified_tree int_math sibling_tree [0, 5, 5, 0, 5, 0] 2 0 1 =
     map_option (\<lambda>(a, b). (1, a, b)) (follow_verified_tree sibling_tree (map (argmax_at int_math [0, 5, 5, 0, 5, 0] 2) [0..<1 + num_nodes sibling_tree]))"
  using tree_walks_agree [OF sibling_tree_ok, of "[0, 5, 5, 0, 5, 0]" 2 int_math 0 1]
  by (simp add: sibling_tree_def num_nodes_def int_math_def)

section \<open>At any temperature\<close>

text \<open>The chain walk returns, with a count within the drafts.\<close>

lemma naive_chain_returns:
  assumes "length logits = n * vocab"
  shows "i + length drafts < n \<Longrightarrow> \<exists>rng' a bonus. naive_chain A D logits vocab temp top_p top_k drafts i rng = Some (rng', a, bonus) \<and>
    i \<le> a \<and> a \<le> i + length drafts"
proof (induction drafts arbitrary: i rng)
  case Nil
  then show ?case using slice_row [OF assms, of i]
    by (auto simp: naive_chain.simps [of _ _ _ _ _ _ _ "[]"] split: prod.split)
next
  case (Cons d ds)
  obtain rng1 x where x: "draw_row A D (row_at logits vocab i) temp top_p top_k rng = (rng1, x)" by fastforce
  have "Suc i + length ds < n" using Cons.prems by simp
  from Cons.IH [OF this, of rng1] show ?case
    using slice_row [OF assms, of i] Cons.prems x by (fastforce simp: naive_chain.simps [of _ _ _ _ _ _ _ "d # ds"])
qed

lemma length_row_at:
  assumes "length logits = n * vocab" and "s < n"
  shows "length (row_at logits vocab s) = vocab"
  using assms mult_le_mono1 [of "Suc s" n vocab] by (simp add: row_at_def)

lemma length_softmax [simp]: "length (softmax_temp_into A row temp) = length row"
  by (simp add: softmax_temp_into_def Let_def)

lemma length_swor_draws: "length (snd (swor_draws A n qr rng)) = n"
  by (induction n arbitrary: qr rng) (simp_all add: Let_def split: prod.split, metis snd_conv)+

lemma swor_candidates_sizes:
  assumes "length logits = num_pos * vocab"
  shows "\<exists>rng' q cands. swor_draft_candidates A logits num_pos vocab k temp rng = Some (rng', q, cands) \<and>
    length q = num_pos * vocab \<and> length cands = num_pos * k"
proof -
  have "\<exists>rng' q cands. swor_rows A logits vocab k temp rs rng = Some (rng', q, cands) \<and> length q = length rs * vocab \<and>
      length cands = length rs * k" if "\<forall>r\<in>set rs. r < num_pos" for rs
    using that
  proof (induction rs arbitrary: rng)
    case (Cons r rs)
    have row: "slice logits (r * vocab) ((r + 1) * vocab) = Some (row_at logits vocab r)" "length (row_at logits vocab r) = vocab"
      using slice_row [OF assms, of r] length_row_at [OF assms, of r] Cons.prems by auto
    let ?q = "softmax_temp_into A (row_at logits vocab r) (f_max A temp (f_1e_4 A))"
    obtain rng1 ts where ts: "swor_draws A k ?q rng = (rng1, ts)" by fastforce
    then have "length ts = k" using length_swor_draws [of A k ?q rng] by simp
    then show ?case using Cons.IH [of rng1] Cons.prems row ts by fastforce
  qed simp
  from this [of "[0..<num_pos]"] show ?thesis by (simp add: swor_draft_candidates_def)
qed

lemma swor_walk_returns:
  assumes top: "topological (tree_nodes t)" and cms: "children_ok (tree_nodes t) (child_maps t)"
    and len: "length logits = Suc (num_nodes t) * vocab" "length draft_q = num_pos * vocab" "length pos_cands = num_pos * k"
    and s: "s \<le> num_nodes t"
  shows "\<exists>rng' s' tok. swor_walk A t logits draft_q pos_cands num_pos k vocab temp s (slot_path (tree_nodes t) s) rng =
      Some (rng', slot_path (tree_nodes t) s', tok) \<and> s' \<le> num_nodes t"
  using top cms s [unfolded num_nodes_def]
proof (induction s arbitrary: rng rule: walk_induct)
  case (slot s)
  let ?ns = "tree_nodes t" and ?p = "softmax_temp_into A (row_at logits vocab s) temp"
  have cm: "list_get (child_maps t) s = Some (child_maps t ! s)" using cms slot(1) by (simp add: children_ok_def)
  have row: "slice logits (s * vocab) ((s + 1) * vocab) = Some (row_at logits vocab s)"
    using slice_row [OF len(1), of s] slot(1) by (simp add: num_nodes_def)
  obtain d where d: "(if s = 0 then Some 0 else map_option nd_depth (list_get ?ns (s - 1))) = Some d" using slot(1) by (cases s) auto
  note unfold = swor_walk.simps [of A t logits draft_q pos_cands num_pos k vocab temp s]
  show ?case
  proof (cases "num_pos \<le> d")
    case True
    then show ?thesis using row d slot(1) by (auto simp: unfold num_nodes_def split: prod.split)
  next
    case False
    then have "d < num_pos" by simp
    note q = slice_row [OF len(2) this] slice_row [OF len(3) this]
    let ?q = "row_at draft_q vocab d" and ?c = "row_at pos_cands k d"
    obtain rng1 tok out where step: "swor_step A ?p ?q ?c rng = (rng1, tok, out)" by (cases "swor_step A ?p ?q ?c rng") auto
    have run: "swor_walk A t logits draft_q pos_cands num_pos k vocab temp s (slot_path ?ns s) rng =
        (case tok of None \<Rightarrow> Some (rng1, slot_path ?ns s, out)
         | Some c \<Rightarrow> (case (child_maps t ! s) c of
              Some ch \<Rightarrow> swor_walk A t logits draft_q pos_cands num_pos k vocab temp (ch + 1) (slot_path ?ns s @ [ch]) rng1
            | None \<Rightarrow> Some (rng1, slot_path ?ns s, c)))"
      using row d q cm False step by (simp add: unfold add.commute split: option.split)
    show ?thesis
    proof (cases "\<exists>c ch. tok = Some c \<and> (child_maps t ! s) c = Some ch")
      case True
      then obtain c ch where c: "tok = Some c" "(child_maps t ! s) c = Some ch" by blast
      note ch = children_child [OF cms slot(1) c(2)]
      then have "slot_path ?ns (Suc ch) = slot_path ?ns s @ [ch]" using slot_path_Suc [OF top] by auto
      with slot(2) [OF c(2)] ch run c show ?thesis by simp
    next
      case False
      then show ?thesis using run slot(1) by (auto simp: num_nodes_def split: option.split)
    qed
  qed
qed

text \<open>The walk without replacement returns the nodes of one path, at any temperature.\<close>

lemma swor_returns:
  assumes "topological (tree_nodes t)" and "children_ok (tree_nodes t) (child_maps t)"
    and len: "length logits = Suc (num_nodes t) * vocab" "length draft_q = num_pos * vocab" "length pos_cands = num_pos * k"
  shows "\<exists>rng' s tok. sample_verified_tree_swor A t logits draft_q pos_cands num_pos k vocab temp rng =
      Some (rng', slot_path (tree_nodes t) s, tok) \<and> s \<le> num_nodes t"
proof (cases "f_le A temp (f_zero A)")
  case True
  let ?post = "map (argmax_at A logits vocab) [0..<1 + num_nodes t]"
  have "argmax_rows A logits vocab [0..<1 + num_nodes t] = Some ?post" using argmax_rows_eq [OF len(1)] by auto
  then show ?thesis
    using True follow_verified_tree_ok [OF assms(1,2), of ?post] by (auto simp: sample_verified_tree_swor_def simp del: upt_Suc)
next
  case False
  then show ?thesis using swor_walk_returns [OF assms, of 0] by (simp add: sample_verified_tree_swor_def slot_path_def)
qed

end
