(* ===== verification/Dflash_Generic.thy ===== *)
theory Dflash_Generic
  imports Tree_Verify
begin

text \<open>
  The target-generic block-diffusion speculator, \<^verbatim>\<open>hipfire-runtime/src/dflash_generic.rs\<close>, over the dense target of
  \<^verbatim>\<open>hipfire-arch-llama/src/spec_impl.rs\<close> and \<^verbatim>\<open>hipfire-runtime/src/llama_spec.rs\<close>: one window drafts a block, verifies it as
  a chain or as a tree in one forward, commits the accepted prefix and keeps the hidden rows the next
  draft reads.

  A cache row stands for everything the forward computes at a position: \<open>hid\<close> is its hidden row (the
  extracted layers), \<open>lgt\<close> its logits. The network, the tree-masked forward \<open>tnet\<close> and the drafter \<open>draft\<close> are parameters.
  The host buffer is a list of rows. \<open>None\<close> is a panic, or a write past the end of the cache.
\<close>

section \<open>The dense target\<close>

record 'r dense = "('r, unit) device" +
  batchable :: bool
  q8_kv :: bool
  extracts :: bool

record dense_scratch =
  pbs_max :: nat

datatype dflash_error = OutOfBudget | ScratchFreed | Target spec_error | EmbedFailed | DraftFailed | NoLastRow | WrongVocab | NoExtract | HostMisaligned

definition batched_verify_eligible :: "'r dense \<Rightarrow> dense_scratch \<Rightarrow> nat \<Rightarrow> bool" where
  "batched_verify_eligible s c n \<longleftrightarrow> batchable s \<and> 4 \<le> n \<and> n \<le> pbs_max c"

text \<open>The rows a forward has just written.\<close>

definition written :: "'r dense \<Rightarrow> nat \<Rightarrow> nat \<Rightarrow> 'r list" where
  "written s pos n = take n (drop pos (kv s))"

fun dense_steps ::
  "('r, unit) net \<Rightarrow> 'r dense \<Rightarrow> token list \<Rightarrow> nat \<Rightarrow> ('r dense \<times> (spec_error + unit)) option" where
  "dense_steps net s [] pos = Some (s, Inr ())"
| "dense_steps net s (tok # toks) pos =
     (if length (kv s) \<le> pos then None
      else case run_net net s pos [tok] of
             (s1, Inl e) \<Rightarrow> Some (s1, Inl e)
           | (s1, Inr _) \<Rightarrow> dense_steps net s1 toks (pos + 1))"

text \<open>
  The shared body of \<^verbatim>\<open>verify_block_argmax\<close> and \<^verbatim>\<open>verify_block_logits\<close>: one batched forward when the block is eligible,
  otherwise token by token, and then nothing is captured.
\<close>

definition verify_block_rows ::
  "('r, unit) net \<Rightarrow> ('r \<Rightarrow> 'h) \<Rightarrow> 'r dense \<Rightarrow> dense_scratch \<Rightarrow> token list \<Rightarrow> nat \<Rightarrow> bool \<Rightarrow>
   ('r dense \<times> (spec_error + 'r list \<times> 'h list)) option" where
  "verify_block_rows net hid s c block pos want_hidden =
     (if length (kv s) < pos + length block then None
      else if batched_verify_eligible s c (length block)
      then case run_net net s pos block of
             (s1, Inl e) \<Rightarrow> Some (s1, Inl e)
           | (s1, Inr _) \<Rightarrow>
               (let rows = written s1 pos (length block)
                in Some (s1, Inr (rows, if want_hidden \<and> extracts s1 then map hid rows else [])))
      else case dense_steps net s block pos of
             None \<Rightarrow> None
           | Some (s1, Inl e) \<Rightarrow> Some (s1, Inl e)
           | Some (s1, Inr _) \<Rightarrow> Some (s1, Inr (written s1 pos (length block), [])))"

definition dense_verify_block ::
  "'f f32_math \<Rightarrow> ('r, unit) net \<Rightarrow> ('r \<Rightarrow> 'h) \<Rightarrow> ('r \<Rightarrow> 'f list) \<Rightarrow> 'r dense \<Rightarrow> dense_scratch \<Rightarrow> token list \<Rightarrow> nat \<Rightarrow> bool \<Rightarrow>
   ('r dense \<times> (spec_error + token list \<times> 'h list)) option" where
  "dense_verify_block A net hid lgt s c block pos want_hidden =
     map_option (map_prod id (map_sum id (map_prod (map (\<lambda>r. llama_argmax A (lgt r))) id)))
       (verify_block_rows net hid s c block pos want_hidden)"

definition dense_verify_logits ::
  "('r, unit) net \<Rightarrow> ('r \<Rightarrow> 'h) \<Rightarrow> ('r \<Rightarrow> 'f list) \<Rightarrow> 'r dense \<Rightarrow> dense_scratch \<Rightarrow> token list \<Rightarrow> nat \<Rightarrow> bool \<Rightarrow>
   ('r dense \<times> (spec_error + 'f list \<times> 'h list)) option" where
  "dense_verify_logits net hid lgt s c block pos want_hidden =
     map_option (map_prod id (map_sum id (map_prod (\<lambda>rows. concat (map lgt rows)) id)))
       (verify_block_rows net hid s c block pos want_hidden)"

type_synonym ('r, 'f) tree_net = "'r list \<Rightarrow> token list \<Rightarrow> 'f list \<Rightarrow> int list \<Rightarrow> 'r list"

definition dense_verify_tree ::
  "('r, 'f) tree_net \<Rightarrow> ('r \<Rightarrow> 'h) \<Rightarrow> ('r \<Rightarrow> 'f list) \<Rightarrow> 'r dense \<Rightarrow> dense_scratch \<Rightarrow> token list \<Rightarrow> 'f list \<Rightarrow> int list \<Rightarrow> nat \<Rightarrow>
   ('r dense \<times> (spec_error + 'f list \<times> 'h list)) option" where
  "dense_verify_tree tnet hid lgt s c tokens bias positions pos =
     (let n = length tokens
      in if length bias \<noteq> n * n \<or> pbs_max c < n \<or> length positions \<noteq> n \<or> \<not> q8_kv s \<or> \<not> batchable s \<or> length (kv s) < pos + n
         then None
         else case gpu_call s of
                (s1, False) \<Rightarrow> Some (s1, Inl TargetFailed)
              | (s1, True) \<Rightarrow>
                  (let rows = tnet (take pos (kv s1)) tokens bias positions;
                       s2 = s1\<lparr>kv := take pos (kv s1) @ rows @ drop (pos + n) (kv s1)\<rparr>
                   in Some (s2, Inr (concat (map lgt rows), if extracts s2 then map hid rows else []))))"

definition dense_commit_prefix :: "'r dense \<Rightarrow> dense_scratch \<Rightarrow> token list \<Rightarrow> nat \<Rightarrow> nat \<Rightarrow> 'r dense \<times> (spec_error + unit)" where
  "dense_commit_prefix s c block accept_len pos = (s, Inr ())"

text \<open>The prefill of the target: token by token, one hidden row each; \<open>aborts\<close> as in the other targets.\<close>

fun dense_advance ::
  "'f f32_math \<Rightarrow> ('r, unit) net \<Rightarrow> ('r \<Rightarrow> 'h) \<Rightarrow> ('r \<Rightarrow> 'f list) \<Rightarrow> 'r dense \<Rightarrow> token list \<Rightarrow> nat \<Rightarrow> bool list \<Rightarrow> 'f list \<Rightarrow> 'h list \<Rightarrow>
   ('r dense \<times> 'h list \<times> (spec_error + 'f list spec_advance)) option" where
  "dense_advance A net hid lgt s [] pos aborts row host =
     (case gpu_call s of
        (s1, False) \<Rightarrow> Some (s1, host, Inl TargetFailed)
      | (s1, True) \<Rightarrow> Some (s1, host, Inr (Ready (llama_argmax A row) (Some row))))"
| "dense_advance A net hid lgt s (tok # toks) pos aborts row host =
     (if aborts \<noteq> [] \<and> hd aborts then Some (s, host, Inr Aborted)
      else if length (kv s) \<le> pos then None
      else case run_net net s pos [tok] of
             (s1, Inl e) \<Rightarrow> Some (s1, host, Inl e)
           | (s1, Inr _) \<Rightarrow>
               let r = kv s1 ! pos
               in dense_advance A net hid lgt s1 toks (pos + 1) (tl aborts) (lgt r) (if extracts s1 then host @ [hid r] else host))"

section \<open>The speculator\<close>

record tree_mode =
  tree_enabled :: bool
  tree_budget :: nat
  tree_topk :: nat

record ('h, 'f) dflash =
  host :: "'h list"
  verify_scratch :: "dense_scratch option"
  cfg_block :: nat
  cfg_mask :: token
  cfg_vocab :: nat
  tree :: tree_mode
  df_rng :: "64 word"
  df_temp :: 'f
  df_top_p :: 'f
  df_top_k :: nat

definition clamped_tree_budget :: "nat option \<Rightarrow> nat" where
  "clamped_tree_budget flag = min (max (case flag of None \<Rightarrow> 8 | Some b \<Rightarrow> b) 1) (256 - 1)"

definition dense_tree_verify_nodes :: "bool \<Rightarrow> nat option \<Rightarrow> nat" where
  "dense_tree_verify_nodes dflash_tree flag = (if dflash_tree then clamped_tree_budget flag + 1 else 0)"

definition tree_mode_from_flags :: "bool \<Rightarrow> nat option \<Rightarrow> nat option \<Rightarrow> tree_mode" where
  "tree_mode_from_flags dflash_tree budget topk =
     \<lparr>tree_enabled = dflash_tree, tree_budget = clamped_tree_budget budget, tree_topk = (case topk of None \<Rightarrow> 2 | Some k \<Rightarrow> k)\<rparr>"

definition dense_new_scratch :: "nat \<Rightarrow> bool \<Rightarrow> nat option \<Rightarrow> dense_scratch" where
  "dense_new_scratch bs dflash_tree budget = \<lparr>pbs_max = max (max bs 2) (dense_tree_verify_nodes dflash_tree budget)\<rparr>"

definition build_generic_dflash_speculator ::
  "'f f32_math \<Rightarrow> nat \<Rightarrow> token \<Rightarrow> nat \<Rightarrow> bool \<Rightarrow> nat option \<Rightarrow> nat option \<Rightarrow> ('h, 'f) dflash" where
  "build_generic_dflash_speculator A bs mask_tok vocab dflash_tree budget topk =
     \<lparr>host = [], verify_scratch = Some (dense_new_scratch bs dflash_tree budget), cfg_block = bs, cfg_mask = mask_tok, cfg_vocab = vocab,
      tree = tree_mode_from_flags dflash_tree budget topk, df_rng = 0x13579BDF, df_temp = f_zero A, df_top_p = f_one A, df_top_k = 0\<rparr>"

definition df_set_sampling :: "('h, 'f) dflash \<Rightarrow> 'f \<Rightarrow> 'f \<Rightarrow> nat \<Rightarrow> ('h, 'f) dflash" where
  "df_set_sampling sp temp top_p top_k = sp\<lparr>df_temp := temp, df_top_p := top_p, df_top_k := top_k, df_rng := 0x13579BDF\<rparr>"

definition df_reset :: "('h, 'f) dflash \<Rightarrow> ('h, 'f) dflash" where
  "df_reset sp = sp\<lparr>host := []\<rparr>"

definition clamp_accept_to_budget :: "nat \<Rightarrow> token \<Rightarrow> nat \<Rightarrow> token \<Rightarrow> nat \<times> token" where
  "clamp_accept_to_budget acc bonus max_emit boundary =
     (if max_emit - 1 < acc then (max_emit - 1, boundary) else (acc, bonus))"

text \<open>The host buffer grows by the first \<open>accepted + 1\<close> captured rows; a shorter capture is a slice out of range.\<close>

definition keep_hidden :: "('h, 'f) dflash \<Rightarrow> 'h list \<Rightarrow> nat \<Rightarrow> ('h, 'f) dflash option" where
  "keep_hidden sp block_hidden acc = do {
     rows \<leftarrow> slice block_hidden 0 (acc + 1);
     Some (sp\<lparr>host := host sp @ rows\<rparr>)
   }"

definition step_one_token ::
  "'f f32_math \<Rightarrow> ('f, 'd) f64_math \<Rightarrow> ('r, unit) net \<Rightarrow> ('r \<Rightarrow> 'h) \<Rightarrow> ('r \<Rightarrow> 'f list) \<Rightarrow> ('h, 'f) dflash \<Rightarrow> 'r dense \<Rightarrow> nat \<Rightarrow> token \<Rightarrow> 'f \<Rightarrow>
   (('h, 'f) dflash \<times> 'r dense \<times> (dflash_error + spec_step)) option" where
  "step_one_token A D net hid lgt sp s pos seed temp =
     (if length (host sp) \<noteq> pos then None
      else case verify_scratch sp of
             None \<Rightarrow> Some (sp, s, Inl ScratchFreed)
           | Some c \<Rightarrow> do {
               (sp1, s1, r) \<leftarrow>
                 (if f_lt A (f_1e_6 A) temp
                  then do {
                    (s1, r) \<leftarrow> dense_verify_logits net hid lgt s c [seed] pos True;
                    case r of
                      Inl e \<Rightarrow> Some (sp, s1, Inl (Target e))
                    | Inr (logits, hs) \<Rightarrow> do {
                        (rng, _, bonus) \<leftarrow> naive_sample_chain A D logits [] (cfg_vocab sp) temp (df_top_p sp) (df_top_k sp) (df_rng sp);
                        Some (sp\<lparr>df_rng := rng\<rparr>, s1, Inr (bonus, hs))
                      }
                  }
                  else do {
                    (s1, r) \<leftarrow> dense_verify_block A net hid lgt s c [seed] pos True;
                    case r of
                      Inl e \<Rightarrow> Some (sp, s1, Inl (Target e))
                    | Inr (picks, hs) \<Rightarrow> do { p \<leftarrow> list_get picks 0; Some (sp, s1, Inr (p, hs)) }
                  });
               case r of
                 Inl e \<Rightarrow> Some (sp1, s1, Inl e)
               | Inr (tok, hs) \<Rightarrow> (
                   case dense_commit_prefix s1 c [seed] 0 pos of
                     (s2, Inl e) \<Rightarrow> Some (sp1, s2, Inl (Target e))
                   | (s2, Inr _) \<Rightarrow> do {
                       sp2 \<leftarrow> keep_hidden sp1 hs 0;
                       Some (sp2, s2, Inr (cap_emit (spec_step_new [tok] tok 0 0) 1))
                     })
             })"

definition finish_chain ::
  "('h, 'f) dflash \<Rightarrow> 'h list \<Rightarrow> token list \<Rightarrow> nat \<Rightarrow> token \<Rightarrow> nat \<Rightarrow> (('h, 'f) dflash \<times> spec_step) option" where
  "finish_chain sp block_hidden drafts acc bonus max_emit = do {
     sp' \<leftarrow> keep_hidden sp block_hidden acc;
     ds \<leftarrow> slice drafts 0 acc;
     Some (sp', cap_emit (spec_step_new (ds @ [bonus]) bonus (length drafts) acc) max_emit)
   }"

fun gather :: "'a list \<Rightarrow> nat list \<Rightarrow> 'a list option" where
  "gather xs [] = Some []"
| "gather xs (i # is) = do { x \<leftarrow> list_get xs i; rest \<leftarrow> gather xs is; Some (x # rest) }"

text \<open>The tree arm after the walk: cap, commit (re-verifying a path that is not the spine), keep the rows, lower.\<close>

definition commit_tree ::
  "'f f32_math \<Rightarrow> ('r, unit) net \<Rightarrow> ('r \<Rightarrow> 'h) \<Rightarrow> ('r \<Rightarrow> 'f list) \<Rightarrow> 'f dd_tree \<Rightarrow> ('h, 'f) dflash \<Rightarrow> 'r dense \<Rightarrow> dense_scratch \<Rightarrow> nat \<Rightarrow>
   token \<Rightarrow> nat \<Rightarrow> nat \<Rightarrow> 'h list \<Rightarrow> nat list \<Rightarrow> token \<Rightarrow> (('h, 'f) dflash \<times> 'r dense \<times> (dflash_error + spec_step)) option" where
  "commit_tree A net hid lgt t sp s c pos seed depth max_emit block_hidden walk walk_bonus = do {
     toks \<leftarrow> gather (map nd_token (tree_nodes t)) walk;
     let max_accept = max_emit - 1;
     (path, bonus) \<leftarrow>
       (if max_accept < length walk
        then do { boundary \<leftarrow> list_get toks max_accept; Some (take max_accept walk, boundary) }
        else Some (walk, walk_bonus));
     ptoks \<leftarrow> gather (map nd_token (tree_nodes t)) path;
     let block = seed # ptoks;
     let spine = (path = [0..<length path]);
     (s1, r) \<leftarrow>
       (if spine then Some (s, Inr ())
        else do {
          (s1, v) \<leftarrow> dense_verify_block A net hid lgt s c block pos False;
          Some (s1, map_sum id (\<lambda>_. ()) v)
        });
     case r of
       Inl e \<Rightarrow> Some (sp, s1, Inl (Target e))
     | Inr _ \<Rightarrow> (
         case dense_commit_prefix s1 c block (length path) pos of
           (s2, Inl e) \<Rightarrow> Some (sp, s2, Inl (Target e))
         | (s2, Inr _) \<Rightarrow> do {
             rows \<leftarrow> gather block_hidden (0 # map Suc path);
             Some (sp\<lparr>host := host sp @ rows\<rparr>, s2,
                   Inr (cap_emit (spec_step_new (ptoks @ [bonus]) bonus depth (length path)) max_emit))
           })
   }"

definition step_tree ::
  "'f f32_math \<Rightarrow> ('r, unit) net \<Rightarrow> ('r, 'f) tree_net \<Rightarrow> ('r \<Rightarrow> 'h) \<Rightarrow> ('r \<Rightarrow> 'f list) \<Rightarrow> ('h, 'f) dflash \<Rightarrow> 'r dense \<Rightarrow> nat \<Rightarrow>
   token \<Rightarrow> 'f list \<Rightarrow> nat \<Rightarrow> 'f \<Rightarrow> nat \<Rightarrow> (('h, 'f) dflash \<times> 'r dense \<times> (dflash_error + spec_step)) option" where
  "step_tree A net tnet hid lgt sp s pos seed draft_logits b temp max_emit = do {
     let depth = b - 1;
     let vocab = cfg_vocab sp;
     let topk = max (min (tree_topk (tree sp)) vocab) 1;
     (tt, lp) \<leftarrow> topk_from_logits A draft_logits depth vocab topk;
     t \<leftarrow> build_ddtree_tree_bounded A tt lp depth topk 0 (tree_budget (tree sp)) (f_neg_inf A);
     let (tokens, positions, bias, _) = linearize_tree_with_parents (f_zero A) (f_neg_inf A) t seed (as_u32 pos);
     case verify_scratch sp of
       None \<Rightarrow> Some (sp, s, Inl ScratchFreed)
     | Some c \<Rightarrow> do {
         (s1, r) \<leftarrow> dense_verify_tree tnet hid lgt s c tokens bias positions pos;
         case r of
           Inl e \<Rightarrow> Some (sp, s1, Inl (Target e))
         | Inr (logits, block_hidden) \<Rightarrow> do {
             (rng, walk, bonus) \<leftarrow>
               (if f_le A temp (f_1e_6 A)
                then sample_verified_tree A t logits vocab (f_zero A) (df_rng sp)
                else do {
                  (rng, draft_q, pos_cands) \<leftarrow> swor_draft_candidates A draft_logits depth vocab topk temp (df_rng sp);
                  sample_verified_tree_swor A t logits draft_q pos_cands depth topk vocab temp rng
                });
             commit_tree A net hid lgt t (sp\<lparr>df_rng := rng\<rparr>) s1 c pos seed depth max_emit block_hidden walk bonus
           }
       }
   }"

fun argmax_drafts :: "'f f32_math \<Rightarrow> 'f list \<Rightarrow> nat \<Rightarrow> nat list \<Rightarrow> token list option" where
  "argmax_drafts A logits vocab [] = Some []"
| "argmax_drafts A logits vocab (i # is) = do {
     row \<leftarrow> slice logits (i * vocab) ((i + 1) * vocab);
     rest \<leftarrow> argmax_drafts A logits vocab is;
     Some (llama_argmax A row # rest)
   }"

definition step_chain ::
  "'f f32_math \<Rightarrow> ('f, 'd) f64_math \<Rightarrow> ('r, unit) net \<Rightarrow> ('r \<Rightarrow> 'h) \<Rightarrow> ('r \<Rightarrow> 'f list) \<Rightarrow> ('h, 'f) dflash \<Rightarrow> 'r dense \<Rightarrow> nat \<Rightarrow>
   token \<Rightarrow> token list \<Rightarrow> 'f \<Rightarrow> nat \<Rightarrow> (('h, 'f) dflash \<times> 'r dense \<times> (dflash_error + spec_step)) option" where
  "step_chain A D net hid lgt sp s pos seed drafts temp max_emit =
     (case verify_scratch sp of
        None \<Rightarrow> Some (sp, s, Inl ScratchFreed)
      | Some c \<Rightarrow> do {
          let block = seed # drafts;
          (sp1, s1, r) \<leftarrow>
            (if f_lt A (f_1e_6 A) temp
             then do {
               (s1, r) \<leftarrow> dense_verify_logits net hid lgt s c block pos True;
               case r of
                 Inl e \<Rightarrow> Some (sp, s1, Inl (Target e))
               | Inr (logits, hs) \<Rightarrow> do {
                   (rng, acc, bonus) \<leftarrow>
                     naive_sample_chain A D logits drafts (cfg_vocab sp) temp (df_top_p sp) (df_top_k sp) (df_rng sp);
                   boundary \<leftarrow> (if max_emit - 1 < acc then list_get drafts (max_emit - 1) else Some bonus);
                   Some (sp\<lparr>df_rng := rng\<rparr>, s1, Inr (acc, bonus, boundary, hs))
                 }
             }
             else do {
               (s1, r) \<leftarrow> dense_verify_block A net hid lgt s c block pos True;
               case r of
                 Inl e \<Rightarrow> Some (sp, s1, Inl (Target e))
               | Inr (picks, hs) \<Rightarrow> do {
                   a \<leftarrow> accept_greedy_prefix drafts picks None;
                   boundary \<leftarrow> (if max_emit - 1 < accepted a then list_get picks (max_emit - 1) else Some (last (committed a)));
                   Some (sp, s1, Inr (accepted a, last (committed a), boundary, hs))
                 }
             });
          case r of
            Inl e \<Rightarrow> Some (sp1, s1, Inl e)
          | Inr (acc0, bonus0, boundary, hs) \<Rightarrow> (
              let (acc, bonus) = clamp_accept_to_budget acc0 bonus0 max_emit boundary
              in case dense_commit_prefix s1 c block acc pos of
                   (s2, Inl e) \<Rightarrow> Some (sp1, s2, Inl (Target e))
                 | (s2, Inr _) \<Rightarrow> do { (sp2, st) \<leftarrow> finish_chain sp1 hs drafts acc bonus max_emit; Some (sp2, s2, Inr st) })
        })"

text \<open>
  \<open>embed_row\<close> is the target's embedding row of a token; \<open>draft\<close> stands for \<^verbatim>\<open>draft_forward\<close> and the target's head over the drafted
  positions: the logits of \<open>b - 1\<close> positions, from the hidden rows so far, the noise embedding and the position.
\<close>

definition noise_embedding :: "'e \<Rightarrow> 'e \<Rightarrow> nat \<Rightarrow> 'e list" where
  "noise_embedding mask_row seed_row b = seed_row # replicate (b - 1) mask_row"

definition df_step ::
  "'f f32_math \<Rightarrow> ('f, 'd) f64_math \<Rightarrow> ('r, unit) net \<Rightarrow> ('r, 'f) tree_net \<Rightarrow> ('r \<Rightarrow> 'h) \<Rightarrow> ('r \<Rightarrow> 'f list) \<Rightarrow>
   (token \<Rightarrow> 'e option) \<Rightarrow> ('h list \<Rightarrow> 'e list \<Rightarrow> nat \<Rightarrow> 'f list option) \<Rightarrow> ('h, 'f) dflash \<Rightarrow> 'r dense \<Rightarrow> nat \<Rightarrow> token \<Rightarrow> 'f \<Rightarrow> nat \<Rightarrow>
   (('h, 'f) dflash \<times> 'r dense \<times> (dflash_error + spec_step)) option" where
  "df_step A D net tnet hid lgt embed_row draft sp s pos seed temp max_emit =
     (if max_emit = 0 then Some (sp, s, Inl OutOfBudget)
      else if max_emit = 1 then step_one_token A D net hid lgt sp s pos seed temp
      else
        let b = max (min (max (cfg_block sp) 2) max_emit) 2
        in case (embed_row (cfg_mask sp), embed_row seed) of
             (Some mask_row, Some seed_row) \<Rightarrow>
               if length (host sp) \<noteq> pos then None
               else (case draft (host sp) (noise_embedding mask_row seed_row b) pos of
                       None \<Rightarrow> Some (sp, s, Inl DraftFailed)
                     | Some draft_logits \<Rightarrow> do {
                         drafts \<leftarrow> argmax_drafts A draft_logits (cfg_vocab sp) [0..<b - 1];
                         if tree_enabled (tree sp)
                         then step_tree A net tnet hid lgt sp s pos seed draft_logits b temp max_emit
                         else step_chain A D net hid lgt sp s pos seed drafts temp max_emit
                       })
           | _ \<Rightarrow> Some (sp, s, Inl EmbedFailed))"

definition df_prefill ::
  "'f f32_math \<Rightarrow> ('f, 'd) f64_math \<Rightarrow> ('r, unit) net \<Rightarrow> ('r \<Rightarrow> 'h) \<Rightarrow> ('r \<Rightarrow> 'f list) \<Rightarrow> ('h, 'f) dflash \<Rightarrow> 'r dense \<Rightarrow>
   token list \<Rightarrow> token list \<Rightarrow> nat \<Rightarrow> bool \<Rightarrow> bool list \<Rightarrow> 'f list \<Rightarrow>
   (('h, 'f) dflash \<times> 'r dense \<times> (dflash_error + prefill_outcome)) option" where
  "df_prefill A D net hid lgt sp s prompt_tokens prefill_tokens prefill_start hit aborts stale = do {
     let (fill, start) = (if hit then (prefill_tokens, prefill_start) else (prompt_tokens, 0));
     let sp1 = (if hit then sp else df_reset sp);
     (s1, h, r) \<leftarrow> dense_advance A net hid lgt s fill start aborts stale (host sp1);
     let sp2 = sp1\<lparr>host := h\<rparr>;
     case r of
       Inl e \<Rightarrow> Some (sp2, s1, Inl (Target e))
     | Inr Aborted \<Rightarrow> Some (sp2, s1, Inr PrefillAborted)
     | Inr (Ready pick row) \<Rightarrow>
         if f_le A (df_temp sp2) (f_1e_6 A) then Some (sp2, s1, Inr (PrefillReady pick))
         else case row of
                None \<Rightarrow> Some (sp2, s1, Inl NoLastRow)
              | Some lg \<Rightarrow>
                  if length lg \<noteq> cfg_vocab sp2 then Some (sp2, s1, Inl WrongVocab)
                  else do {
                    (rng, _, bonus) \<leftarrow> naive_sample_chain A D lg [] (cfg_vocab sp2) (df_temp sp2) (df_top_p sp2) (df_top_k sp2) (df_rng sp2);
                    Some (sp2\<lparr>df_rng := rng\<rparr>, s1, Inr (PrefillReady bonus))
                  }
   }"

definition on_forced_advance ::
  "'f f32_math \<Rightarrow> ('r, unit) net \<Rightarrow> ('r \<Rightarrow> 'h) \<Rightarrow> ('r \<Rightarrow> 'f list) \<Rightarrow> ('h, 'f) dflash \<Rightarrow> 'r dense \<Rightarrow> token list \<Rightarrow> nat \<Rightarrow> bool list \<Rightarrow> 'f list \<Rightarrow>
   (('h, 'f) dflash \<times> 'r dense \<times> (dflash_error + bool)) option" where
  "on_forced_advance A net hid lgt sp s tokens start aborts stale =
     (if tokens = [] then Some (sp, s, Inr True)
      else if \<not> extracts s then Some (sp, s, Inl NoExtract)
      else if length (host sp) \<noteq> start then Some (sp, s, Inl HostMisaligned)
      else do {
        (s1, h, r) \<leftarrow> dense_advance A net hid lgt s tokens start aborts stale (host sp);
        let sp1 = sp\<lparr>host := h\<rparr>;
        case r of
          Inl e \<Rightarrow> Some (sp1, s1, Inl (Target e))
        | Inr Aborted \<Rightarrow> Some (sp1, s1, Inr True)
        | Inr (Ready _ _) \<Rightarrow>
            if length h \<noteq> length (host sp) + length tokens then Some (sp1, s1, Inl HostMisaligned) else Some (sp1, s1, Inr True)
      })"

section \<open>What the target is assumed to compute\<close>

text \<open>A row's logits are finite, one per token, and the network's pick is their argmax.\<close>

definition reads_out :: "'f f32_math \<Rightarrow> ('r, unit) net \<Rightarrow> ('r \<Rightarrow> 'f list) \<Rightarrow> nat \<Rightarrow> bool" where
  "reads_out A net lgt vocab \<longleftrightarrow>
     (\<forall>rows toks. \<forall>x\<in>set (net rows () toks). length (lgt (fst x)) = vocab \<and> (\<forall>v\<in>set (lgt (fst x)). f_finite A v) \<and>
        snd (snd x) = llama_argmax A (lgt (fst x)))"

lemma reads_out_picks: "reads_out A net lgt vocab \<Longrightarrow> map (\<lambda>r. llama_argmax A (lgt r)) (rows_of net rows () toks) = picks_of net rows () toks"
  by (auto simp: reads_out_def rows_of_def picks_of_def)

lemma reads_out_row: "reads_out A net lgt vocab \<Longrightarrow> r \<in> set (rows_of net rows () toks) \<Longrightarrow> length (lgt r) = vocab \<and> (\<forall>v\<in>set (lgt r). f_finite A v)"
  by (auto simp: reads_out_def rows_of_def)

lemma argmax_finite: "\<forall>v\<in>set row. f_finite A v \<Longrightarrow> llama_argmax_loop A i bv bi row = argmax_loop A i bv bi row"
  by (induction row arbitrary: i bv bi) auto

lemma llama_argmax_eq: "\<forall>v\<in>set row. f_finite A v \<Longrightarrow> llama_argmax A row = word_of_nat (row_argmax A row)"
  by (simp add: llama_argmax_def row_argmax_def argmax_finite)

section \<open>Verification on a working device\<close>

abbreviation rows_after :: "('r, unit) net \<Rightarrow> token list \<Rightarrow> token list \<Rightarrow> 'r list" where
  "rows_after net hist block \<equiv> rows_of net (rows_of net [] () hist) () block"

definition advanced :: "('r, unit) net \<Rightarrow> 'r dense \<Rightarrow> token list \<Rightarrow> token list \<Rightarrow> 'r dense" where
  "advanced net s hist block =
     s\<lparr>kv := take (length hist) (kv s) @ rows_after net hist block @ drop (length hist + length block) (kv s)\<rparr>"

lemma rows_after_append: "causal net \<Longrightarrow> rows_of net [] () (hist @ block) = rows_of net [] () hist @ rows_after net hist block"
  by (simp add: rows_of_append)

lemma advanced_simps [simp]:
  "answers (advanced net s hist block) = answers s" "batchable (advanced net s hist block) = batchable s"
  "q8_kv (advanced net s hist block) = q8_kv s" "extracts (advanced net s hist block) = extracts s"
  by (simp_all add: advanced_def)

lemma advanced_reflects:
  assumes "reflects net () s hist" and "length hist + length block \<le> length (kv s)"
  shows "reflects net () (advanced net s hist block) (hist @ block)" and "length (kv (advanced net s hist block)) = length (kv s)"
    and "written (advanced net s hist block) (length hist) (length block) = rows_after net hist block"
proof -
  have c: "causal net" and t: "take (length hist) (kv s) = rows_of net [] () hist" using assms(1) by (auto simp: reflects_def)
  show "reflects net () (advanced net s hist block) (hist @ block)" "length (kv (advanced net s hist block)) = length (kv s)"
    "written (advanced net s hist block) (length hist) (length block) = rows_after net hist block"
    using assms c t by (simp_all add: reflects_def advanced_def written_def rows_after_append)
qed

lemma run_net_quiet:
  assumes "reflects net () s hist" and "answers s = []" and "length hist + length block \<le> length (kv s)"
  shows "run_net net s (length hist) block = (advanced net s hist block, Inr (picks_of net (rows_of net [] () hist) () block))"
  using assms by (simp add: run_net_def gpu_call_quiet advanced_def reflects_def Let_def)

lemma advanced_extend:
  assumes "causal net" and "length hist + length xs + length ys \<le> length (kv s)"
  shows "advanced net (advanced net s hist xs) (hist @ xs) ys = advanced net s hist (xs @ ys)"
proof -
  let ?X = "rows_after net hist xs" and ?K = "kv s"
  let ?I = "take (length hist) ?K @ ?X @ drop (length hist + length xs) ?K"
  have len: "length (take (length hist) ?K @ ?X) = length hist + length xs" using assms by simp
  have "take (length hist + length xs) ?I = take (length hist) ?K @ ?X"
    using len by (metis append.assoc append_eq_conv_conj)
  moreover have "drop (length hist + length xs + length ys) ?I = drop (length hist + length xs + length ys) ?K"
    using assms len by (simp add: drop_append ac_simps)
  moreover have "rows_after net hist (xs @ ys) = ?X @ rows_after net (hist @ xs) ys"
    using assms(1) by (simp add: rows_of_append [of net _ _ xs] rows_of_append [of net "[]"])
  ultimately show ?thesis by (simp add: advanced_def add.assoc)
qed

lemma dense_steps_quiet:
  "reflects net () s hist \<Longrightarrow> answers s = [] \<Longrightarrow> length hist + length block \<le> length (kv s) \<Longrightarrow>
   dense_steps net s block (length hist) = Some (advanced net s hist block, Inr ())"
proof (induction block arbitrary: s hist)
  case Nil
  then have "rows_after net hist [] = []" using causal_length [of net _ "()" "[]"] by (simp add: rows_of_def reflects_def)
  then show ?case by (simp add: advanced_def)
next
  case (Cons tok toks)
  let ?s = "advanced net s hist [tok]"
  have fit: "length hist + length [tok] \<le> length (kv s)" using Cons.prems by simp
  note e = advanced_reflects [OF Cons.prems(1) fit]
  have "dense_steps net ?s toks (length (hist @ [tok])) = Some (advanced net ?s (hist @ [tok]) toks, Inr ())"
    using e Cons.prems by (intro Cons.IH) auto
  moreover have "advanced net ?s (hist @ [tok]) toks = advanced net s hist (tok # toks)"
    using advanced_extend [of net hist "[tok]" toks s] Cons.prems by (simp add: reflects_def)
  ultimately show ?case using run_net_quiet [OF Cons.prems(1,2) fit] Cons.prems(3) by simp
qed

lemma verify_rows_quiet:
  assumes "reflects net () s hist" and "answers s = []" and "length hist + length block \<le> length (kv s)"
  shows "verify_block_rows net hid s c block (length hist) w =
    Some (advanced net s hist block,
          Inr (rows_after net hist block,
               if batched_verify_eligible s c (length block) \<and> w \<and> extracts s then map hid (rows_after net hist block) else []))"
  using assms run_net_quiet [OF assms] dense_steps_quiet [OF assms] advanced_reflects(3) [OF assms(1,3)]
  by (auto simp: verify_block_rows_def Let_def)

text \<open>The speculator between two windows, for the tokens the model has seen.\<close>

definition df_ready :: "('r, unit) net \<Rightarrow> ('r \<Rightarrow> 'h) \<Rightarrow> ('h, 'f) dflash \<Rightarrow> 'r dense \<Rightarrow> token list \<Rightarrow> bool" where
  "df_ready net hid sp s hist \<longleftrightarrow>
     reflects net () s hist \<and> answers s = [] \<and> extracts s \<and> batchable s \<and> q8_kv s \<and> host sp = map hid (rows_of net [] () hist) \<and>
     (\<exists>c. verify_scratch sp = Some c \<and> max (cfg_block sp) 2 \<le> pbs_max c \<and> (tree_enabled (tree sp) \<longrightarrow> tree_budget (tree sp) < pbs_max c))"

definition window_block :: "('h, 'f) dflash \<Rightarrow> nat \<Rightarrow> nat" where
  "window_block sp max_emit = max (min (max (cfg_block sp) 2) max_emit) 2"

text \<open>The drafter ran: logits for each drafted position, whatever they are.\<close>

definition drafts_block ::
  "(token \<Rightarrow> 'e option) \<Rightarrow> ('h list \<Rightarrow> 'e list \<Rightarrow> nat \<Rightarrow> 'f list option) \<Rightarrow> ('h, 'f) dflash \<Rightarrow> token list \<Rightarrow> token \<Rightarrow> nat \<Rightarrow> 'f list \<Rightarrow> bool" where
  "drafts_block embed_row draft sp hist seed max_emit logits \<longleftrightarrow>
     (\<exists>m e. embed_row (cfg_mask sp) = Some m \<and> embed_row seed = Some e \<and>
        draft (host sp) (noise_embedding m e (window_block sp max_emit)) (length hist) = Some logits) \<and>
     length logits = (window_block sp max_emit - 1) * cfg_vocab sp"

text \<open>The outcome of a window that is right: greedy tokens, within the budget, and ready for the next one.\<close>

definition greedy_window ::
  "('r, unit) net \<Rightarrow> ('r \<Rightarrow> 'h) \<Rightarrow> token list \<Rightarrow> token \<Rightarrow> nat \<Rightarrow> ('h, 'f) dflash \<times> 'r dense \<times> (dflash_error + spec_step) \<Rightarrow> bool" where
  "greedy_window net hid hist seed max_emit out \<longleftrightarrow>
     (\<exists>n st. snd (snd out) = Inr st \<and> n < max_emit \<and> emit st = greedy_tokens (greedy_pick net ()) (hist @ [seed]) (Suc n) \<and>
        next_seed st = last (emit st) \<and> df_ready net hid (fst out) (fst (snd out)) (hist @ seed # butlast (emit st)))"

lemma argmax_drafts_total:
  assumes "length logits = n * vocab"
  shows "\<forall>i\<in>set is. i < n \<Longrightarrow> \<exists>ds. argmax_drafts A logits vocab is = Some ds \<and> length ds = length is"
  using slice_row [OF assms] by (induction "is") auto

section \<open>The chain window\<close>

lemma df_ready_advanced:
  assumes "df_ready net hid sp s hist" and "reflects net () s' (hist @ block)" and "answers s' = []" "extracts s'" "batchable s'" "q8_kv s'"
  shows "df_ready net hid (sp\<lparr>host := host sp @ map hid (rows_after net hist block)\<rparr>) s' (hist @ block)"
  using assms by (auto simp: df_ready_def rows_after_append reflects_def)

lemma butlast_greedy: "butlast (greedy_tokens pick hist (Suc n)) = greedy_tokens pick hist n"
  using take_greedy_tokens [of n "Suc n" pick hist] by (simp only: butlast_conv_take length_greedy_tokens) simp

lemma rows_after_take: "causal net \<Longrightarrow> take n (rows_after net hist block) = rows_after net hist (take n block)"
  by (simp add: rows_of_def causal_take take_map)

text \<open>A verified chain: accept, keep the rows, lower.\<close>

lemma chain_finish:
  assumes ready: "df_ready net hid sp s hist" and fit: "length hist + Suc (length drafts) \<le> length (kv s)"
    and picks: "\<forall>i<Suc (length drafts). picks ! i = greedy_pick net () (hist @ [seed] @ take i drafts)" "length picks = Suc (length drafts)"
    and acc: "accept_greedy_prefix drafts picks None = Some a" and small: "length drafts < max_emit"
  shows "\<exists>sp' st. finish_chain sp (map hid (rows_after net hist (seed # drafts))) drafts (accepted a) (last (committed a)) max_emit = Some (sp', st) \<and>
    greedy_window net hid hist seed max_emit (sp', advanced net s hist (seed # drafts), Inr st)"
proof -
  let ?n = "lcp drafts picks" and ?g = "greedy_tokens (greedy_pick net ()) (hist @ [seed])"
  have n: "?n \<le> length drafts" using lcp_bounds by blast
  have g: "take k picks = ?g k" if "k \<le> Suc ?n" for k
    using agreed_picks_greedy [of drafts picks "greedy_pick net ()" "hist @ [seed]"] picks that by simp
  have a: "accepted a = ?n" "committed a = ?g (Suc ?n)"
    using acc accept_greedy_eq [of drafts picks None] picks(2) g [of "Suc ?n"] by (auto simp: eos_at_def Let_def)
  have ds: "take ?n drafts = ?g ?n" using lcp_take [of drafts picks] g [of ?n] by simp
  have c: "causal net" and refl: "reflects net () s hist" using ready by (auto simp: df_ready_def reflects_def)
  let ?sp = "sp\<lparr>host := host sp @ map hid (rows_after net hist (seed # ?g ?n))\<rparr>"
  let ?st = "spec_step_new (?g (Suc ?n)) (last (?g (Suc ?n))) (length drafts) ?n"
  have "take (Suc ?n) (rows_after net hist (seed # drafts)) = rows_after net hist (seed # ?g ?n)"
    using rows_after_take [OF c, of "Suc ?n"] ds by simp
  moreover have "slice (map hid (rows_after net hist (seed # drafts))) 0 (Suc ?n) = Some (map hid (take (Suc ?n) (rows_after net hist (seed # drafts))))"
    using n c by (simp add: slice_def take_map)
  ultimately have keep: "keep_hidden sp (map hid (rows_after net hist (seed # drafts))) ?n = Some ?sp" by (simp add: keep_hidden_def)
  have "?g ?n @ [last (?g (Suc ?n))] = ?g (Suc ?n)"
    using butlast_greedy by (metis append_butlast_last_id greedy_tokens_Nil nat.distinct(1))
  then have fin: "finish_chain sp (map hid (rows_after net hist (seed # drafts))) drafts (accepted a) (last (committed a)) max_emit = Some (?sp, ?st)"
    using keep ds n small a by (simp add: finish_chain_def cap_emit_within spec_step_new_def)
  have fit': "length hist + length (seed # drafts) \<le> length (kv s)" using fit by simp
  have "reflects net () (advanced net s hist (seed # drafts)) (hist @ seed # ?g ?n)"
    using advanced_reflects(1) [OF refl fit'] ds reflects_unit [of net _ "hist @ seed # ?g ?n" "drop ?n drafts"]
    by (metis append_Cons append_assoc append_take_drop_id)
  then have "df_ready net hid ?sp (advanced net s hist (seed # drafts)) (hist @ seed # ?g ?n)"
    using df_ready_advanced [OF ready] ready by (simp add: df_ready_def)
  then have "greedy_window net hid hist seed max_emit (?sp, advanced net s hist (seed # drafts), Inr ?st)"
    using n small unfolding greedy_window_def
    by (intro exI [of _ ?n] exI [of _ ?st]) (simp add: spec_step_new_def butlast_greedy del: greedy_tokens.simps)
  then show ?thesis using fin by blast
qed

lemma verify_block_quiet:
  assumes "df_ready net hid sp s hist" and "reads_out A net lgt vocab" and "length hist + length block \<le> length (kv s)"
  shows "dense_verify_block A net hid lgt s c block (length hist) w =
    Some (advanced net s hist block,
          Inr (picks_of net (rows_of net [] () hist) () block,
               if batched_verify_eligible s c (length block) \<and> w then map hid (rows_after net hist block) else []))"
  using assms verify_rows_quiet [of net s hist block hid c w]
  by (simp add: dense_verify_block_def df_ready_def reads_out_picks)

lemma window_drafts:
  assumes "drafts_block embed_row draft sp hist seed max_emit logits" and "length (host sp) = length hist" and "2 \<le> max_emit"
  obtains ds where "Suc (length ds) = window_block sp max_emit"
    and "df_step A D net tnet hid lgt embed_row draft sp s (length hist) seed temp max_emit =
      (if tree_enabled (tree sp) then step_tree A net tnet hid lgt sp s (length hist) seed logits (window_block sp max_emit) temp max_emit
       else step_chain A D net hid lgt sp s (length hist) seed ds temp max_emit)"
proof -
  have len: "length logits = (window_block sp max_emit - 1) * cfg_vocab sp" using assms(1) by (simp add: drafts_block_def)
  from argmax_drafts_total [OF len, of "[0..<window_block sp max_emit - 1]" A] obtain ds where
    ds: "argmax_drafts A logits (cfg_vocab sp) [0..<window_block sp max_emit - 1] = Some ds" "length ds = window_block sp max_emit - 1" by auto
  have "Suc (length ds) = window_block sp max_emit" using ds(2) by (simp add: window_block_def)
  moreover have "df_step A D net tnet hid lgt embed_row draft sp s (length hist) seed temp max_emit =
      (if tree_enabled (tree sp) then step_tree A net tnet hid lgt sp s (length hist) seed logits (window_block sp max_emit) temp max_emit
       else step_chain A D net hid lgt sp s (length hist) seed ds temp max_emit)"
    using assms ds(1) by (auto simp: df_step_def drafts_block_def window_block_def Let_def)
  ultimately show ?thesis by (rule that)
qed

lemma chain_window_run:
  assumes ready: "df_ready net hid sp s hist" and net: "reads_out A net lgt (cfg_vocab sp)" and arm: "\<not> tree_enabled (tree sp)"
    and cold: "\<not> f_lt A (f_1e_6 A) temp" and block: "4 \<le> window_block sp max_emit" "2 \<le> max_emit"
    and fit: "length hist + window_block sp max_emit \<le> length (kv s)"
    and draft: "drafts_block embed_row draft sp hist seed max_emit logits"
  shows "\<exists>out. df_step A D net tnet hid lgt embed_row draft sp s (length hist) seed temp max_emit = Some out \<and>
    greedy_window net hid hist seed max_emit out"
proof -
  have host: "length (host sp) = length hist" using ready by (auto simp: df_ready_def reflects_def)
  from window_drafts [OF draft host block(2)] obtain ds where ds: "Suc (length ds) = window_block sp max_emit"
    and run: "df_step A D net tnet hid lgt embed_row draft sp s (length hist) seed temp max_emit =
      (if tree_enabled (tree sp) then step_tree A net tnet hid lgt sp s (length hist) seed logits (window_block sp max_emit) temp max_emit
       else step_chain A D net hid lgt sp s (length hist) seed ds temp max_emit)" by blast
  obtain c where c: "verify_scratch sp = Some c" "max (cfg_block sp) 2 \<le> pbs_max c" using ready by (auto simp: df_ready_def)
  have causal: "causal net" and b: "batchable s"
    using ready by (auto simp: df_ready_def reflects_def)
  let ?picks = "picks_of net (rows_of net [] () hist) () (seed # ds)"
  have fit': "length hist + length (seed # ds) \<le> length (kv s)" using fit ds by simp
  have small: "length ds < max_emit" using ds block(2) by (simp add: window_block_def max_def min_def split: if_splits)
  have elig: "batched_verify_eligible s c (length (seed # ds))"
    using b c block ds by (auto simp: batched_verify_eligible_def window_block_def)
  have picks: "\<forall>i<Suc (length ds). ?picks ! i = greedy_pick net () (hist @ [seed] @ take i ds)" "length ?picks = Suc (length ds)"
    using picks_of_nth [OF causal, of _ "seed # ds" "()" hist] causal by auto
  obtain a where a: "accept_greedy_prefix ds ?picks None = Some a" using accept_greedy_eq [of ds ?picks None] picks(2) by auto
  then have "accepted a \<le> length ds" using accept_greedy_eq [of ds ?picks None] picks(2) lcp_bounds(1) [of ds ?picks]
    by (auto simp: eos_at_def Let_def)
  then have "\<not> max_emit - 1 < accepted a" using small by simp
  with chain_finish [OF ready _ picks a small] fit' obtain sp' st where
    fin: "finish_chain sp (map hid (rows_after net hist (seed # ds))) ds (accepted a) (last (committed a)) max_emit = Some (sp', st)"
    "greedy_window net hid hist seed max_emit (sp', advanced net s hist (seed # ds), Inr st)" by auto
  have "df_step A D net tnet hid lgt embed_row draft sp s (length hist) seed temp max_emit = step_chain A D net hid lgt sp s (length hist) seed ds temp max_emit"
    using run arm by simp
  also have "\<dots> = Some (sp', advanced net s hist (seed # ds), Inr st)"
    using c(1) cold verify_block_quiet [OF ready net fit', of c True] elig a fin(1) \<open>\<not> max_emit - 1 < accepted a\<close>
    by (simp add: step_chain_def clamp_accept_to_budget_def dense_commit_prefix_def)
  finally show ?thesis using fin(2) by blast
qed


lemma keep_no_rows [simp]: "keep_hidden sp [] k = None" by (simp add: keep_hidden_def slice_def)

lemma short_verify:
  assumes "reflects net () s hist" "answers s = []" "length hist + length block \<le> length (kv s)" "length block < 4"
  shows "verify_block_rows net hid s c block (length hist) w = Some (advanced net s hist block, Inr (rows_after net hist block, []))"
  using verify_rows_quiet [OF assms(1-3), of hid c w] assms(4) by (simp add: batched_verify_eligible_def)

text \<open>
  Property C16. With a budget of one, two or three tokens left and no tree, a window panics on a working device,
  whatever the temperature: a block of fewer than four tokens is verified token by token, which captures no
  hidden rows, and the speculator slices the rows it expects.
\<close>

theorem short_window_panics:
  assumes ready: "df_ready net hid sp s hist" and short: "max_emit = 1 \<or> 2 \<le> max_emit \<and> window_block sp max_emit < 4 \<and> \<not> tree_enabled (tree sp)"
    and fit: "length hist + window_block sp max_emit \<le> length (kv s)"
    and draft: "drafts_block embed_row draft sp hist seed max_emit logits"
  shows "df_step A D net tnet hid lgt embed_row draft sp s (length hist) seed temp max_emit = None"
proof -
  have refl: "reflects net () s hist" "answers s = []" and host: "length (host sp) = length hist"
    using ready by (auto simp: df_ready_def reflects_def)
  obtain c where c: "verify_scratch sp = Some c" using ready by (auto simp: df_ready_def)
  show ?thesis
  proof (cases "max_emit = 1")
    case True
    then have "length hist + length [seed] \<le> length (kv s)" using fit by (simp add: window_block_def)
    from short_verify [OF refl this, of hid c True] True c host show ?thesis
      by (auto simp: df_step_def step_one_token_def dense_verify_block_def dense_verify_logits_def dense_commit_prefix_def
          split: Option.bind_split)
  next
    case False
    then have "2 \<le> max_emit" using short by auto
    from window_drafts [OF draft host this] obtain ds where ds: "Suc (length ds) = window_block sp max_emit"
      and run: "df_step A D net tnet hid lgt embed_row draft sp s (length hist) seed temp max_emit =
        (if tree_enabled (tree sp) then step_tree A net tnet hid lgt sp s (length hist) seed logits (window_block sp max_emit) temp max_emit
         else step_chain A D net hid lgt sp s (length hist) seed ds temp max_emit)" by blast
    have fit': "length hist + length (seed # ds) \<le> length (kv s)" using fit ds by simp
    have small: "length (seed # ds) < 4" using False short ds by auto
    have "step_chain A D net hid lgt sp s (length hist) seed ds temp max_emit = None"
      using short_verify [OF refl fit' small, of hid c True] c
      by (auto simp: step_chain_def dense_verify_block_def dense_verify_logits_def dense_commit_prefix_def finish_chain_def Let_def
          split: Option.bind_split prod.split)
    then show ?thesis using run False short by simp
  qed
qed

section \<open>From the prompt\<close>

lemma dense_advance_quiet:
  "reflects net () s hist \<Longrightarrow> answers s = [] \<Longrightarrow> extracts s \<Longrightarrow> length hist + length toks \<le> length (kv s) \<Longrightarrow>
   dense_advance A net hid lgt s toks (length hist) [] row h =
     (let row' = (if toks = [] then row else lgt (last (rows_after net hist toks)))
      in Some (advanced net s hist toks, h @ map hid (rows_after net hist toks), Inr (Ready (llama_argmax A row') (Some row'))))"
proof (induction toks arbitrary: s hist row h)
  case Nil
  then have "rows_after net hist [] = []" using causal_length [of net _ "()" "[]"] by (simp add: rows_of_def reflects_def)
  then show ?case using Nil by (simp add: advanced_def gpu_call_quiet)
next
  case (Cons tok toks)
  let ?s = "advanced net s hist [tok]" and ?R = "rows_after net hist [tok]"
  have c: "causal net" using Cons.prems(1) by (simp add: reflects_def)
  have fit: "length hist + length [tok] \<le> length (kv s)" using Cons.prems by simp
  note e = advanced_reflects [OF Cons.prems(1) fit]
  have split: "rows_after net hist (tok # toks) = ?R @ rows_after net (hist @ [tok]) toks"
    using rows_of_append [OF c, of "rows_of net [] () hist" "()" "[tok]" toks] rows_after_append [OF c, of hist "[tok]"] by simp
  have "length ?R = 1" using c by simp
  then obtain r where r: "?R = [r]" by (auto simp: length_Suc_conv)
  have at: "kv ?s ! length hist = r" using Cons.prems(4) r by (simp add: advanced_def nth_append)
  have more: "toks \<noteq> [] \<Longrightarrow> rows_after net (hist @ [tok]) toks \<noteq> []" using c by (metis length_0_conv length_rows_of)
  have none: "toks = [] \<Longrightarrow> rows_after net (hist @ [tok]) toks = []" using c by (metis length_0_conv length_rows_of)
  have "advanced net ?s (hist @ [tok]) toks = advanced net s hist (tok # toks)"
    using advanced_extend [OF c, of hist "[tok]" toks s] Cons.prems(4) by simp
  moreover have "dense_advance A net hid lgt ?s toks (length (hist @ [tok])) [] (lgt r) (h @ [hid r]) =
      (let row' = (if toks = [] then lgt r else lgt (last (rows_after net (hist @ [tok]) toks)))
       in Some (advanced net ?s (hist @ [tok]) toks, (h @ [hid r]) @ map hid (rows_after net (hist @ [tok]) toks), Inr (Ready (llama_argmax A row') (Some row'))))"
    using e Cons.prems by (intro Cons.IH) auto
  ultimately show ?case
    using run_net_quiet [OF Cons.prems(1,2) fit] Cons.prems(3,4) split r at more none by (auto simp: Let_def)
qed

lemma last_pick:
  assumes "causal net" and "reads_out A net lgt vocab" and "toks \<noteq> []"
  shows "llama_argmax A (lgt (last (rows_after net hist toks))) = greedy_pick net () (hist @ toks)"
proof -
  let ?p = "picks_of net (rows_of net [] () hist) () toks" and ?R = "rows_after net hist toks"
  have ne: "?R \<noteq> []" using length_rows_of [OF assms(1), of "rows_of net [] () hist" "()" toks] assms(3) by auto
  have "llama_argmax A (lgt (last ?R)) = last ?p"
    using reads_out_picks [OF assms(2), of "rows_of net [] () hist" toks] last_map [OF ne, of "\<lambda>r. llama_argmax A (lgt r)"] by simp
  also have "\<dots> = ?p ! (length toks - 1)"
    using assms(3) length_picks_of [OF assms(1), of "rows_of net [] () hist" "()" toks] by (metis last_conv_nth length_0_conv)
  finally show ?thesis using picks_of_nth [OF assms(1), of "length toks - 1" toks "()" hist] assms(3) by simp
qed

lemma build_scratch:
  "\<exists>c. verify_scratch (build_generic_dflash_speculator A bs mask_tok vocab dflash_tree budget topk) = Some c \<and> max bs 2 \<le> pbs_max c \<and>
     (dflash_tree \<longrightarrow> clamped_tree_budget budget < pbs_max c)"
  by (simp add: build_generic_dflash_speculator_def dense_new_scratch_def dense_tree_verify_nodes_def less_max_iff_disj le_max_iff_disj)

text \<open>
  Building the speculator and prefilling a prompt on a working device returns a first token, the greedy one at
  temperature zero, and establishes the condition the windows keep: cache and hidden rows for exactly the
  prompt, and a scratch large enough for the block and, with the tree enabled, for the whole tree.
\<close>

theorem dflash_start:
  assumes net: "causal net" "reads_out A net lgt vocab" and dev: "answers s = []" "extracts s" "batchable s" "q8_kv s"
    and prompt: "prompt \<noteq> []" "length prompt \<le> length (kv s)"
    and sp: "sp = df_set_sampling (build_generic_dflash_speculator A bs mask_tok vocab dflash_tree budget topk) temp top_p top_k"
  shows "\<exists>rng tok. df_prefill A D net hid lgt sp s prompt rest start False [] stale =
      Some (sp\<lparr>host := map hid (rows_of net [] () prompt), df_rng := rng\<rparr>, advanced net s [] prompt, Inr (PrefillReady tok)) \<and>
    df_ready net hid (sp\<lparr>host := map hid (rows_of net [] () prompt)\<rparr>) (advanced net s [] prompt) prompt \<and>
    (f_le A temp (f_1e_6 A) \<longrightarrow> tok = greedy_pick net () prompt)"
proof -
  let ?host = "map hid (rows_of net [] () prompt)" and ?row = "lgt (last (rows_of net [] () prompt))"
  have nil: "rows_of net [] () [] = []" using length_rows_of [OF net(1), of "[]" "()" "[]"] by simp
  have refl: "reflects net () s []" using net(1) nil by (simp add: reflects_def)
  have fit: "length ([] :: token list) + length prompt \<le> length (kv s)" using prompt(2) by simp
  note adv = dense_advance_quiet [OF refl dev(1,2) fit, of A hid lgt stale "[]"]
  have "rows_of net [] () prompt \<noteq> []" using length_rows_of [OF net(1), of "[]" "()" prompt] prompt(1) by auto
  then have row: "length ?row = 1 * vocab" using reads_out_row [OF net(2), of "last (rows_of net [] () prompt)" "[]" prompt] by simp
  obtain rng tok where tok: "naive_sample_chain A D ?row [] vocab temp top_p top_k (df_rng sp) = Some (rng, 0, tok)"
    using naive_chain_returns [OF row, of 0 "[]"] unfolding naive_sample_chain_def by fastforce
  have run: "df_prefill A D net hid lgt sp s prompt rest start False [] stale =
      Some (if f_le A temp (f_1e_6 A) then sp\<lparr>host := ?host\<rparr> else sp\<lparr>host := ?host, df_rng := rng\<rparr>, advanced net s [] prompt,
            Inr (PrefillReady (if f_le A temp (f_1e_6 A) then greedy_pick net () prompt else tok)))"
    using adv prompt(1) last_pick [OF net prompt(1), of "[]"] nil tok row
    by (simp add: df_prefill_def df_reset_def Let_def build_generic_dflash_speculator_def df_set_sampling_def sp)
  obtain c where "verify_scratch sp = Some c" "max bs 2 \<le> pbs_max c" "dflash_tree \<longrightarrow> clamped_tree_budget budget < pbs_max c"
    using build_scratch [of A bs mask_tok vocab dflash_tree budget topk] by (auto simp: sp df_set_sampling_def)
  then have "df_ready net hid (sp\<lparr>host := ?host\<rparr>) (advanced net s [] prompt) prompt"
    using advanced_reflects(1) [OF refl fit] dev
    by (simp add: df_ready_def build_generic_dflash_speculator_def tree_mode_from_flags_def df_set_sampling_def sp)
  moreover have "sp\<lparr>host := ?host\<rparr> = sp\<lparr>host := ?host, df_rng := df_rng sp\<rparr>" by simp
  ultimately show ?thesis using run
    by (intro exI [of _ "if f_le A temp (f_1e_6 A) then df_rng sp else rng"] exI [of _ "if f_le A temp (f_1e_6 A) then greedy_pick net () prompt else tok"])
       auto
qed

text \<open>Forced tokens keep the condition, and the speculator reports that it has advanced the target.\<close>

lemma forced_advance_ready:
  assumes ready: "df_ready net hid sp s hist" and fit: "length hist + length toks \<le> length (kv s)"
  shows "on_forced_advance A net hid lgt sp s toks (length hist) [] stale =
      Some (sp\<lparr>host := host sp @ map hid (rows_after net hist toks)\<rparr>, advanced net s hist toks, Inr True)"
    and "df_ready net hid (sp\<lparr>host := host sp @ map hid (rows_after net hist toks)\<rparr>) (advanced net s hist toks) (hist @ toks)"
    and "length (kv (advanced net s hist toks)) = length (kv s)"
proof -
  have r: "reflects net () s hist" "answers s = []" "extracts s" and c: "causal net" and host: "length (host sp) = length hist"
    using ready by (auto simp: df_ready_def reflects_def)
  have nil: "rows_after net hist [] = []" using length_rows_of [OF c, of _ "()" "[]"] by simp
  show "on_forced_advance A net hid lgt sp s toks (length hist) [] stale =
      Some (sp\<lparr>host := host sp @ map hid (rows_after net hist toks)\<rparr>, advanced net s hist toks, Inr True)"
    using dense_advance_quiet [OF r fit, of A hid lgt stale "host sp"] r host c nil
    by (cases "toks = []") (auto simp: on_forced_advance_def Let_def advanced_def)
  show "df_ready net hid (sp\<lparr>host := host sp @ map hid (rows_after net hist toks)\<rparr>) (advanced net s hist toks) (hist @ toks)"
    using df_ready_advanced [OF ready advanced_reflects(1) [OF r(1) fit]] ready by (simp add: df_ready_def)
  show "length (kv (advanced net s hist toks)) = length (kv s)" by (rule advanced_reflects(2) [OF r(1) fit])
qed

section \<open>A concrete target\<close>

text \<open>A model of four tokens that counts: after token \<open>t\<close> comes \<open>t + 1\<close> modulo four. A row is its token.\<close>

definition count_logits :: "token \<Rightarrow> int list" where
  "count_logits t = (replicate 4 0)[(unat t + 1) mod 4 := 5]"

definition count_net :: "(token, unit) net" where
  "count_net rows d toks = map (\<lambda>t. (t, (), llama_argmax int_math (count_logits t))) toks"

definition count_tree_net :: "(token, int) tree_net" where
  "count_tree_net rows tokens bias positions = tokens"

definition count_device :: "token dense" where
  "count_device = \<lparr>kv = [0, 1, 9, 9, 9, 9, 9, 9, 9, 9], dn = (), answers = [], batchable = True, q8_kv = True, extracts = True\<rparr>"

definition count_dflash :: "bool \<Rightarrow> (token, int) dflash" where
  "count_dflash dflash_tree = (build_generic_dflash_speculator int_math 4 3 4 dflash_tree (Some 3) None)\<lparr>host := [0, 1]\<rparr>"

definition count_draft :: "token list \<Rightarrow> token list \<Rightarrow> nat \<Rightarrow> int list option" where
  "count_draft h noise pos = Some (concat (map count_logits (take (length noise - 1) [2, 1, 0])))"

lemma count_rows [simp]: "rows_of count_net rows () toks = toks"
  by (simp add: rows_of_def count_net_def comp_def)

lemma count_causal: "causal count_net"
  by (simp add: causal_def count_net_def)

lemma count_reads_out: "reads_out int_math count_net count_logits 4"
  by (auto simp: reads_out_def count_net_def count_logits_def int_math_def)

lemma count_ready: "df_ready count_net id (count_dflash b) count_device [0, 1]"
  using count_causal build_scratch [of int_math 4 3 4 b "Some 3" None]
  by (auto simp: df_ready_def count_device_def count_dflash_def reflects_def build_generic_dflash_speculator_def tree_mode_from_flags_def)

lemma count_drafts:
  "drafts_block Some count_draft (count_dflash b) [0, 1] 2 max_emit
     (concat (map count_logits (take (window_block (count_dflash b) max_emit - 1) [2, 1, 0])))"
  by (auto simp: drafts_block_def count_draft_def noise_embedding_def count_dflash_def build_generic_dflash_speculator_def
      window_block_def count_logits_def length_concat comp_def sum_list_triv min_def max_def)

lemma count_block: "window_block (count_dflash b) max_emit = max (min 4 max_emit) 2"
  by (simp add: window_block_def count_dflash_def build_generic_dflash_speculator_def)

lemma count_config: "length (kv count_device) = 10" "cfg_vocab (count_dflash b) = 4" "tree_enabled (tree (count_dflash b)) = b"
  "tree_budget (tree (count_dflash b)) = 3"
  by (simp_all add: count_device_def count_dflash_def build_generic_dflash_speculator_def tree_mode_from_flags_def clamped_tree_budget_def)


theorem short_window_panics_witness:
  "df_step int_math int_math64 count_net count_tree_net id count_logits Some count_draft (count_dflash False) count_device 2 2 0 3 = None"
  using short_window_panics [OF count_ready [of False] _ _ count_drafts, where A = int_math and lgt = count_logits
      and temp = 0 and max_emit = 3 and D = int_math64 and tnet = count_tree_net]
  by (simp add: count_block count_config numeral_2_eq_2)

end
