(* ===== verification/Dflash_Tree.thy ===== *)
theory Dflash_Tree
  imports Dflash_Generic
begin

text \<open>
  The tree window of \<^verbatim>\<open>hipfire-runtime/src/dflash_generic.rs\<close> at temperature zero: what the target computes for a
  linearised tree, and that the window commits the greedy continuation of the model.
\<close>

section \<open>Paths of a linearised tree\<close>

lemma length_slot_path:
  assumes "nodes_ok tt depth topk rk ns"
  shows "s \<le> length ns \<Longrightarrow> length (slot_path ns s) = (if s = 0 then 0 else length (rk ! (s - 1)))"
proof (induction s rule: less_induct)
  case (less s)
  show ?case
  proof (cases s)
    case 0
    then show ?thesis by (simp add: slot_path_def)
  next
    case (Suc i)
    let ?p = "parent_slot (nd_parent (ns ! i))"
    have i: "i < length ns" using Suc less.prems by simp
    note path = slot_path_Suc [OF nodes_ok_topological [OF assms] i]
    have ne: "rk ! i \<noteq> []" and up: "butlast (rk ! i) = parent_path rk (nd_parent (ns ! i))" using assms i by (auto simp: nodes_ok_def)
    have "length (slot_path ns ?p) = (if ?p = 0 then 0 else length (rk ! (?p - 1)))" using less.IH [of ?p] path(2) Suc i by simp
    also have "\<dots> = length (butlast (rk ! i))" unfolding up by (simp add: parent_path_def parent_slot_def)
    finally show ?thesis using path(1) Suc ne by simp
  qed
qed

lemma slot_path_prefix:
  assumes "topological ns"
  shows "s \<le> length ns \<Longrightarrow> k < length (slot_path ns s) \<Longrightarrow> slot_path ns (Suc (slot_path ns s ! k)) = take (Suc k) (slot_path ns s)"
proof (induction s rule: less_induct)
  case (less s)
  then obtain i where s: "s = Suc i" by (cases s) (auto simp: slot_path_def)
  let ?p = "parent_slot (nd_parent (ns ! i))"
  have i: "i < length ns" using s less.prems by simp
  note path = slot_path_Suc [OF assms i]
  show ?case
  proof (cases "k < length (slot_path ns ?p)")
    case True
    then show ?thesis using less.IH [of ?p] path s i by (simp add: nth_append)
  next
    case False
    then have "k = length (slot_path ns ?p)" using less.prems(2) path(1) s by simp
    then show ?thesis using path(1) s by simp
  qed
qed

lemma slot_path_sorted:
  assumes "topological ns"
  shows "s \<le> length ns \<Longrightarrow> sorted_wrt (<) (slot_path ns s)"
proof (induction s rule: less_induct)
  case (less s)
  show ?case
  proof (cases s)
    case 0
    then show ?thesis by (simp add: slot_path_def)
  next
    case (Suc i)
    then have i: "i < length ns" using less.prems by simp
    note path = slot_path_Suc [OF assms i]
    let ?p = "parent_slot (nd_parent (ns ! i))"
    have "sorted_wrt (<) (slot_path ns ?p)" using less.IH [of ?p] path(2) Suc i by simp
    moreover have "\<forall>x\<in>set (slot_path ns ?p). x < i" using slot_path_bound [OF assms, of ?p] path(2) i by fastforce
    ultimately show ?thesis using path(1) Suc by (simp add: sorted_wrt_append)
  qed
qed

lemma seen_slots:
  assumes "topological ns" and "s \<le> length ns"
  shows "filter (sees ns s) [0..<Suc (length ns)] = 0 # map Suc (slot_path ns s)"
proof (rule strict_sorted_equal)
  show "sorted_wrt (<) (0 # map Suc (slot_path ns s))" using slot_path_sorted [OF assms] by (simp add: sorted_wrt_map)
  show "sorted_wrt (<) (filter (sees ns s) [0..<Suc (length ns)])" by (rule sorted_wrt_filter) (rule sorted_wrt_upt)
  show "set (filter (sees ns s) [0..<Suc (length ns)]) = set (0 # map Suc (slot_path ns s))"
  proof (rule set_eqI)
    fix j show "j \<in> set (filter (sees ns s) [0..<Suc (length ns)]) \<longleftrightarrow> j \<in> set (0 # map Suc (slot_path ns s))"
      using slot_path_bound [OF assms, of "j - 1"] assms(2) by (cases j) (auto simp: sees_def image_iff simp del: upt_Suc)
  qed
qed

section \<open>What the tree-masked forward is assumed to compute\<close>

text \<open>
  A slot whose mask opens exactly a chain of slots, each seeing the chain up to itself, rotated at consecutive
  positions after the cached rows, gets the row the network computes for the chain.
\<close>

definition visible :: "'f f32_math \<Rightarrow> 'f list \<Rightarrow> nat \<Rightarrow> nat \<Rightarrow> nat list" where
  "visible A bias n s = filter (\<lambda>j. bias ! (s * n + j) = f_zero A) [0..<n]"

definition masked_chain :: "'f f32_math \<Rightarrow> 'f list \<Rightarrow> int list \<Rightarrow> nat \<Rightarrow> nat \<Rightarrow> nat \<Rightarrow> bool" where
  "masked_chain A bias positions n base s \<longleftrightarrow>
     (let vis = visible A bias n s
      in vis \<noteq> [] \<and> last vis = s \<and>
         (\<forall>k<length vis. visible A bias n (vis ! k) = take (Suc k) vis \<and> positions ! (vis ! k) = int (base + k)))"

definition tree_attention :: "'f f32_math \<Rightarrow> ('r, unit) net \<Rightarrow> ('r, 'f) tree_net \<Rightarrow> bool" where
  "tree_attention A net tnet \<longleftrightarrow>
     (\<forall>rows tokens bias positions. length bias = length tokens * length tokens \<and> length positions = length tokens \<and>
        set bias \<subseteq> {f_zero A, f_neg_inf A} \<longrightarrow>
        length (tnet rows tokens bias positions) = length tokens \<and>
        (\<forall>s<length tokens. masked_chain A bias positions (length tokens) (length rows) s \<longrightarrow>
           tnet rows tokens bias positions ! s = last (rows_of net rows () (map ((!) tokens) (visible A bias (length tokens) s)))))"

lemma tree_attention_slot:
  assumes "tree_attention A net tnet" and "length bias = n * n" "length positions = n" "length tokens = n"
    and "set bias \<subseteq> {f_zero A, f_neg_inf A}" and "s < n" and "masked_chain A bias positions n (length rows) s"
  shows "tnet rows tokens bias positions ! s = last (rows_of net rows () (map ((!) tokens) (visible A bias n s)))"
    and "length (tnet rows tokens bias positions) = n"
  using assms by (auto simp: tree_attention_def)

section \<open>The linearised tree under that assumption\<close>

definition tree_bias :: "'f f32_math \<Rightarrow> 'f dd_tree \<Rightarrow> 'f list" where
  "tree_bias A t = map (\<lambda>v. if v then f_zero A else f_neg_inf A) (concat (visibility t))"

definition tree_positions :: "'f dd_tree \<Rightarrow> nat \<Rightarrow> int list" where
  "tree_positions t base_pos = as_i32 base_pos # map (\<lambda>n. as_i32 base_pos + as_i32 (nd_depth n)) (tree_nodes t)"

definition path_tokens :: "'f dd_tree \<Rightarrow> nat \<Rightarrow> token list" where
  "path_tokens t s = map (\<lambda>i. nd_token (tree_nodes t ! i)) (slot_path (tree_nodes t) s)"

lemma linearized: "linearize_tree_with_parents (f_zero A) (f_neg_inf A) t seed base_pos =
   (seed # map nd_token (tree_nodes t), tree_positions t base_pos, tree_bias A t,
    (- 1) # map (\<lambda>n. if nd_parent n < 0 then 0 else nd_parent n + 1) (tree_nodes t))"
  by (simp add: linearize_tree_with_parents_def tree_bias_def tree_positions_def)

lemma tree_bias_ok:
  assumes ok: "sees_ancestors t" and top: "topological (tree_nodes t)" and z: "f_zero A \<noteq> f_neg_inf A"
  shows "length (tree_bias A t) = Suc (num_nodes t) * Suc (num_nodes t)" and "set (tree_bias A t) \<subseteq> {f_zero A, f_neg_inf A}"
    and "s \<le> num_nodes t \<Longrightarrow> visible A (tree_bias A t) (Suc (num_nodes t)) s = 0 # map Suc (slot_path (tree_nodes t) s)"
proof -
  have all: "\<forall>b\<in>set (visibility t). length b = Suc (num_nodes t)" and len: "length (visibility t) = Suc (num_nodes t)"
    using ok by (auto simp: sees_ancestors_def in_set_conv_nth less_Suc_eq_le)
  show "length (tree_bias A t) = Suc (num_nodes t) * Suc (num_nodes t)"
    using length_concat_blocks [OF all] len by (simp add: tree_bias_def)
  show "set (tree_bias A t) \<subseteq> {f_zero A, f_neg_inf A}" by (auto simp: tree_bias_def)
  assume s: "s \<le> num_nodes t"
  have at: "tree_bias A t ! (s * Suc (num_nodes t) + j) = f_zero A \<longleftrightarrow> sees (tree_nodes t) s j" if "j \<le> num_nodes t" for j
  proof -
    have "s * Suc (num_nodes t) + j < length (visibility t) * Suc (num_nodes t)"
      using s that len mult_le_mono1 [of "Suc s" "Suc (num_nodes t)" "Suc (num_nodes t)"] by simp
    then have "s * Suc (num_nodes t) + j < length (concat (visibility t))" using length_concat_blocks [OF all] by simp
    then show ?thesis
      using nth_concat_blocks [OF all, of s j] s that len ok z by (auto simp: tree_bias_def sees_ancestors_def simp del: mult_Suc_right)
  qed
  have "visible A (tree_bias A t) (Suc (num_nodes t)) s = filter (sees (tree_nodes t) s) [0..<Suc (num_nodes t)]"
    unfolding visible_def using at by (intro filter_cong refl) (auto simp del: mult_Suc_right)
  then show "visible A (tree_bias A t) (Suc (num_nodes t)) s = 0 # map Suc (slot_path (tree_nodes t) s)"
    using seen_slots [OF top] s by (simp add: num_nodes_def)
qed

lemma tree_positions_ok:
  assumes nodes: "nodes_ok tt depth topk rk (tree_nodes t)" and small: "base < 2147483648" "depth < 2147483648"
    and k: "k < Suc (length (slot_path (tree_nodes t) s))" and s: "s \<le> num_nodes t"
  shows "tree_positions t base ! ((0 # map Suc (slot_path (tree_nodes t) s)) ! k) = int (base + k)"
proof (cases k)
  case 0
  then show ?thesis using small by (simp add: tree_positions_def)
next
  case (Suc l)
  let ?ns = "tree_nodes t" and ?i = "slot_path (tree_nodes t) s ! l"
  have top: "topological ?ns" by (rule nodes_ok_topological [OF nodes])
  have l: "l < length (slot_path ?ns s)" using k Suc by simp
  then have i: "?i < length ?ns" using slot_path_bound [OF top, of s ?i] s by (fastforce simp: num_nodes_def)
  have "length (slot_path ?ns (Suc ?i)) = Suc l" using slot_path_prefix [OF top _ l] s l by (simp add: num_nodes_def)
  then have "length (rk ! ?i) = Suc l" using length_slot_path [OF nodes, of "Suc ?i"] i by simp
  moreover have "nd_depth (?ns ! ?i) = length (rk ! ?i)" "length (rk ! ?i) \<le> depth"
    using nodes i by (auto simp: nodes_ok_def rank_path_def)
  ultimately show ?thesis using Suc l i small by (simp add: tree_positions_def)
qed

lemma tree_rows:
  assumes att: "tree_attention A net tnet" and ok: "tree_ok tt depth topk rk t" and z: "f_zero A \<noteq> f_neg_inf A"
    and small: "length rows < 2147483648" "depth < 2147483648" and s: "s \<le> num_nodes t"
  shows "tnet rows (seed # map nd_token (tree_nodes t)) (tree_bias A t) (tree_positions t (length rows)) ! s =
      last (rows_of net rows () (seed # path_tokens t s))"
    and "length (tnet rows (seed # map nd_token (tree_nodes t)) (tree_bias A t) (tree_positions t (length rows))) = Suc (num_nodes t)"
proof -
  let ?ns = "tree_nodes t" and ?n = "Suc (num_nodes t)"
  let ?vis = "\<lambda>s. 0 # map Suc (slot_path ?ns s)"
  have nodes: "nodes_ok tt depth topk rk ?ns" and top: "topological ?ns" and sees: "sees_ancestors t"
    using ok nodes_ok_topological by (auto simp: tree_ok_def)
  note b = tree_bias_ok [OF sees top z]
  have below: "slot_path ?ns s ! l < num_nodes t" if "l < length (slot_path ?ns s)" for l
    using slot_path_bound [OF top, of s "slot_path ?ns s ! l"] s that by (fastforce simp: num_nodes_def)
  have "last (?vis s) = s"
    using s slot_path_Suc [OF top, of "s - 1"] by (cases s) (auto simp: slot_path_def num_nodes_def last_map)
  moreover have "visible A (tree_bias A t) ?n (?vis s ! k) = take (Suc k) (?vis s)" if "k < length (?vis s)" for k
  proof (cases k)
    case 0
    then show ?thesis using b(3) [of 0] by (simp add: slot_path_def)
  next
    case (Suc l)
    then show ?thesis using b(3) [of "Suc (slot_path ?ns s ! l)"] slot_path_prefix [OF top _, of s l] s below [of l] that
      by (simp add: num_nodes_def take_map Suc_le_eq)
  qed
  ultimately have "masked_chain A (tree_bias A t) (tree_positions t (length rows)) ?n (length rows) s"
    using b(3) [OF s] tree_positions_ok [OF nodes small _ s] by (simp add: masked_chain_def Let_def)
  note att' = tree_attention_slot [OF att b(1) _ _ b(2) _ this, of "seed # map nd_token ?ns"]
  have "map ((!) (seed # map nd_token ?ns)) (?vis s) = seed # path_tokens t s"
    using slot_path_bound [OF top, of s] s by (fastforce simp: path_tokens_def num_nodes_def)
  then show "tnet rows (seed # map nd_token ?ns) (tree_bias A t) (tree_positions t (length rows)) ! s =
      last (rows_of net rows () (seed # path_tokens t s))"
    using att'(1) s b(3) [OF s] by (simp add: tree_positions_def num_nodes_def)
  show "length (tnet rows (seed # map nd_token ?ns) (tree_bias A t) (tree_positions t (length rows))) = ?n"
    using att'(2) s by (simp add: tree_positions_def num_nodes_def)
qed

section \<open>The greedy walk\<close>

lemma rows_of_take: "causal net \<Longrightarrow> take n (rows_of net R () b) = rows_of net R () (take n b)"
  by (simp add: rows_of_def causal_take take_map)

lemma rows_of_prefix:
  assumes "causal net" and "k \<le> length toks"
  shows "last (rows_of net R () (seed # take k toks)) = rows_of net R () (seed # toks) ! k"
proof -
  have "rows_of net R () (seed # take k toks) = take (Suc k) (rows_of net R () (seed # toks))"
    using rows_of_take [OF assms(1), of "Suc k"] by simp
  also have "\<dots> = take k (rows_of net R () (seed # toks)) @ [rows_of net R () (seed # toks) ! k]"
    using assms by (intro take_Suc_conv_app_nth) simp
  finally show ?thesis by simp
qed

lemma row_at_concat: "\<forall>b\<in>set bs. length b = v \<Longrightarrow> s < length bs \<Longrightarrow> row_at (concat bs) v s = bs ! s"
proof (induction bs arbitrary: s)
  case (Cons b bs)
  then show ?case by (cases s) (simp_all add: row_at_def)
qed simp

text \<open>The rows of the tree forward, and what they read out to.\<close>

definition tree_forward :: "'f f32_math \<Rightarrow> ('r, unit) net \<Rightarrow> ('r, 'f) tree_net \<Rightarrow> 'f dd_tree \<Rightarrow> token list \<Rightarrow> token \<Rightarrow> 'r list" where
  "tree_forward A net tnet t hist seed =
     tnet (rows_of net [] () hist) (seed # map nd_token (tree_nodes t)) (tree_bias A t) (tree_positions t (length hist))"

definition tree_setting :: "'f f32_math \<Rightarrow> ('r, unit) net \<Rightarrow> ('r, 'f) tree_net \<Rightarrow> nat \<Rightarrow> nat \<Rightarrow> nat list list \<Rightarrow> token list \<Rightarrow> 'f dd_tree \<Rightarrow> token list \<Rightarrow> bool" where
  "tree_setting A net tnet depth topk rk tt t hist \<longleftrightarrow>
     causal net \<and> tree_attention A net tnet \<and> tree_ok tt depth topk rk t \<and> f_zero A \<noteq> f_neg_inf A \<and>
     length hist < 2147483648 \<and> depth < 2147483648"

lemma tree_forward_rows:
  assumes "tree_setting A net tnet depth topk rk tt t hist"
  shows "s \<le> num_nodes t \<Longrightarrow> tree_forward A net tnet t hist seed ! s = last (rows_after net hist (seed # path_tokens t s))"
    and "length (tree_forward A net tnet t hist seed) = Suc (num_nodes t)"
proof -
  have l: "length (rows_of net [] () hist) = length hist" using assms by (simp add: tree_setting_def)
  have st: "tree_attention A net tnet" "tree_ok tt depth topk rk t" "f_zero A \<noteq> f_neg_inf A" "length (rows_of net [] () hist) < 2147483648"
    "depth < 2147483648" using assms l by (auto simp: tree_setting_def)
  show "s \<le> num_nodes t \<Longrightarrow> tree_forward A net tnet t hist seed ! s = last (rows_after net hist (seed # path_tokens t s))"
    using tree_rows(1) [OF st] l by (simp add: tree_forward_def)
  show "length (tree_forward A net tnet t hist seed) = Suc (num_nodes t)"
    using tree_rows(2) [OF st, of 0] l by (simp add: tree_forward_def)
qed

lemma tree_picks:
  assumes st: "tree_setting A net tnet depth topk rk tt t hist" and net: "reads_out A net lgt vocab"
  shows "length (concat (map lgt (tree_forward A net tnet t hist seed))) = Suc (num_nodes t) * vocab"
    and "s \<le> num_nodes t \<Longrightarrow> argmax_at A (concat (map lgt (tree_forward A net tnet t hist seed))) vocab s =
      greedy_pick net () (hist @ seed # path_tokens t s)"
proof -
  let ?F = "tree_forward A net tnet t hist seed"
  note F = tree_forward_rows [OF st, where seed = seed]
  have c: "causal net" using st by (simp add: tree_setting_def)
  have mem: "?F ! s \<in> set (rows_after net hist (seed # path_tokens t s))" if "s \<le> num_nodes t" for s
    using F(1) [OF that] length_rows_of [OF c, of "rows_of net [] () hist" "()" "seed # path_tokens t s"]
    by (metis last_in_set length_0_conv list.distinct(1))
  have row: "length (lgt (?F ! s)) = vocab \<and> (\<forall>v\<in>set (lgt (?F ! s)). f_finite A v)" if "s \<le> num_nodes t" for s
    using reads_out_row [OF net mem [OF that]] .
  have all: "\<forall>b\<in>set (map lgt ?F). length b = vocab" using row F(2) by (auto simp: in_set_conv_nth less_Suc_eq_le)
  show "length (concat (map lgt ?F)) = Suc (num_nodes t) * vocab" using length_concat_blocks [OF all] F(2) by simp
  assume s: "s \<le> num_nodes t"
  have "row_at (concat (map lgt ?F)) vocab s = lgt (?F ! s)" using row_at_concat [OF all, of s] F(2) s by simp
  then have "argmax_at A (concat (map lgt ?F)) vocab s = llama_argmax A (lgt (?F ! s))"
    using llama_argmax_eq [of "lgt (?F ! s)" A] row [OF s] by (simp add: argmax_at_def)
  then show "argmax_at A (concat (map lgt ?F)) vocab s = greedy_pick net () (hist @ seed # path_tokens t s)"
    using F(1) [OF s] last_pick [OF c net] by simp
qed

lemma walked_greedy:
  assumes top: "topological (tree_nodes t)" and post: "\<And>s. s \<le> num_nodes t \<Longrightarrow> post s = pick (h @ path_tokens t s)"
  shows "s \<le> num_nodes t \<Longrightarrow> walked (tree_nodes t) post s \<Longrightarrow> path_tokens t s = greedy_tokens pick h (length (path_tokens t s))"
proof (induction s rule: less_induct)
  case (less s)
  show ?case
  proof (cases s)
    case 0
    then show ?thesis by (simp add: path_tokens_def slot_path_def)
  next
    case (Suc i)
    let ?p = "parent_slot (nd_parent (tree_nodes t ! i))"
    have i: "i < length (tree_nodes t)" using Suc less.prems by (simp add: num_nodes_def)
    note path = slot_path_Suc [OF top i]
    have w: "walked (tree_nodes t) post ?p" "nd_token (tree_nodes t ! i) = post ?p" using walked_Suc [OF top i] less.prems(2) Suc by auto
    have p: "?p \<le> num_nodes t" "?p < s" using path(2) i Suc by (auto simp: num_nodes_def)
    have "path_tokens t s = path_tokens t ?p @ [post ?p]" using path(1) Suc w(2) by (simp add: path_tokens_def)
    then show ?thesis
      using less.IH [OF p(2,1) w(1)] post [OF p(1)] greedy_tokens_add [of pick h "length (path_tokens t ?p)" 1] by simp
  qed
qed

lemma greedy_walk:
  assumes st: "tree_setting A net tnet depth topk rk tt t hist" and net: "reads_out A net lgt vocab"
    and zero: "\<not> f_lt A (f_zero A) (f_zero A)"
  shows "\<exists>s. sample_verified_tree A t (concat (map lgt (tree_forward A net tnet t hist seed))) vocab (f_zero A) rng =
      Some (rng, slot_path (tree_nodes t) s, greedy_pick net () (hist @ seed # path_tokens t s)) \<and> s \<le> num_nodes t \<and>
    path_tokens t s = greedy_tokens (greedy_pick net ()) (hist @ [seed]) (length (path_tokens t s))"
proof -
  let ?L = "concat (map lgt (tree_forward A net tnet t hist seed))" and ?ns = "tree_nodes t"
  let ?post = "map (argmax_at A ?L vocab) [0..<Suc (length ?ns)]"
  note P = tree_picks [OF st net, where seed = seed]
  have top: "topological ?ns" and cms: "children_ok ?ns (child_maps t)"
    using st nodes_ok_topological by (auto simp: tree_setting_def tree_ok_def)
  have len: "length ?L = Suc (length ?ns) * vocab" using P(1) by (simp add: num_nodes_def)
  have post: "?post ! s = greedy_pick net () ((hist @ [seed]) @ path_tokens t s)" if "s \<le> num_nodes t" for s
    using P(2) [OF that] that by (simp add: num_nodes_def del: upt_Suc)
  from follow_verified_tree_ok [OF top cms, of ?post] obtain s where
    s: "follow_verified_tree t ?post = Some (slot_path ?ns s, ?post ! s)" "s \<le> num_nodes t" "walked ?ns ((!) ?post) s"
    by (auto simp: num_nodes_def simp del: upt_Suc)
  have "sample_verified_tree A t ?L vocab (f_zero A) rng = Some (rng, slot_path ?ns s, ?post ! s)"
    using tree_walk_cold [OF zero top cms len, of 0 "[]" rng] s(1)
    by (simp add: sample_verified_tree_def follow_verified_tree_def del: upt_Suc)
  then show ?thesis using post [OF s(2)] s walked_greedy [OF top post s(2,3)] by (intro exI [of _ s]) simp
qed

section \<open>Committing the walk\<close>

lemma gather_map: "\<forall>i\<in>set ks. i < length xs \<Longrightarrow> gather xs ks = Some (map ((!) xs) ks)"
  by (induction ks) simp_all

lemma path_nodes:
  assumes "topological (tree_nodes t)" and "s \<le> num_nodes t"
  shows "\<forall>i\<in>set (slot_path (tree_nodes t) s). i < num_nodes t"
    and "gather (map nd_token (tree_nodes t)) (slot_path (tree_nodes t) s) = Some (path_tokens t s)"
proof -
  show below: "\<forall>i\<in>set (slot_path (tree_nodes t) s). i < num_nodes t"
    using slot_path_bound [OF assms(1)] assms(2) by (fastforce simp: num_nodes_def)
  then show "gather (map nd_token (tree_nodes t)) (slot_path (tree_nodes t) s) = Some (path_tokens t s)"
    using gather_map [of "slot_path (tree_nodes t) s" "map nd_token (tree_nodes t)"] by (simp add: path_tokens_def num_nodes_def)
qed

lemma path_tokens_prefix:
  assumes "topological (tree_nodes t)" and "s \<le> num_nodes t" and "k \<le> length (slot_path (tree_nodes t) s)"
  shows "path_tokens t ((0 # map Suc (slot_path (tree_nodes t) s)) ! k) = take k (path_tokens t s)"
proof (cases k)
  case 0
  then show ?thesis by (simp add: path_tokens_def slot_path_def)
next
  case (Suc l)
  then show ?thesis using slot_path_prefix [OF assms(1), of s l] assms(2,3) by (simp add: path_tokens_def num_nodes_def take_map)
qed

text \<open>The rows at the slots of a path are the rows of its tokens.\<close>

lemma path_rows:
  assumes st: "tree_setting A net tnet depth topk rk tt t hist" and s: "s \<le> num_nodes t"
  shows "map ((!) (tree_forward A net tnet t hist seed)) (0 # map Suc (slot_path (tree_nodes t) s)) =
    rows_after net hist (seed # path_tokens t s)" (is "map _ ?vis = ?R")
proof (rule nth_equalityI)
  have c: "causal net" and top: "topological (tree_nodes t)" using st nodes_ok_topological by (auto simp: tree_setting_def tree_ok_def)
  show len: "length (map ((!) (tree_forward A net tnet t hist seed)) ?vis) = length ?R" using c by (simp add: path_tokens_def)
  fix k assume "k < length (map ((!) (tree_forward A net tnet t hist seed)) ?vis)"
  then have k: "k \<le> length (slot_path (tree_nodes t) s)" by simp
  then have "?vis ! k \<le> num_nodes t" using path_nodes(1) [OF top s] by (cases k) (auto simp: Suc_le_eq)
  then show "map ((!) (tree_forward A net tnet t hist seed)) ?vis ! k = ?R ! k"
    using tree_forward_rows(1) [OF st] path_tokens_prefix [OF top s k] rows_of_prefix [OF c, of k "path_tokens t s"] k
    by (simp add: path_tokens_def del: list.map)
qed

definition after_tree :: "'r dense \<Rightarrow> nat \<Rightarrow> 'r list \<Rightarrow> 'r dense" where
  "after_tree s pos rows = s\<lparr>kv := take pos (kv s) @ rows @ drop (pos + length rows) (kv s)\<rparr>"

lemma after_tree_ready:
  assumes "df_ready net hid sp s hist" and "length hist + length rows \<le> length (kv s)"
  shows "df_ready net hid sp (after_tree s (length hist) rows) hist" and "length (kv (after_tree s (length hist) rows)) = length (kv s)"
  using assms by (auto simp: df_ready_def after_tree_def reflects_def)

lemma after_tree_prefix:
  assumes "df_ready net hid sp s hist" and "length hist + length rows \<le> length (kv s)"
    and "take (length block) rows = rows_after net hist block" and "length block \<le> length rows"
  shows "reflects net () (after_tree s (length hist) rows) (hist @ block)"
proof -
  have r: "reflects net () s hist" and c: "causal net" using assms(1) by (auto simp: df_ready_def reflects_def)
  then show ?thesis using assms rows_after_append [OF c, of hist block] by (auto simp: reflects_def after_tree_def)
qed

lemma commit_tree_ready:
  fixes seed :: token
  assumes ready: "df_ready net hid sp s hist" and st: "tree_setting A net tnet depth topk rk tt t hist" and net: "reads_out A net lgt vocab"
    and fit: "length hist + Suc (num_nodes t) \<le> length (kv s)" and u: "u \<le> num_nodes t"
    and small: "length (path_tokens t u) < max_emit"
  defines "F \<equiv> tree_forward A net tnet t hist seed"
  shows "\<exists>s2. commit_tree A net hid lgt t sp (after_tree s (length hist) F) c (length hist) seed depth max_emit (map hid F)
      (slot_path (tree_nodes t) u) bonus =
      Some (sp\<lparr>host := host sp @ map hid (rows_after net hist (seed # path_tokens t u))\<rparr>, s2,
            Inr (spec_step_new (path_tokens t u @ [bonus]) bonus depth (length (path_tokens t u)))) \<and>
    df_ready net hid (sp\<lparr>host := host sp @ map hid (rows_after net hist (seed # path_tokens t u))\<rparr>) s2 (hist @ seed # path_tokens t u) \<and>
    length (kv s2) = length (kv s)"
proof -
  let ?ns = "tree_nodes t" and ?path = "slot_path (tree_nodes t) u" and ?toks = "path_tokens t u" and ?n = "length (path_tokens t u)"
  let ?s = "after_tree s (length hist) F"
  let ?st = "spec_step_new (?toks @ [bonus]) bonus depth ?n" and ?sp = "sp\<lparr>host := host sp @ map hid (rows_after net hist (seed # ?toks))\<rparr>"
  have c: "causal net" and top: "topological ?ns" using st nodes_ok_topological by (auto simp: tree_setting_def tree_ok_def)
  have len: "length ?path = ?n" by (simp add: path_tokens_def)
  have lenF: "length F = Suc (num_nodes t)" unfolding F_def by (rule tree_forward_rows(2) [OF st])
  have fitF: "length hist + length F \<le> length (kv s)" using fit lenF by simp
  note ready' = after_tree_ready [OF ready fitF]
  have rows: "map ((!) F) (0 # map Suc ?path) = rows_after net hist (seed # ?toks)" unfolding F_def by (rule path_rows [OF st u])
  have in_range: "\<forall>i\<in>set (0 # map Suc ?path). i < length F" using path_nodes(1) [OF top u] lenF by auto
  then have hid: "gather (map hid F) (0 # map Suc ?path) = Some (map hid (rows_after net hist (seed # ?toks)))"
    using gather_map [of "0 # map Suc ?path" "map hid F"] by (simp flip: rows)
  have n: "?n \<le> num_nodes t"
    using path_nodes(1) [OF top u] slot_path_sorted [OF top, of u] u len
    by (metis card_length card_mono distinct_card finite_lessThan card_lessThan lessThan_iff num_nodes_def strict_sorted_iff subsetI)
  have "\<exists>s2. (if ?path = [0..<length ?path] then Some (?s, Inr ())
      else do { (s1, v) \<leftarrow> dense_verify_block A net hid lgt ?s c (seed # ?toks) (length hist) False; Some (s1, map_sum id (\<lambda>_. ()) v) }) = Some (s2, Inr ()) \<and>
      df_ready net hid ?sp s2 (hist @ seed # ?toks) \<and> length (kv s2) = length (kv s)"
  proof (cases "?path = [0..<length ?path]")
    case True
    have "take (Suc ?n) F = map ((!) F) [0..<Suc ?n]" using lenF n by (intro nth_equalityI) (simp_all del: upt_Suc)
    also have "[0..<Suc ?n] = 0 # map Suc ?path" using True len by (metis map_Suc_upt upt_conv_Cons zero_less_Suc)
    finally have "take (length (seed # ?toks)) F = rows_after net hist (seed # ?toks)" using rows by simp
    from after_tree_prefix [OF ready fitF this] have "reflects net () ?s (hist @ seed # ?toks)" using n lenF by simp
    then show ?thesis using True df_ready_advanced [OF ready, of ?s "seed # ?toks"] ready' by (auto simp: df_ready_def)
  next
    case False
    have fit': "length hist + length (seed # ?toks) \<le> length (kv ?s)" using n fit ready'(2) by simp
    have "reflects net () ?s hist" using ready'(1) by (simp add: df_ready_def)
    note adv = advanced_reflects(1,2) [OF this fit']
    have "df_ready net hid ?sp (advanced net ?s hist (seed # ?toks)) (hist @ seed # ?toks)"
      using df_ready_advanced [OF ready adv(1)] ready'(1) by (simp add: df_ready_def)
    then show ?thesis using False verify_block_quiet [OF ready'(1) net fit', of c False] adv(2) ready'(2) by auto
  qed
  then obtain s2 where s2: "(if ?path = [0..<length ?path] then Some (?s, Inr ())
      else do { (s1, v) \<leftarrow> dense_verify_block A net hid lgt ?s c (seed # ?toks) (length hist) False; Some (s1, map_sum id (\<lambda>_. ()) v) }) = Some (s2, Inr ())"
    "df_ready net hid ?sp s2 (hist @ seed # ?toks)" "length (kv s2) = length (kv s)" by blast
  have "\<not> max_emit - 1 < ?n" using small by simp
  have "commit_tree A net hid lgt t sp ?s c (length hist) seed depth max_emit (map hid F) ?path bonus = Some (?sp, s2, Inr ?st)"
    using path_nodes(2) [OF top u] small s2(1) hid len \<open>\<not> max_emit - 1 < ?n\<close>
    by (simp add: commit_tree_def Let_def dense_commit_prefix_def cap_emit_within spec_step_new_def del: gather.simps)
  then show ?thesis using s2(2,3) by blast
qed

lemma commit_tree_greedy:
  assumes ready: "df_ready net hid sp s hist" and st: "tree_setting A net tnet depth topk rk tt t hist" and net: "reads_out A net lgt vocab"
    and fit: "length hist + Suc (num_nodes t) \<le> length (kv s)" and u: "u \<le> num_nodes t"
    and small: "length (path_tokens t u) < max_emit"
    and greedy: "path_tokens t u = greedy_tokens (greedy_pick net ()) (hist @ [seed]) (length (path_tokens t u))"
    and bonus: "bonus = greedy_pick net () (hist @ seed # path_tokens t u)"
  defines "F \<equiv> tree_forward A net tnet t hist seed"
  shows "\<exists>out. commit_tree A net hid lgt t sp (after_tree s (length hist) F) c (length hist) seed depth max_emit (map hid F)
      (slot_path (tree_nodes t) u) bonus = Some out \<and> greedy_window net hid hist seed max_emit out"
proof -
  let ?toks = "path_tokens t u" and ?n = "length (path_tokens t u)"
  let ?st = "spec_step_new (?toks @ [bonus]) bonus depth ?n" and ?sp = "sp\<lparr>host := host sp @ map hid (rows_after net hist (seed # ?toks))\<rparr>"
  from commit_tree_ready [OF ready st net fit u small, of seed c bonus] obtain s2 where
    s2: "commit_tree A net hid lgt t sp (after_tree s (length hist) F) c (length hist) seed depth max_emit (map hid F)
      (slot_path (tree_nodes t) u) bonus = Some (?sp, s2, Inr ?st)" "df_ready net hid ?sp s2 (hist @ seed # ?toks)"
    unfolding F_def by blast
  have g: "?toks @ [bonus] = greedy_tokens (greedy_pick net ()) (hist @ [seed]) (Suc ?n)"
    using greedy greedy_tokens_add [of "greedy_pick net ()" "hist @ [seed]" ?n 1] bonus by simp
  have "greedy_window net hid hist seed max_emit (?sp, s2, Inr ?st)"
    unfolding greedy_window_def using small g s2(2)
    by (intro exI [of _ ?n] exI [of _ ?st]) (simp add: spec_step_new_def del: greedy_tokens.simps flip: g)
  then show ?thesis using s2(1) by blast
qed

section \<open>The tree window\<close>

lemma window_tree:
  assumes "topk_from_logits A logits depth vocab k = Some (tt, lp)" and "length tt = depth * k" "length lp = depth * k"
    and "0 < k" and "depth < 2147483648" and "budget \<le> 2147483648"
  obtains t rk where "build_ddtree_tree_bounded A tt lp depth k 0 budget lim = Some t" and "tree_ok tt depth k rk t" and "num_nodes t \<le> budget"
proof (cases "budget = 0 \<or> depth = 0")
  case True
  then show ?thesis using that empty_tree_ok by (fastforce simp: build_ddtree_tree_bounded_def num_nodes_def)
next
  case False
  have "tables_ok tt lp depth k" using assms by (simp add: tables_ok_def)
  from build_run [where J = "\<lambda>_ _. True" and A = A and min_nodes = 0 and lim = lim, OF this assms(4,6)] False that show ?thesis
    by (auto simp: kept_by_placing_def num_nodes_def)
qed

text \<open>The constants of the arithmetic the masks and the greedy test rely on.\<close>

definition sane_constants :: "'f f32_math \<Rightarrow> bool" where
  "sane_constants A \<longleftrightarrow> f_zero A \<noteq> f_neg_inf A \<and> \<not> f_lt A (f_zero A) (f_zero A)"

text \<open>What the tree arm needs of its surroundings: the masked forward, the constants, the vocabulary, and room in the cache.\<close>

definition tree_room :: "'f f32_math \<Rightarrow> ('r, unit) net \<Rightarrow> ('r, 'f) tree_net \<Rightarrow> ('h, 'f) dflash \<Rightarrow> 'r dense \<Rightarrow> token list \<Rightarrow> nat \<Rightarrow> bool" where
  "tree_room A net tnet sp s hist max_emit \<longleftrightarrow>
     tree_attention A net tnet \<and> sane_constants A \<and> 0 < cfg_vocab sp \<and> cfg_vocab sp \<le> 4294967296 \<and>
     length hist + window_block sp max_emit \<le> length (kv s) \<and> length hist + tree_budget (tree sp) < length (kv s) \<and>
     length (kv s) < 2147483648"

text \<open>The window after the masked forward: the walk over its rows, and the commit.\<close>

definition walk_and_commit ::
  "'f f32_math \<Rightarrow> ('r, unit) net \<Rightarrow> ('r \<Rightarrow> 'h) \<Rightarrow> ('r \<Rightarrow> 'f list) \<Rightarrow> 'f dd_tree \<Rightarrow> 'r list \<Rightarrow> ('h, 'f) dflash \<Rightarrow> 'r dense \<Rightarrow> dense_scratch \<Rightarrow>
   token list \<Rightarrow> token \<Rightarrow> 'f list \<Rightarrow> nat \<Rightarrow> nat \<Rightarrow> 'f \<Rightarrow> nat \<Rightarrow> (('h, 'f) dflash \<times> 'r dense \<times> (dflash_error + spec_step)) option" where
  "walk_and_commit A net hid lgt t F sp s c hist seed logits depth k temp max_emit = do {
     (rng, walk, bonus) \<leftarrow>
       (if f_le A temp (f_1e_6 A) then sample_verified_tree A t (concat (map lgt F)) (cfg_vocab sp) (f_zero A) (df_rng sp)
        else do {
          (rng, draft_q, pos_cands) \<leftarrow> swor_draft_candidates A logits depth (cfg_vocab sp) k temp (df_rng sp);
          sample_verified_tree_swor A t (concat (map lgt F)) draft_q pos_cands depth k (cfg_vocab sp) temp rng
        });
     commit_tree A net hid lgt t (sp\<lparr>df_rng := rng\<rparr>) (after_tree s (length hist) F) c (length hist) seed depth max_emit (map hid F) walk bonus
   }"

lemma step_tree_run:
  assumes ready: "df_ready net hid sp s hist" and net: "reads_out A net lgt (cfg_vocab sp)" and room: "tree_room A net tnet sp s hist max_emit"
    and arm: "tree_enabled (tree sp)" and emits: "2 \<le> max_emit" and len: "length logits = (window_block sp max_emit - 1) * cfg_vocab sp"
  defines "b \<equiv> window_block sp max_emit" and "k \<equiv> max (min (tree_topk (tree sp)) (cfg_vocab sp)) 1"
  obtains t tt rk c where "tree_setting A net tnet (b - 1) k rk tt t hist" and "length hist + Suc (num_nodes t) \<le> length (kv s)"
    and "\<And>u. u \<le> num_nodes t \<Longrightarrow> length (path_tokens t u) < max_emit"
    and "\<And>temp. step_tree A net tnet hid lgt sp s (length hist) seed logits b temp max_emit =
      walk_and_commit A net hid lgt t (tree_forward A net tnet t hist seed) sp s c hist seed logits (b - 1) k temp max_emit"
proof -
  have c: "causal net" and q: "q8_kv s" "batchable s" "extracts s" "answers s = []"
    and kv: "take (length hist) (kv s) = rows_of net [] () hist" using ready by (auto simp: df_ready_def reflects_def)
  obtain cs where cs: "verify_scratch sp = Some cs" "tree_budget (tree sp) < pbs_max cs" using ready arm by (auto simp: df_ready_def)
  have k: "0 < k" "k \<le> cfg_vocab sp" "cfg_vocab sp \<le> 4294967296" using room by (auto simp: k_def tree_room_def)
  from topk_table [OF len k, of A] obtain tt lp where
    top: "topk_from_logits A logits (b - 1) (cfg_vocab sp) k = Some (tt, lp)" "length tt = (b - 1) * k" "length lp = (b - 1) * k"
    by (auto simp: b_def)
  have small: "b - 1 < 2147483648" "tree_budget (tree sp) \<le> 2147483648" "length hist < 2147483648"
    using room by (auto simp: tree_room_def b_def)
  from window_tree [OF top k(1) small(1,2), of "f_neg_inf A"] obtain t rk where
    t: "build_ddtree_tree_bounded A tt lp (b - 1) k 0 (tree_budget (tree sp)) (f_neg_inf A) = Some t"
      "tree_ok tt (b - 1) k rk t" "num_nodes t \<le> tree_budget (tree sp)" by auto
  let ?F = "tree_forward A net tnet t hist seed"
  have st: "tree_setting A net tnet (b - 1) k rk tt t hist"
    using c t(2) room small by (simp add: tree_setting_def sane_constants_def tree_room_def)
  have nodes: "nodes_ok tt (b - 1) k rk (tree_nodes t)" using t(2) by (simp add: tree_ok_def)
  have fitF: "length hist + Suc (num_nodes t) \<le> length (kv s)" using room t(3) by (simp add: tree_room_def)
  have "length (path_tokens t u) \<le> b - 1" if "u \<le> num_nodes t" for u
    using length_slot_path [OF nodes, of u] that nodes by (cases u) (auto simp: path_tokens_def num_nodes_def nodes_ok_def rank_path_def)
  moreover have "b \<le> max_emit" "2 \<le> b" using emits by (auto simp: b_def window_block_def)
  ultimately have short: "length (path_tokens t u) < max_emit" if "u \<le> num_nodes t" for u using that by fastforce
  have bias: "length (tree_bias A t) = Suc (num_nodes t) * Suc (num_nodes t)"
    using tree_bias_ok(1) [of t A] t(2) nodes_ok_topological [OF nodes] room by (simp add: tree_ok_def sane_constants_def tree_room_def)
  have lenF: "length ?F = Suc (num_nodes t)" by (rule tree_forward_rows(2) [OF st])
  have "dense_verify_tree tnet hid lgt s cs (seed # map nd_token (tree_nodes t)) (tree_bias A t) (tree_positions t (length hist)) (length hist) =
      Some (after_tree s (length hist) ?F, Inr (concat (map lgt ?F), map hid ?F))"
    using bias q cs(2) t(3) fitF kv lenF
    by (simp add: dense_verify_tree_def Let_def num_nodes_def tree_positions_def gpu_call_quiet after_tree_def tree_forward_def)
  moreover have "as_u32 (length hist) = length hist" using small(3) by (simp add: as_u32_def)
  ultimately have "step_tree A net tnet hid lgt sp s (length hist) seed logits b temp max_emit =
      walk_and_commit A net hid lgt t ?F sp s cs hist seed logits (b - 1) k temp max_emit" for temp
    using top(1) t(1) cs(1) by (simp add: step_tree_def walk_and_commit_def Let_def linearized k_def)
  with that [OF st fitF short] show ?thesis by blast
qed

lemma tree_window_run:
  assumes ready: "df_ready net hid sp s hist" and net: "reads_out A net lgt (cfg_vocab sp)" and room: "tree_room A net tnet sp s hist max_emit"
    and arm: "tree_enabled (tree sp)" and cold: "f_le A temp (f_1e_6 A)" and emits: "2 \<le> max_emit"
    and draft: "drafts_block embed_row draft sp hist seed max_emit logits"
  shows "\<exists>out. df_step A D net tnet hid lgt embed_row draft sp s (length hist) seed temp max_emit = Some out \<and>
    greedy_window net hid hist seed max_emit out"
proof -
  have host: "length (host sp) = length hist" using ready by (auto simp: df_ready_def reflects_def)
  have len: "length logits = (window_block sp max_emit - 1) * cfg_vocab sp" using draft by (simp add: drafts_block_def)
  have zero: "\<not> f_lt A (f_zero A) (f_zero A)" using room by (simp add: sane_constants_def tree_room_def)
  show ?thesis
  proof (rule step_tree_run [OF ready net room arm emits len, of seed])
    fix t tt rk c
    assume st: "tree_setting A net tnet (window_block sp max_emit - 1) (max (min (tree_topk (tree sp)) (cfg_vocab sp)) 1) rk tt t hist"
      and fit: "length hist + Suc (num_nodes t) \<le> length (kv s)" and short: "\<And>u. u \<le> num_nodes t \<Longrightarrow> length (path_tokens t u) < max_emit"
      and run: "\<And>temp. step_tree A net tnet hid lgt sp s (length hist) seed logits (window_block sp max_emit) temp max_emit =
        walk_and_commit A net hid lgt t (tree_forward A net tnet t hist seed) sp s c hist seed logits (window_block sp max_emit - 1)
          (max (min (tree_topk (tree sp)) (cfg_vocab sp)) 1) temp max_emit"
    from greedy_walk [OF st net zero, of seed "df_rng sp"] obtain u where
      u: "sample_verified_tree A t (concat (map lgt (tree_forward A net tnet t hist seed))) (cfg_vocab sp) (f_zero A) (df_rng sp) =
          Some (df_rng sp, slot_path (tree_nodes t) u, greedy_pick net () (hist @ seed # path_tokens t u))" "u \<le> num_nodes t"
        "path_tokens t u = greedy_tokens (greedy_pick net ()) (hist @ [seed]) (length (path_tokens t u))" by auto
    from commit_tree_greedy [OF ready st net fit u(2) short [OF u(2)] u(3) refl, of c] obtain out where
      "step_tree A net tnet hid lgt sp s (length hist) seed logits (window_block sp max_emit) temp max_emit = Some out"
        "greedy_window net hid hist seed max_emit out" using cold u(1) by (auto simp: run walk_and_commit_def)
    then show ?thesis using window_drafts [OF draft host emits, of A D net tnet hid lgt s temp] arm by metis
  qed
qed


lemma count_tree_attention: "tree_attention int_math count_net count_tree_net"
proof -
  have "tokens ! s = last (map ((!) tokens) (visible int_math bias n s))" if "masked_chain int_math bias positions n base s" for tokens bias positions n base s
    using that by (simp add: masked_chain_def Let_def last_map)
  then show ?thesis by (simp add: tree_attention_def count_tree_net_def) blast
qed

lemma count_room: "tree_room int_math count_net count_tree_net (count_dflash b) count_device [0, 1] 5"
  using count_tree_attention by (simp add: tree_room_def count_block count_config sane_constants_def int_math_def)


end
