(* ===== verification/Dflash_Run.thy ===== *)
theory Dflash_Run
  imports Dflash_Tree
begin

text \<open>
  Whole runs of the block-diffusion speculator: windows at any temperature, and sequences of windows and forced
  tokens from the prefill on. The daemon's loop is abstracted to the order of its calls.
\<close>

section \<open>A window at any temperature\<close>

definition same_config :: "('h, 'f) dflash \<Rightarrow> ('h, 'f) dflash \<Rightarrow> bool" where
  "same_config sp sp' \<longleftrightarrow> cfg_block sp' = cfg_block sp \<and> cfg_mask sp' = cfg_mask sp \<and> cfg_vocab sp' = cfg_vocab sp \<and> tree sp' = tree sp \<and>
     df_temp sp' = df_temp sp \<and> df_top_p sp' = df_top_p sp \<and> df_top_k sp' = df_top_k sp"

definition kept_window ::
  "('r, unit) net \<Rightarrow> ('r \<Rightarrow> 'h) \<Rightarrow> ('h, 'f) dflash \<Rightarrow> 'r dense \<Rightarrow> token list \<Rightarrow> token \<Rightarrow> nat \<Rightarrow> ('h, 'f) dflash \<times> 'r dense \<times> (dflash_error + spec_step) \<Rightarrow> bool" where
  "kept_window net hid sp s hist seed max_emit out \<longleftrightarrow>
     (\<exists>st. snd (snd out) = Inr st \<and> emit st \<noteq> [] \<and> length (emit st) \<le> max_emit \<and> next_seed st = last (emit st) \<and>
        df_ready net hid (fst out) (fst (snd out)) (hist @ seed # butlast (emit st)) \<and> same_config sp (fst out) \<and>
        length (kv (fst (snd out))) = length (kv s))"

lemma df_ready_rng [simp]: "df_ready net hid (sp\<lparr>df_rng := r\<rparr>) s hist = df_ready net hid sp s hist"
  by (simp add: df_ready_def)

lemma same_config_simps [simp]: "same_config sp (sp\<lparr>df_rng := r\<rparr>)" "same_config sp (sp\<lparr>host := h\<rparr>)" "same_config sp (sp\<lparr>df_rng := r, host := h\<rparr>)"
  by (simp_all add: same_config_def)

lemma chain_keep:
  assumes ready: "df_ready net hid sp s hist" and fit: "length hist + Suc (length drafts) \<le> length (kv s)"
    and a: "a \<le> length drafts" and small: "length drafts < max_emit"
  shows "\<exists>sp' st. finish_chain sp (map hid (rows_after net hist (seed # drafts))) drafts a bonus max_emit = Some (sp', st) \<and>
    kept_window net hid sp s hist seed max_emit (sp', advanced net s hist (seed # drafts), Inr st)"
proof -
  let ?R = "rows_after net hist (seed # drafts)" and ?d = "seed # take a drafts" and ?s = "advanced net s hist (seed # drafts)"
  have c: "causal net" and refl: "reflects net () s hist" using ready by (auto simp: df_ready_def reflects_def)
  have rows: "take (Suc a) ?R = rows_after net hist ?d" using rows_after_take [OF c, of "Suc a"] by simp
  have "slice (map hid ?R) 0 (Suc a) = Some (map hid (take (Suc a) ?R))" using a c by (simp add: slice_def take_map)
  then have keep: "keep_hidden sp (map hid ?R) a = Some (sp\<lparr>host := host sp @ map hid (rows_after net hist ?d)\<rparr>)"
    by (simp add: keep_hidden_def rows)
  have fit': "length hist + length (seed # drafts) \<le> length (kv s)" using fit by simp
  note adv = advanced_reflects [OF refl fit']
  have "reflects net () ?s (hist @ ?d)"
    using adv(1) reflects_unit [of net ?s "hist @ ?d" "drop a drafts"] by simp
  then have "df_ready net hid (sp\<lparr>host := host sp @ map hid (rows_after net hist ?d)\<rparr>) ?s (hist @ ?d)"
    using df_ready_advanced [OF ready] ready by (simp add: df_ready_def)
  then show ?thesis
    using keep a small adv(2) by (auto simp: finish_chain_def kept_window_def cap_emit_within spec_step_new_def)
qed

lemma verify_logits_quiet:
  assumes "df_ready net hid sp s hist" and "length hist + length block \<le> length (kv s)"
  shows "dense_verify_logits net hid lgt s c block (length hist) w =
    Some (advanced net s hist block,
          Inr (concat (map lgt (rows_after net hist block)),
               if batched_verify_eligible s c (length block) \<and> w then map hid (rows_after net hist block) else []))"
  using assms verify_rows_quiet [of net s hist block hid c w] by (simp add: dense_verify_logits_def df_ready_def)

lemma chain_window_kept:
  assumes ready: "df_ready net hid sp s hist" and net: "reads_out A net lgt (cfg_vocab sp)"
    and fit: "length hist + Suc (length ds) \<le> length (kv s)" and small: "length ds < max_emit"
    and block: "3 \<le> length ds" "Suc (length ds) \<le> max (cfg_block sp) 2"
  shows "\<exists>out. step_chain A D net hid lgt sp s (length hist) seed ds temp max_emit = Some out \<and> kept_window net hid sp s hist seed max_emit out"
proof -
  obtain c where c: "verify_scratch sp = Some c" "max (cfg_block sp) 2 \<le> pbs_max c" using ready by (auto simp: df_ready_def)
  have causal: "causal net" and b: "batchable s" using ready by (auto simp: df_ready_def reflects_def)
  have elig: "batched_verify_eligible s c (length (seed # ds))" using b c block by (simp add: batched_verify_eligible_def)
  have fit': "length hist + length (seed # ds) \<le> length (kv s)" using fit by simp
  have clamp: "clamp_accept_to_budget a bonus max_emit boundary = (a, bonus)" if "a \<le> length ds" for a bonus boundary
    using that small by (simp add: clamp_accept_to_budget_def)
  show ?thesis
  proof (cases "f_lt A (f_1e_6 A) temp")
    case True
    let ?L = "concat (map lgt (rows_after net hist (seed # ds)))"
    have "\<forall>x\<in>set (map lgt (rows_after net hist (seed # ds))). length x = cfg_vocab sp" using reads_out_row [OF net] by auto
    from length_concat_blocks [OF this] causal have len: "length ?L = Suc (length ds) * cfg_vocab sp" by simp
    from naive_chain_returns [OF len, of 0 ds] obtain rng a bonus where
      a: "naive_sample_chain A D ?L ds (cfg_vocab sp) temp (df_top_p sp) (df_top_k sp) (df_rng sp) = Some (rng, a, bonus)" "a \<le> length ds"
      unfolding naive_sample_chain_def by fastforce
    from chain_keep [of net hid "sp\<lparr>df_rng := rng\<rparr>", OF _ fit a(2) small, of seed bonus] ready obtain sp' st where
      "finish_chain (sp\<lparr>df_rng := rng\<rparr>) (map hid (rows_after net hist (seed # ds))) ds a bonus max_emit = Some (sp', st)"
      "kept_window net hid sp s hist seed max_emit (sp', advanced net s hist (seed # ds), Inr st)"
      by (auto simp: kept_window_def same_config_def)
    then show ?thesis
      using c(1) True verify_logits_quiet [OF ready fit', of lgt c True] elig a clamp [OF a(2)] small
      by (auto simp: step_chain_def dense_commit_prefix_def)
  next
    case False
    let ?picks = "picks_of net (rows_of net [] () hist) () (seed # ds)"
    have picks: "length ?picks = Suc (length ds)" using causal by simp
    obtain a where a: "accept_greedy_prefix ds ?picks None = Some a" using accept_greedy_eq [of ds ?picks None] picks by auto
    then have le: "accepted a \<le> length ds" using accept_greedy_eq [of ds ?picks None] picks lcp_bounds(1) [of ds ?picks]
      by (auto simp: eos_at_def Let_def)
    from chain_keep [OF ready fit le small, of seed "last (committed a)"] show ?thesis
      using c(1) False verify_block_quiet [OF ready net fit', of c True] elig a clamp [OF le] le small
      by (auto simp: step_chain_def dense_commit_prefix_def)
  qed
qed

lemma tree_window_kept:
  assumes ready: "df_ready net hid sp s hist" and net: "reads_out A net lgt (cfg_vocab sp)" and room: "tree_room A net tnet sp s hist max_emit"
    and arm: "tree_enabled (tree sp)" and emits: "2 \<le> max_emit" and len: "length logits = (window_block sp max_emit - 1) * cfg_vocab sp"
  shows "\<exists>out. step_tree A net tnet hid lgt sp s (length hist) seed logits (window_block sp max_emit) temp max_emit = Some out \<and>
    kept_window net hid sp s hist seed max_emit out"
proof (rule step_tree_run [OF ready net room arm emits len, of seed])
  let ?k = "max (min (tree_topk (tree sp)) (cfg_vocab sp)) 1" and ?d = "window_block sp max_emit - 1"
  fix t tt rk c
  let ?F = "tree_forward A net tnet t hist seed"
  let ?L = "concat (map lgt ?F)"
  assume st: "tree_setting A net tnet ?d ?k rk tt t hist"
    and fit: "length hist + Suc (num_nodes t) \<le> length (kv s)" and short: "\<And>u. u \<le> num_nodes t \<Longrightarrow> length (path_tokens t u) < max_emit"
    and run: "\<And>temp. step_tree A net tnet hid lgt sp s (length hist) seed logits (window_block sp max_emit) temp max_emit =
        walk_and_commit A net hid lgt t ?F sp s c hist seed logits ?d ?k temp max_emit"
  have top: "topological (tree_nodes t)" "children_ok (tree_nodes t) (child_maps t)"
    using st nodes_ok_topological by (auto simp: tree_setting_def tree_ok_def)
  note L = tree_picks(1) [OF st net, of seed]
  then have L': "length ?L = Suc (length (tree_nodes t)) * cfg_vocab sp" by (simp add: num_nodes_def)
  have "\<exists>rng u bonus. (if f_le A temp (f_1e_6 A) then sample_verified_tree A t ?L (cfg_vocab sp) (f_zero A) (df_rng sp)
      else do {
        (rng, draft_q, pos_cands) \<leftarrow> swor_draft_candidates A logits ?d (cfg_vocab sp) ?k temp (df_rng sp);
        sample_verified_tree_swor A t ?L draft_q pos_cands ?d ?k (cfg_vocab sp) temp rng
      }) = Some (rng, slot_path (tree_nodes t) u, bonus) \<and> u \<le> num_nodes t"
  proof (cases "f_le A temp (f_1e_6 A)")
    case True
    have "slot_path (tree_nodes t) 0 = []" by (simp add: slot_path_def)
    then show ?thesis using True tree_walk_valid [OF top L', of 0 A "f_zero A" "df_rng sp"]
      by (auto simp: sample_verified_tree_def num_nodes_def)
  next
    case False
    from swor_candidates_sizes [OF len, of A ?k temp "df_rng sp"] obtain rng q cs where
      q: "swor_draft_candidates A logits ?d (cfg_vocab sp) ?k temp (df_rng sp) = Some (rng, q, cs)" "length q = ?d * cfg_vocab sp"
        "length cs = ?d * ?k" by auto
    from swor_returns [OF top L q(2,3), of A temp rng] False q(1) show ?thesis by auto
  qed
  then obtain rng u bonus where u: "(if f_le A temp (f_1e_6 A) then sample_verified_tree A t ?L (cfg_vocab sp) (f_zero A) (df_rng sp)
      else do {
        (rng, draft_q, pos_cands) \<leftarrow> swor_draft_candidates A logits ?d (cfg_vocab sp) ?k temp (df_rng sp);
        sample_verified_tree_swor A t ?L draft_q pos_cands ?d ?k (cfg_vocab sp) temp rng
      }) = Some (rng, slot_path (tree_nodes t) u, bonus)" "u \<le> num_nodes t" by blast
  have ready': "df_ready net hid (sp\<lparr>df_rng := rng\<rparr>) s hist" using ready by simp
  have "walk_and_commit A net hid lgt t ?F sp s c hist seed logits ?d ?k temp max_emit =
      commit_tree A net hid lgt t (sp\<lparr>df_rng := rng\<rparr>) (after_tree s (length hist) ?F) c (length hist) seed ?d max_emit (map hid ?F)
        (slot_path (tree_nodes t) u) bonus" unfolding walk_and_commit_def u(1) by simp
  with commit_tree_ready [OF ready' st net fit u(2) short [OF u(2)], of seed c bonus] show ?thesis
    using short [OF u(2)] by (auto simp: run kept_window_def spec_step_new_def)
qed

text \<open>The room a window needs.\<close>

definition window_room :: "'f f32_math \<Rightarrow> ('r, unit) net \<Rightarrow> ('r, 'f) tree_net \<Rightarrow> ('h, 'f) dflash \<Rightarrow> 'r dense \<Rightarrow> token list \<Rightarrow> nat \<Rightarrow> bool" where
  "window_room A net tnet sp s hist max_emit \<longleftrightarrow> 2 \<le> max_emit \<and>
     (if tree_enabled (tree sp) then tree_room A net tnet sp s hist max_emit
      else 4 \<le> window_block sp max_emit \<and> length hist + window_block sp max_emit \<le> length (kv s))"

lemma window_kept:
  assumes ready: "df_ready net hid sp s hist" and net: "reads_out A net lgt (cfg_vocab sp)" and room: "window_room A net tnet sp s hist max_emit"
    and draft: "drafts_block embed_row draft sp hist seed max_emit logits"
  shows "\<exists>out. df_step A D net tnet hid lgt embed_row draft sp s (length hist) seed temp max_emit = Some out \<and>
    kept_window net hid sp s hist seed max_emit out"
proof -
  have host: "length (host sp) = length hist" using ready by (auto simp: df_ready_def reflects_def)
  have emits: "2 \<le> max_emit" using room by (simp add: window_room_def)
  have len: "length logits = (window_block sp max_emit - 1) * cfg_vocab sp" using draft by (simp add: drafts_block_def)
  from window_drafts [OF draft host emits] obtain ds where ds: "Suc (length ds) = window_block sp max_emit"
    and run: "df_step A D net tnet hid lgt embed_row draft sp s (length hist) seed temp max_emit =
      (if tree_enabled (tree sp) then step_tree A net tnet hid lgt sp s (length hist) seed logits (window_block sp max_emit) temp max_emit
       else step_chain A D net hid lgt sp s (length hist) seed ds temp max_emit)" by blast
  show ?thesis
  proof (cases "tree_enabled (tree sp)")
    case True
    then show ?thesis using run tree_window_kept [OF ready net _ True emits len] room by (simp add: window_room_def)
  next
    case False
    have le: "window_block sp max_emit \<le> max_emit" "window_block sp max_emit \<le> max (cfg_block sp) 2"
      using emits by (auto simp: window_block_def)
    have "length hist + Suc (length ds) \<le> length (kv s)" "length ds < max_emit" "3 \<le> length ds" "Suc (length ds) \<le> max (cfg_block sp) 2"
      using room False ds le by (auto simp: window_room_def)
    from chain_window_kept [OF ready net this] run False show ?thesis by simp
  qed
qed

section \<open>Runs\<close>

text \<open>
  A run for one prompt at one temperature: the prefill, then windows with room and drafts, and forced tokens
  (the pending seed first, as the daemon commits them) after which the caller may pick any seed. The flag tells
  whether tokens were forced. The tokens in the cache are \<open>hist\<close>; \<open>seed\<close> is emitted and not yet in the cache.
\<close>

inductive dflash_run for A D net tnet hid lgt embed_row draft sp0 s0 prompt temp where
  prefill: "df_prefill A D net hid lgt sp0 s0 prompt rest start False [] stale = Some (sp, s, Inr (PrefillReady tok)) \<Longrightarrow>
    dflash_run A D net tnet hid lgt embed_row draft sp0 s0 prompt temp False sp s prompt tok"
| window: "dflash_run A D net tnet hid lgt embed_row draft sp0 s0 prompt temp forced sp s hist seed \<Longrightarrow>
    window_room A net tnet sp s hist max_emit \<Longrightarrow> drafts_block embed_row draft sp hist seed max_emit logits \<Longrightarrow>
    df_step A D net tnet hid lgt embed_row draft sp s (length hist) seed temp max_emit = Some (sp', s', Inr st) \<Longrightarrow>
    dflash_run A D net tnet hid lgt embed_row draft sp0 s0 prompt temp forced sp' s' (hist @ seed # butlast (emit st)) (next_seed st)"
| force: "dflash_run A D net tnet hid lgt embed_row draft sp0 s0 prompt temp forced sp s hist seed \<Longrightarrow>
    length hist + length (seed # toks) \<le> length (kv s) \<Longrightarrow>
    on_forced_advance A net hid lgt sp s (seed # toks) (length hist) [] stale = Some (sp', s', Inr True) \<Longrightarrow>
    dflash_run A D net tnet hid lgt embed_row draft sp0 s0 prompt temp True sp' s' (hist @ seed # toks) seed'"

text \<open>What the environment of a run provides.\<close>

definition run_setting ::
  "'f f32_math \<Rightarrow> ('r, unit) net \<Rightarrow> ('r \<Rightarrow> 'f list) \<Rightarrow> ('h, 'f) dflash \<Rightarrow> 'r dense \<Rightarrow> token list \<Rightarrow> 'f \<Rightarrow> bool" where
  "run_setting A net lgt sp0 s0 prompt temp \<longleftrightarrow>
     causal net \<and> reads_out A net lgt (cfg_vocab sp0) \<and> answers s0 = [] \<and> extracts s0 \<and> batchable s0 \<and> q8_kv s0 \<and>
     prompt \<noteq> [] \<and> length prompt \<le> length (kv s0) \<and>
     (\<exists>bs mask_tok vocab dflash_tree budget topk top_p top_k.
        sp0 = df_set_sampling (build_generic_dflash_speculator A bs mask_tok vocab dflash_tree budget topk) temp top_p top_k)"

lemma prefill_keeps:
  assumes set: "run_setting A net lgt sp0 s0 prompt temp"
    and run: "df_prefill A D net hid lgt sp0 s0 prompt rest start False [] stale = Some (sp, s, r)"
  shows "df_ready net hid sp s prompt \<and> same_config sp0 sp \<and> length (kv s) = length (kv s0) \<and>
    (\<exists>tok. r = Inr (PrefillReady tok) \<and> (f_le A temp (f_1e_6 A) \<longrightarrow> tok = greedy_pick net () prompt))"
proof -
  from set obtain bs mask_tok vocab dflash_tree budget topk top_p top_k where
    sp0: "sp0 = df_set_sampling (build_generic_dflash_speculator A bs mask_tok vocab dflash_tree budget topk) temp top_p top_k"
    by (auto simp: run_setting_def)
  have vocab: "cfg_vocab sp0 = vocab" by (simp add: sp0 df_set_sampling_def build_generic_dflash_speculator_def)
  have net: "causal net" "reads_out A net lgt vocab" and dev: "answers s0 = []" "extracts s0" "batchable s0" "q8_kv s0"
    and prompt: "prompt \<noteq> []" "length prompt \<le> length (kv s0)" using set vocab by (auto simp: run_setting_def)
  have "rows_of net [] () [] = []" using length_rows_of [OF net(1), of "[]" "()" "[]"] by simp
  then have "reflects net () s0 []" using net(1) by (simp add: reflects_def)
  then have "length (kv (advanced net s0 [] prompt)) = length (kv s0)" using advanced_reflects(2) [of net s0 "[]" prompt] prompt(2) by simp
  moreover from dflash_start [OF net dev prompt sp0, of D hid rest start stale] run obtain rng tok where
    "sp = sp0\<lparr>host := map hid (rows_of net [] () prompt), df_rng := rng\<rparr>" "s = advanced net s0 [] prompt" "r = Inr (PrefillReady tok)"
    "df_ready net hid (sp0\<lparr>host := map hid (rows_of net [] () prompt)\<rparr>) s prompt"
    "f_le A temp (f_1e_6 A) \<longrightarrow> tok = greedy_pick net () prompt" by auto
  ultimately show ?thesis by (simp add: same_config_def df_ready_def)
qed

lemma same_config_trans: "same_config sp sp' \<Longrightarrow> same_config sp' sp'' \<Longrightarrow> same_config sp sp''"
  by (simp add: same_config_def)

lemma run_invariant:
  assumes "dflash_run A D net tnet hid lgt embed_row draft sp0 s0 prompt temp forced sp s hist seed" and set: "run_setting A net lgt sp0 s0 prompt temp"
  shows "df_ready net hid sp s hist \<and> same_config sp0 sp \<and> length (kv s) = length (kv s0)"
  using assms(1)
proof (induction rule: dflash_run.induct)
  case prefill
  then show ?case using prefill_keeps [OF set] by blast
next
  case (window forced sp s hist seed max_emit logits sp' s' st)
  have "reads_out A net lgt (cfg_vocab sp)" using set window.IH by (simp add: run_setting_def same_config_def)
  from window_kept [OF _ this window.hyps(2,3), of hid D temp] window.IH window.hyps(4) show ?case
    using same_config_trans by (fastforce simp: kept_window_def)
next
  case (force forced sp s hist seed toks stale sp' s' seed')
  from forced_advance_ready [of net hid sp s hist "seed # toks"] force show ?case by (auto simp: same_config_def)
qed


lemma dflash_window_greedy:
  assumes "df_ready net hid sp s hist" and "reads_out A net lgt (cfg_vocab sp)" and "window_room A net tnet sp s hist max_emit"
    and "drafts_block embed_row draft sp hist seed max_emit logits" and "f_le A temp (f_1e_6 A)" "\<not> f_lt A (f_1e_6 A) temp"
  shows "\<exists>out. df_step A D net tnet hid lgt embed_row draft sp s (length hist) seed temp max_emit = Some out \<and>
    greedy_window net hid hist seed max_emit out"
proof (cases "tree_enabled (tree sp)")
  case True
  then have "2 \<le> max_emit" "tree_room A net tnet sp s hist max_emit" using assms(3) by (simp_all add: window_room_def)
  then show ?thesis using tree_window_run [OF assms(1,2) _ True assms(5) _ assms(4)] by blast
next
  case False
  then show ?thesis using chain_window_run [OF assms(1,2) False assms(6) _ _ _ assms(4)] assms(3) by (simp add: window_room_def)
qed


text \<open>A run of the counting model: the prefill of three tokens and one window.\<close>

definition count_start :: "bool \<Rightarrow> (token, int) dflash" where
  "count_start dflash_tree = df_set_sampling (build_generic_dflash_speculator int_math 4 3 4 dflash_tree (Some 3) None) 0 1 0"

lemma count_setting: "run_setting int_math count_net count_logits (count_start b) count_device [0, 1, 2] 0"
  using count_causal count_reads_out
  by (auto simp: run_setting_def count_device_def count_start_def df_set_sampling_def build_generic_dflash_speculator_def)

lemma count_window:
  fixes rng :: "64 word" and b :: bool
  defines "sp \<equiv> (count_start b)\<lparr>host := [0, 1, 2], df_rng := rng\<rparr>" and "s \<equiv> advanced count_net count_device [] [0, 1, 2]"
  shows "window_room int_math count_net count_tree_net sp s [0, 1, 2] 5"
    and "drafts_block Some count_draft sp [0, 1, 2] seed 5 (count_logits 2 @ count_logits 1 @ count_logits 0)"
proof -
  have cfg: "cfg_block sp = 4" "cfg_vocab sp = 4" "tree_enabled (tree sp) = b" "tree_budget (tree sp) = 3"
    by (simp_all add: sp_def count_start_def df_set_sampling_def build_generic_dflash_speculator_def tree_mode_from_flags_def clamped_tree_budget_def)
  moreover have "length (kv s) = 10" by (simp add: s_def advanced_def count_device_def)
  ultimately show "window_room int_math count_net count_tree_net sp s [0, 1, 2] 5"
    using count_tree_attention by (simp add: window_room_def tree_room_def window_block_def sane_constants_def int_math_def)
  have "cfg_mask sp = 3" by (simp add: sp_def count_start_def df_set_sampling_def build_generic_dflash_speculator_def)
  then show "drafts_block Some count_draft sp [0, 1, 2] seed 5 (count_logits 2 @ count_logits 1 @ count_logits 0)"
    using cfg(1,2) by (simp add: drafts_block_def count_draft_def noise_embedding_def window_block_def count_logits_def)
qed

lemma count_run:
  "\<exists>sp s hist seed. dflash_run int_math int_math64 count_net count_tree_net id count_logits Some count_draft (count_start b) count_device [0, 1, 2] 0
     False sp s hist seed \<and> 3 < length hist"
proof -
  let ?run = "dflash_run int_math int_math64 count_net count_tree_net id count_logits Some count_draft (count_start b) count_device [0, 1, 2] 0 False"
  let ?s = "advanced count_net count_device [] [0, 1, 2]"
  have dev: "answers count_device = []" "extracts count_device" "batchable count_device" "q8_kv count_device" "length [0 :: token, 1, 2] \<le> length (kv count_device)"
    by (simp_all add: count_device_def)
  from dflash_start [OF count_causal count_reads_out dev(1-4) _ dev(5) count_start_def [of b], of int_math64 id "[]" 0 "[]"]
  obtain rng tok where "df_prefill int_math int_math64 count_net id count_logits (count_start b) count_device [0, 1, 2] [] 0 False [] [] =
      Some ((count_start b)\<lparr>host := [0, 1, 2], df_rng := rng\<rparr>, ?s, Inr (PrefillReady tok))" by auto
  then have start: "?run ((count_start b)\<lparr>host := [0, 1, 2], df_rng := rng\<rparr>) ?s [0, 1, 2] tok" by (rule dflash_run.prefill)
  let ?sp = "(count_start b)\<lparr>host := [0, 1, 2], df_rng := rng\<rparr>"
  note inv = run_invariant [OF start count_setting]
  have net: "reads_out int_math count_net count_logits (cfg_vocab ?sp)"
    using count_reads_out by (simp add: count_start_def df_set_sampling_def build_generic_dflash_speculator_def)
  from window_kept [OF _ net count_window, of id int_math64 tok 0] inv obtain sp' s' st where
    "df_step int_math int_math64 count_net count_tree_net id count_logits Some count_draft ?sp ?s (length [0 :: token, 1, 2]) tok 0 5 = Some (sp', s', Inr st)"
    by (auto simp: kept_window_def)
  from dflash_run.window [OF start count_window this] show ?thesis by fastforce
qed



end
