(* ===== verification/Spec2Isabelle.thy ===== *)
theory Spec2Isabelle
  imports Rig_Build Weight_Pager Loop_Guard Ngram_Mod Prompt_Norm Decode_Loop Dflash_Run
begin

text \<open>
  hipfire runs language models on AMD GPUs. The crates under \<^verbatim>\<open>src/crates\<close> split into GPU kernels and driver
  bindings, model architectures, a command line, and the host-side logic that decides which bytes the
  kernels see: that logic is what this development models and proves.

  \<^bold>\<open>The parts and how they interact.\<close>

  A request enters through the prompt normaliser and the tokenizer and leaves through the output filter.
  Between the two, the multi-slot server keeps several conversations in one GPU: the engine asks the
  admission controller for memory, the session table for a slot, the prefix planner for how much of the
  slot's cache can be kept, and the swap manager for sessions that were moved to the host; then each
  iteration builds a ragged batch, runs the kernels, advances the slot lengths and hands out the sampled
  tokens. A single-conversation decode may run speculatively instead: a drafter proposes tokens, the model
  verifies a block of them at once, and the accepted prefix is committed. Weights that do not fit in VRAM
  are paged in by a pager of their own.

  \<^bold>\<open>Theories, in import order.\<close>

  \<^item> \<open>Prelude\<close>: Rust integer operations at 64 bits (wrapping, checked, saturating, casts), the simp collections
    and the list, option and map lemmas the components share.
  \<^item> \<open>Slot_Pool\<close>: \<^verbatim>\<open>rdna-compute/src/slot_pool.rs\<close> and the tile list of \<^verbatim>\<open>kv_slots.rs\<close>: the KV slabs, their lengths,
    acquire and release, the device copy of the length table. Locale \<open>slot_allocator\<close> is what the session
    table relies on. Lemmas: layout without overlap, a clean table is the uploaded one, tiles cover each
    row once.
  \<^item> \<open>Admission\<close>: \<^verbatim>\<open>hipfire-runtime/src/admission.rs\<close>, the VRAM and host budgets. Locale \<open>byte_budget\<close>.
  \<^item> \<open>Prefix_Plan\<close>: \<^verbatim>\<open>prefix.rs\<close> and \<^verbatim>\<open>cache_plan.rs\<close>: common prefix, turn plan, checkpointed cache plan.
    Lemmas: the plans keep a true prefix, and as much of one as the rules allow.
  \<^item> \<open>Session_Table\<close>: \<^verbatim>\<open>session_table.rs\<close> over the pool and the admission controller. Lemmas: in every reachable
    world slots, sessions and charges agree; a closed id stays closed.
  \<^item> \<open>Snapshot\<close>: \<^verbatim>\<open>swap/snapshot.rs\<close>: capture and restore of one slot's bytes and its file format. Lemmas: byte-exact
    round trips, a refused restore touches nothing.
  \<^item> \<open>Swap_Store\<close>: \<^verbatim>\<open>swap/store.rs\<close> and \<^verbatim>\<open>swap/mod.rs\<close>: host tier and disk tier. Locale \<open>parking\<close>. Lemmas: a parked
    snapshot survives the parking of others, the host tier stays within its budget.
  \<^item> \<open>Slot_Batch\<close>: \<^verbatim>\<open>hipfire-arch-qwen35/src/slot_batch.rs\<close>, \<^verbatim>\<open>scheduler.rs\<close> and the length bookkeeping of a step.
    Lemmas: the batch is exactly the next rows of each slot, the bookkeeping is exact or reports which slot
    overflowed, prefill ends.
  \<^item> \<open>Serve_Engine\<close>, \<open>Engine_Admit\<close>, \<open>Engine_Step\<close>, \<open>Engine_Run\<close>, \<open>Rig_Build\<close>: \<^verbatim>\<open>serve_engine.rs\<close> with the host side
    of \<^verbatim>\<open>forward_slots.rs\<close>: the engine's state record, admission of a request, one step, whole iterations, start-up
    and lifetime. Lemmas: one invariant from start-up on, admission leaves requests in flight alone, every
    request ends when the GPU answers, and four ways in which the engine fails (batch larger than its staging
    rows, a token lost between forward and sampling, one overlong request failing all, an eviction that frees
    no budget).
  \<^item> \<open>Eos_Filter\<close>: \<^verbatim>\<open>eos_filter.rs\<close>: stop markers, hold-back and UTF-8 boundaries of the output stream. Lemmas: the
    output does not depend on how the bytes were cut, and stops exactly before the first marker.
  \<^item> \<open>Weight_Pager\<close>: \<^verbatim>\<open>weight_pager.rs\<close>: the least recently used queue under a VRAM budget; locale \<open>weight_transport\<close>
    is the trait \<^verbatim>\<open>Transport\<close>. Lemmas: no double free and no read of a freed buffer, refinement of the abstract
    LRU cache, all experts of a layer resident when the pointer table is patched.
  \<^item> \<open>Loop_Guard\<close>: \<^verbatim>\<open>loop_guard.rs\<close>. \<open>Ngram_Mod\<close>: \<^verbatim>\<open>ngram_mod.rs\<close>: a rolling 64-bit hash equals the hash of each window,
    and the pool replays a context it has seen.
  \<^item> \<open>Spec_Target\<close>, \<open>Spec_Draft\<close>, \<open>Spec_Decode\<close>: trait \<^verbatim>\<open>SpecTarget\<close> as locale \<open>spec_target\<close> with its two targets
    (\<^verbatim>\<open>hipfire-arch-qwen2\<close>, \<^verbatim>\<open>hipfire-arch-qwen35\<close>), the drafter of \<^verbatim>\<open>spec_ngram.rs\<close> behind locale \<open>block_drafter\<close>, and the
    window of \<^verbatim>\<open>ChainSpeculator\<close> proved once in locale \<open>chain_contract\<close> and interpreted for both targets; the
    accept rule and the MTP adapter of \<^verbatim>\<open>spec.rs\<close>. Lemmas: a window emits the greedy tokens of the model
    whatever the drafter proposed.
  \<^item> \<open>Dd_Tree\<close>: the draft tree of \<^verbatim>\<open>ddtree.rs\<close>: best-first construction, visibility, walks, linearisation. Lemmas: the
    tree is well formed whatever the floating point does; in exact arithmetic it holds the likeliest prefixes
    of the drafts; walks follow one path and the greedy walk is the longest.
  \<^item> \<open>Tree_Verify\<close>: the draws and walks of \<^verbatim>\<open>ddtree.rs\<close>: top-k tables, the host sampler, \<^verbatim>\<open>naive_sample_chain\<close>, the two
    sampled tree walks. Floating point is a record of operations. Lemmas: at temperature zero the chain walk
    is the accept rule and the tree walks agree; at any temperature they return one path; the generator never reaches its fixed point zero; the table
    is what the construction expects.
  \<^item> \<open>Dflash_Generic\<close>, \<open>Dflash_Tree\<close>, \<open>Dflash_Run\<close>: \<^verbatim>\<open>dflash_generic.rs\<close> over the dense target of \<^verbatim>\<open>hipfire-arch-llama/src/spec_impl.rs\<close> and
    \<^verbatim>\<open>llama_spec.rs\<close>: prefill, chain, tree and one-token windows, the buffer of hidden rows, forced tokens. \<open>df_ready\<close> is the
    condition between windows: cache and hidden rows for exactly the tokens so far. Lemmas: the prefill
    establishes it, chain and tree windows keep it at any temperature and emit greedy tokens at temperature
    zero, forced tokens keep it, and so whole runs decode greedily; blocks of fewer than four tokens panic.
    Runs are the inductive relation \<open>dflash_run\<close>.
  \<^item> \<open>Bpe_Merge\<close>, \<open>Tokenizer\<close>: \<^verbatim>\<open>tokenizer.rs\<close>: the heap-driven merge loop equals the naive scan; loading accepts
    exactly the complete vocabularies; decoding an encoding gives the text back.
  \<^item> \<open>Prompt_Norm\<close>: the prompt rewrites of \<^verbatim>\<open>tokenizer.rs\<close> and the byte tests that skip them.
  \<^item> \<open>Decode_Loop\<close>: the greedy and the speculative decode loop of \<^verbatim>\<open>hipfire-runtime/examples/daemon.rs\<close> for the
    document model, with tokenizer and output stream. Lemmas: both send the client the same bytes;
    with device failures and cancels what was sent is still a prefix of the greedy output.

  \<^bold>\<open>Conventions.\<close>

  A Rust struct is a record, an enum a datatype, an error or a panic a value of a sum or an option. A hash
  map is a map, or an association list where its order shows; where the order of a hash map is visible to
  the code it is an argument. Sizes are natural numbers with the width written out where the code can
  overflow (admission, snapshots, slot layout), words where the code relies on wrapping (hashes, tokens).
  What is outside the sources is an argument of the definitions: the driver's copies and allocations, the
  file system's answers, the bytes a kernel leaves, the network, the regular expression that cuts a text
  before BPE, the sampled tokens, whether a client still listens. The hypotheses about them are
  named predicates and each theorem that has one comes with a concrete instance.

  \<^bold>\<open>Loops.\<close>

  Loops are recursive functions with a termination proof, so no fuel is used. Eight are partial functions into
  \<open>option\<close>, because their end depends on the data: the main loop and the final walk of the merge list, \<^verbatim>\<open>encode\<close> of
  the tokenizer (which does not end in the code either for an empty special token), the speculative
  decode loop, and the four walks over a draft tree, which end because a child comes after its parent. The
  theorems about them state that they return. Runs of the engine are sequences of steps; that
  they drain every request is a theorem with a bound on the number of steps.

  \<^bold>\<open>Not modelled.\<close>

  The kernels of \<^verbatim>\<open>rdna-compute\<close> and the forward passes of the architectures are floating-point programs on
  device memory; their effect is a parameter. The command line, the terminal interface and the rest of the
  daemon are input and output around the parts above. The quantizer converts floating-point weights. The
  driver bridges are bindings. Of the tokenizer the JSON loaders and the lossy decoder are left out; of the
  recurrent speculation targets, sampled verification and the capture of hidden states; of the walks at
  positive temperatures, what distribution they draw from. The drafter's forward pass, its upload cursors
  and the diagnostic dump of a tree are not modelled.
\<close>

end
